(* ===== verification/Prelude.thy ===== *)
theory Prelude
  imports Main "HOL-Library.Word" "HOL-Library.AList" "HOL-Library.Multiset"
begin

text \<open>
  Shared vocabulary of the development: machine integers and byte strings as the Rust code
  uses them, hash maps as association lists (the order of the list is the unspecified
  iteration order of the map, so every statement that quantifies over such a list holds for
  every iteration order), and the generic lemmas the component theories share.
\<close>

section \<open>Collections of proof rules\<close>

named_theorems hmap_simps \<open>lookup and key laws of hash maps\<close>
named_theorems inv_intros \<open>preservation of component invariants\<close>
named_theorems inv_dests \<open>consequences of component invariants\<close>

section \<open>Machine integers and bytes\<close>

type_synonym byte = "8 word"
type_synonym bytes = "byte list"
type_synonym u32 = "32 word"
type_synonym u64 = "64 word"
type_synonym time = int

text \<open>Sizes, offsets and counters are naturals; the operations the code performs on them
  saturate at the 64-bit bound, which is written out.\<close>

definition u64_max :: nat where
  "u64_max = 18446744073709551615"

definition sat_add :: "nat \<Rightarrow> nat \<Rightarrow> nat" where
  "sat_add a b = (if u64_max < a + b then u64_max else a + b)"

lemma sat_add_exact [simp]: "a + b \<le> u64_max \<Longrightarrow> sat_add a b = a + b"
  by (simp add: sat_add_def)

lemma sat_add_le: "sat_add a b \<le> u64_max"
  by (simp add: sat_add_def)

lemma sat_add_mono: "a \<le> u64_max \<Longrightarrow> a \<le> sat_add a b"
  by (simp add: sat_add_def)

lemma sat_add_pos: "0 < b \<Longrightarrow> 0 < sat_add a b"
  by (simp add: sat_add_def u64_max_def)

text \<open>\<open>u64::checked_add(1)\<close>: the largest value has no successor.\<close>

definition checked_succ :: "u64 \<Rightarrow> u64 option" where
  "checked_succ w = (if w = - 1 then None else Some (w + 1))"

lemma checked_succ_Some_iff: "checked_succ w = Some v \<longleftrightarrow> w \<noteq> - 1 \<and> v = w + 1"
  by (auto simp: checked_succ_def)

lemma checked_succ_None_iff [simp]: "checked_succ w = None \<longleftrightarrow> w = - 1"
  by (simp add: checked_succ_def)

lemma unat_succ: "(w :: 'a :: len word) \<noteq> - 1 \<Longrightarrow> unat (w + 1) = Suc (unat w)"
  using unatSuc [of w] by (simp add: add.commute add_eq_0_iff)

section \<open>List operations of the Rust standard library\<close>

text \<open>\<open>Iterator::position\<close>: the index of the first element that satisfies the predicate.\<close>

fun position :: "('a \<Rightarrow> bool) \<Rightarrow> 'a list \<Rightarrow> nat option" where
  "position P [] = None"
| "position P (x # xs) = (if P x then Some 0 else map_option Suc (position P xs))"

lemma position_None_iff: "position P xs = None \<longleftrightarrow> (\<forall>x \<in> set xs. \<not> P x)"
  by (induction xs) auto

lemma position_SomeD:
  "position P xs = Some i \<Longrightarrow> i < length xs \<and> P (xs ! i) \<and> (\<forall>k < i. \<not> P (xs ! k))"
  by (induction xs arbitrary: i) (auto simp: nth_Cons' split: if_splits)

text \<open>\<open>Vec::remove\<close> of an index in range.\<close>

definition remove_nth :: "nat \<Rightarrow> 'a list \<Rightarrow> 'a list" where
  "remove_nth i xs = take i xs @ drop (Suc i) xs"

lemma length_remove_nth [simp]: "i < length xs \<Longrightarrow> length (remove_nth i xs) = length xs - 1"
  by (simp add: remove_nth_def)

lemma set_remove_nth_subset: "set (remove_nth i xs) \<subseteq> set xs"
  by (auto simp: remove_nth_def dest: in_set_takeD in_set_dropD)

lemma remove_nth_append:
  "remove_nth i (xs @ ys) =
     (if i < length xs then remove_nth i xs @ ys else xs @ remove_nth (i - length xs) ys)"
  by (auto simp: remove_nth_def not_less Suc_diff_le)

text \<open>Apply a function to the first element that satisfies the predicate
  (\<open>iter_mut().find(..)\<close> followed by a mutation).\<close>

fun update_first :: "('a \<Rightarrow> bool) \<Rightarrow> ('a \<Rightarrow> 'a) \<Rightarrow> 'a list \<Rightarrow> 'a list" where
  "update_first P f [] = []"
| "update_first P f (x # xs) = (if P x then f x # xs else x # update_first P f xs)"

lemma length_update_first [simp]: "length (update_first P f xs) = length xs"
  by (induction xs) auto

lemma update_first_id: "\<forall>x \<in> set xs. \<not> P x \<Longrightarrow> update_first P f xs = xs"
  by (induction xs) auto

lemma update_first_position:
  "position P xs = Some i \<Longrightarrow> update_first P f xs = xs[i := f (xs ! i)]"
  by (induction xs arbitrary: i) (auto split: if_splits)

lemma map_update_first [simp]:
  "(\<And>x. g (f x) = g x) \<Longrightarrow> map g (update_first P f xs) = map g xs"
  by (induction xs) auto

section \<open>Fallible stateful calls\<close>

text \<open>The operator \<open>?\<close> after a call that may have changed the state: an error ends the
  enclosing operation in the state the failed call left behind.\<close>

definition and_then ::
  "('e + 'a) \<times> 's \<Rightarrow> ('a \<Rightarrow> 's \<Rightarrow> ('e + 'b) \<times> 's) \<Rightarrow> ('e + 'b) \<times> 's" where
  "and_then r f = (case r of (Inl e, s) \<Rightarrow> (Inl e, s) | (Inr x, s) \<Rightarrow> f x s)"

lemma and_then_simps [simp]:
  "and_then (Inl e, s) f = (Inl e, s)" "and_then (Inr x, s) f = f x s"
  by (simp_all add: and_then_def)

lemma and_then_InrE:
  assumes "and_then r f = (Inr y, s')"
  obtains x s where "r = (Inr x, s)" "f x s = (Inr y, s')"
  using assms by (cases r; cases "fst r") auto

section \<open>Hash maps\<close>

text \<open>A hash map is an association list with distinct keys: \<open>insert\<close> is \<open>AList.update\<close>,
  \<open>remove\<close> is \<open>AList.delete\<close> and \<open>get\<close> is \<open>map_of\<close>.\<close>

lemma map_of_update [hmap_simps]: "map_of (AList.update k v m) = (map_of m)(k \<mapsto> v)"
  by (rule update_conv')

lemma map_of_delete [hmap_simps]: "map_of (AList.delete k m) = (map_of m)(k := None)"
  by (rule delete_conv')

lemma keys_delete_subset: "fst ` set (AList.delete k m) \<subseteq> fst ` set m"
  by (induction m) auto

lemma set_update_subset: "set (AList.update k v m) \<subseteq> insert (k, v) (set m)"
  by (induction m) auto

lemma length_update: "length (AList.update k v m) = (if k \<in> fst ` set m then length m else Suc (length m))"
  by (induction m) auto

lemma fold_delete_map_of:
  "map_of (fold AList.delete ks m) = (\<lambda>k. if k \<in> set ks then None else map_of m k)"
  by (induction ks arbitrary: m) (auto simp: map_of_delete fun_eq_iff)

lemma distinct_fold_delete: "distinct (map fst m) \<Longrightarrow> distinct (map fst (fold AList.delete ks m))"
  by (induction ks arbitrary: m) (auto simp: distinct_delete)

lemma set_fold_delete: "set (fold AList.delete ks m) = {e \<in> set m. fst e \<notin> set ks}"
proof (induction ks arbitrary: m)
  case (Cons k ks)
  have "set (AList.delete k m) = {e \<in> set m. fst e \<noteq> k}"
    by (auto simp: AList.delete_eq)
  with Cons show ?case by auto
qed simp

lemma mset_map_sort_key: "mset (map f (sort_key g xs)) = mset (map f xs)"
  by (simp add: mset_map)

lemma distinct_map_sort_key [simp]: "distinct (map f (sort_key g xs)) = distinct (map f xs)"
  using mset_map_sort_key mset_eq_imp_distinct_iff by metis

lemma sorted_take_drop:
  assumes "sorted (map f xs)" "a \<in> set (take n xs)" "b \<in> set (drop n xs)"
  shows "f a \<le> f b"
proof -
  have "sorted (map f (take n xs) @ map f (drop n xs))"
    using assms(1) by (metis append_take_drop_id map_append)
  with assms(2,3) show ?thesis by (auto simp: sorted_append)
qed

end
