(* ===== verification/Capabilities.thy ===== *)
theory Capabilities
  imports Prelude "HOL-Library.List_Lexorder" "HOL-Library.Char_ord"
begin

text \<open>
  Capabilities, capability sets, interface operations and capability presets
  (\<open>bobby-browser-client/src/auth.rs\<close>, \<open>interface.rs\<close> and \<open>types/src/presets.rs\<close>): the wire
  names and their parser, the capability set with its canonical serialisation, the table of
  capabilities an operation requires and the presets a principal is minted with. Strings are
  byte strings, as \<open>str::len\<close> and \<open>as_bytes\<close> see them.
\<close>

section \<open>Capabilities\<close>

datatype capability =
    SessionRead | SessionWrite | PageRead | PageWrite | BrowserMutate | NetworkEgress
  | FileUpload | FileDownload | JavascriptEvaluate | IntentExecute | VisionAssist
  | ArtifactRead | ContextRead | ArtifactCapture | RecoveryRead | RecoveryWrite | JobSubmit
  | JobRead | JobCancel | AuthorityAdmin | BrowserFingerprint | BrowserHumanize

definition capability_ALL :: "capability list" where
  "capability_ALL =
    [SessionRead, SessionWrite, PageRead, PageWrite, BrowserMutate, NetworkEgress, FileUpload,
     FileDownload, JavascriptEvaluate, IntentExecute, VisionAssist, ArtifactRead, ContextRead,
     ArtifactCapture, RecoveryRead, RecoveryWrite, JobSubmit, JobRead, JobCancel,
     AuthorityAdmin, BrowserFingerprint, BrowserHumanize]"

fun capability_as_str :: "capability \<Rightarrow> string" where
  "capability_as_str SessionRead = ''session:read''"
| "capability_as_str SessionWrite = ''session:write''"
| "capability_as_str PageRead = ''page:read''"
| "capability_as_str PageWrite = ''page:write''"
| "capability_as_str BrowserMutate = ''browser:mutate''"
| "capability_as_str NetworkEgress = ''network:egress''"
| "capability_as_str FileUpload = ''file:upload''"
| "capability_as_str FileDownload = ''file:download''"
| "capability_as_str JavascriptEvaluate = ''javascript:evaluate''"
| "capability_as_str IntentExecute = ''intent:execute''"
| "capability_as_str VisionAssist = ''vision:assist''"
| "capability_as_str ArtifactRead = ''artifact:read''"
| "capability_as_str ContextRead = ''context:read''"
| "capability_as_str ArtifactCapture = ''artifact:capture''"
| "capability_as_str RecoveryRead = ''recovery:read''"
| "capability_as_str RecoveryWrite = ''recovery:write''"
| "capability_as_str JobSubmit = ''job:submit''"
| "capability_as_str JobRead = ''job:read''"
| "capability_as_str JobCancel = ''job:cancel''"
| "capability_as_str AuthorityAdmin = ''authority:admin''"
| "capability_as_str BrowserFingerprint = ''browser:fingerprint''"
| "capability_as_str BrowserHumanize = ''browser:humanize''"

datatype unknown_capability = UnknownCapability string

definition capability_from_str :: "string \<Rightarrow> unknown_capability + capability" where
  "capability_from_str v =
     (if v = ''session:read'' then Inr SessionRead
      else if v = ''session:write'' then Inr SessionWrite
      else if v = ''page:read'' then Inr PageRead
      else if v = ''page:write'' then Inr PageWrite
      else if v = ''browser:mutate'' then Inr BrowserMutate
      else if v = ''network:egress'' then Inr NetworkEgress
      else if v = ''file:upload'' then Inr FileUpload
      else if v = ''file:download'' then Inr FileDownload
      else if v = ''javascript:evaluate'' then Inr JavascriptEvaluate
      else if v = ''intent:execute'' then Inr IntentExecute
      else if v = ''vision:assist'' then Inr VisionAssist
      else if v = ''artifact:read'' then Inr ArtifactRead
      else if v = ''context:read'' then Inr ContextRead
      else if v = ''artifact:capture'' then Inr ArtifactCapture
      else if v = ''recovery:read'' then Inr RecoveryRead
      else if v = ''recovery:write'' then Inr RecoveryWrite
      else if v = ''job:submit'' then Inr JobSubmit
      else if v = ''job:read'' then Inr JobRead
      else if v = ''job:cancel'' then Inr JobCancel
      else if v = ''authority:admin'' then Inr AuthorityAdmin
      else if v = ''browser:fingerprint'' then Inr BrowserFingerprint
      else if v = ''browser:humanize'' then Inr BrowserHumanize
      else Inl (UnknownCapability v))"

section \<open>Capability sets\<close>

type_synonym capability_set = "capability set"

definition capset_new :: "capability list \<Rightarrow> capability_set" where
  "capset_new cs = set cs"

definition capset_contains :: "capability_set \<Rightarrow> capability \<Rightarrow> bool" where
  "capset_contains S c \<longleftrightarrow> c \<in> S"

text \<open>Iteration follows the derived order of the enum, its declaration order.\<close>

definition capset_iter :: "capability_set \<Rightarrow> capability list" where
  "capset_iter S = filter (\<lambda>c. c \<in> S) capability_ALL"

definition capset_serialize :: "capability_set \<Rightarrow> string list" where
  "capset_serialize S = map capability_as_str (sort_key capability_as_str (capset_iter S))"

datatype capset_error = UnknownVariant string | DuplicateCapability

fun capset_parse_all :: "string list \<Rightarrow> capset_error + capability list" where
  "capset_parse_all [] = Inr []"
| "capset_parse_all (v # vs) =
     (case capability_from_str v of
        Inl (UnknownCapability u) \<Rightarrow> Inl (UnknownVariant u)
      | Inr c \<Rightarrow> (case capset_parse_all vs of Inl e \<Rightarrow> Inl e | Inr cs \<Rightarrow> Inr (c # cs)))"

fun capset_collect :: "capability_set \<Rightarrow> capability list \<Rightarrow> capset_error + capability_set" where
  "capset_collect S [] = Inr S"
| "capset_collect S (c # cs) =
     (if c \<in> S then Inl DuplicateCapability else capset_collect (insert c S) cs)"

definition capset_deserialize :: "string list \<Rightarrow> capset_error + capability_set" where
  "capset_deserialize vs =
     (case capset_parse_all vs of Inl e \<Rightarrow> Inl e | Inr cs \<Rightarrow> capset_collect {} cs)"

section \<open>Interface operations\<close>

datatype interface_operation =
    RuntimeInfo | CreateSession | ReadSession | DeleteSession | OpenPage | ReadPage
  | ClosePage | SubmitCommand | CreateCheckpoint | ReadCheckpoint | RecoverWorkflow
  | ReadArtifact | ReadContext | CaptureArtifact | SubscribeEvents | SubmitJob | ReadJob
  | CancelJob | ResolveJob | IssuePrincipal | RevokePrincipal

fun operation_as_str :: "interface_operation \<Rightarrow> string" where
  "operation_as_str RuntimeInfo = ''runtimeInfo''"
| "operation_as_str CreateSession = ''createSession''"
| "operation_as_str ReadSession = ''readSession''"
| "operation_as_str DeleteSession = ''deleteSession''"
| "operation_as_str OpenPage = ''openPage''"
| "operation_as_str ReadPage = ''readPage''"
| "operation_as_str ClosePage = ''closePage''"
| "operation_as_str SubmitCommand = ''submitCommand''"
| "operation_as_str CreateCheckpoint = ''createCheckpoint''"
| "operation_as_str ReadCheckpoint = ''readCheckpoint''"
| "operation_as_str RecoverWorkflow = ''recoverWorkflow''"
| "operation_as_str ReadArtifact = ''readArtifact''"
| "operation_as_str ReadContext = ''readContext''"
| "operation_as_str CaptureArtifact = ''captureArtifact''"
| "operation_as_str SubscribeEvents = ''subscribeEvents''"
| "operation_as_str SubmitJob = ''submitJob''"
| "operation_as_str ReadJob = ''readJob''"
| "operation_as_str CancelJob = ''cancelJob''"
| "operation_as_str ResolveJob = ''resolveJob''"
| "operation_as_str IssuePrincipal = ''issuePrincipal''"
| "operation_as_str RevokePrincipal = ''revokePrincipal''"

fun operation_required :: "interface_operation \<Rightarrow> capability list" where
  "operation_required RuntimeInfo = [SessionRead]"
| "operation_required CreateSession = [SessionWrite]"
| "operation_required ReadSession = [SessionRead]"
| "operation_required DeleteSession = [SessionWrite]"
| "operation_required OpenPage = [PageWrite]"
| "operation_required ReadPage = [PageRead]"
| "operation_required ClosePage = [PageWrite]"
| "operation_required SubmitCommand = [BrowserMutate]"
| "operation_required CreateCheckpoint = [RecoveryWrite]"
| "operation_required ReadCheckpoint = [RecoveryRead]"
| "operation_required RecoverWorkflow = [RecoveryWrite]"
| "operation_required ReadArtifact = [ArtifactRead]"
| "operation_required ReadContext = [ContextRead]"
| "operation_required CaptureArtifact = [ArtifactCapture]"
| "operation_required SubscribeEvents = [SessionRead]"
| "operation_required SubmitJob = [JobSubmit]"
| "operation_required ReadJob = [JobRead]"
| "operation_required CancelJob = [JobCancel]"
| "operation_required ResolveJob = [JobRead, JobCancel, AuthorityAdmin]"
| "operation_required IssuePrincipal = [AuthorityAdmin]"
| "operation_required RevokePrincipal = [AuthorityAdmin]"

definition capset_allows :: "capability_set \<Rightarrow> interface_operation \<Rightarrow> bool" where
  "capset_allows S op \<longleftrightarrow> list_all (capset_contains S) (operation_required op)"

section \<open>Presets\<close>

datatype capability_preset = Unrestricted | Agent | Claude | Codex | Openshell

definition preset_unrestricted :: "capability list" where
  "preset_unrestricted =
    [SessionRead, SessionWrite, PageRead, PageWrite, BrowserMutate, NetworkEgress, FileUpload,
     FileDownload, JavascriptEvaluate, IntentExecute, VisionAssist, ContextRead, ArtifactRead,
     ArtifactCapture, RecoveryRead, RecoveryWrite, JobSubmit, JobRead, JobCancel,
     AuthorityAdmin, BrowserFingerprint, BrowserHumanize]"

definition preset_agent :: "capability list" where
  "preset_agent =
    [SessionRead, SessionWrite, PageRead, PageWrite, BrowserMutate, NetworkEgress, FileUpload,
     FileDownload, JavascriptEvaluate, IntentExecute, VisionAssist, ContextRead, ArtifactRead,
     ArtifactCapture, RecoveryRead, RecoveryWrite, JobSubmit, JobRead, JobCancel,
     BrowserFingerprint, BrowserHumanize]"

definition preset_host :: "capability list" where
  "preset_host =
    [SessionRead, SessionWrite, PageRead, PageWrite, BrowserMutate, NetworkEgress, FileUpload,
     FileDownload, IntentExecute, VisionAssist, ContextRead, ArtifactRead, ArtifactCapture,
     RecoveryRead, RecoveryWrite, JobSubmit, JobRead, JobCancel]"

definition preset_openshell :: "capability list" where
  "preset_openshell =
    [SessionRead, SessionWrite, PageRead, PageWrite, BrowserMutate, FileUpload, FileDownload,
     IntentExecute, ContextRead, ArtifactRead, ArtifactCapture, RecoveryRead, RecoveryWrite]"

fun preset_capabilities :: "capability_preset \<Rightarrow> capability list" where
  "preset_capabilities Unrestricted = preset_unrestricted"
| "preset_capabilities Agent = preset_agent"
| "preset_capabilities Claude = preset_host"
| "preset_capabilities Codex = preset_host"
| "preset_capabilities Openshell = preset_openshell"

definition preset_contains :: "capability_preset \<Rightarrow> capability \<Rightarrow> bool" where
  "preset_contains p c \<longleftrightarrow> c \<in> set (preset_capabilities p)"

section \<open>Request values\<close>

definition CURRENT_INTERFACE_VERSION :: string where
  "CURRENT_INTERFACE_VERSION = ''2026-08-19''"

datatype interface_validation_error =
    UnsupportedInterfaceVersion string | InvalidIdempotencyKey | ExpiredDeadline

datatype interface_version = InterfaceVersion

definition interface_version_try_from :: "string \<Rightarrow> interface_validation_error + interface_version" where
  "interface_version_try_from v =
     (if v = CURRENT_INTERFACE_VERSION then Inr InterfaceVersion
      else Inl (UnsupportedInterfaceVersion v))"

datatype idempotency_key = IdempotencyKey (key_str: string)

definition printable :: "char \<Rightarrow> bool" where
  "printable c \<longleftrightarrow> 32 \<le> (of_char c :: nat) \<and> (of_char c :: nat) \<le> 126"

definition idempotency_key_try_from :: "string \<Rightarrow> interface_validation_error + idempotency_key" where
  "idempotency_key_try_from v =
     (if \<not> (1 \<le> length v \<and> length v \<le> 128) \<or> \<not> list_all printable v
      then Inl InvalidIdempotencyKey else Inr (IdempotencyKey v))"

type_synonym uuid = nat

datatype principal_id = PrincipalId uuid

record request_context =
  rc_interface_version :: interface_version
  rc_correlation_id :: uuid
  rc_principal_id :: principal_id
  rc_capabilities :: capability_set
  rc_deadline :: time
  rc_idempotency_key :: "idempotency_key option"

definition validate_at :: "request_context \<Rightarrow> time \<Rightarrow> interface_validation_error + unit" where
  "validate_at ctx dispatch_time =
     (if rc_deadline ctx \<le> dispatch_time then Inl ExpiredDeadline else Inr ())"

section \<open>Properties\<close>

lemma capability_ALL_exhaustive: "c \<in> set capability_ALL"
  by (cases c) (simp_all add: capability_ALL_def)

lemma set_capset_iter [simp]: "set (capset_iter S) = S"
  using capability_ALL_exhaustive by (auto simp: capset_iter_def)

lemma distinct_capset_iter [simp]: "distinct (capset_iter S)"
  unfolding capset_iter_def by (rule distinct_filter) (simp add: capability_ALL_def)

lemma from_str_as_str [simp]: "capability_from_str (capability_as_str c) = Inr c"
  by (cases c) (simp_all add: capability_from_str_def)

lemma from_str_Inr: "capability_from_str v = Inr c \<Longrightarrow> v = capability_as_str c"
  by (simp add: capability_from_str_def split: if_splits)

lemma capset_parse_all_as_str: "capset_parse_all (map capability_as_str cs) = Inr cs"
  by (induction cs) simp_all

lemma capset_parse_all_Inr: "capset_parse_all vs = Inr cs \<Longrightarrow> vs = map capability_as_str cs"
  by (induction vs arbitrary: cs)
     (auto split: sum.splits unknown_capability.splits dest: from_str_Inr)

lemma capset_collect_eq:
  "capset_collect S cs =
     (if distinct cs \<and> S \<inter> set cs = {} then Inr (S \<union> set cs) else Inl DuplicateCapability)"
  by (induction cs arbitrary: S) auto

lemmas preset_tables =
  preset_unrestricted_def preset_agent_def preset_host_def preset_openshell_def

lemma preset_unrestricted_mem: "c \<in> set preset_unrestricted"
  by (cases c) (simp_all add: preset_unrestricted_def)

lemma preset_agent_mem: "c \<in> set preset_agent \<longleftrightarrow> c \<noteq> AuthorityAdmin"
  by (cases c) (simp_all add: preset_agent_def)

text \<open>The wire name of a capability determines it: parsing the printed name returns the
  capability, and only the printed name parses to it.\<close>

theorem capability_name_roundtrip:
  "capability_from_str v = Inr c \<longleftrightarrow> v = capability_as_str c"
  using from_str_Inr by auto

text \<open>Capability sets survive the wire: deserialising the canonical serialisation gives
  the set back, and a list deserialises to a set exactly when it names each of the set's
  members once, in any order; duplicates and unknown names are rejected.\<close>

theorem capset_roundtrip:
  "capset_deserialize (capset_serialize S) = Inr S \<and>
   (capset_deserialize vs = Inr T \<longleftrightarrow>
      (\<exists>cs. vs = map capability_as_str cs \<and> distinct cs \<and> set cs = T))"
proof
  show "capset_deserialize (capset_serialize S) = Inr S"
    by (simp add: capset_deserialize_def capset_serialize_def capset_parse_all_as_str capset_collect_eq)
  show "capset_deserialize vs = Inr T \<longleftrightarrow>
      (\<exists>cs. vs = map capability_as_str cs \<and> distinct cs \<and> set cs = T)"
    by (auto simp: capset_deserialize_def capset_collect_eq capset_parse_all_as_str
        split: sum.splits if_splits dest: capset_parse_all_Inr)
qed

text \<open>Presets never escalate: each narrower preset is contained in the wider one
  (openshell in the host presets, those in agent, agent in unrestricted, which holds every
  capability), and the operations that mint or revoke principals or attest a job's effect are
  allowed to the unrestricted preset only.\<close>

theorem presets_narrow:
  "set (preset_capabilities Openshell) \<subset> set (preset_capabilities Claude)
   \<and> preset_capabilities Claude = preset_capabilities Codex
   \<and> set (preset_capabilities Codex) \<subset> set (preset_capabilities Agent)
   \<and> set (preset_capabilities Agent) = UNIV - {AuthorityAdmin}
   \<and> set (preset_capabilities Unrestricted) = UNIV
   \<and> (capset_allows (capset_new (preset_capabilities p)) IssuePrincipal \<longleftrightarrow> p = Unrestricted)
   \<and> (capset_allows (capset_new (preset_capabilities p)) RevokePrincipal \<longleftrightarrow> p = Unrestricted)
   \<and> (capset_allows (capset_new (preset_capabilities p)) ResolveJob \<longleftrightarrow> p = Unrestricted)"
proof -
  have "set preset_openshell \<subseteq> set preset_host" "NetworkEgress \<in> set preset_host - set preset_openshell"
    "set preset_host \<subseteq> set preset_agent" "JavascriptEvaluate \<in> set preset_agent - set preset_host"
    by (simp_all add: preset_tables)
  moreover have "set preset_agent = UNIV - {AuthorityAdmin}"
    using preset_agent_mem by blast
  moreover have "set preset_unrestricted = UNIV"
    using preset_unrestricted_mem by blast
  moreover have "capset_allows (capset_new (preset_capabilities p)) op \<longleftrightarrow> p = Unrestricted"
    if "op = IssuePrincipal \<or> op = RevokePrincipal \<or> op = ResolveJob" for op
    using that
    by (cases p) (auto simp: capset_allows_def capset_new_def capset_contains_def preset_tables)
  ultimately show ?thesis by auto
qed

end
