(* ===== verification/Jobs.thy ===== *)
theory Jobs
  imports Capabilities
begin

text \<open>
  Jobs of the task scheduler (\<open>task-scheduler/src/job.rs\<close>), operator resolutions
  (\<open>bobby-browser-client/src/job_resolution.rs\<close>) and the \<open>job_<uuid>\<close> identifier parser
  (\<open>ids.rs\<close>). \<open>Uuid::parse_str\<close> belongs to the \<open>uuid\<close> crate and is the parameter
  \<open>uuid_ok\<close>; \<open>Utc::now()\<close> is the argument \<open>now\<close>.
\<close>

section \<open>Identifiers, JSON values, priorities and statuses\<close>

datatype job_id = JobId (job_id_str: string)

text \<open>The constructors of \<open>serde_json::Value\<close>; a floating point number is its bit pattern.\<close>

datatype json =
    JNull | JBool bool | JInt int | JFloat u64 | JString string | JArray "json list"
  | JObject "(string \<times> json) list"

datatype job_priority = Low | Normal | High | Critical

instantiation job_priority :: linorder
begin

fun priority_rank :: "job_priority \<Rightarrow> nat" where
  "priority_rank Low = 0"
| "priority_rank Normal = 1"
| "priority_rank High = 2"
| "priority_rank Critical = 3"

definition less_eq_job_priority :: "job_priority \<Rightarrow> job_priority \<Rightarrow> bool" where
  "less_eq_job_priority a b \<longleftrightarrow> priority_rank a \<le> priority_rank b"

definition less_job_priority :: "job_priority \<Rightarrow> job_priority \<Rightarrow> bool" where
  "less_job_priority a b \<longleftrightarrow> priority_rank a < priority_rank b"

instance
proof
  fix x y :: job_priority
  show "x \<le> y \<Longrightarrow> y \<le> x \<Longrightarrow> x = y"
    by (cases x; cases y) (simp_all add: less_eq_job_priority_def)
qed (auto simp: less_eq_job_priority_def less_job_priority_def)

end

datatype job_status =
    Pending | Running | Completed | Failed | Cancelled | ReconciliationRequired | Resolved

fun status_display :: "job_status \<Rightarrow> string" where
  "status_display Pending = ''pending''"
| "status_display Running = ''running''"
| "status_display Completed = ''completed''"
| "status_display Failed = ''failed''"
| "status_display Cancelled = ''cancelled''"
| "status_display ReconciliationRequired = ''reconciliationRequired''"
| "status_display Resolved = ''resolved''"

section \<open>Operator resolutions\<close>

datatype resolution_decision = EffectObserved | EffectAbsent

record resolution_request =
  rq_decision :: resolution_decision
  rq_evidence :: string

definition hex_lower :: "char \<Rightarrow> bool" where
  "hex_lower c \<longleftrightarrow>
     (let b = (of_char c :: nat) in (48 \<le> b \<and> b \<le> 57) \<or> (97 \<le> b \<and> b \<le> 102))"

definition validate_request :: "resolution_request \<Rightarrow> string + unit" where
  "validate_request rq =
     (if length (rq_evidence rq) \<noteq> 64 \<or> \<not> list_all hex_lower (rq_evidence rq)
      then Inl ''evidenceSha256 must be a lowercase SHA-256 digest'' else Inr ())"

record resolution_receipt =
  rr_job_id :: string
  rr_decision :: resolution_decision
  rr_evidence :: string
  rr_actor :: principal_id
  rr_resolved_at :: time
  rr_provenance :: string

definition strip_prefix :: "string \<Rightarrow> string \<Rightarrow> string option" where
  "strip_prefix p v = (if take (length p) v = p then Some (drop (length p) v) else None)"

definition parse_job_id :: "(string \<Rightarrow> bool) \<Rightarrow> string \<Rightarrow> job_id option" where
  "parse_job_id uuid_ok v =
     (case strip_prefix ''job_'' v of
        None \<Rightarrow> None
      | Some suffix \<Rightarrow> if uuid_ok suffix then Some (JobId v) else None)"

definition validate_receipt :: "(string \<Rightarrow> bool) \<Rightarrow> resolution_receipt \<Rightarrow> string + unit" where
  "validate_receipt uuid_ok rr =
     (if parse_job_id uuid_ok (rr_job_id rr) = None
      then Inl ''invalid resolution job identifier''
      else case validate_request \<lparr>rq_decision = rr_decision rr, rq_evidence = rr_evidence rr\<rparr> of
             Inl e \<Rightarrow> Inl e
           | Inr _ \<Rightarrow>
               if rr_provenance rr \<noteq> ''operatorAttested''
               then Inl ''invalid resolution provenance'' else Inr ())"

section \<open>Jobs\<close>

record job_result =
  jr_job_id :: job_id
  jr_success :: bool
  jr_output :: "json option"
  jr_error :: "string option"
  jr_completed_at :: time

record job =
  resolution_pending :: bool
  resolution :: "resolution_receipt option"
  job_id :: job_id
  job_name :: string
  priority :: job_priority
  status :: job_status
  payload :: json
  created_at :: time
  started_at :: "time option"
  completed_at :: "time option"
  retry_count :: u32
  max_retries :: u32
  result :: "job_result option"
  job_error :: "string option"
  timeout_ms :: "u64 option"
  correlation_id :: "string option"
  owner :: "principal_id option"

definition job_new :: "job_id \<Rightarrow> string \<Rightarrow> json \<Rightarrow> job_priority \<Rightarrow> time \<Rightarrow> job" where
  "job_new i n p pr now =
     \<lparr>resolution_pending = False, resolution = None, job_id = i, job_name = n, priority = pr,
      status = Pending, payload = p, created_at = now, started_at = None, completed_at = None,
      retry_count = 0, max_retries = 3, result = None, job_error = None, timeout_ms = None,
      correlation_id = None, owner = None\<rparr>"

definition with_max_retries :: "u32 \<Rightarrow> job \<Rightarrow> job" where
  "with_max_retries n j = j\<lparr>max_retries := n\<rparr>"

definition start :: "time \<Rightarrow> job \<Rightarrow> job" where
  "start now j = j\<lparr>status := Running, started_at := Some now\<rparr>"

definition complete :: "time \<Rightarrow> job_result \<Rightarrow> job \<Rightarrow> job" where
  "complete now r j =
     j\<lparr>status := Completed, completed_at := Some now, result := Some r, job_error := None\<rparr>"

definition fail :: "time \<Rightarrow> string \<Rightarrow> job \<Rightarrow> job" where
  "fail now e j = j\<lparr>status := Failed, completed_at := Some now, job_error := Some e\<rparr>"

definition cancel :: "time \<Rightarrow> job \<Rightarrow> job" where
  "cancel now j = j\<lparr>status := Cancelled, completed_at := Some now\<rparr>"

definition require_reconciliation :: "string \<Rightarrow> job \<Rightarrow> job" where
  "require_reconciliation reason j =
     j\<lparr>status := ReconciliationRequired, result := None, completed_at := None,
       job_error := Some reason\<rparr>"

definition has_valid_resolution :: "(string \<Rightarrow> bool) \<Rightarrow> job \<Rightarrow> bool" where
  "has_valid_resolution uuid_ok j =
     (case resolution j of
        Some r \<Rightarrow>
          validate_receipt uuid_ok r = Inr () \<and> status j = Resolved
          \<and> rr_job_id r = job_id_str (job_id j) \<and> owner j = Some (rr_actor r)
          \<and> completed_at j = Some (rr_resolved_at r) \<and> result j = None \<and> job_error j = None
      | None \<Rightarrow> status j \<noteq> Resolved)"

definition can_retry :: "job \<Rightarrow> bool" where
  "can_retry j \<longleftrightarrow> retry_count j < max_retries j \<and> (status j = Failed \<or> status j = Pending)"

definition increment_retry :: "job \<Rightarrow> job" where
  "increment_retry j = j\<lparr>retry_count := retry_count j + 1\<rparr>"

definition prepare_retry :: "job \<Rightarrow> job" where
  "prepare_retry j =
     j\<lparr>retry_count := retry_count j + 1, status := Pending, started_at := None,
       completed_at := None, job_error := None, result := None\<rparr>"

record job_config =
  jc_name :: string
  jc_payload :: json
  jc_priority :: job_priority
  jc_max_retries :: u32
  jc_timeout :: "nat option"
  jc_correlation_id :: "string option"
  jc_owner :: "principal_id option"

definition job_config_new :: "string \<Rightarrow> json \<Rightarrow> job_config" where
  "job_config_new n p =
     \<lparr>jc_name = n, jc_payload = p, jc_priority = Normal, jc_max_retries = 3, jc_timeout = None,
      jc_correlation_id = None, jc_owner = None\<rparr>"

datatype job_failure =
    ResolutionUncertain | Integrity | Timeout nat | JobCancelled | Execution string | QueueFull
  | ConcurrencyExceeded | NotFound job_id | StoreFailure string
  | AdmissionUncertain job_id string | MissingCapability capability | DrainTimeout

lemmas job_defs =
  job_new_def with_max_retries_def start_def complete_def fail_def cancel_def
  require_reconciliation_def increment_retry_def prepare_retry_def

section \<open>Lemmas\<close>

lemma transition_keeps_identity [simp]:
  "job_id (start now j) = job_id j" "priority (start now j) = priority j"
  "job_id (complete now r j) = job_id j" "priority (complete now r j) = priority j"
  "job_id (fail now e j) = job_id j" "priority (fail now e j) = priority j"
  "job_id (cancel now j) = job_id j" "priority (cancel now j) = priority j"
  "job_id (require_reconciliation m j) = job_id j"
  "priority (require_reconciliation m j) = priority j"
  "job_id (prepare_retry j) = job_id j" "priority (prepare_retry j) = priority j"
  "job_id (job_new i n p pr now) = i" "priority (job_new i n p pr now) = pr"
  by (simp_all add: job_defs)

lemma transition_status [simp]:
  "status (start now j) = Running" "status (complete now r j) = Completed"
  "status (fail now e j) = Failed" "status (cancel now j) = Cancelled"
  "status (require_reconciliation m j) = ReconciliationRequired"
  "status (prepare_retry j) = Pending" "status (job_new i n p pr now) = Pending"
  by (simp_all add: job_defs)

lemma transition_retry_count [simp]:
  "retry_count (start now j) = retry_count j" "retry_count (complete now r j) = retry_count j"
  "retry_count (fail now e j) = retry_count j" "retry_count (cancel now j) = retry_count j"
  "retry_count (require_reconciliation m j) = retry_count j"
  "retry_count (job_new i n p pr now) = 0"
  "max_retries (start now j) = max_retries j" "max_retries (complete now r j) = max_retries j"
  "max_retries (fail now e j) = max_retries j" "max_retries (cancel now j) = max_retries j"
  "max_retries (require_reconciliation m j) = max_retries j"
  "max_retries (prepare_retry j) = max_retries j"
  by (simp_all add: job_defs)

lemma transition_name [simp]:
  "job_name (start now j) = job_name j" "job_name (complete now r j) = job_name j"
  "job_name (fail now e j) = job_name j" "job_name (cancel now j) = job_name j"
  "job_name (require_reconciliation m j) = job_name j"
  "job_name (prepare_retry j) = job_name j"
  "owner (start now j) = owner j" "owner (complete now r j) = owner j"
  "owner (fail now e j) = owner j" "owner (cancel now j) = owner j"
  "owner (require_reconciliation m j) = owner j" "owner (prepare_retry j) = owner j"
  by (simp_all add: job_defs)

lemma prepare_retry_no_wrap:
  assumes "can_retry j"
  shows "unat (retry_count (prepare_retry j)) = Suc (unat (retry_count j))"
    and "retry_count (prepare_retry j) \<le> max_retries j"
proof -
  from assms have lt: "unat (retry_count j) < unat (max_retries j)"
    by (simp add: can_retry_def word_less_nat_alt)
  then have "retry_count j \<noteq> - 1"
    by (metis not_less_iff_gr_or_eq word_less_nat_alt word_order.extremum_strict)
  then show eq: "unat (retry_count (prepare_retry j)) = Suc (unat (retry_count j))"
    by (simp add: prepare_retry_def unat_succ)
  from lt show "retry_count (prepare_retry j) \<le> max_retries j"
    unfolding word_le_nat_alt eq by simp
qed

text \<open>One failed attempt followed by the reset for the next one.\<close>

definition failed_attempt :: "time \<Rightarrow> string \<Rightarrow> job \<Rightarrow> job" where
  "failed_attempt now e j = prepare_retry (fail now e j)"

lemma failed_attempts_count:
  assumes "unat (retry_count j) + n \<le> unat (max_retries j)"
  shows "unat (retry_count ((failed_attempt now e ^^ n) j)) = unat (retry_count j) + n
         \<and> max_retries ((failed_attempt now e ^^ n) j) = max_retries j"
  using assms
proof (induction n)
  case (Suc n)
  then have IH: "unat (retry_count ((failed_attempt now e ^^ n) j)) = unat (retry_count j) + n"
    "max_retries ((failed_attempt now e ^^ n) j) = max_retries j" by simp_all
  with Suc.prems have "can_retry (fail now e ((failed_attempt now e ^^ n) j))"
    by (simp add: can_retry_def word_less_nat_alt)
  from prepare_retry_no_wrap(1) [OF this] IH show ?case
    by (simp add: failed_attempt_def [of now e "(failed_attempt now e ^^ n) j"])
qed simp

text \<open>A job's retry budget is exact: a failing job can be retried again after \<open>n\<close> failed
  attempts exactly while \<open>n\<close> is below its remaining budget, and the 32-bit counter never
  wraps on the way.\<close>

theorem retry_budget_exact:
  assumes "unat (retry_count j) + n \<le> unat (max_retries j)"
  shows "can_retry (fail now e ((failed_attempt now e ^^ n) j))
           \<longleftrightarrow> unat (retry_count j) + n < unat (max_retries j)"
  using failed_attempts_count [OF assms, of now e] by (simp add: can_retry_def word_less_nat_alt)

theorem retry_budget_exact_witness:
  "can_retry (fail 5 ''x'' ((failed_attempt 5 ''x'' ^^ 2) (job_new (JobId ''a'') ''n'' JNull Low 0)))
   \<and> \<not> can_retry (fail 5 ''x'' ((failed_attempt 5 ''x'' ^^ 3) (job_new (JobId ''a'') ''n'' JNull Low 0)))"
  using retry_budget_exact [of "job_new (JobId ''a'') ''n'' JNull Low 0" 2 5 "''x''"]
    retry_budget_exact [of "job_new (JobId ''a'') ''n'' JNull Low 0" 3 5 "''x''"]
  by (simp add: job_new_def)

end
