(* ===== verification/Job_Queue.thy ===== *)
theory Job_Queue
  imports Complex_Main Jobs
begin

text \<open>
  The priority queue of ready jobs (\<open>task-scheduler/src/queue.rs\<close>). The B-tree map from
  priorities to double-ended queues is an association list in ascending key order. The locale
  \<open>ready_queue\<close> states what the scheduler relies on; it is interpreted on the operations of
  this theory.
\<close>

section \<open>Retry configuration\<close>

record retry_config =
  rcfg_max_retries :: u32
  backoff_base_ms :: u64
  backoff_max_ms :: u64

definition default_retry_config :: retry_config where
  "default_retry_config = \<lparr>rcfg_max_retries = 3, backoff_base_ms = 1000, backoff_max_ms = 60000\<rparr>"

text \<open>\<open>2.0.powi(k)\<close> and the back-off computed from it, in exact rational arithmetic (the code
  uses doubles, which agree on the capped back-off for bounds below $2^{53}$ and round the
  jitter term); \<open>jitter\<close> is the random sample from the unit interval. The casts are those of
  the code: the retry count is read as a signed 32-bit value and the result saturates at 64
  bits.\<close>

definition powi2 :: "int \<Rightarrow> rat" where
  "powi2 k = (if 0 \<le> k then 2 ^ nat k else 1 / 2 ^ nat (- k))"

definition calculate_backoff :: "retry_config \<Rightarrow> u32 \<Rightarrow> rat \<Rightarrow> nat" where
  "calculate_backoff c n jitter_factor =
     (let base = of_nat (unat (backoff_base_ms c));
          cap = of_nat (unat (backoff_max_ms c));
          exponential = base * powi2 (sint n);
          backoff_ms = min exponential cap;
          jitter = backoff_ms * (1 / 5) * jitter_factor
      in min u64_max (nat \<lfloor>backoff_ms + jitter\<rfloor>))"

section \<open>The queue\<close>

type_synonym job_map = "(job_priority \<times> job list) list"

record job_queue =
  jq_jobs :: job_map
  jq_max_size :: nat
  jq_retry_config :: retry_config

definition queue_new :: "nat \<Rightarrow> job_queue" where
  "queue_new n = \<lparr>jq_jobs = [], jq_max_size = n, jq_retry_config = default_retry_config\<rparr>"

definition with_retry_config :: "retry_config \<Rightarrow> job_queue \<Rightarrow> job_queue" where
  "with_retry_config c q = q\<lparr>jq_retry_config := c\<rparr>"

definition queue_len :: "job_queue \<Rightarrow> nat" where
  "queue_len q = sum_list (map (length \<circ> snd) (jq_jobs q))"

definition queue_is_empty :: "job_queue \<Rightarrow> bool" where
  "queue_is_empty q \<longleftrightarrow> jq_jobs q = []"

definition prepare :: "job_queue \<Rightarrow> job_config \<Rightarrow> job_id \<Rightarrow> time \<Rightarrow> job_failure + job" where
  "prepare q cfg fresh now =
     (if jq_max_size q \<le> queue_len q then Inl QueueFull
      else Inr ((with_max_retries (jc_max_retries cfg)
                   (job_new fresh (jc_name cfg) (jc_payload cfg) (jc_priority cfg) now))
                \<lparr>timeout_ms := map_option word_of_nat (jc_timeout cfg),
                 correlation_id := jc_correlation_id cfg,
                 owner := jc_owner cfg\<rparr>))"

text \<open>\<open>entry(priority).or_default().push_back(job)\<close>.\<close>

fun bt_push :: "job_priority \<Rightarrow> job \<Rightarrow> job_map \<Rightarrow> job_map" where
  "bt_push p j [] = [(p, [j])]"
| "bt_push p j ((k, js) # m) =
     (if p = k then (k, js @ [j]) # m
      else if p < k then (p, [j]) # (k, js) # m
      else (k, js) # bt_push p j m)"

definition requeue :: "job \<Rightarrow> job_queue \<Rightarrow> job_failure + job_queue" where
  "requeue j q =
     (if jq_max_size q \<le> queue_len q then Inl QueueFull
      else Inr (q\<lparr>jq_jobs := bt_push (priority j) j (jq_jobs q)\<rparr>))"

definition queue_submit ::
  "job_queue \<Rightarrow> job_config \<Rightarrow> job_id \<Rightarrow> time \<Rightarrow> job_failure + (job \<times> job_queue)" where
  "queue_submit q cfg fresh now =
     (case prepare q cfg fresh now of
        Inl e \<Rightarrow> Inl e
      | Inr j \<Rightarrow> (case requeue j q of Inl e \<Rightarrow> Inl e | Inr q' \<Rightarrow> Inr (j, q')))"

text \<open>\<open>find_map\<close> over the entries: the key and the position of the first job that satisfies
  the predicate.\<close>

fun find_slot :: "(job \<Rightarrow> bool) \<Rightarrow> job_map \<Rightarrow> (job_priority \<times> nat) option" where
  "find_slot P [] = None"
| "find_slot P ((k, js) # m) =
     (case position P js of Some i \<Rightarrow> Some (k, i) | None \<Rightarrow> find_slot P m)"

text \<open>Remove one job and drop the entry when it becomes empty.\<close>

fun bt_remove_at :: "job_priority \<Rightarrow> nat \<Rightarrow> job_map \<Rightarrow> job_map" where
  "bt_remove_at p i [] = []"
| "bt_remove_at p i ((k, js) # m) =
     (if k = p
      then (let js' = remove_nth i js in if js' = [] then m else (k, js') # m)
      else (k, js) # bt_remove_at p i m)"

fun bt_get :: "job_priority \<Rightarrow> nat \<Rightarrow> job_map \<Rightarrow> job option" where
  "bt_get p i [] = None"
| "bt_get p i ((k, js) # m) =
     (if k = p then (if i < length js then Some (js ! i) else None) else bt_get p i m)"

definition next_job :: "time \<Rightarrow> job_queue \<Rightarrow> job option \<times> job_queue" where
  "next_job now q =
     (case find_slot (\<lambda>j. status j = Pending) (rev (jq_jobs q)) of
        None \<Rightarrow> (None, q)
      | Some (p, i) \<Rightarrow>
          (case bt_get p i (jq_jobs q) of
             None \<Rightarrow> (None, q)
           | Some j \<Rightarrow> (Some (start now j), q\<lparr>jq_jobs := bt_remove_at p i (jq_jobs q)\<rparr>)))"

fun bt_update_first :: "(job \<Rightarrow> bool) \<Rightarrow> (job \<Rightarrow> job) \<Rightarrow> job_map \<Rightarrow> job_map" where
  "bt_update_first P f [] = []"
| "bt_update_first P f ((k, js) # m) =
     (if list_ex P js then (k, update_first P f js) # m else (k, js) # bt_update_first P f m)"

definition bt_find :: "(job \<Rightarrow> bool) \<Rightarrow> job_map \<Rightarrow> job option" where
  "bt_find P m = find P (concat (map snd m))"

definition complete_job :: "time \<Rightarrow> job_id \<Rightarrow> job_result \<Rightarrow> job_queue \<Rightarrow> job_failure + job_queue" where
  "complete_job now i r q =
     (case bt_find (\<lambda>j. job_id j = i) (jq_jobs q) of
        Some _ \<Rightarrow> Inr (q\<lparr>jq_jobs := bt_update_first (\<lambda>j. job_id j = i) (complete now r) (jq_jobs q)\<rparr>)
      | None \<Rightarrow> Inl (NotFound i))"

definition retry_job ::
  "time \<Rightarrow> rat \<Rightarrow> job_id \<Rightarrow> job_queue \<Rightarrow> (job_failure + nat) \<times> job_queue" where
  "retry_job now jitter i q =
     (case bt_find (\<lambda>j. job_id j = i) (jq_jobs q) of
        Some j \<Rightarrow>
          if can_retry j
          then (Inr (calculate_backoff (jq_retry_config q) (retry_count (prepare_retry j)) jitter),
                q\<lparr>jq_jobs := bt_update_first (\<lambda>j. job_id j = i) prepare_retry (jq_jobs q)\<rparr>)
          else (Inl (Execution ''max retries exceeded''),
                q\<lparr>jq_jobs := bt_update_first (\<lambda>j. job_id j = i) (fail now ''max retries exceeded'')
                               (jq_jobs q)\<rparr>)
      | None \<Rightarrow> (Inl (NotFound i), q))"

definition already_finished :: "job_id \<Rightarrow> job_status \<Rightarrow> job_failure" where
  "already_finished i s =
     Execution (''job '' @ job_id_str i @ '' already finished with status '' @ status_display s)"

definition cancel_queued :: "time \<Rightarrow> job_id \<Rightarrow> job_queue \<Rightarrow> (job_failure + job) \<times> job_queue" where
  "cancel_queued now i q =
     (case find_slot (\<lambda>j. job_id j = i) (jq_jobs q) of
        None \<Rightarrow> (Inl (NotFound i), q)
      | Some (p, k) \<Rightarrow>
          (case bt_get p k (jq_jobs q) of
             None \<Rightarrow> (Inl (NotFound i), q)
           | Some j \<Rightarrow>
               if status j \<in> {Completed, Failed, Cancelled, ReconciliationRequired, Resolved}
               then (Inl (already_finished i (status j)), q)
               else (Inr (cancel now j), q\<lparr>jq_jobs := bt_remove_at p k (jq_jobs q)\<rparr>)))"

definition count_status :: "job_status \<Rightarrow> job list \<Rightarrow> nat" where
  "count_status s js = length (filter (\<lambda>j. status j = s) js)"

definition pending_count :: "job_queue \<Rightarrow> nat" where
  "pending_count q = count_status Pending (concat (map snd (jq_jobs q)))"

record queue_stats =
  qs_total :: nat
  qs_pending :: nat
  qs_running :: nat
  qs_completed :: nat
  qs_failed :: nat
  qs_cancelled :: nat

text \<open>The counting loop of \<open>stats\<close>.\<close>

fun stats_loop :: "job list \<Rightarrow> queue_stats \<Rightarrow> queue_stats" where
  "stats_loop [] s = s"
| "stats_loop (j # js) s =
     stats_loop js
       (case status j of
          Pending \<Rightarrow> s\<lparr>qs_pending := qs_pending s + 1\<rparr>
        | Running \<Rightarrow> s\<lparr>qs_running := qs_running s + 1\<rparr>
        | Completed \<Rightarrow> s\<lparr>qs_completed := qs_completed s + 1\<rparr>
        | Failed \<Rightarrow> s\<lparr>qs_failed := qs_failed s + 1\<rparr>
        | Cancelled \<Rightarrow> s\<lparr>qs_cancelled := qs_cancelled s + 1\<rparr>
        | ReconciliationRequired \<Rightarrow> s
        | Resolved \<Rightarrow> s)"

definition stats :: "job_queue \<Rightarrow> queue_stats" where
  "stats q =
     stats_loop (concat (map snd (jq_jobs q)))
       \<lparr>qs_total = queue_len q, qs_pending = 0, qs_running = 0, qs_completed = 0, qs_failed = 0,
        qs_cancelled = 0\<rparr>"

section \<open>Contents and invariant\<close>

text \<open>The abstract contents: highest priority first, oldest first within a priority.\<close>

definition flat :: "job_map \<Rightarrow> job list" where
  "flat m = concat (map snd (rev m))"

definition contents :: "job_queue \<Rightarrow> job list" where
  "contents q = flat (jq_jobs q)"

definition map_ok :: "job_map \<Rightarrow> bool" where
  "map_ok m \<longleftrightarrow>
     sorted_wrt (<) (map fst m) \<and>
     list_all (\<lambda>(p, js). js \<noteq> [] \<and> list_all (\<lambda>j. priority j = p) js) m"

definition queue_inv :: "job_queue \<Rightarrow> bool" where
  "queue_inv q \<longleftrightarrow> map_ok (jq_jobs q) \<and> length (contents q) \<le> jq_max_size q"

definition insort_prio :: "job \<Rightarrow> job list \<Rightarrow> job list" where
  "insort_prio j xs =
     takeWhile (\<lambda>x. priority j \<le> priority x) xs @ j # dropWhile (\<lambda>x. priority j \<le> priority x) xs"

text \<open>The jobs of a list, highest priority first, otherwise in order.\<close>

definition by_priority :: "job list \<Rightarrow> job list" where
  "by_priority js = concat (map (\<lambda>p. filter (\<lambda>j. priority j = p) js) [Critical, High, Normal, Low])"

abbreviation is_pending :: "job \<Rightarrow> bool" where
  "is_pending j \<equiv> status j = Pending"

fun push_all :: "(job \<Rightarrow> 'q \<Rightarrow> 'e + 'q) \<Rightarrow> job list \<Rightarrow> 'q \<Rightarrow> 'e + 'q" where
  "push_all push [] q = Inr q"
| "push_all push (j # js) q = (case push j q of Inl e \<Rightarrow> Inl e | Inr q' \<Rightarrow> push_all push js q')"

fun pop_n :: "(time \<Rightarrow> 'q \<Rightarrow> job option \<times> 'q) \<Rightarrow> time \<Rightarrow> nat \<Rightarrow> 'q \<Rightarrow> job list" where
  "pop_n pop now 0 q = []"
| "pop_n pop now (Suc n) q =
     (case pop now q of (None, q') \<Rightarrow> [] | (Some j, q') \<Rightarrow> j # pop_n pop now n q')"

text \<open>The capped exponential, before jitter.\<close>

definition capped :: "retry_config \<Rightarrow> u32 \<Rightarrow> rat" where
  "capped c n = min (of_nat (unat (backoff_base_ms c)) * powi2 (sint n)) (of_nat (unat (backoff_max_ms c)))"

text \<open>Every state the public operations can reach from an empty queue.\<close>

inductive queue_reach :: "nat \<Rightarrow> job_queue \<Rightarrow> bool" for n where
  reach_new: "queue_reach n (with_retry_config c (queue_new n))"
| reach_submit: "queue_reach n q \<Longrightarrow> queue_submit q cfg i now = Inr (j, q') \<Longrightarrow> queue_reach n q'"
| reach_requeue: "queue_reach n q \<Longrightarrow> requeue j q = Inr q' \<Longrightarrow> queue_reach n q'"
| reach_next: "queue_reach n q \<Longrightarrow> next_job now q = (r, q') \<Longrightarrow> queue_reach n q'"
| reach_complete: "queue_reach n q \<Longrightarrow> complete_job now i res q = Inr q' \<Longrightarrow> queue_reach n q'"
| reach_retry: "queue_reach n q \<Longrightarrow> retry_job now jitter i q = (d, q') \<Longrightarrow> queue_reach n q'"
| reach_cancel: "queue_reach n q \<Longrightarrow> cancel_queued now i q = (e, q') \<Longrightarrow> queue_reach n q'"

section \<open>Lemmas on the job map\<close>

lemmas prio_defs = less_eq_job_priority_def less_job_priority_def

lemma flat_simps [simp]:
  "flat [] = []" "flat ((k, js) # m) = flat m @ js"
  by (simp_all add: flat_def)

lemma map_ok_simps [simp]:
  "map_ok []"
  "map_ok ((k, js) # m) \<longleftrightarrow>
     map_ok m \<and> js \<noteq> [] \<and> list_all (\<lambda>j. priority j = k) js \<and> (\<forall>k' \<in> fst ` set m. k < k')"
  by (auto simp: map_ok_def)

lemma sum_list_flat: "sum_list (map (length \<circ> snd) m) = length (flat m)"
  by (induction m) auto

lemma queue_len_contents: "queue_len q = length (contents q)"
  by (simp add: queue_len_def contents_def sum_list_flat)

lemma queue_inv_empty_iff: "queue_inv q \<Longrightarrow> queue_is_empty q \<longleftrightarrow> contents q = []"
  by (cases "jq_jobs q") (auto simp: queue_inv_def queue_is_empty_def contents_def)

lemma flat_priority: "map_ok m \<Longrightarrow> j \<in> set (flat m) \<Longrightarrow> priority j \<in> fst ` set m"
  by (induction m) (auto simp: list_all_iff)

lemma map_ok_push: "map_ok m \<Longrightarrow> map_ok (bt_push (priority j) j m) \<and>
    fst ` set (bt_push (priority j) j m) = insert (priority j) (fst ` set m)"
  by (induction "priority j" j m rule: bt_push.induct) (auto simp: not_less)

lemma insort_prio_all: "\<forall>x \<in> set xs. priority j \<le> priority x \<Longrightarrow> insort_prio j xs = xs @ [j]"
  by (simp add: insort_prio_def takeWhile_eq_all_conv [THEN iffD2] dropWhile_eq_Nil_conv [THEN iffD2])

lemma insort_prio_append:
  "\<forall>x \<in> set ys. priority x < priority j \<Longrightarrow> insort_prio j (xs @ ys) = insort_prio j xs @ ys"
  by (induction xs) (cases ys; auto simp: insort_prio_def not_le)+

lemma length_insort_prio [simp]: "length (insort_prio j xs) = Suc (length xs)"
  unfolding insort_prio_def
  by (metis add_Suc_right length_Cons length_append takeWhile_dropWhile_id)

lemma set_insort_prio [simp]: "set (insort_prio j xs) = insert j (set xs)"
  unfolding insort_prio_def
  by (metis Un_insert_right list.simps(15) set_append takeWhile_dropWhile_id)

lemma flat_push: "map_ok m \<Longrightarrow> flat (bt_push (priority j) j m) = insort_prio j (flat m)"
proof (induction m)
  case Nil
  then show ?case by (simp add: insort_prio_def)
next
  case (Cons e m)
  obtain k js where e: "e = (k, js)" by fastforce
  have later: "k < priority x" if "x \<in> set (flat m)" for x
    using Cons.prems that flat_priority [of m x] by (auto simp: e)
  have here: "priority x = k" if "x \<in> set js" for x
    using Cons.prems that by (auto simp: e list_all_iff)
  show ?case
  proof (cases "priority j \<le> k")
    case True
    then have "insort_prio j (flat m @ js) = (flat m @ js) @ [j]"
      using here by (intro insort_prio_all) (auto dest: later intro: order_trans [OF True less_imp_le])
    with True show ?thesis by (auto simp: e)
  next
    case False
    then have "insort_prio j (flat m @ js) = insort_prio j (flat m) @ js"
      using here by (intro insort_prio_append) auto
    with False Cons show ?thesis by (auto simp: e not_le)
  qed
qed

lemma find_slot_append:
  "find_slot P (m @ m') = (case find_slot P m of Some r \<Rightarrow> Some r | None \<Rightarrow> find_slot P m')"
  by (induction m) (auto split: option.splits)

lemma position_append:
  "position P (xs @ ys) =
     (case position P xs of Some i \<Rightarrow> Some i | None \<Rightarrow> map_option ((+) (length xs)) (position P ys))"
  by (induction xs) (cases "position P ys"; auto split: option.splits)+

lemma find_slot_key: "find_slot P m = Some (p, i) \<Longrightarrow> p \<in> fst ` set m"
  by (induction m) (auto split: option.splits)

lemma find_slot_None_iff: "find_slot P m = None \<longleftrightarrow> (\<forall>j \<in> set (flat m). \<not> P j)"
  by (induction m) (auto split: option.splits simp: position_None_iff)

text \<open>The slot found from the highest priority down is the first match of the contents.\<close>

lemma find_slot_rev:
  assumes "map_ok m" "find_slot P (rev m) = Some (p, i)"
  obtains k j where "position P (flat m) = Some k" "bt_get p i m = Some j" "flat m ! k = j"
    "flat (bt_remove_at p i m) = remove_nth k (flat m)"
  using assms
proof (induction m arbitrary: thesis)
  case (Cons e m)
  obtain q js where e: "e = (q, js)" by fastforce
  show ?case
  proof (cases "find_slot P (rev m)")
    case None
    with Cons.prems e have pi: "p = q" "position P js = Some i"
      by (auto simp: find_slot_append split: option.splits)
    from None have "position P (flat m) = None"
      by (auto simp: find_slot_None_iff position_None_iff flat_def)
    with pi have "position P (flat m @ js) = Some (length (flat m) + i)"
      by (simp add: position_append)
    moreover from pi(2) have "i < length js" by (auto dest: position_SomeD)
    ultimately show ?thesis
      using Cons.prems(1) [of "length (flat m) + i" "js ! i"] pi
      by (auto simp: e nth_append remove_nth_append Let_def)
  next
    case (Some r)
    with Cons.prems e have r: "r = (p, i)" by (auto simp: find_slot_append)
    with Some have key: "p \<in> fst ` set m" using find_slot_key [of P "rev m"] by auto
    with Cons.prems e have "p \<noteq> q" by auto
    from Cons.IH [of thesis] obtain k j where IH: "position P (flat m) = Some k" "bt_get p i m = Some j"
      "flat m ! k = j" "flat (bt_remove_at p i m) = remove_nth k (flat m)"
      using Cons.IH Cons.prems Some r e by (metis map_ok_simps(2))
    then have "k < length (flat m)" by (auto dest: position_SomeD)
    with IH \<open>p \<noteq> q\<close> show ?thesis
      using Cons.prems(1) [of k j] by (auto simp: e position_append nth_append remove_nth_append)
  qed
qed simp

lemma find_slot_get:
  assumes "map_ok m" "find_slot P m = Some (p, i)"
  shows "\<exists>k j. k < length (flat m) \<and> flat m ! k = j \<and> P j \<and> bt_get p i m = Some j \<and>
           flat (bt_remove_at p i m) = remove_nth k (flat m)"
  using assms
proof (induction m)
  case (Cons e m)
  obtain q js where e: "e = (q, js)" by fastforce
  show ?case
  proof (cases "position P js")
    case None
    with Cons.prems e have slot: "find_slot P m = Some (p, i)" by simp
    with Cons.prems e have "p \<noteq> q" using find_slot_key [OF slot] by auto
    moreover from Cons slot e obtain k where
      "k < length (flat m)" "P (flat m ! k)" "bt_get p i m = Some (flat m ! k)"
      "flat (bt_remove_at p i m) = remove_nth k (flat m)" by auto
    ultimately show ?thesis
      by (intro exI [of _ k]) (auto simp: e nth_append remove_nth_append)
  next
    case (Some i')
    with Cons.prems e have "p = q" "i' = i" by auto
    moreover from Some have "i' < length js" "P (js ! i')" by (auto dest: position_SomeD)
    ultimately show ?thesis
      by (intro exI [of _ "length (flat m) + i"]) (auto simp: e nth_append remove_nth_append Let_def)
  qed
qed simp

lemma map_ok_remove:
  "map_ok m \<Longrightarrow> map_ok (bt_remove_at p i m) \<and> fst ` set (bt_remove_at p i m) \<subseteq> fst ` set m"
proof (induction m)
  case (Cons e m)
  obtain k js where e: "e = (k, js)" by fastforce
  have "list_all (\<lambda>j. priority j = k) (remove_nth i js)"
    using Cons.prems set_remove_nth_subset [of i js] by (auto simp: e list_all_iff)
  moreover have "k < a" if "(a, b) \<in> set (bt_remove_at p i m)" for a b
    using Cons that by (force simp: e)
  ultimately show ?case using Cons by (auto simp: e Let_def)
qed simp

lemma map_ok_update_first:
  "(\<And>j. priority (f j) = priority j) \<Longrightarrow> map_ok m \<Longrightarrow>
     map_ok (bt_update_first P f m) \<and> map fst (bt_update_first P f m) = map fst m"
proof (induction P f m rule: bt_update_first.induct)
  case (2 P f k js m)
  have "list_all (\<lambda>j. priority j = k) js \<Longrightarrow> list_all (\<lambda>j. priority j = k) (update_first P f js)"
    using 2(2) by (induction js) auto
  moreover have "js \<noteq> [] \<Longrightarrow> update_first P f js \<noteq> []" by (cases js) auto
  moreover have "fst ` set (bt_update_first P f m) = fst ` set m" if "\<not> list_ex P js"
    using 2 that by (metis list.set_map map_ok_simps(2))
  ultimately show ?case using 2 by auto
qed simp

section \<open>The interface the scheduler relies on\<close>

locale ready_queue =
  fixes view :: "'q \<Rightarrow> job list"
    and invar :: "'q \<Rightarrow> bool"
    and capacity :: "'q \<Rightarrow> nat"
    and push :: "job \<Rightarrow> 'q \<Rightarrow> job_failure + 'q"
    and pop :: "time \<Rightarrow> 'q \<Rightarrow> job option \<times> 'q"
  assumes bounded: "invar q \<Longrightarrow> length (view q) \<le> capacity q"
    and ordered: "invar q \<Longrightarrow> sorted_wrt (\<lambda>a b. priority b \<le> priority a) (view q)"
    and push_full: "invar q \<Longrightarrow> capacity q \<le> length (view q) \<Longrightarrow> push j q = Inl QueueFull"
    and push_room: "invar q \<Longrightarrow> length (view q) < capacity q \<Longrightarrow>
          \<exists>q'. push j q = Inr q' \<and> invar q' \<and> capacity q' = capacity q \<and>
               view q' = insort_prio j (view q)"
    and pop_none: "invar q \<Longrightarrow> position is_pending (view q) = None \<Longrightarrow> pop now q = (None, q)"
    and pop_some: "invar q \<Longrightarrow> position is_pending (view q) = Some k \<Longrightarrow>
          \<exists>q'. pop now q = (Some (start now (view q ! k)), q') \<and> invar q' \<and>
               capacity q' = capacity q \<and> view q' = remove_nth k (view q)"
begin

lemma pop_progress: "invar q \<Longrightarrow> fst (pop now q) = None \<longleftrightarrow> (\<forall>j \<in> set (view q). \<not> is_pending j)"
  using pop_none [of q now] pop_some [of q _ now]
  by (cases "position is_pending (view q)")
     (auto simp: position_None_iff [symmetric])

lemma pop_highest:
  assumes "invar q" "pop now q = (Some j, q')" "x \<in> set (view q)" "is_pending x"
  shows "priority x \<le> priority j"
proof (cases "position is_pending (view q)")
  case None
  with assms pop_none show ?thesis by force
next
  case (Some k)
  with pop_some [OF assms(1) Some, of now] assms(2) have j: "j = start now (view q ! k)" by auto
  from assms(3) obtain i where i: "i < length (view q)" "view q ! i = x"
    by (auto simp: in_set_conv_nth)
  from position_SomeD [OF Some] i assms(4) have "k \<le> i" by (meson not_le)
  with ordered [OF assms(1)] i show ?thesis
    unfolding j
    using sorted_wrt_nth_less [of "\<lambda>a b. priority b \<le> priority a" "view q" k i] by (cases "k = i") auto
qed

lemma push_all_room:
  assumes "invar q" "length (view q) + length js \<le> capacity q"
  shows "\<exists>q'. push_all push js q = Inr q' \<and> invar q' \<and> capacity q' = capacity q \<and>
              view q' = fold insort_prio js (view q)"
  using assms
proof (induction js arbitrary: q)
  case (Cons j js)
  then obtain q1 where q1: "push j q = Inr q1" "invar q1" "capacity q1 = capacity q"
    "view q1 = insort_prio j (view q)"
    using push_room [of q j] by auto
  with Cons.IH [of q1] Cons.prems show ?case by auto
qed simp

lemma drain_all:
  "invar q \<Longrightarrow> \<forall>j \<in> set (view q). is_pending j \<Longrightarrow>
     pop_n pop now (length (view q)) q = map (start now) (view q)"
proof (induction "view q" arbitrary: q)
  case (Cons j js)
  then have "position is_pending (view q) = Some 0" by (simp flip: Cons.hyps(2))
  from pop_some [OF Cons.prems(1) this, of now] obtain q' where
    q': "pop now q = (Some (start now j), q')" "invar q'" "view q' = js"
    using Cons.hyps(2) [symmetric] by (auto simp: remove_nth_def)
  have "pop_n pop now (length js) q' = map (start now) js"
    using Cons.hyps(1) [of q'] Cons.hyps(2) [symmetric] Cons.prems(2) q' by simp
  with q' show ?case by (simp flip: Cons.hyps(2))
qed simp

end

lemma sorted_flat: "map_ok m \<Longrightarrow> sorted_wrt (\<lambda>a b. priority b \<le> priority a) (flat m)"
proof (induction m)
  case (Cons e m)
  obtain k js where e: "e = (k, js)" by fastforce
  have "sorted_wrt (\<lambda>a b. priority b \<le> priority a) js"
    using Cons.prems by (auto simp: e list_all_iff sorted_wrt_iff_nth_less)
  moreover have "priority b \<le> priority a" if "a \<in> set (flat m)" "b \<in> set js" for a b
    using Cons.prems that flat_priority [of m a] by (fastforce simp: e list_all_iff intro: less_imp_le)
  ultimately show ?case using Cons by (auto simp: e sorted_wrt_append)
qed simp

lemma contents_requeue:
  "queue_inv q \<Longrightarrow> length (contents q) < jq_max_size q \<Longrightarrow>
     \<exists>q'. requeue j q = Inr q' \<and> queue_inv q' \<and> jq_max_size q' = jq_max_size q \<and>
          jq_retry_config q' = jq_retry_config q \<and> contents q' = insort_prio j (contents q)"
  using map_ok_push [of "jq_jobs q" j] flat_push [of "jq_jobs q" j]
  by (auto simp: requeue_def queue_len_contents queue_inv_def contents_def)

lemma requeue_full: "queue_inv q \<Longrightarrow> jq_max_size q \<le> length (contents q) \<Longrightarrow> requeue j q = Inl QueueFull"
  by (simp add: requeue_def queue_len_contents)

lemma find_slot_rev_None: "find_slot P (rev m) = None \<longleftrightarrow> position P (flat m) = None"
  by (simp add: find_slot_None_iff position_None_iff flat_def)

lemma next_job_none:
  "position is_pending (contents q) = None \<Longrightarrow> next_job now q = (None, q)"
  by (simp add: next_job_def contents_def find_slot_rev_None [THEN iffD2])

lemma next_job_some:
  assumes "queue_inv q" "position is_pending (contents q) = Some k"
  shows "\<exists>q'. next_job now q = (Some (start now (contents q ! k)), q') \<and> queue_inv q' \<and>
              jq_max_size q' = jq_max_size q \<and> jq_retry_config q' = jq_retry_config q \<and>
              contents q' = remove_nth k (contents q)"
proof -
  have ok: "map_ok (jq_jobs q)" using assms(1) by (simp add: queue_inv_def)
  have "find_slot is_pending (rev (jq_jobs q)) \<noteq> None"
    using assms(2) by (simp add: contents_def find_slot_rev_None)
  then obtain p i where slot: "find_slot is_pending (rev (jq_jobs q)) = Some (p, i)" by auto
  obtain k' j where slot': "position is_pending (contents q) = Some k'"
    "bt_get p i (jq_jobs q) = Some j" "contents q ! k' = j"
    "flat (bt_remove_at p i (jq_jobs q)) = remove_nth k' (contents q)"
    unfolding contents_def by (rule find_slot_rev [OF ok slot])
  with assms(2) have "bt_get p i (jq_jobs q) = Some (contents q ! k)"
    "flat (bt_remove_at p i (jq_jobs q)) = remove_nth k (contents q)" by simp_all
  moreover have "k < length (contents q)" using assms(2) by (auto dest: position_SomeD)
  ultimately show ?thesis
    using assms(1) map_ok_remove [OF ok, of p i]
    by (auto simp: next_job_def slot queue_inv_def contents_def)
qed

interpretation rq: ready_queue contents queue_inv jq_max_size requeue next_job
proof
  show "length (contents q) \<le> jq_max_size q" if "queue_inv q" for q
    using that by (simp add: queue_inv_def)
  show "sorted_wrt (\<lambda>a b. priority b \<le> priority a) (contents q)" if "queue_inv q" for q
    using that sorted_flat by (simp add: queue_inv_def contents_def)
next
  fix q and j :: job
  assume "queue_inv q" "length (contents q) < jq_max_size q"
  then show "\<exists>q'. requeue j q = Inr q' \<and> queue_inv q' \<and> jq_max_size q' = jq_max_size q \<and>
      contents q' = insort_prio j (contents q)"
    using contents_requeue by blast
next
  fix q k now
  assume "queue_inv q" "position is_pending (contents q) = Some k"
  then show "\<exists>q'. next_job now q = (Some (start now (contents q ! k)), q') \<and> queue_inv q' \<and>
      jq_max_size q' = jq_max_size q \<and> contents q' = remove_nth k (contents q)"
    using next_job_some by blast
qed (simp_all add: requeue_full next_job_none)

section \<open>Properties of the queue\<close>

lemma fold_insort_by_priority: "fold insort_prio js [] = by_priority js"
proof (induction js rule: rev_induct)
  case (snoc j js)
  let ?c = "\<lambda>p. filter (\<lambda>j. priority j = p) js"
  have cut: "insort_prio j (xs @ ys) = xs @ [j] @ ys"
    if "\<forall>x \<in> set xs. priority j \<le> priority x" "\<forall>y \<in> set ys. priority y < priority j" for xs ys
    using insort_prio_append [OF that(2), of xs] insort_prio_all [OF that(1)] by simp
  have "insort_prio j (by_priority js) = by_priority (js @ [j])"
  proof (cases "priority j")
    case Critical
    then have "insort_prio j ((?c Critical) @ ?c High @ ?c Normal @ ?c Low) = (?c Critical) @ [j] @ ?c High @ ?c Normal @ ?c Low"
      by (intro cut) (auto simp: prio_defs)
    with Critical show ?thesis by (simp add: by_priority_def)
  next
    case High
    then have "insort_prio j ((?c Critical @ ?c High) @ ?c Normal @ ?c Low) = (?c Critical @ ?c High) @ [j] @ ?c Normal @ ?c Low"
      by (intro cut) (auto simp: prio_defs)
    with High show ?thesis by (simp add: by_priority_def)
  next
    case Normal
    then have "insort_prio j ((?c Critical @ ?c High @ ?c Normal) @ ?c Low) = (?c Critical @ ?c High @ ?c Normal) @ [j] @ ?c Low"
      by (intro cut) (auto simp: prio_defs)
    with Normal show ?thesis by (simp add: by_priority_def)
  next
    case Low
    then have "insort_prio j ((?c Critical @ ?c High @ ?c Normal @ ?c Low) @ []) = (?c Critical @ ?c High @ ?c Normal @ ?c Low) @ [j] @ []"
      by (intro cut) (auto simp: prio_defs)
    with Low show ?thesis by (simp add: by_priority_def)
  qed
  with snoc show ?case by simp
qed (simp add: by_priority_def)

lemma queue_inv_new [simp]: "queue_inv (queue_new n)" "contents (queue_new n) = []"
  "jq_max_size (queue_new n) = n"
  by (simp_all add: queue_inv_def queue_new_def contents_def)

lemma queue_inv_with_retry_config [simp]:
  "queue_inv (with_retry_config c q) = queue_inv q" "jq_max_size (with_retry_config c q) = jq_max_size q"
  by (simp_all add: queue_inv_def with_retry_config_def contents_def)

lemma set_by_priority: "set (by_priority js) = set js"
proof -
  have "priority j \<in> {Critical, High, Normal, Low}" for j by (cases "priority j") auto
  then show ?thesis by (auto simp: by_priority_def)
qed

lemma length_fold_insort: "length (fold insort_prio js xs) = length js + length xs"
  by (induction js arbitrary: xs) auto

text \<open>C34. Jobs submitted into an empty queue with enough room come back highest priority first
  and in submission order within a priority, each marked as started.\<close>

theorem queue_drain_order:
  assumes "length js \<le> n" "\<forall>j \<in> set js. status j = Pending"
  shows "\<exists>q. push_all requeue js (queue_new n) = Inr q \<and>
             pop_n next_job now (length js) q = map (start now) (by_priority js)"
proof -
  obtain q where q: "push_all requeue js (queue_new n) = Inr q" "queue_inv q"
    "contents q = by_priority js"
    using rq.push_all_room [of "queue_new n" js] assms(1) by (auto simp: fold_insort_by_priority)
  moreover have "length (contents q) = length js"
    using length_fold_insort [of js "[]"] q(3) by (simp add: fold_insort_by_priority)
  ultimately show ?thesis
    using rq.drain_all [of q now] assms(2) by (auto simp: set_by_priority)
qed

theorem queue_drain_order_witness:
  "\<exists>q. push_all requeue [job_new (JobId ''a'') ''n'' JNull Low 3, job_new (JobId ''b'') ''n'' JNull High 3]
         (queue_new 2) = Inr q \<and>
       map job_id (pop_n next_job 5 2 q) = [JobId ''b'', JobId ''a'']"
  using queue_drain_order [of "[job_new (JobId ''a'') ''n'' JNull Low 3,
      job_new (JobId ''b'') ''n'' JNull High 3]" 2 5]
  by (fastforce simp: by_priority_def numeral_2_eq_2 job_new_def simp del: push_all.simps pop_n.simps)

lemma flat_update_first:
  "length (flat (bt_update_first P f m)) = length (flat m)"
  by (induction P f m rule: bt_update_first.induct) (auto simp: length_update_first)

lemma queue_inv_update_first:
  assumes "\<And>j. priority (f j) = priority j" "queue_inv q"
  shows "queue_inv (q\<lparr>jq_jobs := bt_update_first P f (jq_jobs q)\<rparr>)"
  using assms map_ok_update_first [of f "jq_jobs q" P]
  by (simp add: queue_inv_def contents_def flat_update_first)

lemma queue_inv_remove:
  assumes "queue_inv q" "k < length (contents q)"
    "flat (bt_remove_at p i (jq_jobs q)) = remove_nth k (contents q)"
  shows "queue_inv (q\<lparr>jq_jobs := bt_remove_at p i (jq_jobs q)\<rparr>)"
  using assms map_ok_remove [of "jq_jobs q" p i] by (auto simp: queue_inv_def contents_def)

lemma requeue_inv: "queue_inv q \<Longrightarrow> requeue j q = Inr q' \<Longrightarrow> queue_inv q' \<and> jq_max_size q' = jq_max_size q"
  using contents_requeue [of q j] requeue_full [of q j]
  by (cases "length (contents q) < jq_max_size q") auto

lemma next_job_inv:
  "queue_inv q \<Longrightarrow> next_job now q = (r, q') \<Longrightarrow> queue_inv q' \<and> jq_max_size q' = jq_max_size q"
  using next_job_some [of q _ now] next_job_none [of q now]
  by (cases "position is_pending (contents q)") auto

text \<open>Cancellation removes exactly the job it returns, and refuses a finished one.\<close>

lemma cancel_queued_cases:
  assumes "queue_inv q"
  obtains (missing) "cancel_queued now i q = (Inl (NotFound i), q)" "i \<notin> job_id ` set (contents q)"
  | (finished) j where "j \<in> set (contents q)" "job_id j = i" "status j \<notin> {Pending, Running}"
      "cancel_queued now i q = (Inl (already_finished i (status j)), q)"
  | (removed) k q' where "k < length (contents q)" "job_id (contents q ! k) = i"
      "status (contents q ! k) \<in> {Pending, Running}"
      "cancel_queued now i q = (Inr (cancel now (contents q ! k)), q')" "queue_inv q'"
      "jq_max_size q' = jq_max_size q" "contents q' = remove_nth k (contents q)"
proof (cases "find_slot (\<lambda>j. job_id j = i) (jq_jobs q)")
  case None
  then have "i \<notin> job_id ` set (contents q)"
    by (auto simp: contents_def find_slot_None_iff)
  with None show ?thesis by (intro missing) (simp_all add: cancel_queued_def)
next
  case (Some s)
  then obtain p c where s: "find_slot (\<lambda>j. job_id j = i) (jq_jobs q) = Some (p, c)" by (cases s) auto
  from assms have ok: "map_ok (jq_jobs q)" by (simp add: queue_inv_def)
  from find_slot_get [OF ok s] obtain k where k: "k < length (contents q)"
    "job_id (contents q ! k) = i" "bt_get p c (jq_jobs q) = Some (contents q ! k)"
    "flat (bt_remove_at p c (jq_jobs q)) = remove_nth k (contents q)"
    unfolding contents_def by blast
  let ?q = "q\<lparr>jq_jobs := bt_remove_at p c (jq_jobs q)\<rparr>"
  show ?thesis
  proof (cases "status (contents q ! k) \<in> {Pending, Running}")
    case True
    with k s have "cancel_queued now i q = (Inr (cancel now (contents q ! k)), ?q)"
      by (auto simp: cancel_queued_def)
    moreover have "queue_inv ?q" by (rule queue_inv_remove [OF assms k(1) k(4)])
    moreover have "contents ?q = remove_nth k (contents q)" using k(4) by (simp add: contents_def)
    ultimately show ?thesis using removed [OF k(1,2) True] by simp
  next
    case False
    then have "status (contents q ! k) \<in> {Completed, Failed, Cancelled, ReconciliationRequired, Resolved}"
      by (cases "status (contents q ! k)") auto
    then have "cancel_queued now i q = (Inl (already_finished i (status (contents q ! k))), q)"
      using k s by (auto simp: cancel_queued_def)
    then show ?thesis using finished [of "contents q ! k"] k False by simp
  qed
qed

lemma complete_job_inv:
  "queue_inv q \<Longrightarrow> complete_job now i r q = Inr q' \<Longrightarrow> queue_inv q' \<and> jq_max_size q' = jq_max_size q"
  by (auto simp: complete_job_def queue_inv_update_first split: option.splits)

lemma retry_job_inv:
  "queue_inv q \<Longrightarrow> retry_job now jit i q = (d, q') \<Longrightarrow> queue_inv q' \<and> jq_max_size q' = jq_max_size q"
  by (auto simp: retry_job_def queue_inv_update_first split: option.splits if_splits)

lemma cancel_queued_inv:
  "queue_inv q \<Longrightarrow> cancel_queued now i q = (e, q') \<Longrightarrow> queue_inv q' \<and> jq_max_size q' = jq_max_size q"
  by (rule cancel_queued_cases [of q now i]) auto

lemma queue_submit_inv:
  "queue_inv q \<Longrightarrow> queue_submit q cfg i now = Inr (j, q') \<Longrightarrow> queue_inv q' \<and> jq_max_size q' = jq_max_size q"
  by (auto simp: queue_submit_def split: sum.splits dest: requeue_inv)

text \<open>In every reachable state the map holds no empty entry, every job sits under its own
  priority, and the number of jobs is within the configured maximum.\<close>

theorem queue_reach_inv:
  assumes "queue_reach n q"
  shows "queue_inv q \<and> queue_len q \<le> n"
proof -
  from assms have "queue_inv q \<and> jq_max_size q = n"
    by (induction rule: queue_reach.induct)
       (auto dest: requeue_inv next_job_inv complete_job_inv retry_job_inv cancel_queued_inv
          queue_submit_inv)
  then show ?thesis by (auto simp: queue_inv_def queue_len_contents)
qed

theorem queue_reach_inv_witness:
  "queue_len (snd (next_job 7 (queue_new 2))) \<le> 2"
proof -
  have "queue_reach 2 (with_retry_config default_retry_config (queue_new 2))" by (rule reach_new)
  moreover have "with_retry_config default_retry_config (queue_new 2) = queue_new 2"
    by (simp add: with_retry_config_def queue_new_def)
  ultimately have "queue_reach 2 (snd (next_job 7 (queue_new 2)))"
    by (metis reach_next prod.collapse)
  from queue_reach_inv [OF this] show ?thesis by simp
qed

text \<open>Cancelling by id either reports that the queue holds no such job, or refuses because the
  job already finished, leaving the queue alone, or removes exactly one job with that id, keeps
  the order of the rest and returns it cancelled.\<close>

theorem cancel_queued_exact:
  assumes "queue_inv q"
  shows "(cancel_queued now i q = (Inl (NotFound i), q) \<and> i \<notin> job_id ` set (contents q)) \<or>
         (\<exists>j \<in> set (contents q). job_id j = i \<and> status j \<notin> {Pending, Running} \<and>
             cancel_queued now i q = (Inl (already_finished i (status j)), q)) \<or>
         (\<exists>xs j ys q'. contents q = xs @ j # ys \<and> job_id j = i \<and> status j \<in> {Pending, Running} \<and>
             cancel_queued now i q = (Inr (cancel now j), q') \<and> queue_inv q' \<and> contents q' = xs @ ys)"
  using assms
proof (cases rule: cancel_queued_cases [of q now i])
  case (removed k q')
  then show ?thesis
    using id_take_nth_drop [of k "contents q"] unfolding remove_nth_def by blast
qed blast+

theorem cancel_queued_exact_witness:
  "\<exists>q. queue_inv q \<and> length (contents q) = 1 \<and>
       contents (snd (cancel_queued 9 (JobId ''a'') q)) = []"
proof -
  let ?j = "job_new (JobId ''a'') ''n'' JNull Low 3"
  let ?q = "(queue_new 2)\<lparr>jq_jobs := [(Low, [?j])]\<rparr>"
  have inv: "queue_inv ?q" by (simp add: queue_inv_def contents_def queue_new_def job_new_def)
  have "contents ?q = [?j]" by (simp add: contents_def)
  with cancel_queued_exact [OF inv, of 9 "JobId ''a''"]
  have "contents (snd (cancel_queued 9 (JobId ''a'') ?q)) = []"
    by (auto simp: job_new_def Cons_eq_append_conv)
  with inv show ?thesis by (intro exI [of _ ?q]) (simp add: contents_def)
qed

lemma stats_loop_counts:
  "qs_total (stats_loop js s) = qs_total s"
  "qs_pending (stats_loop js s) = qs_pending s + count_status Pending js"
  "qs_running (stats_loop js s) = qs_running s + count_status Running js"
  "qs_completed (stats_loop js s) = qs_completed s + count_status Completed js"
  "qs_failed (stats_loop js s) = qs_failed s + count_status Failed js"
  "qs_cancelled (stats_loop js s) = qs_cancelled s + count_status Cancelled js"
  by (induction js s rule: stats_loop.induct) (auto simp: count_status_def split: job_status.splits)

lemma count_status_total:
  "length js = (\<Sum>s \<leftarrow> [Pending, Running, Completed, Failed, Cancelled, ReconciliationRequired, Resolved].
     count_status s js)"
  by (induction js) (auto simp: count_status_def intro: job_status.exhaust)

lemma unsigned_rat_nonneg [simp]: "0 \<le> (unsigned (w :: 'a::len word) :: rat)"
  by (metis of_nat_0_le_iff of_nat_unat)

lemma powi2_nonneg [simp]: "0 \<le> powi2 k"
  by (simp add: powi2_def)

lemma powi2_mono: "a \<le> b \<Longrightarrow> 0 \<le> a \<Longrightarrow> powi2 a \<le> powi2 b"
  by (simp add: powi2_def nat_mono)

lemma calculate_backoff_capped:
  "calculate_backoff c n x = min u64_max (nat \<lfloor>capped c n * (1 + x / 5)\<rfloor>)"
  by (simp add: calculate_backoff_def capped_def Let_def algebra_simps)

lemma capped_bounds: "0 \<le> capped c n" "capped c n \<le> of_nat (unat (backoff_max_ms c))"
  by (simp_all add: capped_def powi2_nonneg)

lemma backoff_upper:
  assumes "x \<le> 1" shows "5 * calculate_backoff c n x \<le> 6 * unat (backoff_max_ms c)"
proof -
  let ?v = "capped c n * (1 + x / 5)"
  have "?v \<le> of_nat (unat (backoff_max_ms c)) * (6 / 5)"
  proof (cases "0 \<le> 1 + x / 5")
    case True
    with assms show ?thesis using capped_bounds [of c n] by (intro mult_mono) auto
  next
    case False
    then have "?v \<le> 0" using capped_bounds(1) [of c n] by (simp add: mult_nonneg_nonpos)
    also have "0 \<le> (of_nat (unat (backoff_max_ms c)) * (6 / 5) :: rat)" by simp
    finally show ?thesis .
  qed
  moreover have "of_int \<lfloor>?v\<rfloor> \<le> ?v" by simp
  ultimately have "5 * of_int \<lfloor>?v\<rfloor> \<le> (6 * of_nat (unat (backoff_max_ms c)) :: rat)" by linarith
  then have "of_int (5 * \<lfloor>?v\<rfloor>) \<le> (of_int (6 * int (unat (backoff_max_ms c))) :: rat)" by simp
  then have "5 * \<lfloor>?v\<rfloor> \<le> 6 * int (unat (backoff_max_ms c))" by (simp only: of_int_le_iff)
  then have "5 * nat \<lfloor>?v\<rfloor> \<le> 6 * unat (backoff_max_ms c)" by linarith
  then show ?thesis by (auto simp: calculate_backoff_capped min_def)
qed

lemma backoff_mono:
  assumes "capped c m \<le> capped c n" "0 \<le> x" "x \<le> y"
  shows "calculate_backoff c m x \<le> calculate_backoff c n y"
proof -
  have "capped c m * (1 + x / 5) \<le> capped c n * (1 + y / 5)"
    using assms capped_bounds [of c n] by (intro mult_mono) auto
  then show ?thesis by (auto simp: calculate_backoff_capped intro: min.coboundedI2 nat_mono floor_mono)
qed

lemma backoff_exact:
  assumes "0 \<le> sint n"
  shows "calculate_backoff c n 0 = min (unat (backoff_base_ms c) * 2 ^ nat (sint n)) (unat (backoff_max_ms c))"
proof -
  let ?k = "min (unat (backoff_base_ms c) * 2 ^ nat (sint n)) (unat (backoff_max_ms c))"
  have "capped c n = of_nat ?k" using assms by (simp add: capped_def powi2_def of_nat_min)
  moreover have "?k \<le> u64_max"
    using unsigned_less [of "backoff_max_ms c", where ?'a = nat] by (simp add: u64_max_def)
  ultimately show ?thesis by (simp add: calculate_backoff_capped min_absorb2)
qed

lemma capped_mono: "0 \<le> sint m \<Longrightarrow> sint m \<le> sint n \<Longrightarrow> capped c m \<le> capped c n"
  unfolding capped_def by (intro min.mono mult_left_mono powi2_mono) auto

text \<open>For a jitter sample \<open>x\<close> of the unit interval the retry delay never exceeds the
  configured cap by more than a fifth; it is at least the capped exponential
  \<open>min (base * 2 ^ n) max\<close>; and for the same jitter it grows with the retry count.\<close>

theorem calculate_backoff_bounds:
  assumes "0 \<le> x" "x \<le> 1" "0 \<le> sint m" "sint m \<le> sint n"
  shows "5 * calculate_backoff c n x \<le> 6 * unat (backoff_max_ms c) \<and>
         min (unat (backoff_base_ms c) * 2 ^ nat (sint n)) (unat (backoff_max_ms c))
           \<le> calculate_backoff c n x \<and>
         calculate_backoff c m x \<le> calculate_backoff c n x"
proof -
  have "0 \<le> sint n" using assms by simp
  then have "min (unat (backoff_base_ms c) * 2 ^ nat (sint n)) (unat (backoff_max_ms c))
      \<le> calculate_backoff c n x"
    using backoff_mono [of c n n 0 x] assms by (simp add: backoff_exact)
  with assms show ?thesis by (auto intro: backoff_upper backoff_mono capped_mono)
qed

theorem calculate_backoff_bounds_witness:
  "4000 \<le> calculate_backoff default_retry_config 2 (1 / 2) \<and>
   calculate_backoff default_retry_config 20 1 \<le> 72000"
  using calculate_backoff_bounds [of "1 / 2" 0 2 default_retry_config]
    calculate_backoff_bounds [of 1 2 20 default_retry_config]
  by (simp add: default_retry_config_def)

end
