(* ===== verification/Job_Store.thy ===== *)
theory Job_Store
  imports Jobs
begin

text \<open>
  Job stores (\<open>task-scheduler/src/store.rs\<close>): journal events and records, the trait
  \<open>JobStore\<close> as a record of operations over the state of a store, the in-memory store, and the
  contract the scheduler relies on as the locale \<open>job_store\<close>. The durable store is in the
  theory \<open>Job_Journal\<close>.
\<close>

section \<open>Events and records\<close>

definition JOURNAL_SCHEMA_VERSION :: "16 word" where
  "JOURNAL_SCHEMA_VERSION = 1"

datatype store_error = StoreIntegrity | StoreIo | StoreSerialization

datatype job_event =
    EvSubmitted | EvStarted | EvCompleted | EvFailed | EvRetried | EvCancelled | EvRecovered
  | EvResolved

fun from_status :: "job_status \<Rightarrow> job_event" where
  "from_status Pending = EvRetried"
| "from_status Running = EvStarted"
| "from_status Completed = EvCompleted"
| "from_status Failed = EvFailed"
| "from_status Cancelled = EvCancelled"
| "from_status ReconciliationRequired = EvRecovered"
| "from_status Resolved = EvResolved"

record journal_record =
  schema_version :: "16 word"
  sequence :: u64
  recorded_at :: time
  event :: job_event
  rec_job :: job

section \<open>The trait\<close>

text \<open>The methods of the trait over the state \<open>'st\<close> of a store. Reading never fails in either
  implementation, but the trait allows it.\<close>

record 'st store_ops =
  so_integrity_issue :: "'st \<Rightarrow> string option"
  so_put :: "job \<Rightarrow> 'st \<Rightarrow> (store_error + unit) \<times> 'st"
  so_get :: "job_id \<Rightarrow> 'st \<Rightarrow> store_error + job option"
  so_update :: "job \<Rightarrow> job_event \<Rightarrow> 'st \<Rightarrow> (store_error + unit) \<times> 'st"
  so_pending :: "'st \<Rightarrow> store_error + job list"
  so_load_all :: "'st \<Rightarrow> store_error + job list"
  so_prune_terminal :: "nat \<Rightarrow> 'st \<Rightarrow> (store_error + unit) \<times> 'st"

section \<open>The in-memory store\<close>

type_synonym job_index = "(job_id \<times> job) list"

definition mem_put :: "job \<Rightarrow> job_index \<Rightarrow> job_index" where
  "mem_put j m = AList.update (job_id j) j m"

definition mem_get :: "job_id \<Rightarrow> job_index \<Rightarrow> job option" where
  "mem_get i m = map_of m i"

definition mem_pending :: "job_index \<Rightarrow> job list" where
  "mem_pending m = filter (\<lambda>j. status j = Pending) (map snd m)"

definition mem_load_all :: "job_index \<Rightarrow> job list" where
  "mem_load_all m = map snd m"

definition is_terminal :: "job \<Rightarrow> bool" where
  "is_terminal j \<longleftrightarrow> status j \<in> {Completed, Failed, Cancelled, Resolved}"

definition terminal_time :: "job \<Rightarrow> time" where
  "terminal_time j = (case completed_at j of Some t \<Rightarrow> t | None \<Rightarrow> created_at j)"

text \<open>The ids a prune removes: the oldest terminal jobs beyond the retained number.\<close>

definition prune_victims :: "nat \<Rightarrow> job_index \<Rightarrow> job_id list" where
  "prune_victims retained m =
     (let terminal = map (\<lambda>(i, j). (i, terminal_time j)) (filter (\<lambda>(i, j). is_terminal j) m);
          excess = length terminal - retained
      in map fst (take excess (sort_key snd terminal)))"

definition mem_prune_terminal :: "nat \<Rightarrow> job_index \<Rightarrow> job_index" where
  "mem_prune_terminal retained m = fold AList.delete (prune_victims retained m) m"

definition memory_ops :: "job_index store_ops" where
  "memory_ops =
     \<lparr>so_integrity_issue = (\<lambda>_. None),
      so_put = (\<lambda>j m. (Inr (), mem_put j m)),
      so_get = (\<lambda>i m. Inr (mem_get i m)),
      so_update = (\<lambda>j ev m. (Inr (), mem_put j m)),
      so_pending = (\<lambda>m. Inr (mem_pending m)),
      so_load_all = (\<lambda>m. Inr (mem_load_all m)),
      so_prune_terminal = (\<lambda>n m. (Inr (), mem_prune_terminal n m))\<rparr>"

section \<open>Lemmas on the index\<close>

definition index_ok :: "job_index \<Rightarrow> bool" where
  "index_ok m \<longleftrightarrow> distinct (map fst m) \<and> (\<forall>(i, j) \<in> set m. job_id j = i)"

lemma index_ok_Nil [simp]: "index_ok []"
  by (simp add: index_ok_def)

lemma index_ok_put [inv_intros]: "index_ok m \<Longrightarrow> index_ok (mem_put j m)"
  using set_update_subset [of "job_id j" j m]
  by (auto simp: index_ok_def mem_put_def distinct_update)

lemma index_ok_delete [inv_intros]: "index_ok m \<Longrightarrow> index_ok (fold AList.delete ks m)"
  by (auto simp: index_ok_def distinct_fold_delete set_fold_delete)

lemma index_ok_get: "index_ok m \<Longrightarrow> mem_get i m = Some j \<longleftrightarrow> j \<in> set (mem_load_all m) \<and> job_id j = i"
  by (force simp: index_ok_def mem_get_def mem_load_all_def dest: map_of_SomeD intro: map_of_is_SomeI)

lemma mem_get_put [hmap_simps]: "mem_get i (mem_put j m) = (if i = job_id j then Some j else mem_get i m)"
  by (simp add: mem_get_def mem_put_def hmap_simps)

lemma index_ids: "index_ok m \<Longrightarrow> map job_id (mem_load_all m) = map fst m"
  by (auto simp: index_ok_def mem_load_all_def)

text \<open>The terminal entries of an index in the order a prune considers them.\<close>

definition terminal_order :: "job_index \<Rightarrow> (job_id \<times> time) list" where
  "terminal_order m =
     sort_key snd (map (\<lambda>(i, j). (i, terminal_time j)) (filter (\<lambda>(i, j). is_terminal j) m))"

lemma prune_victims_order:
  "prune_victims n m = map fst (take (length (filter (\<lambda>(i, j). is_terminal j) m) - n) (terminal_order m))"
  by (simp add: prune_victims_def terminal_order_def Let_def)

lemma set_terminal_order:
  "set (terminal_order m) = (\<lambda>(i, j). (i, terminal_time j)) ` {e \<in> set m. is_terminal (snd e)}"
  by (auto simp: terminal_order_def)

lemma distinct_terminal_order:
  assumes "distinct (map fst m)" shows "distinct (map fst (terminal_order m))"
proof -
  have "fst \<circ> (\<lambda>(i, j). (i, terminal_time j)) = fst" by auto
  with assms show ?thesis
    unfolding terminal_order_def by (simp add: distinct_map_filter case_prod_unfold o_def)
qed

lemma length_terminal_order: "length (terminal_order m) = length (filter (\<lambda>(i, j). is_terminal j) m)"
  by (simp add: terminal_order_def)

text \<open>A prune keeps every job that is not terminal and at most the given number of terminal
  ones; every terminal job it drops ended no later than every one it keeps.\<close>

lemma mem_prune_kept:
  assumes "index_ok m" "(i, j) \<in> set m" "\<not> is_terminal j"
  shows "(i, j) \<in> set (mem_prune_terminal n m)"
proof -
  have "i \<notin> set (prune_victims n m)"
  proof
    assume "i \<in> set (prune_victims n m)"
    then obtain t where "(i, t) \<in> set (terminal_order m)"
      unfolding prune_victims_order by (auto dest: in_set_takeD)
    then obtain j' where "(i, j') \<in> set m" "is_terminal j'" by (auto simp: set_terminal_order)
    with assms show False by (auto simp: index_ok_def dest: eq_key_imp_eq_value)
  qed
  with assms(2) show ?thesis by (simp add: mem_prune_terminal_def set_fold_delete)
qed

lemma mem_prune_count:
  assumes "index_ok m"
  shows "length (filter (\<lambda>(i, j). is_terminal j) (mem_prune_terminal n m)) =
           min n (length (filter (\<lambda>(i, j). is_terminal j) m))"
proof -
  let ?t = "terminal_order m"
  let ?k = "length (filter (\<lambda>(i, j). is_terminal j) m) - n"
  have dist: "distinct (map fst m)" using assms by (simp add: index_ok_def)
  have d: "distinct (map fst ?t)" by (rule distinct_terminal_order [OF dist])
  have "{i. \<exists>j. (i, j) \<in> set (mem_prune_terminal n m) \<and> is_terminal j} =
      fst ` set ?t - set (prune_victims n m)"
    by (auto simp: mem_prune_terminal_def set_fold_delete set_terminal_order image_iff)
  also have "\<dots> = set (map fst (drop ?k ?t))"
  proof -
    have "map fst ?t = map fst (take ?k ?t) @ map fst (drop ?k ?t)"
      by (metis append_take_drop_id map_append)
    with d have "set (map fst (take ?k ?t)) \<inter> set (map fst (drop ?k ?t)) = {}"
      by (metis distinct_append)
    moreover have "fst ` set ?t = set (map fst (take ?k ?t)) \<union> set (map fst (drop ?k ?t))"
      by (metis \<open>map fst ?t = _\<close> list.set_map set_append)
    ultimately show ?thesis unfolding prune_victims_order by blast
  qed
  finally have set_eq: "fst ` set (filter (\<lambda>(i, j). is_terminal j) (mem_prune_terminal n m)) =
      set (map fst (drop ?k ?t))"
    by (auto simp: image_iff) force+
  have "distinct (map fst (filter (\<lambda>(i, j). is_terminal j) (mem_prune_terminal n m)))"
    using dist by (simp add: distinct_map_filter mem_prune_terminal_def distinct_fold_delete)
  moreover have "distinct (map fst (drop ?k ?t))" using d by (metis distinct_drop drop_map)
  ultimately have "length (filter (\<lambda>(i, j). is_terminal j) (mem_prune_terminal n m)) = length (drop ?k ?t)"
    using set_eq by (metis distinct_card length_map list.set_map)
  then show ?thesis by (simp add: length_terminal_order min_def)
qed

lemma mem_prune_oldest:
  assumes "index_ok m" "(i, j) \<in> set m" "(i, j) \<notin> set (mem_prune_terminal n m)"
    "(i', j') \<in> set (mem_prune_terminal n m)" "is_terminal j'"
  shows "terminal_time j \<le> terminal_time j'"
proof -
  let ?t = "terminal_order m"
  let ?k = "length (filter (\<lambda>(i, j). is_terminal j) m) - n"
  from assms(2,3) obtain t where t: "(i, t) \<in> set (take ?k ?t)"
    by (auto simp: mem_prune_terminal_def set_fold_delete prune_victims_order)
  then obtain j1 where "(i, j1) \<in> set m" "t = terminal_time j1"
    by (auto simp: set_terminal_order dest!: in_set_takeD)
  with assms(1,2) have "t = terminal_time j" by (auto simp: index_ok_def dest: eq_key_imp_eq_value)
  moreover have "(i', terminal_time j') \<in> set (drop ?k ?t)"
  proof -
    from assms(4) have "(i', j') \<in> set m" "i' \<notin> fst ` set (take ?k ?t)"
      by (auto simp: mem_prune_terminal_def set_fold_delete prune_victims_order)
    moreover from this assms(5) have "(i', terminal_time j') \<in> set ?t"
      by (force simp: set_terminal_order)
    ultimately show ?thesis
      by (metis Un_iff append_take_drop_id fst_conv image_eqI set_append)
  qed
  moreover have "sorted (map snd ?t)" by (simp add: terminal_order_def)
  ultimately show ?thesis using sorted_take_drop [of snd ?t] t by fastforce
qed

section \<open>The contract of a store\<close>

text \<open>What the scheduler relies on, for either implementation and whatever the outcome of the
  calls to the operating system: a successful write is visible, a failed one leaves the record
  of that job as it was or as it was to be, and reads agree with one another.\<close>

locale job_store =
  fixes ops :: "'st store_ops"
    and view :: "'st \<Rightarrow> job_id \<Rightarrow> job option"
    and invar :: "'st \<Rightarrow> bool"
  assumes put_ok: "invar s \<Longrightarrow> so_put ops j s = (Inr (), s') \<Longrightarrow> view s' = (view s)(job_id j \<mapsto> j)"
    and put_err: "invar s \<Longrightarrow> so_put ops j s = (Inl e, s') \<Longrightarrow>
          view s' = view s \<or> view s' = (view s)(job_id j \<mapsto> j)"
    and put_invar: "invar s \<Longrightarrow> so_put ops j s = (r, s') \<Longrightarrow> invar s'"
    and update_ok: "invar s \<Longrightarrow> so_update ops j ev s = (Inr (), s') \<Longrightarrow>
          view s' = (view s)(job_id j \<mapsto> j)"
    and update_err: "invar s \<Longrightarrow> so_update ops j ev s = (Inl e, s') \<Longrightarrow>
          view s' = view s \<or> view s' = (view s)(job_id j \<mapsto> j)"
    and update_invar: "invar s \<Longrightarrow> so_update ops j ev s = (r, s') \<Longrightarrow> invar s'"
    and get_view: "invar s \<Longrightarrow> so_get ops i s = Inr (view s i)"
    and load_all_view: "invar s \<Longrightarrow>
          \<exists>js. so_load_all ops s = Inr js \<and> distinct (map job_id js) \<and>
               (\<forall>j. j \<in> set js \<longleftrightarrow> view s (job_id j) = Some j)"
    and pending_view: "invar s \<Longrightarrow>
          \<exists>js. so_pending ops s = Inr js \<and> distinct (map job_id js) \<and>
               (\<forall>j. j \<in> set js \<longleftrightarrow> view s (job_id j) = Some j \<and> status j = Pending)"
begin

text \<open>What any write leaves of the other jobs.\<close>

lemma put_other: "invar s \<Longrightarrow> so_put ops j s = (r, s') \<Longrightarrow> i \<noteq> job_id j \<Longrightarrow> view s' i = view s i"
  using put_ok [of s j s'] put_err [of s j _ s'] by (cases r) force+

lemma update_other:
  "invar s \<Longrightarrow> so_update ops j ev s = (r, s') \<Longrightarrow> i \<noteq> job_id j \<Longrightarrow> view s' i = view s i"
  using update_ok [of s j ev s'] update_err [of s j ev _ s'] by (cases r) force+

lemma put_get: "invar s \<Longrightarrow> so_put ops j s = (Inr (), s') \<Longrightarrow> so_get ops (job_id j) s' = Inr (Some j)"
  using put_ok [of s j s'] put_invar [of s j "Inr ()" s'] by (simp add: get_view)

lemma update_get:
  "invar s \<Longrightarrow> so_update ops j ev s = (Inr (), s') \<Longrightarrow> so_get ops (job_id j) s' = Inr (Some j)"
  using update_ok [of s j ev s'] update_invar [of s j ev "Inr ()" s'] by (simp add: get_view)

end

text \<open>A store whose index is a job index inherits the laws of reading.\<close>

lemma index_load_all:
  assumes "index_ok m"
  shows "distinct (map job_id (mem_load_all m))"
    and "j \<in> set (mem_load_all m) \<longleftrightarrow> mem_get (job_id j) m = Some j"
  using assms index_ids [OF assms] index_ok_get [OF assms] by (simp_all add: index_ok_def)

lemma index_pending:
  assumes "index_ok m"
  shows "distinct (map job_id (mem_pending m))"
    and "j \<in> set (mem_pending m) \<longleftrightarrow> mem_get (job_id j) m = Some j \<and> status j = Pending"
  using index_load_all [OF assms]
  by (auto simp: mem_pending_def mem_load_all_def distinct_map_filter)

interpretation memory_store: job_store memory_ops "\<lambda>m i. mem_get i m" index_ok
proof
  fix m assume ok: "index_ok m"
  show "\<exists>js. so_load_all memory_ops m = Inr js \<and> distinct (map job_id js) \<and>
          (\<forall>j. j \<in> set js \<longleftrightarrow> mem_get (job_id j) m = Some j)"
    using index_load_all [OF ok] by (simp add: memory_ops_def)
  show "\<exists>js. so_pending memory_ops m = Inr js \<and> distinct (map job_id js) \<and>
          (\<forall>j. j \<in> set js \<longleftrightarrow> mem_get (job_id j) m = Some j \<and> status j = Pending)"
    using index_pending [OF ok] by (simp add: memory_ops_def)
qed (auto simp: memory_ops_def hmap_simps fun_eq_iff intro: index_ok_put)

section \<open>Properties\<close>

text \<open>A prune of the in-memory store keeps every job that is not terminal, keeps the lesser
  of the limit and the number of terminal jobs, changes no record it keeps, and drops only
  terminal jobs that ended no later than every terminal job it keeps.\<close>

theorem mem_prune_terminal_spec:
  assumes "index_ok m"
  shows "set (mem_prune_terminal n m) \<subseteq> set m \<and>
         {e \<in> set m. \<not> is_terminal (snd e)} \<subseteq> set (mem_prune_terminal n m) \<and>
         length (filter (\<lambda>(i, j). is_terminal j) (mem_prune_terminal n m)) =
           min n (length (filter (\<lambda>(i, j). is_terminal j) m)) \<and>
         (\<forall>d \<in> set m - set (mem_prune_terminal n m). \<forall>k \<in> set (mem_prune_terminal n m).
            is_terminal (snd k) \<longrightarrow> terminal_time (snd d) \<le> terminal_time (snd k))"
  using assms mem_prune_kept [OF assms] mem_prune_count [OF assms, of n] mem_prune_oldest [OF assms]
  by (auto simp: mem_prune_terminal_def set_fold_delete)

theorem mem_prune_terminal_spec_witness:
  "\<exists>m. index_ok m \<and> length m = 2 \<and> length (mem_prune_terminal 1 m) = 1"
proof -
  let ?a = "complete 5 \<lparr>jr_job_id = JobId ''a'', jr_success = True, jr_output = None, jr_error = None,
       jr_completed_at = 5\<rparr> (job_new (JobId ''a'') ''n'' JNull Low 3)"
  let ?b = "cancel 4 (job_new (JobId ''b'') ''n'' JNull Low 3)"
  let ?m = "[(JobId ''a'', ?a), (JobId ''b'', ?b)]"
  have ok: "index_ok ?m" by (simp add: index_ok_def)
  have t: "is_terminal ?a" "is_terminal ?b" by (simp_all add: is_terminal_def)
  from mem_prune_terminal_spec [OF ok, of 1] t
  have "length (filter (\<lambda>(i, j). is_terminal j) (mem_prune_terminal 1 ?m)) = 1"
    "set (mem_prune_terminal 1 ?m) \<subseteq> set ?m" by simp_all
  moreover from this(2) t have "filter (\<lambda>(i, j). is_terminal j) (mem_prune_terminal 1 ?m) = mem_prune_terminal 1 ?m"
    by (auto simp: filter_id_conv)
  ultimately show ?thesis using ok by (intro exI [of _ ?m]) simp
qed

end
