(* ===== verification/Ledger.thy ===== *)
theory Ledger
  imports Prelude
begin

text \<open>
  The shared JSONL ledger scanner of crate \<open>workflow-journal\<close> (\<open>health.rs\<close> and the line
  reader of \<open>lib.rs\<close>). A ledger is a byte stream; the scanner reads one physical line at a
  time, hands complete lines to a decoder (the trait \<open>LedgerDecoder\<close>, here a record of
  functions), checks the sequence rule and accumulates health facts.
\<close>

section \<open>Line reader\<close>

text \<open>A buffered reader delivers the bytes of the stream and then either the end of the
  stream or an I/O error.\<close>

datatype io_error = ReadFault | DecoderFault

record reader =
  rd_bytes :: bytes
  rd_fault :: bool

definition newline :: byte where
  "newline = 10"

definition ends_nl :: "bytes \<Rightarrow> bool" where
  "ends_nl bs \<longleftrightarrow> bs \<noteq> [] \<and> last bs = newline"

text \<open>\<open>take(limit).read_until(b'\n')\<close>: the bytes up to and including the next newline, cut
  at the limit, and what stays in the stream.\<close>

fun read_until :: "nat \<Rightarrow> bytes \<Rightarrow> bytes \<times> bytes" where
  "read_until lim [] = ([], [])"
| "read_until lim (b # bs) =
     (if lim = 0 then ([], b # bs)
      else if b = newline then ([b], bs)
      else (let (l, r) = read_until (lim - 1) bs in (b # l, r)))"

datatype jsonl_read = Eof | Complete bytes | Torn bytes | TooLong

definition read_jsonl_line :: "nat \<Rightarrow> reader \<Rightarrow> io_error + (jsonl_read \<times> reader)" where
  "read_jsonl_line max_bytes rd =
     (let lim = sat_add max_bytes 1;
          (l, r) = read_until lim (rd_bytes rd);
          rd' = rd\<lparr>rd_bytes := r\<rparr>
      in if rd_fault rd \<and> r = [] \<and> length l < lim \<and> \<not> ends_nl l then Inl ReadFault
         else if l = [] then Inr (Eof, rd')
         else if max_bytes < length l then Inr (TooLong, rd')
         else if ends_nl l then Inr (Complete l, rd')
         else Inr (Torn l, rd'))"

section \<open>Scan facts\<close>

datatype sequence_rule = SeqNone | Increasing | Consecutive u64

datatype sequence_verdict = Unsequenced | SeqValid | SeqInvalid

datatype scan_control = Continue | Stop

datatype ledger_issue_kind =
    TornTail | OversizedLine | DecodeIssue | SchemaIssue | SequenceIssue | SequenceExhausted
  | ChecksumIssue | InvalidState

record ledger_issue =
  li_kind :: ledger_issue_kind
  li_line :: "nat option"
  li_offset :: "nat option"

record ledger_health =
  lh_exists :: bool
  bytes_observed :: nat
  complete_lines :: nat
  accepted_records :: nat
  decoded_records :: nat
  incompatible_records :: nat
  max_observed_sequence :: "u64 option"
  last_accepted_sequence :: "u64 option"
  issue_counts :: "ledger_issue_kind \<Rightarrow> nat"
  first_issue :: "ledger_issue option"

definition default_health :: ledger_health where
  "default_health =
     \<lparr>lh_exists = False, bytes_observed = 0, complete_lines = 0, accepted_records = 0,
      decoded_records = 0, incompatible_records = 0, max_observed_sequence = None,
      last_accepted_sequence = None, issue_counts = (\<lambda>_. 0), first_issue = None\<rparr>"

definition issue_count :: "ledger_health \<Rightarrow> ledger_issue_kind \<Rightarrow> nat" where
  "issue_count h k = issue_counts h k"

definition record_issue :: "ledger_issue_kind \<Rightarrow> nat \<Rightarrow> nat \<Rightarrow> ledger_health \<Rightarrow> ledger_health" where
  "record_issue k line offset h =
     h\<lparr>issue_counts := (issue_counts h)(k := sat_add (issue_counts h k) 1),
       first_issue := (case first_issue h of
           Some i \<Rightarrow> Some i
         | None \<Rightarrow> Some \<lparr>li_kind = k, li_line = Some line, li_offset = Some offset\<rparr>)\<rparr>"

section \<open>Decoders\<close>

datatype record_observation =
    Skip
  | Accepted "u64 option"
  | Rejected "u64 option" ledger_issue_kind

record 'r prepared_record =
  observation :: record_observation
  pr_record :: "'r option"

record jsonl_line =
  ln_offset :: nat
  ln_number :: nat
  ln_bytes :: bytes

text \<open>The trait \<open>LedgerDecoder\<close>: both methods take the decoder mutably and may fail.\<close>

record ('d, 'r) ledger_decoder =
  ld_decode :: "'d \<Rightarrow> jsonl_line \<Rightarrow> io_error + ('r prepared_record \<times> 'd)"
  ld_apply :: "'d \<Rightarrow> jsonl_line \<Rightarrow> 'r prepared_record \<Rightarrow> sequence_verdict \<Rightarrow>
                 io_error + (scan_control \<times> 'd)"

record scan_options =
  max_line_bytes :: nat
  seq_rule :: sequence_rule

section \<open>The scan loop\<close>

definition sequence_valid :: "sequence_rule \<Rightarrow> ledger_health \<Rightarrow> u64 option \<Rightarrow> bool" where
  "sequence_valid rule h sq =
     (case sq of
        None \<Rightarrow> True
      | Some s \<Rightarrow>
          (case rule of
             SeqNone \<Rightarrow> True
           | Increasing \<Rightarrow>
               (case max_observed_sequence h of None \<Rightarrow> True | Some previous \<Rightarrow> previous < s)
           | Consecutive first \<Rightarrow>
               (case last_accepted_sequence h of
                  Some previous \<Rightarrow> checked_succ previous
                | None \<Rightarrow> Some first) = Some s))"

definition max_opt :: "u64 option \<Rightarrow> u64 \<Rightarrow> u64" where
  "max_opt m s = (case m of None \<Rightarrow> s | Some p \<Rightarrow> if p < s then s else p)"

text \<open>Health facts of one observed record, from the decoded observation to the verdict.\<close>

definition observe ::
  "sequence_rule \<Rightarrow> nat \<Rightarrow> nat \<Rightarrow> record_observation \<Rightarrow> ledger_health \<Rightarrow>
   sequence_verdict \<times> ledger_health" where
  "observe rule number offset obs h =
     (let (sq, rejected, skipped) =
            (case obs of
               Skip \<Rightarrow> (None, False, True)
             | Accepted s \<Rightarrow> (s, False, False)
             | Rejected s k \<Rightarrow> (s, True, False));
          h1 = (case obs of Rejected s k \<Rightarrow> record_issue k number offset h | _ \<Rightarrow> h);
          valid = sequence_valid rule h1 sq;
          h2 = (if valid then h1 else record_issue SequenceIssue number offset h1);
          h3 = (case sq of
                  None \<Rightarrow> h2
                | Some s \<Rightarrow>
                    (let h' = h2\<lparr>max_observed_sequence := Some (max_opt (max_observed_sequence h2) s)\<rparr>
                     in if s = - 1 \<and> issue_count h' SequenceExhausted = 0
                        then record_issue SequenceExhausted number offset h' else h'));
          verdict = (if rejected \<or> \<not> valid then SeqInvalid
                     else if sq \<noteq> None \<and> rule \<noteq> SeqNone then SeqValid
                     else Unsequenced);
          h4 = (if verdict = SeqInvalid
                then h3\<lparr>incompatible_records := sat_add (incompatible_records h3) 1\<rparr> else h3);
          h5 = (if \<not> skipped \<and> verdict \<noteq> SeqInvalid
                then h4\<lparr>accepted_records := sat_add (accepted_records h4) 1,
                        last_accepted_sequence :=
                          (if sq \<noteq> None then sq else last_accepted_sequence h4)\<rparr>
                else h4)
      in (verdict, h5))"

text \<open>A complete line at its offset, and the health on entry to it.\<close>

definition line_at :: "ledger_health \<Rightarrow> bytes \<Rightarrow> jsonl_line" where
  "line_at h bs =
     \<lparr>ln_offset = bytes_observed h, ln_number = sat_add (complete_lines h) 1, ln_bytes = bs\<rparr>"

definition enter_line :: "ledger_health \<Rightarrow> bytes \<Rightarrow> 'r prepared_record \<Rightarrow> ledger_health" where
  "enter_line h bs p =
     (let h1 = h\<lparr>bytes_observed := sat_add (bytes_observed h) (length bs),
                complete_lines := sat_add (complete_lines h) 1\<rparr>
      in if pr_record p \<noteq> None
         then h1\<lparr>decoded_records := sat_add (decoded_records h1) 1\<rparr> else h1)"

lemma enter_line_simps [simp]:
  "max_observed_sequence (enter_line h bs p) = max_observed_sequence h"
  "last_accepted_sequence (enter_line h bs p) = last_accepted_sequence h"
  "bytes_observed (enter_line h bs p) = sat_add (bytes_observed h) (length bs)"
  "complete_lines (enter_line h bs p) = sat_add (complete_lines h) 1"
  "accepted_records (enter_line h bs p) = accepted_records h"
  "incompatible_records (enter_line h bs p) = incompatible_records h"
  "issue_count (enter_line h bs p) k = issue_count h k"
  by (simp_all add: enter_line_def Let_def issue_count_def)

text \<open>One complete line: decode, observe, apply.\<close>

definition scan_complete ::
  "('d, 'r) ledger_decoder \<Rightarrow> scan_options \<Rightarrow> ledger_health \<Rightarrow> 'd \<Rightarrow> bytes \<Rightarrow>
   io_error + (scan_control \<times> ledger_health \<times> 'd)" where
  "scan_complete D opts h d bs =
     (let line = line_at h bs
      in case ld_decode D d line of
           Inl e \<Rightarrow> Inl e
         | Inr (prepared, d1) \<Rightarrow>
             (case observe (seq_rule opts) (ln_number line) (ln_offset line)
                     (observation prepared) (enter_line h bs prepared) of
                (verdict, h1) \<Rightarrow>
                  (case ld_apply D d1 line prepared verdict of
                     Inl e \<Rightarrow> Inl e
                   | Inr (control, d2) \<Rightarrow> Inr (control, h1, d2))))"

lemma length_read_until_le: "length (snd (read_until lim bs)) \<le> length bs"
  by (induction lim bs rule: read_until.induct) (auto simp: Let_def split: prod.splits)

lemma read_until_append: "fst (read_until lim bs) @ snd (read_until lim bs) = bs"
  by (induction lim bs rule: read_until.induct) (auto simp: Let_def split: prod.splits)

lemma read_jsonl_line_consumes:
  assumes "read_jsonl_line m rd = Inr (Complete l, rd')"
  shows "rd_bytes rd = l @ rd_bytes rd'" and "l \<noteq> []"
  using assms read_until_append [of "sat_add m 1" "rd_bytes rd"]
  by (auto simp: read_jsonl_line_def Let_def split: prod.splits if_splits)

lemma read_jsonl_line_shorter:
  "read_jsonl_line m rd = Inr (Complete l, rd') \<Longrightarrow> length (rd_bytes rd') < length (rd_bytes rd)"
  using read_jsonl_line_consumes [of m rd l rd'] by simp

text \<open>The loop: \<open>first\<close> is the line a caller already read to detect the format.\<close>

function scan ::
  "('d, 'r) ledger_decoder \<Rightarrow> scan_options \<Rightarrow> ledger_health \<Rightarrow> 'd \<Rightarrow> jsonl_read option \<Rightarrow> reader \<Rightarrow>
   io_error + (ledger_health \<times> 'd)" where
  "scan D opts h d first rd =
     (case (case first of
              Some r \<Rightarrow> Inr (r, rd)
            | None \<Rightarrow> read_jsonl_line (max_line_bytes opts) rd) of
        Inl e \<Rightarrow> Inl e
      | Inr (Eof, _) \<Rightarrow> Inr (h, d)
      | Inr (TooLong, _) \<Rightarrow>
          Inr (record_issue OversizedLine (sat_add (complete_lines h) 1) (bytes_observed h)
                 (h\<lparr>bytes_observed := sat_add (bytes_observed h) (sat_add (max_line_bytes opts) 1)\<rparr>), d)
      | Inr (Torn bs, _) \<Rightarrow>
          Inr (record_issue TornTail (sat_add (complete_lines h) 1) (bytes_observed h)
                 (h\<lparr>bytes_observed := sat_add (bytes_observed h) (length bs)\<rparr>), d)
      | Inr (Complete bs, rd') \<Rightarrow>
          (case scan_complete D opts h d bs of
             Inl e \<Rightarrow> Inl e
           | Inr (Stop, h', d') \<Rightarrow> Inr (h', d')
           | Inr (Continue, h', d') \<Rightarrow> scan D opts h' d' None rd'))"
  by pat_completeness auto
termination
  by (relation "measures [\<lambda>(D, opts, h, d, first, rd). length (rd_bytes rd),
                          \<lambda>(D, opts, h, d, first, rd). case first of None \<Rightarrow> 0 | Some _ \<Rightarrow> 1]")
     (auto split: option.splits dest: read_jsonl_line_shorter)

declare scan.simps [simp del]

definition scan_jsonl ::
  "('d, 'r) ledger_decoder \<Rightarrow> scan_options \<Rightarrow> 'd \<Rightarrow> reader \<Rightarrow> io_error + (ledger_health \<times> 'd)" where
  "scan_jsonl D opts d rd = scan D opts (default_health\<lparr>lh_exists := True\<rparr>) d None rd"

definition scan_jsonl_prefetched ::
  "('d, 'r) ledger_decoder \<Rightarrow> scan_options \<Rightarrow> 'd \<Rightarrow> jsonl_read \<Rightarrow> reader \<Rightarrow>
   io_error + (ledger_health \<times> 'd)" where
  "scan_jsonl_prefetched D opts d first rd =
     scan D opts (default_health\<lparr>lh_exists := True\<rparr>) d (Some first) rd"

section \<open>Visiting every complete line\<close>

record jsonl_scan =
  js_torn_tail :: bool
  js_bytes_read :: nat

text \<open>The local \<open>Visitor\<close> of \<open>for_each_jsonl_line\<close>: every line is accepted without a
  sequence and handed to the callback.\<close>

definition visitor_decoder ::
  "('d \<Rightarrow> jsonl_line \<Rightarrow> io_error + 'd) \<Rightarrow> ('d, unit) ledger_decoder" where
  "visitor_decoder visit =
     \<lparr>ld_decode = (\<lambda>d line. Inr (\<lparr>observation = Accepted None, pr_record = None\<rparr>, d)),
      ld_apply = (\<lambda>d line p v. case visit d line of Inl e \<Rightarrow> Inl e | Inr d' \<Rightarrow> Inr (Continue, d'))\<rparr>"

definition for_each_jsonl_line ::
  "('d \<Rightarrow> jsonl_line \<Rightarrow> io_error + 'd) \<Rightarrow> 'd \<Rightarrow> reader \<Rightarrow> io_error + (jsonl_scan \<times> 'd)" where
  "for_each_jsonl_line visit d rd =
     (case scan_jsonl (visitor_decoder visit)
             \<lparr>max_line_bytes = u64_max, seq_rule = SeqNone\<rparr> d rd of
        Inl e \<Rightarrow> Inl e
      | Inr (h, d') \<Rightarrow>
          Inr (\<lparr>js_torn_tail = (0 < issue_count h TornTail), js_bytes_read = bytes_observed h\<rparr>, d'))"

text \<open>The health of a journal file as its owners report it.\<close>

record journal_health =
  jh_exists :: bool
  jh_bytes :: nat
  jh_records :: nat
  jh_torn_tail :: bool
  jh_incompatible :: nat

section \<open>Reference semantics: whole-file split into lines\<close>

text \<open>A line is a non-empty byte string whose only newline is its last byte.\<close>

definition is_line :: "bytes \<Rightarrow> bool" where
  "is_line l \<longleftrightarrow> ends_nl l \<and> newline \<notin> set (butlast l)"

fun split_lines :: "bytes \<Rightarrow> bytes list \<times> bytes" where
  "split_lines [] = ([], [])"
| "split_lines (b # bs) =
     (case split_lines bs of (ls, t) \<Rightarrow>
        if b = newline then ([b] # ls, t)
        else (case ls of [] \<Rightarrow> ([], b # t) | l # ls' \<Rightarrow> ((b # l) # ls', t)))"

fun scan_lines ::
  "('d, 'r) ledger_decoder \<Rightarrow> scan_options \<Rightarrow> ledger_health \<Rightarrow> 'd \<Rightarrow> bytes list \<Rightarrow>
   io_error + (scan_control \<times> ledger_health \<times> 'd)" where
  "scan_lines D opts h d [] = Inr (Continue, h, d)"
| "scan_lines D opts h d (l # ls) =
     (case scan_complete D opts h d l of
        Inl e \<Rightarrow> Inl e
      | Inr (Stop, h', d') \<Rightarrow> Inr (Stop, h', d')
      | Inr (Continue, h', d') \<Rightarrow> scan_lines D opts h' d' ls)"

definition finish_tail :: "ledger_health \<Rightarrow> bytes \<Rightarrow> ledger_health" where
  "finish_tail h t =
     (if t = [] then h
      else record_issue TornTail (sat_add (complete_lines h) 1) (bytes_observed h)
             (h\<lparr>bytes_observed := sat_add (bytes_observed h) (length t)\<rparr>))"

definition scan_split ::
  "('d, 'r) ledger_decoder \<Rightarrow> scan_options \<Rightarrow> ledger_health \<Rightarrow> 'd \<Rightarrow> bytes list \<Rightarrow> bytes \<Rightarrow>
   io_error + (ledger_health \<times> 'd)" where
  "scan_split D opts h d ls t =
     (case scan_lines D opts h d ls of
        Inl e \<Rightarrow> Inl e
      | Inr (Stop, h', d') \<Rightarrow> Inr (h', d')
      | Inr (Continue, h', d') \<Rightarrow> Inr (finish_tail h' t, d'))"

lemma split_lines_concat: "split_lines bs = (ls, t) \<Longrightarrow> bs = concat ls @ t"
  by (induction bs arbitrary: ls t rule: split_lines.induct)
     (auto split: prod.splits if_splits list.splits)

lemma is_line_Cons: "is_line l \<Longrightarrow> b \<noteq> newline \<Longrightarrow> is_line (b # l)"
  by (auto simp: is_line_def ends_nl_def)

lemma is_line_newline [simp]: "is_line [newline]"
  by (simp add: is_line_def ends_nl_def)

lemma split_lines_lines:
  "split_lines bs = (ls, t) \<Longrightarrow> list_all is_line ls \<and> newline \<notin> set t"
proof (induction bs arbitrary: ls t rule: split_lines.induct)
  case 1
  then show ?case by simp
next
  case (2 b bs)
  obtain ls' t' where split: "split_lines bs = (ls', t')" by fastforce
  then show ?case
    using 2 by (auto split: if_splits list.splits intro: is_line_Cons)
qed

lemma split_lines_step:
  assumes rest: "split_lines bs = (ls, t)"
  shows "is_line l \<Longrightarrow> split_lines (l @ bs) = (l # ls, t)"
proof (induction l)
  case Nil
  then show ?case by (simp add: is_line_def ends_nl_def)
next
  case (Cons b l)
  then show ?case
    by (cases "l = []") (auto simp: is_line_def ends_nl_def rest)
qed

lemma split_lines_tail: "newline \<notin> set t \<Longrightarrow> split_lines t = ([], t)"
  by (induction t) auto

lemma split_lines_unique:
  "list_all is_line ls \<Longrightarrow> newline \<notin> set t \<Longrightarrow> split_lines (concat ls @ t) = (ls, t)"
  by (induction ls) (auto simp: split_lines_tail split_lines_step)

lemma read_until_line:
  "is_line l \<Longrightarrow> length l \<le> lim \<Longrightarrow> read_until lim (l @ rest) = (l, rest)"
proof (induction l arbitrary: lim)
  case Nil
  then show ?case by (simp add: is_line_def ends_nl_def)
next
  case (Cons b l)
  then show ?case
    by (cases "l = []") (auto simp: is_line_def ends_nl_def)
qed

lemma read_until_no_newline:
  "newline \<notin> set t \<Longrightarrow> length t \<le> lim \<Longrightarrow> read_until lim t = (t, [])"
  by (induction t arbitrary: lim) auto

lemma is_line_ends [simp]: "is_line l \<Longrightarrow> ends_nl l"
  by (simp add: is_line_def)

lemma ends_nl_nonempty [simp]: "\<not> ends_nl []"
  by (simp add: ends_nl_def)

lemma is_line_nonempty [simp]: "is_line l \<Longrightarrow> l \<noteq> []"
  by (auto simp: is_line_def)

lemma not_ends_nl [simp]: "newline \<notin> set t \<Longrightarrow> \<not> ends_nl t"
  by (metis ends_nl_def last_in_set)

lemma le_sat_add: "n \<le> m \<Longrightarrow> n \<le> u64_max \<Longrightarrow> n \<le> sat_add m k"
  by (simp add: sat_add_def)

lemma read_jsonl_line_complete:
  assumes "is_line l" "length l \<le> m" "length l \<le> u64_max"
  shows "read_jsonl_line m \<lparr>rd_bytes = l @ rest, rd_fault = f\<rparr>
           = Inr (Complete l, \<lparr>rd_bytes = rest, rd_fault = f\<rparr>)"
  using assms read_until_line [OF assms(1), of "sat_add m 1" rest]
  by (auto simp: read_jsonl_line_def le_sat_add Let_def)

lemma read_jsonl_line_tail:
  assumes "newline \<notin> set t" "length t \<le> m" "length t \<le> u64_max"
  shows "read_jsonl_line m \<lparr>rd_bytes = t, rd_fault = False\<rparr>
           = Inr (if t = [] then Eof else Torn t, \<lparr>rd_bytes = [], rd_fault = False\<rparr>)"
  using assms read_until_no_newline [OF assms(1), of "sat_add m 1"]
  by (auto simp: read_jsonl_line_def le_sat_add Let_def)

lemma scan_eq_split:
  assumes "list_all (\<lambda>l. is_line l \<and> length l \<le> max_line_bytes opts \<and> length l \<le> u64_max) ls"
    and "newline \<notin> set t" "length t \<le> max_line_bytes opts" "length t \<le> u64_max"
  shows "scan D opts h d None \<lparr>rd_bytes = concat ls @ t, rd_fault = False\<rparr>
           = scan_split D opts h d ls t"
  using assms(1)
proof (induction ls arbitrary: h d)
  case Nil
  with assms(2-) show ?case
    by (subst scan.simps) (simp add: read_jsonl_line_tail scan_split_def finish_tail_def)
next
  case (Cons l ls)
  then show ?case
    by (subst scan.simps)
       (auto simp: read_jsonl_line_complete scan_split_def split: sum.splits scan_control.splits)
qed

section \<open>Accounting\<close>

lemma record_issue_frame [simp]:
  "bytes_observed (record_issue k n off h) = bytes_observed h"
  "complete_lines (record_issue k n off h) = complete_lines h"
  "accepted_records (record_issue k n off h) = accepted_records h"
  "decoded_records (record_issue k n off h) = decoded_records h"
  "incompatible_records (record_issue k n off h) = incompatible_records h"
  "max_observed_sequence (record_issue k n off h) = max_observed_sequence h"
  "last_accepted_sequence (record_issue k n off h) = last_accepted_sequence h"
  by (simp_all add: record_issue_def)

lemma issue_count_record_issue:
  "issue_count (record_issue k n off h) k' =
     (if k' = k then sat_add (issue_count h k) 1 else issue_count h k')"
  by (simp add: record_issue_def issue_count_def)

definition obs_sequence :: "record_observation \<Rightarrow> u64 option" where
  "obs_sequence obs = (case obs of Skip \<Rightarrow> None | Accepted s \<Rightarrow> s | Rejected s k \<Rightarrow> s)"

definition obs_rejected :: "record_observation \<Rightarrow> bool" where
  "obs_rejected obs \<longleftrightarrow> (case obs of Rejected s k \<Rightarrow> True | _ \<Rightarrow> False)"

lemmas obs_defs = obs_sequence_def obs_rejected_def

lemma sequence_valid_record_issue [simp]:
  "sequence_valid rule (record_issue k n off h) sq = sequence_valid rule h sq"
  by (simp add: sequence_valid_def split: option.split sequence_rule.split)

lemma observe_frame [simp]:
  "bytes_observed (snd (observe rule n off obs h)) = bytes_observed h"
  "complete_lines (snd (observe rule n off obs h)) = complete_lines h"
  "decoded_records (snd (observe rule n off obs h)) = decoded_records h"
  by (auto simp: observe_def Let_def split: record_observation.splits option.splits)

lemma observe_verdict:
  "fst (observe rule n off obs h) =
     (if obs_rejected obs \<or> \<not> sequence_valid rule h (obs_sequence obs) then SeqInvalid
      else if obs_sequence obs \<noteq> None \<and> rule \<noteq> SeqNone then SeqValid else Unsequenced)"
  by (auto simp: observe_def obs_defs Let_def split: record_observation.splits)

lemma observe_max:
  "max_observed_sequence (snd (observe rule n off obs h)) =
     (case obs_sequence obs of
        None \<Rightarrow> max_observed_sequence h
      | Some s \<Rightarrow> Some (max_opt (max_observed_sequence h) s))"
  by (auto simp: observe_def obs_defs Let_def split: record_observation.splits option.splits)

lemma observe_last:
  "last_accepted_sequence (snd (observe rule n off obs h)) =
     (if fst (observe rule n off obs h) \<noteq> SeqInvalid \<and> obs_sequence obs \<noteq> None
      then obs_sequence obs else last_accepted_sequence h)"
  by (auto simp: observe_def obs_defs Let_def split: record_observation.splits option.splits)

lemma observe_incompatible:
  "incompatible_records (snd (observe rule n off obs h)) =
     (if fst (observe rule n off obs h) = SeqInvalid
      then sat_add (incompatible_records h) 1 else incompatible_records h)"
  by (auto simp: observe_def Let_def split: record_observation.splits option.splits)

lemma observe_accepted:
  "accepted_records (snd (observe rule n off obs h)) =
     (if fst (observe rule n off obs h) \<noteq> SeqInvalid \<and> obs \<noteq> Skip
      then sat_add (accepted_records h) 1 else accepted_records h)"
  by (auto simp: observe_def Let_def split: record_observation.splits option.splits)

section \<open>Invariants of a scan\<close>

text \<open>A property of health and decoder state that every complete line keeps, and that the
  closing tail issue keeps, holds of the result, whatever the reader delivers.\<close>

lemma scan_invariant:
  assumes step: "\<And>h d bs c h' d'. I h d \<Longrightarrow> scan_complete D opts h d bs = Inr (c, h', d') \<Longrightarrow> I h' d'"
    and tail: "\<And>h d k n off m. I h d \<Longrightarrow> I (record_issue k n off (h\<lparr>bytes_observed := m\<rparr>)) d"
    and init: "I h d" and res: "scan D opts h d first rd = Inr (h', d')"
  shows "I h' d'"
  using assms
proof (induction D opts h d first rd rule: scan.induct)
  case (1 D opts h d first rd)
  let ?next = "case first of Some r \<Rightarrow> Inr (r, rd) | None \<Rightarrow> read_jsonl_line (max_line_bytes opts) rd"
  show ?case
  proof (cases ?next)
    case (Inl e)
    with "1.prems"(4) show ?thesis by (simp add: scan.simps [of D opts h d first rd])
  next
    case (Inr p)
    obtain r rd' where p: "p = (r, rd')" by fastforce
    note unfolded = "1.prems"(4) [unfolded scan.simps [of D opts h d first rd] Inr p]
    show ?thesis
    proof (cases r)
      case (Complete bs)
      show ?thesis
      proof (cases "scan_complete D opts h d bs")
        case (Inr q)
        obtain c h1 d1 where q: "q = (c, h1, d1)" by (metis prod_cases3)
        have I1: "I h1 d1" using "1.prems"(1) [OF "1.prems"(3)] Inr q by blast
        show ?thesis
        proof (cases c)
          case Continue
          with unfolded Complete Inr q have "scan D opts h1 d1 None rd' = Inr (h', d')" by simp
          from "1.IH" [OF \<open>?next = Inr p\<close> p [symmetric] Complete Inr q [symmetric] Continue refl
              "1.prems"(1,2) I1 this]
          show ?thesis by simp
        qed (use unfolded Complete Inr q I1 in simp)
      qed (use unfolded Complete in simp)
    qed (use unfolded "1.prems"(2,3) in auto)
  qed
qed

text \<open>The sequence numbers a decoder sees with the verdict \<open>Valid\<close>, in order.\<close>

definition logging :: "('d, 'r) ledger_decoder \<Rightarrow> ('d \<times> u64 list, 'r) ledger_decoder" where
  "logging D =
     \<lparr>ld_decode = (\<lambda>(d, log) line.
        case ld_decode D d line of Inl e \<Rightarrow> Inl e | Inr (p, d') \<Rightarrow> Inr (p, (d', log))),
      ld_apply = (\<lambda>(d, log) line p v.
        case ld_apply D d line p v of
          Inl e \<Rightarrow> Inl e
        | Inr (c, d') \<Rightarrow>
            Inr (c, (d', if v = SeqValid then log @ [the (obs_sequence (observation p))] else log)))\<rparr>"

lemma logging_simps [simp]:
  "ld_decode (logging D) (d, log) line =
     (case ld_decode D d line of Inl e \<Rightarrow> Inl e | Inr (p, d') \<Rightarrow> Inr (p, (d', log)))"
  "ld_apply (logging D) (d, log) line p v =
     (case ld_apply D d line p v of
        Inl e \<Rightarrow> Inl e
      | Inr (c, d') \<Rightarrow>
          Inr (c, (d', if v = SeqValid then log @ [the (obs_sequence (observation p))] else log)))"
  by (simp_all add: logging_def)

lemma scan_complete_InrE:
  assumes "scan_complete D opts h d bs = Inr (c, h', d')"
  obtains p d1 v where
    "ld_decode D d (line_at h bs) = Inr (p, d1)"
    "observe (seq_rule opts) (ln_number (line_at h bs)) (ln_offset (line_at h bs))
       (observation p) (enter_line h bs p) = (v, h')"
    "ld_apply D d1 (line_at h bs) p v = Inr (c, d')"
proof -
  from assms obtain p d1 where dec: "ld_decode D d (line_at h bs) = Inr (p, d1)"
    by (cases "ld_decode D d (line_at h bs)") (auto simp: scan_complete_def)
  obtain v h1 where obs: "observe (seq_rule opts) (ln_number (line_at h bs)) (ln_offset (line_at h bs))
       (observation p) (enter_line h bs p) = (v, h1)" by fastforce
  from assms dec obs have "ld_apply D d1 (line_at h bs) p v = Inr (c, d')" and "h1 = h'"
    by (cases "ld_apply D d1 (line_at h bs) p v"; auto simp: scan_complete_def)+
  with dec obs that show thesis by blast
qed

lemma scan_complete_logging:
  assumes "scan_complete (logging D) opts h (d, log) bs = Inr (c, h', (d', log'))"
  obtains obs h1 n off v where
    "observe (seq_rule opts) n off obs h1 = (v, h')"
    "log' = (if v = SeqValid then log @ [the (obs_sequence obs)] else log)"
    "max_observed_sequence h1 = max_observed_sequence h"
    "last_accepted_sequence h1 = last_accepted_sequence h"
proof -
  from scan_complete_InrE [OF assms] obtain p s1 v where
    dec: "ld_decode (logging D) (d, log) (line_at h bs) = Inr (p, s1)" and
    obs: "observe (seq_rule opts) (ln_number (line_at h bs)) (ln_offset (line_at h bs))
       (observation p) (enter_line h bs p) = (v, h')" and
    app: "ld_apply (logging D) s1 (line_at h bs) p v = Inr (c, (d', log'))" .
  from dec obtain d1 where "s1 = (d1, log)" by (auto split: sum.splits prod.splits)
  with app have log': "log' = (if v = SeqValid then log @ [the (obs_sequence (observation p))] else log)"
    by (auto split: sum.splits prod.splits if_splits)
  show thesis by (rule that [OF obs log']) simp_all
qed

definition consecutive_from :: "u64 \<Rightarrow> u64 list \<Rightarrow> bool" where
  "consecutive_from f xs \<longleftrightarrow> (\<forall>i < length xs. unat (xs ! i) = unat f + i)"

definition increasing_inv :: "ledger_health \<Rightarrow> u64 list \<Rightarrow> bool" where
  "increasing_inv h log \<longleftrightarrow>
     sorted_wrt (<) log \<and> (\<forall>s \<in> set log. \<exists>m. max_observed_sequence h = Some m \<and> s \<le> m)"

definition consecutive_inv :: "u64 \<Rightarrow> ledger_health \<Rightarrow> u64 list \<Rightarrow> bool" where
  "consecutive_inv f h log \<longleftrightarrow>
     consecutive_from f log \<and>
     last_accepted_sequence h = (if log = [] then None else Some (last log))"

lemma max_opt_ge [simp]: "s \<le> max_opt m s" "m = Some p \<Longrightarrow> p \<le> max_opt m s"
  by (auto simp: max_opt_def split: option.splits)

lemma observe_max_grows:
  assumes "observe rule n off obs h1 = (v, h')" "max_observed_sequence h1 = Some m"
  shows "\<exists>m'. max_observed_sequence h' = Some m' \<and> m \<le> m'"
  using assms observe_max [of rule n off obs h1] max_opt_ge(2) [OF assms(2)]
  by (auto split: option.splits)

lemma observe_valid:
  assumes "observe rule n off obs h1 = (SeqValid, h')"
  obtains s where "obs_sequence obs = Some s" "sequence_valid rule h1 (Some s)"
    "max_observed_sequence h' = Some (max_opt (max_observed_sequence h1) s)"
    "last_accepted_sequence h' = Some s"
  using assms observe_verdict [of rule n off obs h1] observe_max [of rule n off obs h1]
    observe_last [of rule n off obs h1]
  by (auto split: if_splits)

lemma observe_not_valid_last:
  assumes "observe (Consecutive f) n off obs h1 = (v, h')" "v \<noteq> SeqValid"
  shows "last_accepted_sequence h' = last_accepted_sequence h1"
  using assms observe_verdict [of "Consecutive f" n off obs h1] observe_last [of "Consecutive f" n off obs h1]
  by (auto split: if_splits)

lemma observe_increasing:
  assumes obs: "observe Increasing n off obs h1 = (v, h')" and inv: "increasing_inv h1 log"
  shows "increasing_inv h' (if v = SeqValid then log @ [the (obs_sequence obs)] else log)"
proof (cases "v = SeqValid")
  case True
  with obs obtain s where s: "obs_sequence obs = Some s" "sequence_valid Increasing h1 (Some s)"
    and max: "max_observed_sequence h' = Some (max_opt (max_observed_sequence h1) s)"
    by (auto elim: observe_valid)
  have "x < s \<and> x \<le> max_opt (max_observed_sequence h1) s" if x: "x \<in> set log" for x
  proof -
    from inv x obtain m where m: "max_observed_sequence h1 = Some m" "x \<le> m"
      by (auto simp: increasing_inv_def)
    with s(2) have "m < s" by (simp add: sequence_valid_def)
    with m show ?thesis by (auto simp: max_opt_def)
  qed
  with True inv s max show ?thesis
    by (simp add: increasing_inv_def sorted_wrt_append)
next
  case False
  have "\<exists>m'. max_observed_sequence h' = Some m' \<and> x \<le> m'" if "x \<in> set log" for x
  proof -
    from inv that obtain m where "max_observed_sequence h1 = Some m" "x \<le> m"
      by (auto simp: increasing_inv_def)
    with observe_max_grows [OF obs] show ?thesis by force
  qed
  with False inv show ?thesis by (simp add: increasing_inv_def)
qed

lemma consecutive_from_snoc:
  assumes "consecutive_from f log" "(if log = [] then Some f else checked_succ (last log)) = Some s"
  shows "consecutive_from f (log @ [s])"
proof -
  have "unat s = unat f + length log"
  proof (cases "log = []")
    case False
    with assms(2) have "last log \<noteq> - 1" "s = last log + 1"
      by (auto simp: checked_succ_Some_iff)
    moreover from False assms(1) have "unat (last log) = unat f + (length log - 1)"
      by (simp add: consecutive_from_def last_conv_nth)
    ultimately show ?thesis using False by (simp add: unat_succ)
  qed (use assms in simp)
  with assms(1) show ?thesis
    by (auto simp: consecutive_from_def nth_append less_Suc_eq)
qed

lemma observe_consecutive:
  assumes obs: "observe (Consecutive f) n off obs h1 = (v, h')" and inv: "consecutive_inv f h1 log"
  shows "consecutive_inv f h' (if v = SeqValid then log @ [the (obs_sequence obs)] else log)"
proof (cases "v = SeqValid")
  case True
  with obs obtain s where s: "obs_sequence obs = Some s" "sequence_valid (Consecutive f) h1 (Some s)"
    and last: "last_accepted_sequence h' = Some s"
    by (auto elim: observe_valid)
  from s(2) inv have "consecutive_from f (log @ [s])"
    by (intro consecutive_from_snoc) (auto simp: consecutive_inv_def sequence_valid_def)
  with True s last show ?thesis by (simp add: consecutive_inv_def)
next
  case False
  with inv observe_not_valid_last [OF obs] show ?thesis by (simp add: consecutive_inv_def)
qed

lemma scan_logging_inv:
  assumes obs: "\<And>n off obs h1 v h' log. observe (seq_rule opts) n off obs h1 = (v, h') \<Longrightarrow> J h1 log \<Longrightarrow>
                  J h' (if v = SeqValid then log @ [the (obs_sequence obs)] else log)"
    and cong: "\<And>h h1 log. max_observed_sequence h1 = max_observed_sequence h \<Longrightarrow>
                 last_accepted_sequence h1 = last_accepted_sequence h \<Longrightarrow> J h1 log = J h log"
    and res: "scan (logging D) opts h (d, log) first rd = Inr (h', (d', log'))"
    and init: "J h log"
  shows "J h' log'"
proof -
  have "(\<lambda>h (d, log). J h log) h' (d', log')"
  proof (rule scan_invariant [where I = "\<lambda>h (d, log). J h log", OF _ _ _ res], goal_cases)
    case (1 h s bs c h' s')
    obtain d log d' log' where s: "s = (d, log)" "s' = (d', log')" by (metis surj_pair)
    from 1(2) [unfolded s] obtain ob h1 n off v
      where o: "observe (seq_rule opts) n off ob h1 = (v, h')"
      and l: "log' = (if v = SeqValid then log @ [the (obs_sequence ob)] else log)"
      and eq: "max_observed_sequence h1 = max_observed_sequence h"
        "last_accepted_sequence h1 = last_accepted_sequence h"
      by (rule scan_complete_logging)
    from 1(1) cong [OF eq] have "J h1 log" by (simp add: s)
    from obs [OF o this] show ?case by (simp add: s l)
  next
    case (2 h s k n off m)
    obtain d log where s: "s = (d, log)" by fastforce
    have "J (record_issue k n off (h\<lparr>bytes_observed := m\<rparr>)) log = J h log"
      by (rule cong) simp_all
    with 2 show ?case by (simp add: s)
  next
    case 3
    then show ?case using init by simp
  qed
  then show ?thesis by simp
qed

section \<open>Truncated and faulty ledgers\<close>

text \<open>The number of lines that lie wholly within the first \<open>n\<close> bytes.\<close>

fun whole_lines :: "nat \<Rightarrow> bytes list \<Rightarrow> nat" where
  "whole_lines n [] = 0"
| "whole_lines n (l # ls) = (if length l \<le> n then Suc (whole_lines (n - length l) ls) else 0)"

lemma take_is_line: "is_line l \<Longrightarrow> n < length l \<Longrightarrow> newline \<notin> set (take n l)"
  by (cases l rule: rev_cases) (auto simp: is_line_def dest: in_set_takeD)

lemma take_whole_lines:
  assumes "list_all is_line ls"
  shows "\<exists>t. take n (concat ls) = concat (take (whole_lines n ls) ls) @ t \<and> newline \<notin> set t \<and>
             length t = min n (length (concat ls)) - length (concat (take (whole_lines n ls) ls))"
  using assms
proof (induction n ls rule: whole_lines.induct)
  case (2 n l ls)
  show ?case
  proof (cases "length l \<le> n")
    case True
    with 2 obtain t where "take (n - length l) (concat ls) = concat (take (whole_lines (n - length l) ls) ls) @ t"
      "newline \<notin> set t"
      "length t = min (n - length l) (length (concat ls)) -
                  length (concat (take (whole_lines (n - length l) ls) ls))"
      by auto
    with True show ?thesis by (intro exI [of _ t]) (auto simp: min_def)
  next
    case False
    with 2 show ?thesis by (auto simp: take_is_line)
  qed
qed simp

lemma scan_lines_append:
  "scan_lines D opts h d (xs @ ys) =
     (case scan_lines D opts h d xs of
        Inr (Continue, h', d') \<Rightarrow> scan_lines D opts h' d' ys
      | r \<Rightarrow> r)"
  by (induction xs arbitrary: h d) (auto split: sum.splits scan_control.splits)

lemma scan_prefetched_complete:
  assumes "is_line l" "length l \<le> max_line_bytes opts" "length l \<le> u64_max"
  shows "scan D opts h d (Some (Complete l)) \<lparr>rd_bytes = bs, rd_fault = f\<rparr>
           = scan D opts h d None \<lparr>rd_bytes = l @ bs, rd_fault = f\<rparr>"
  using assms by (subst (1 2) scan.simps) (simp add: read_jsonl_line_complete)

text \<open>A reader that faults after its bytes never delivers a torn or an empty last line.\<close>

lemma read_until_stop:
  "length (fst (read_until lim bs)) < lim \<Longrightarrow> \<not> ends_nl (fst (read_until lim bs)) \<Longrightarrow> snd (read_until lim bs) = []"
proof (induction lim bs rule: read_until.induct)
  case (2 lim b bs)
  show ?case
  proof (cases "fst (read_until (lim - 1) bs) = []")
    case True
    then show ?thesis using 2 by (cases bs) (auto simp: ends_nl_def Let_def split: prod.splits if_splits)
  next
    case False
    then show ?thesis using 2 by (auto simp: ends_nl_def Let_def split: prod.splits if_splits)
  qed
qed simp

lemma read_jsonl_line_fault:
  assumes "rd_fault rd" "m < u64_max" "read_jsonl_line m rd = Inr (r, rd')"
  shows "rd_fault rd'" "r = TooLong \<or> (\<exists>l. r = Complete l)"
proof -
  have lim: "sat_add m 1 = Suc m" using assms(2) by simp
  obtain l t where lt: "read_until (Suc m) (rd_bytes rd) = (l, t)" by fastforce
  show "rd_fault rd'" using assms lt lim by (auto simp: read_jsonl_line_def Let_def split: if_splits)
  have t: "t = []" if "length l < Suc m" "\<not> ends_nl l" using that read_until_stop [of "Suc m" "rd_bytes rd"] lt by simp
  show "r = TooLong \<or> (\<exists>l. r = Complete l)"
  proof (cases "ends_nl l \<or> m < length l")
    case True
    then show ?thesis using assms(3) lt lim by (auto simp: read_jsonl_line_def Let_def split: if_splits)
  next
    case False
    then have "read_jsonl_line m rd = Inl ReadFault"
      using assms(1) lt lim t by (simp add: read_jsonl_line_def Let_def)
    with assms(3) show ?thesis by simp
  qed
qed

lemma scan_fault:
  assumes "\<And>h d bs h' d'. scan_complete D opts h d bs = Inr (Stop, h', d') \<Longrightarrow> first_issue h' \<noteq> None"
    and "max_line_bytes opts < u64_max"
  shows "rd_fault rd \<Longrightarrow> scan D opts h d None rd = Inr (h', d') \<Longrightarrow> first_issue h' \<noteq> None"
proof (induction "length (rd_bytes rd)" arbitrary: rd h d rule: less_induct)
  case less
  obtain r rd1 where r: "read_jsonl_line (max_line_bytes opts) rd = Inr (r, rd1)"
    using less.prems(2) by (subst (asm) scan.simps) (auto split: sum.splits)
  from read_jsonl_line_fault [OF less.prems(1) assms(2) r] consider "r = TooLong" | l where "r = Complete l" "rd_fault rd1" by blast
  then show ?case
  proof cases
    case 1
    then show ?thesis using less.prems(2) r by (subst (asm) scan.simps) (auto simp: record_issue_def split: option.splits)
  next
    case 2
    then consider "scan_complete D opts h d l = Inr (Stop, h', d')"
      | h1 d1 where "scan_complete D opts h d l = Inr (Continue, h1, d1)" "scan D opts h1 d1 None rd1 = Inr (h', d')"
      using less.prems(2) r by (subst (asm) scan.simps) (auto split: sum.splits scan_control.splits)
    then show ?thesis
    proof cases
      case (2 h1 d1)
      then show ?thesis using less.hyps [of rd1 h1 d1] \<open>rd_fault rd1\<close> read_jsonl_line_shorter [of _ rd l rd1] r \<open>r = Complete l\<close> by blast
    qed (rule assms(1))
  qed
qed

lemma observe_invalid_issue: "observe rule n off obs h = (SeqInvalid, h') \<Longrightarrow> first_issue h' \<noteq> None"
  by (auto simp: observe_def Let_def record_issue_def split: record_observation.splits option.splits if_splits)

lemma scan_lines_take:
  assumes "scan_lines D opts h d ls = Inr (Continue, h', d')"
  shows "\<exists>h1 d1. scan_lines D opts h d (take k ls) = Inr (Continue, h1, d1)"
  using assms scan_lines_append [of D opts h d "take k ls" "drop k ls"]
  by (auto split: sum.splits scan_control.splits)

lemma scan_faulty_prefix:
  assumes "list_all (\<lambda>l. is_line l \<and> length l \<le> max_line_bytes opts) ls" "max_line_bytes opts < u64_max"
    "scan_lines D opts h d ls = Inr (Continue, h', d')" "newline \<notin> set t" "length t \<le> max_line_bytes opts"
  shows "scan D opts h d None \<lparr>rd_bytes = concat ls @ t, rd_fault = True\<rparr> = Inl ReadFault"
  using assms(1,3)
proof (induction ls arbitrary: h d)
  case Nil
  have "read_until (Suc (max_line_bytes opts)) t = (t, [])"
    using read_until_no_newline [OF assms(4), of "Suc (max_line_bytes opts)"] assms(5) by simp
  then have "read_jsonl_line (max_line_bytes opts) \<lparr>rd_bytes = t, rd_fault = True\<rparr> = Inl ReadFault"
    using assms(2,4,5) by (simp add: read_jsonl_line_def Let_def)
  then show ?case by (subst scan.simps) simp
next
  case (Cons l ls)
  then obtain h1 d1 where "scan_complete D opts h d l = Inr (Continue, h1, d1)" "scan_lines D opts h1 d1 ls = Inr (Continue, h', d')"
    by (auto split: sum.splits scan_control.splits)
  then show ?case
    using Cons.prems(1) assms(2) Cons.IH [of h1 d1]
    by (subst scan.simps) (simp add: read_jsonl_line_complete)
qed

lemmas ledger_eval =
  read_jsonl_line_def scan_complete_def line_at_def enter_line_def observe_def sequence_valid_def
  record_issue_def issue_count_def max_opt_def checked_succ_def obs_sequence_def
  newline_def ends_nl_def sat_add_def u64_max_def default_health_def Let_def

text \<open>A decoder that reads the first byte of a line as its sequence number.\<close>

definition first_byte_decoder :: "(unit, unit) ledger_decoder" where
  "first_byte_decoder =
     \<lparr>ld_decode = (\<lambda>d line.
        Inr (\<lparr>observation = Accepted (Some (ucast (hd (ln_bytes line)))), pr_record = Some ()\<rparr>, d)),
      ld_apply = (\<lambda>d line p v. Inr (Continue, d))\<rparr>"

text \<open>The lines of a file with their offsets and one-based numbers.\<close>

fun number_lines :: "nat \<Rightarrow> nat \<Rightarrow> bytes list \<Rightarrow> jsonl_line list" where
  "number_lines off n [] = []"
| "number_lines off n (l # ls) =
     \<lparr>ln_offset = off, ln_number = Suc n, ln_bytes = l\<rparr> # number_lines (off + length l) (Suc n) ls"

lemma scan_lines_visitor:
  assumes "bytes_observed h + length (concat ls) \<le> u64_max" "complete_lines h + length ls \<le> u64_max"
  shows "\<exists>h'. scan_lines (visitor_decoder (\<lambda>vs l. Inr (vs @ [l]))) \<lparr>max_line_bytes = m, seq_rule = SeqNone\<rparr>
                 h vs ls = Inr (Continue, h', vs @ number_lines (bytes_observed h) (complete_lines h) ls)
           \<and> bytes_observed h' = bytes_observed h + length (concat ls)
           \<and> issue_count h' TornTail = issue_count h TornTail"
  using assms
proof (induction ls arbitrary: h vs)
  case Nil
  then show ?case by simp
next
  case (Cons l ls)
  define h1 where "h1 = snd (observe SeqNone (ln_number (line_at h l)) (ln_offset (line_at h l))
    (Accepted None) (enter_line h l (\<lparr>observation = Accepted None, pr_record = None\<rparr> :: unit prepared_record)))"
  have step: "scan_complete (visitor_decoder (\<lambda>vs l. Inr (vs @ [l])))
      \<lparr>max_line_bytes = m, seq_rule = SeqNone\<rparr> h vs l = Inr (Continue, h1, vs @ [line_at h l])"
    by (simp add: scan_complete_def visitor_decoder_def h1_def Let_def split: prod.split)
  have h1: "bytes_observed h1 = bytes_observed h + length l" "complete_lines h1 = Suc (complete_lines h)"
    "issue_count h1 TornTail = issue_count h TornTail"
    using Cons.prems by (simp_all add: h1_def) (simp add: observe_def Let_def sequence_valid_def issue_count_def enter_line_def)
  from Cons.IH [of h1 "vs @ [line_at h l]"] Cons.prems show ?case
    by (auto simp: step h1 line_at_def add.assoc)
qed

section \<open>Properties\<close>

lemma split_lines_length:
  assumes "split_lines bs = (ls, t)"
  shows "length t \<le> length bs" and "l \<in> set ls \<Longrightarrow> length l \<le> length bs"
    and "length ls \<le> length (concat ls)" and "length (concat ls) + length t = length bs"
proof -
  note bs = split_lines_concat [OF assms]
  from bs show "length t \<le> length bs" and "length (concat ls) + length t = length bs" by simp_all
  show "length l \<le> length bs" if "l \<in> set ls"
    using that bs by (auto dest!: split_list)
  have "list_all is_line ls" using split_lines_lines [OF assms] by simp
  then show "length ls \<le> length (concat ls)"
    by (induction ls) (auto dest!: is_line_nonempty simp: neq_Nil_conv)
qed

lemma scan_jsonl_split:
  assumes "split_lines bs = (ls, t)" "length bs \<le> u64_max"
    and "list_all (\<lambda>l. length l \<le> max_line_bytes opts) (t # ls)"
  shows "scan_jsonl D opts d \<lparr>rd_bytes = bs, rd_fault = False\<rparr>
           = scan_split D opts (default_health\<lparr>lh_exists := True\<rparr>) d ls t"
proof -
  have "list_all (\<lambda>l. is_line l \<and> length l \<le> max_line_bytes opts \<and> length l \<le> u64_max) ls"
    using assms(2,3) split_lines_lines [OF assms(1)] split_lines_length(2) [OF assms(1)]
    by (fastforce simp: list_all_iff)
  moreover have "newline \<notin> set t" "length t \<le> u64_max"
    using assms(2) split_lines_lines [OF assms(1)] split_lines_length(1) [OF assms(1)] by auto
  ultimately show ?thesis
    unfolding scan_jsonl_def using assms(3) split_lines_concat [OF assms(1)]
    by (simp add: scan_eq_split)
qed



text \<open>C33. Under the \<open>Increasing\<close> rule the sequence numbers of the records a decoder is
  given with the verdict \<open>Valid\<close> are strictly increasing, for every decoder and every byte
  stream, faulty and torn ones included.\<close>

theorem scan_increasing_sound:
  assumes "seq_rule opts = Increasing"
    and "scan_jsonl (logging D) opts (d, []) rd = Inr (h, (d', log))"
  shows "sorted_wrt (<) log"
proof -
  have "increasing_inv h log"
  proof (rule scan_logging_inv [OF _ _ assms(2) [unfolded scan_jsonl_def]])
    fix n off obs h1 v h' log
    assume "observe (seq_rule opts) n off obs h1 = (v, h')" "increasing_inv h1 log"
    then show "increasing_inv h' (if v = SeqValid then log @ [the (obs_sequence obs)] else log)"
      unfolding assms(1) by (rule observe_increasing)
  qed (simp_all add: increasing_inv_def)
  then show ?thesis by (simp add: increasing_inv_def)
qed

theorem scan_increasing_sound_witness:
  "sorted_wrt (<) [5, 7 :: u64] \<and>
   (\<exists>h. scan_jsonl (logging first_byte_decoder) \<lparr>max_line_bytes = 4, seq_rule = Increasing\<rparr> ((), [])
          \<lparr>rd_bytes = [5, 10, 7, 10, 6, 10, 9], rd_fault = False\<rparr> = Inr (h, ((), [5, 7])))"
proof -
  have run: "\<exists>h. scan_jsonl (logging first_byte_decoder) \<lparr>max_line_bytes = 4, seq_rule = Increasing\<rparr>
      ((), []) \<lparr>rd_bytes = [5, 10, 7, 10, 6, 10, 9], rd_fault = False\<rparr> = Inr (h, ((), [5, 7]))"
    by (simp add: scan_jsonl_def scan.simps first_byte_decoder_def ledger_eval)
  then show ?thesis using scan_increasing_sound by fastforce
qed

text \<open>Under the \<open>Consecutive\<close> rule the valid sequence numbers are exactly the interval
  that starts at the configured first number, without gaps, duplicates or wrap-around.\<close>

theorem scan_consecutive_sound:
  assumes "seq_rule opts = Consecutive f"
    and "scan_jsonl (logging D) opts (d, []) rd = Inr (h, (d', log))"
  shows "map unat log = [unat f ..< unat f + length log]"
proof -
  have "consecutive_inv f h log"
  proof (rule scan_logging_inv [OF _ _ assms(2) [unfolded scan_jsonl_def]])
    fix n off obs h1 v h' log
    assume "observe (seq_rule opts) n off obs h1 = (v, h')" "consecutive_inv f h1 log"
    then show "consecutive_inv f h' (if v = SeqValid then log @ [the (obs_sequence obs)] else log)"
      unfolding assms(1) by (rule observe_consecutive)
  qed (simp_all add: consecutive_inv_def consecutive_from_def default_health_def)
  then show ?thesis
    by (intro nth_equalityI) (auto simp: consecutive_inv_def consecutive_from_def)
qed

theorem scan_consecutive_sound_witness:
  "map unat [5, 6 :: u64] = [unat (5 :: u64) ..< unat (5 :: u64) + length [5, 6 :: u64]] \<and>
   (\<exists>h. scan_jsonl (logging first_byte_decoder) \<lparr>max_line_bytes = 4, seq_rule = Consecutive 5\<rparr> ((), [])
          \<lparr>rd_bytes = [5, 10, 7, 10, 6, 10, 9], rd_fault = False\<rparr> = Inr (h, ((), [5, 6])))"
proof -
  have run: "\<exists>h. scan_jsonl (logging first_byte_decoder) \<lparr>max_line_bytes = 4, seq_rule = Consecutive 5\<rparr>
      ((), []) \<lparr>rd_bytes = [5, 10, 7, 10, 6, 10, 9], rd_fault = False\<rparr> = Inr (h, ((), [5, 6]))"
    by (simp add: scan_jsonl_def scan.simps first_byte_decoder_def ledger_eval)
  then show ?thesis using scan_consecutive_sound by (metis scan_options.select_convs(2))
qed

text \<open>\<open>for_each_jsonl_line\<close> visits every complete line exactly once, in file order, with
  its byte offset and its one-based number; it reports all bytes of the file as read and a
  torn tail exactly when bytes follow the last newline.\<close>

theorem for_each_jsonl_line_visits:
  assumes "length bs \<le> u64_max"
  shows "for_each_jsonl_line (\<lambda>vs l. Inr (vs @ [l])) [] \<lparr>rd_bytes = bs, rd_fault = False\<rparr>
           = Inr (\<lparr>js_torn_tail = (snd (split_lines bs) \<noteq> []), js_bytes_read = length bs\<rparr>,
                  number_lines 0 0 (fst (split_lines bs)))"
proof -
  obtain ls t where split: "split_lines bs = (ls, t)" by fastforce
  note len = split_lines_length [OF split]
  let ?h = "default_health\<lparr>lh_exists := True\<rparr>"
  from scan_lines_visitor [of ?h ls u64_max "[]"] assms len
  obtain h' where
    run: "scan_lines (visitor_decoder (\<lambda>vs l. Inr (vs @ [l]))) \<lparr>max_line_bytes = u64_max, seq_rule = SeqNone\<rparr>
            ?h [] ls = Inr (Continue, h', number_lines 0 0 ls)"
    and h': "bytes_observed h' = length (concat ls)" "issue_count h' TornTail = 0"
    by (auto simp: default_health_def issue_count_def)
  have "bytes_observed (finish_tail h' t) = length bs"
    and "(0 < issue_count (finish_tail h' t) TornTail) = (t \<noteq> [])"
    using assms len(4) by (auto simp: finish_tail_def h' issue_count_record_issue issue_count_def
        [of "bytes_observed_update _ _"] sat_add_pos)
  moreover have "scan_jsonl (visitor_decoder (\<lambda>vs l. Inr (vs @ [l])))
      \<lparr>max_line_bytes = u64_max, seq_rule = SeqNone\<rparr> [] \<lparr>rd_bytes = bs, rd_fault = False\<rparr>
      = Inr (finish_tail h' t, number_lines 0 0 ls)"
    using assms len by (subst scan_jsonl_split [OF split])
      (auto simp: scan_split_def run list_all_iff intro: order_trans)
  ultimately show ?thesis by (simp add: for_each_jsonl_line_def split)
qed

theorem for_each_jsonl_line_visits_witness:
  "for_each_jsonl_line (\<lambda>vs l. Inr (vs @ [l])) [] \<lparr>rd_bytes = [65, 10, 66, 67, 10, 68], rd_fault = False\<rparr>
     = Inr (\<lparr>js_torn_tail = True, js_bytes_read = 6\<rparr>,
            [\<lparr>ln_offset = 0, ln_number = 1, ln_bytes = [65, 10]\<rparr>,
             \<lparr>ln_offset = 2, ln_number = 2, ln_bytes = [66, 67, 10]\<rparr>])"
  using for_each_jsonl_line_visits [of "[65, 10, 66, 67, 10, 68]"]
  by (simp add: newline_def u64_max_def)

end
