(* ===== verification/Disk.thy ===== *)
theory Disk
  imports Prelude
begin

text \<open>
  The file system as the durable components see it: the bytes under one path, the files kept
  beside it (archived journals, backups), and the outcomes of the calls to come.
\<close>

section \<open>Disks\<close>

text \<open>\<open>IoErr n\<close> is a call that failed; for a write, after \<open>n\<close> bytes reached the file, and for
  a read, after \<open>n\<close> bytes were delivered. Calls beyond the list succeed. \<open>dk_inode\<close> numbers the
  file that is now under the path: a rename over the path or a creation gives it a new number,
  and a handle with an older number writes to a file no path leads to.\<close>

datatype io_outcome = IoOk | IoErr nat

record disk =
  dk_file :: "bytes option"
  dk_inode :: nat
  dk_archives :: "bytes list"
  dk_io :: "io_outcome list"

definition next_io :: "disk \<Rightarrow> io_outcome \<times> disk" where
  "next_io d = (case dk_io d of [] \<Rightarrow> (IoOk, d) | x # xs \<Rightarrow> (x, d\<lparr>dk_io := xs\<rparr>))"

text \<open>Writing through a handle: bytes that go to a file without a path leave the disk as it is.\<close>

definition append_bytes :: "nat \<Rightarrow> bytes \<Rightarrow> disk \<Rightarrow> disk" where
  "append_bytes handle bs d =
     (case dk_file d of
        Some old \<Rightarrow> if handle = dk_inode d then d\<lparr>dk_file := Some (old @ bs)\<rparr> else d
      | None \<Rightarrow> d)"

section \<open>Frame lemmas\<close>

lemma next_io_file [simp]:
  "dk_file (snd (next_io d)) = dk_file d" "dk_inode (snd (next_io d)) = dk_inode d"
  "dk_archives (snd (next_io d)) = dk_archives d"
  by (simp_all add: next_io_def split: list.splits)

lemma next_io_clean [simp]: "dk_io d = [] \<Longrightarrow> next_io d = (IoOk, d)"
  by (simp add: next_io_def)

lemma append_bytes_frame [simp]:
  "dk_inode (append_bytes h bs d) = dk_inode d" "dk_archives (append_bytes h bs d) = dk_archives d"
  "append_bytes h [] d = d"
  by (simp_all add: append_bytes_def split: option.splits)

end
