(* ===== verification/Job_Journal.thy ===== *)
theory Job_Journal
  imports Job_Store Ledger Disk
begin

text \<open>
  The durable job store (\<open>task-scheduler/src/store.rs\<close>): an append-only JSONL journal with an
  in-memory index, recovery on open, compaction and retention. The operating system is the
  \<open>disk\<close> of the theory \<open>Disk\<close>. JSON encoding (\<open>serde_json\<close>) and UUID parsing are parameters, gathered in a
  \<open>codec\<close>. A clock reading is the argument \<open>now\<close>; one operation reads the clock once.
\<close>

section \<open>The parameters\<close>

record codec =
  cd_enc :: "journal_record \<Rightarrow> bytes option"
  cd_dec :: "bytes \<Rightarrow> journal_record option"
  cd_uuid_ok :: "string \<Rightarrow> bool"

section \<open>The disk\<close>

text \<open>A call whose only effect on the journal is that it may fail: creating a directory or a
  temporary file, flushing, syncing, opening a directory.\<close>

definition io_call :: "disk \<Rightarrow> (store_error + unit) \<times> disk" where
  "io_call d = (case next_io d of (IoOk, d') \<Rightarrow> (Inr (), d') | (IoErr _, d') \<Rightarrow> (Inl StoreIo, d'))"

text \<open>\<open>rename(temporary, path)\<close>: atomic.\<close>

definition rename_over :: "bytes \<Rightarrow> disk \<Rightarrow> (store_error + unit) \<times> disk" where
  "rename_over bs d =
     and_then (io_call d) (\<lambda>_ d. (Inr (), d\<lparr>dk_file := Some bs, dk_inode := dk_inode d + 1\<rparr>))"

text \<open>\<open>File::open(parent)?.sync_all()?\<close>.\<close>

definition sync_parent :: "disk \<Rightarrow> (store_error + unit) \<times> disk" where
  "sync_parent d = and_then (io_call d) (\<lambda>_ d. io_call d)"

definition archive_damaged_journal :: "disk \<Rightarrow> (store_error + unit) \<times> disk" where
  "archive_damaged_journal d =
     and_then (io_call d)
       (\<lambda>_ d. case dk_file d of
                None \<Rightarrow> (Inl StoreIo, d)
              | Some bs \<Rightarrow> sync_parent (d\<lparr>dk_file := None, dk_archives := bs # dk_archives d\<rparr>))"

text \<open>Opening the journal for appending, with or without creating it.\<close>

definition open_append :: "bool \<Rightarrow> disk \<Rightarrow> (store_error + nat) \<times> disk" where
  "open_append create d =
     and_then (io_call d)
       (\<lambda>_ d. case dk_file d of
                Some _ \<Rightarrow> (Inr (dk_inode d), d)
              | None \<Rightarrow>
                  if create
                  then (Inr (dk_inode d + 1), d\<lparr>dk_file := Some [], dk_inode := dk_inode d + 1\<rparr>)
                  else (Inl StoreIo, d))"

text \<open>Writing through a handle.\<close>

definition write_all :: "nat \<Rightarrow> bytes \<Rightarrow> disk \<Rightarrow> (store_error + unit) \<times> disk" where
  "write_all handle bs d =
     (case next_io d of
        (IoOk, d') \<Rightarrow> (Inr (), append_bytes handle bs d')
      | (IoErr n, d') \<Rightarrow> (Inl StoreIo, append_bytes handle (take n bs) d'))"

section \<open>Scanning the journal\<close>

record job_decoder =
  latest :: job_index
  collect_jobs :: bool
  dec_records :: nat

definition event_matches_status :: "journal_record \<Rightarrow> bool" where
  "event_matches_status r \<longleftrightarrow>
     event r = from_status (status (rec_job r))
     \<or> (event r = EvSubmitted \<and> status (rec_job r) = Pending)"

definition record_problem :: "codec \<Rightarrow> journal_record \<Rightarrow> ledger_issue_kind option" where
  "record_problem C r =
     (if schema_version r \<noteq> JOURNAL_SCHEMA_VERSION then Some SchemaIssue
      else if \<not> has_valid_resolution (cd_uuid_ok C) (rec_job r) \<or> \<not> event_matches_status r
      then Some InvalidState
      else None)"

definition job_decode ::
  "codec \<Rightarrow> job_decoder \<Rightarrow> jsonl_line \<Rightarrow> io_error + (journal_record prepared_record \<times> job_decoder)" where
  "job_decode C d line =
     (let body = butlast (ln_bytes line)
      in if body = [] then Inr (\<lparr>observation = Skip, pr_record = None\<rparr>, d)
         else (let d' = d\<lparr>dec_records := dec_records d + 1\<rparr>
               in case cd_dec C body of
                    None \<Rightarrow> Inr (\<lparr>observation = Rejected None DecodeIssue, pr_record = None\<rparr>, d')
                  | Some r \<Rightarrow>
                      Inr (\<lparr>observation =
                              (case record_problem C r of
                                 Some kind \<Rightarrow> Rejected (Some (sequence r)) kind
                               | None \<Rightarrow> Accepted (Some (sequence r))),
                            pr_record = Some r\<rparr>, d')))"

definition job_apply ::
  "job_decoder \<Rightarrow> jsonl_line \<Rightarrow> journal_record prepared_record \<Rightarrow> sequence_verdict \<Rightarrow>
   io_error + (scan_control \<times> job_decoder)" where
  "job_apply d line prepared verdict =
     (if collect_jobs d \<and> verdict = SeqValid
      then (case pr_record prepared of
              Some r \<Rightarrow> Inr (Continue, d\<lparr>latest := AList.update (job_id (rec_job r)) (rec_job r) (latest d)\<rparr>)
            | None \<Rightarrow> Inr (Continue, d))
      else Inr (Continue, d))"

definition job_ledger :: "codec \<Rightarrow> (job_decoder, journal_record) ledger_decoder" where
  "job_ledger C = \<lparr>ld_decode = job_decode C, ld_apply = job_apply\<rparr>"

record job_scan =
  sc_jobs :: "job list"
  sc_torn_tail :: bool
  sc_max_sequence :: "u64 option"
  sc_incompatible :: nat
  sc_exists :: bool
  sc_bytes :: nat
  sc_records :: nat

definition default_scan :: job_scan where
  "default_scan =
     \<lparr>sc_jobs = [], sc_torn_tail = False, sc_max_sequence = None, sc_incompatible = 0,
      sc_exists = False, sc_bytes = 0, sc_records = 0\<rparr>"

definition job_scan_options :: scan_options where
  "job_scan_options = \<lparr>max_line_bytes = u64_max, seq_rule = Increasing\<rparr>"

definition scan_reader :: "codec \<Rightarrow> bool \<Rightarrow> reader \<Rightarrow> store_error + job_scan" where
  "scan_reader C collect rd =
     (case scan_jsonl (job_ledger C) job_scan_options
             \<lparr>latest = [], collect_jobs = collect, dec_records = 0\<rparr> rd of
        Inl _ \<Rightarrow> Inl StoreIo
      | Inr (h, d) \<Rightarrow>
          Inr \<lparr>sc_jobs = map snd (latest d), sc_torn_tail = (0 < issue_count h TornTail),
               sc_max_sequence = max_observed_sequence h,
               sc_incompatible = incompatible_records h, sc_exists = True,
               sc_bytes = bytes_observed h, sc_records = dec_records d\<rparr>)"

definition scan_path :: "codec \<Rightarrow> bool \<Rightarrow> disk \<Rightarrow> (store_error + job_scan) \<times> disk" where
  "scan_path C collect d =
     and_then (io_call d)
       (\<lambda>_ d. case dk_file d of
                None \<Rightarrow> (Inr default_scan, d)
              | Some bs \<Rightarrow>
                  (case next_io d of
                     (IoOk, d') \<Rightarrow> (scan_reader C collect \<lparr>rd_bytes = bs, rd_fault = False\<rparr>, d')
                   | (IoErr n, d') \<Rightarrow>
                       (scan_reader C collect \<lparr>rd_bytes = take n bs, rd_fault = True\<rparr>, d')))"

section \<open>Compaction\<close>

text \<open>The loop that writes the temporary file; the result is its contents.\<close>

fun compact_write ::
  "codec \<Rightarrow> time \<Rightarrow> u64 \<Rightarrow> job list \<Rightarrow> disk \<Rightarrow> (store_error + bytes) \<times> disk" where
  "compact_write C now sq [] d = (Inr [], d)"
| "compact_write C now sq (j # js) d =
     (case cd_enc C \<lparr>schema_version = JOURNAL_SCHEMA_VERSION, sequence = sq, recorded_at = now,
                     event = from_status (status j), rec_job = j\<rparr> of
        None \<Rightarrow> (Inl StoreSerialization, d)
      | Some bs \<Rightarrow>
          and_then (io_call d)
            (\<lambda>_ d. and_then (compact_write C now (sq + 1) js d)
                     (\<lambda>rest d. (Inr (bs @ [newline] @ rest), d))))"

definition compact_journal ::
  "codec \<Rightarrow> time \<Rightarrow> job list \<Rightarrow> disk \<Rightarrow> (store_error + unit) \<times> disk" where
  "compact_journal C now jobs d =
     and_then (io_call d) (\<lambda>_ d.
     and_then (compact_write C now 0 (sort_key created_at jobs) d) (\<lambda>bs d.
     and_then (io_call d) (\<lambda>_ d.
     and_then (rename_over bs d) (\<lambda>_ d.
     sync_parent d))))"

definition COMPACT_THRESHOLD :: nat where
  "COMPACT_THRESHOLD = 4096"

definition COMPACT_RETAINED_TERMINAL :: nat where
  "COMPACT_RETAINED_TERMINAL = 1024"

section \<open>The store\<close>

record journal_store =
  js_disk :: disk
  js_index :: job_index
  js_handle :: nat
  js_next_sequence :: u64
  js_recovered_torn_tail :: bool

text \<open>Run a disk operation on the store.\<close>

definition on_disk ::
  "(disk \<Rightarrow> (store_error + 'a) \<times> disk) \<Rightarrow> journal_store \<Rightarrow> (store_error + 'a) \<times> journal_store" where
  "on_disk f s = (case f (js_disk s) of (r, d) \<Rightarrow> (r, s\<lparr>js_disk := d\<rparr>))"

definition next_after :: "u64 option \<Rightarrow> u64 option" where
  "next_after m = Option.bind m checked_succ"

text \<open>The tail of \<open>append\<close> when the journal has grown past the threshold. The file is reopened
  whatever became of the compaction, and the compaction's error is reported last.\<close>

definition append_compact :: "codec \<Rightarrow> time \<Rightarrow> journal_store \<Rightarrow> (store_error + unit) \<times> journal_store" where
  "append_compact C now s =
     (case compact_journal C now (map snd (js_index s)) (js_disk s) of
        (res, d) \<Rightarrow>
          and_then (on_disk (open_append False) (s\<lparr>js_disk := d\<rparr>)) (\<lambda>h s.
          and_then (on_disk (scan_path C False) (s\<lparr>js_handle := h\<rparr>)) (\<lambda>sc s.
          case next_after (sc_max_sequence sc) of
            None \<Rightarrow> (Inl StoreIntegrity, s)
          | Some n \<Rightarrow> (res, s\<lparr>js_next_sequence := n\<rparr>))))"

definition journal_append ::
  "codec \<Rightarrow> time \<Rightarrow> job_event \<Rightarrow> job \<Rightarrow> journal_store \<Rightarrow> (store_error + unit) \<times> journal_store" where
  "journal_append C now ev j s =
     (case checked_succ (js_next_sequence s) of
        None \<Rightarrow> (Inl StoreIntegrity, s)
      | Some next \<Rightarrow>
          (case cd_enc C \<lparr>schema_version = JOURNAL_SCHEMA_VERSION, sequence = js_next_sequence s,
                          recorded_at = now, event = ev, rec_job = j\<rparr> of
             None \<Rightarrow> (Inl StoreSerialization, s)
           | Some bs \<Rightarrow>
               and_then (on_disk (write_all (js_handle s) (bs @ [newline])) s) (\<lambda>_ s.
               and_then (on_disk io_call s) (\<lambda>_ s.
               and_then (on_disk io_call s) (\<lambda>_ s.
               let s' = s\<lparr>js_next_sequence := next, js_index := AList.update (job_id j) j (js_index s)\<rparr>
               in if length (js_index s') + COMPACT_THRESHOLD \<le> unat (js_next_sequence s')
                  then append_compact C now s' else (Inr (), s'))))))"

definition journal_put :: "codec \<Rightarrow> time \<Rightarrow> job \<Rightarrow> journal_store \<Rightarrow> (store_error + unit) \<times> journal_store" where
  "journal_put C now j s =
     journal_append C now (if status j = Pending then EvSubmitted else from_status (status j)) j s"

definition journal_prune_terminal ::
  "codec \<Rightarrow> time \<Rightarrow> nat \<Rightarrow> journal_store \<Rightarrow> (store_error + unit) \<times> journal_store" where
  "journal_prune_terminal C now retained s =
     (if length (filter (\<lambda>(i, j). is_terminal j) (js_index s)) - retained = 0 then (Inr (), s)
      else
        (case compact_journal C now (map snd (mem_prune_terminal retained (js_index s))) (js_disk s) of
           (res, d) \<Rightarrow>
             and_then (on_disk (open_append False) (s\<lparr>js_disk := d\<rparr>)) (\<lambda>h s.
             and_then (on_disk (scan_path C True) (s\<lparr>js_handle := h\<rparr>)) (\<lambda>sc s.
             (res, s\<lparr>js_next_sequence := (case next_after (sc_max_sequence sc) of Some n \<Rightarrow> n | None \<Rightarrow> 0),
                     js_index := fold mem_put (sc_jobs sc) []\<rparr>)))))"

definition journal_ops :: "codec \<Rightarrow> time \<Rightarrow> journal_store store_ops" where
  "journal_ops C now =
     \<lparr>so_integrity_issue = (\<lambda>_. None),
      so_put = journal_put C now,
      so_get = (\<lambda>i s. Inr (mem_get i (js_index s))),
      so_update = (\<lambda>j ev s. journal_append C now ev j s),
      so_pending = (\<lambda>s. Inr (mem_pending (js_index s))),
      so_load_all = (\<lambda>s. Inr (mem_load_all (js_index s))),
      so_prune_terminal = journal_prune_terminal C now\<rparr>"

section \<open>Opening a journal\<close>

definition scan_damaged :: "job_scan \<Rightarrow> bool" where
  "scan_damaged sc \<longleftrightarrow> sc_torn_tail sc \<or> 0 < sc_incompatible sc \<or> sc_max_sequence sc = Some (- 1)"

text \<open>The body of the loop over the scanned jobs: the recovered job to be journalled, if any,
  and the job for the index.\<close>

definition recover_job :: "bool \<Rightarrow> job \<Rightarrow> job list \<times> job" where
  "recover_job damaged j =
     (let (recovered, j1) =
            (if damaged
             then ([], require_reconciliation
                         ''job history was damaged and archived; reconciliation required''
                         (j\<lparr>resolution := None\<rparr>))
             else if status j = Running
             then (let j' = require_reconciliation
                              ''execution interrupted; outcome must be reconciled'' j
                   in ([j'], j'))
             else ([], j));
          j2 = (if status j1 = ReconciliationRequired
                then require_reconciliation
                       (case job_error j1 of Some r \<Rightarrow> r | None \<Rightarrow> ''uncertain execution'') j1
                else j1)
      in (recovered, j2))"

fun recover_all :: "bool \<Rightarrow> job list \<Rightarrow> job_index \<Rightarrow> job list \<times> job_index" where
  "recover_all damaged [] m = ([], m)"
| "recover_all damaged (j # js) m =
     (let (r, j') = recover_job damaged j;
          (rs, m') = recover_all damaged js (mem_put j' m)
      in (r @ rs, m'))"

fun append_recovered ::
  "codec \<Rightarrow> time \<Rightarrow> job list \<Rightarrow> journal_store \<Rightarrow> (store_error + unit) \<times> journal_store" where
  "append_recovered C now [] s = (Inr (), s)"
| "append_recovered C now (j # js) s =
     and_then (journal_append C now EvRecovered j s) (\<lambda>_ s. append_recovered C now js s)"

text \<open>The first sequence number and the index the store starts with.\<close>

definition initial_sequence ::
  "codec \<Rightarrow> time \<Rightarrow> bool \<Rightarrow> u64 option \<Rightarrow> job_index \<Rightarrow> disk \<Rightarrow>
   (store_error + u64 \<times> job_index) \<times> disk" where
  "initial_sequence C now damaged max_sequence m d =
     (if damaged
      then and_then (compact_journal C now (map snd m) d)
             (\<lambda>_ d. (Inr (word_of_nat (length m), m), d))
      else if (case max_sequence of Some q \<Rightarrow> word_of_nat COMPACT_THRESHOLD \<le> q | None \<Rightarrow> False)
      then (let m' = mem_prune_terminal COMPACT_RETAINED_TERMINAL m
            in and_then (compact_journal C now (map snd m') d)
                 (\<lambda>_ d. (Inr (word_of_nat (length m'), m'), d)))
      else (Inr (case next_after max_sequence of Some n \<Rightarrow> n | None \<Rightarrow> 0, m), d))"

text \<open>The last two steps of \<open>open\<close>: take the handle and journal the recovered jobs. A failure
  gives no store, only what it left on the disk.\<close>

definition open_writer ::
  "codec \<Rightarrow> time \<Rightarrow> job list \<Rightarrow> bool \<Rightarrow> u64 \<Rightarrow> job_index \<Rightarrow> disk \<Rightarrow>
   (store_error + journal_store) \<times> disk" where
  "open_writer C now recovered torn next m d =
     and_then (open_append True d) (\<lambda>h d.
       case append_recovered C now recovered
              \<lparr>js_disk = d, js_index = m, js_handle = h, js_next_sequence = next,
               js_recovered_torn_tail = torn\<rparr> of
         (Inl e, s) \<Rightarrow> (Inl e, js_disk s)
       | (Inr _, s) \<Rightarrow> (Inr s, js_disk s))"

definition journal_open :: "codec \<Rightarrow> time \<Rightarrow> disk \<Rightarrow> (store_error + journal_store) \<times> disk" where
  "journal_open C now d =
     and_then (io_call d) (\<lambda>_ d.
     and_then (scan_path C True d) (\<lambda>sc d.
     let damaged = scan_damaged sc in
     and_then (if damaged then archive_damaged_journal d else (Inr (), d)) (\<lambda>_ d.
     let (recovered, m) = recover_all damaged (sc_jobs sc) [] in
     and_then (initial_sequence C now damaged (sc_max_sequence sc) m d) (\<lambda>(next, m) d.
     open_writer C now recovered (sc_torn_tail sc) next m d))))"

definition journal_inspect :: "codec \<Rightarrow> disk \<Rightarrow> (store_error + journal_health) \<times> disk" where
  "journal_inspect C d =
     and_then (scan_path C False d)
       (\<lambda>sc d. (Inr \<lparr>jh_exists = sc_exists sc, jh_bytes = sc_bytes sc, jh_records = sc_records sc,
                     jh_torn_tail = sc_torn_tail sc, jh_incompatible = sc_incompatible sc\<rparr>, d))"

section \<open>Well-formed journals\<close>

text \<open>What the store relies on from \<open>serde_json\<close> for the jobs in \<open>J\<close>: a record is encoded on
  one line, and decoding the line gives the record back.\<close>

definition faithful :: "codec \<Rightarrow> job set \<Rightarrow> bool" where
  "faithful C J \<longleftrightarrow>
     (\<forall>r. rec_job r \<in> J \<longrightarrow>
        (\<exists>bs. cd_enc C r = Some bs \<and> bs \<noteq> [] \<and> newline \<notin> set bs \<and> cd_dec C bs = Some r))"

definition line_of :: "codec \<Rightarrow> journal_record \<Rightarrow> bytes" where
  "line_of C r = (case cd_enc C r of Some bs \<Rightarrow> bs @ [newline] | None \<Rightarrow> [])"

definition good_record :: "codec \<Rightarrow> job set \<Rightarrow> journal_record \<Rightarrow> bool" where
  "good_record C J r \<longleftrightarrow> rec_job r \<in> J \<and> record_problem C r = None"

definition good_journal :: "codec \<Rightarrow> job set \<Rightarrow> journal_record list \<Rightarrow> bool" where
  "good_journal C J rs \<longleftrightarrow> list_all (good_record C J) rs \<and> sorted_wrt (<) (map sequence rs)"

definition replay :: "journal_record list \<Rightarrow> job_index" where
  "replay rs = fold (\<lambda>r. mem_put (rec_job r)) rs []"

definition last_sequence :: "journal_record list \<Rightarrow> u64 option" where
  "last_sequence rs = (if rs = [] then None else Some (sequence (last rs)))"

section \<open>Scanning a well-formed journal\<close>

lemma faithful_line:
  assumes "faithful C J" "rec_job r \<in> J"
  obtains bs where "cd_enc C r = Some bs" "line_of C r = bs @ [newline]" "bs \<noteq> []"
    "cd_dec C bs = Some r" "is_line (line_of C r)" "newline \<notin> set bs"
proof -
  from assms obtain bs where bs: "cd_enc C r = Some bs" "bs \<noteq> []" "newline \<notin> set bs" "cd_dec C bs = Some r"
    unfolding faithful_def by blast
  then show thesis by (intro that [of bs]) (simp_all add: line_of_def is_line_def ends_nl_def)
qed

lemma observe_torn:
  "(\<And>s k. obs = Rejected s k \<Longrightarrow> k \<noteq> TornTail) \<Longrightarrow>
     issue_count (snd (observe rule n off obs h)) TornTail = issue_count h TornTail"
  by (auto simp: observe_def Let_def record_issue_def issue_count_def
      split: record_observation.splits option.splits)

lemma decode_good_record:
  assumes "faithful C J" "good_record C J r"
  shows "job_decode C d (line_at h (line_of C r)) =
           Inr (\<lparr>observation = Accepted (Some (sequence r)), pr_record = Some r\<rparr>,
                d\<lparr>dec_records := dec_records d + 1\<rparr>)"
proof -
  from assms obtain bs where "line_of C r = bs @ [newline]" "bs \<noteq> []" "cd_dec C bs = Some r"
    by (auto simp: good_record_def elim: faithful_line)
  with assms(2) show ?thesis by (simp add: job_decode_def line_at_def good_record_def)
qed

definition step_decoder :: "journal_record \<Rightarrow> job_decoder \<Rightarrow> job_decoder" where
  "step_decoder r d =
     d\<lparr>dec_records := dec_records d + 1,
       latest := (if collect_jobs d then mem_put (rec_job r) (latest d) else latest d)\<rparr>"

lemma scan_good_record:
  assumes "faithful C J" "good_record C J r"
    and "\<And>m. max_observed_sequence h = Some m \<Longrightarrow> m < sequence r"
  shows "\<exists>h'. scan_complete (job_ledger C) job_scan_options h d (line_of C r)
                = Inr (Continue, h', step_decoder r d)
            \<and> max_observed_sequence h' = Some (sequence r)
            \<and> incompatible_records h' = incompatible_records h
            \<and> issue_count h' TornTail = issue_count h TornTail
            \<and> bytes_observed h' = sat_add (bytes_observed h) (length (line_of C r))"
proof -
  let ?p = "\<lparr>observation = Accepted (Some (sequence r)), pr_record = Some r\<rparr>"
  let ?l = "line_at h (line_of C r)"
  let ?e = "enter_line h (line_of C r) ?p"
  let ?o = "observe Increasing (ln_number ?l) (ln_offset ?l) (Accepted (Some (sequence r))) ?e"
  have valid: "sequence_valid Increasing ?e (Some (sequence r))"
    using assms(3) by (auto simp: sequence_valid_def split: option.splits)
  then have verdict: "fst ?o = SeqValid"
    by (simp add: observe_verdict obs_sequence_def obs_rejected_def)
  have "max_observed_sequence (snd ?o) = Some (sequence r)"
    using assms(3) by (auto simp: observe_max obs_sequence_def max_opt_def split: option.splits)
  moreover have "incompatible_records (snd ?o) = incompatible_records h"
    by (simp add: observe_incompatible verdict)
  moreover have "issue_count (snd ?o) TornTail = issue_count h TornTail"
    by (subst observe_torn) simp_all
  moreover have "bytes_observed (snd ?o) = sat_add (bytes_observed h) (length (line_of C r))" by simp
  moreover have "scan_complete (job_ledger C) job_scan_options h d (line_of C r)
      = Inr (Continue, snd ?o, step_decoder r d)"
    using decode_good_record [OF assms(1,2), of d h] verdict
    by (auto simp: scan_complete_def job_ledger_def job_scan_options_def Let_def job_apply_def
        step_decoder_def mem_put_def split: prod.splits)
  ultimately show ?thesis by blast
qed

lemma scan_good_records:
  assumes "faithful C J" "good_journal C J rs"
    and "\<And>m r. max_observed_sequence h = Some m \<Longrightarrow> r \<in> set rs \<Longrightarrow> m < sequence r"
    and "bytes_observed h + length (concat (map (line_of C) rs)) \<le> u64_max"
  shows "\<exists>h'. scan_lines (job_ledger C) job_scan_options h d (map (line_of C) rs)
                = Inr (Continue, h', fold step_decoder rs d)
            \<and> max_observed_sequence h' = (if rs = [] then max_observed_sequence h else last_sequence rs)
            \<and> incompatible_records h' = incompatible_records h
            \<and> issue_count h' TornTail = issue_count h TornTail
            \<and> bytes_observed h' = bytes_observed h + length (concat (map (line_of C) rs))"
  using assms
proof (induction rs arbitrary: h d)
  case (Cons r rs)
  from Cons.prems have r: "good_record C J r" "good_journal C J rs" "\<forall>r' \<in> set rs. sequence r < sequence r'"
    by (auto simp: good_journal_def)
  from scan_good_record [OF Cons.prems(1) r(1), of h d] Cons.prems(3) obtain h1 where
    h1: "scan_complete (job_ledger C) job_scan_options h d (line_of C r) = Inr (Continue, h1, step_decoder r d)"
      "max_observed_sequence h1 = Some (sequence r)" "incompatible_records h1 = incompatible_records h"
      "issue_count h1 TornTail = issue_count h TornTail"
      "bytes_observed h1 = bytes_observed h + length (line_of C r)"
    using Cons.prems(4) by auto
  have above: "m < sequence r'" if "max_observed_sequence h1 = Some m" "r' \<in> set rs" for m r'
    using that h1(2) r(3) by auto
  have "bytes_observed h1 + length (concat (map (line_of C) rs)) \<le> u64_max"
    using h1(5) Cons.prems(4) by simp
  from Cons.IH [OF Cons.prems(1) r(2) above this, of "step_decoder r d"] h1 show ?case
    by (auto simp: last_sequence_def)
qed simp

lemma fold_step_decoder:
  "dec_records (fold step_decoder rs d) = dec_records d + length rs"
  "collect_jobs (fold step_decoder rs d) = collect_jobs d"
  "latest (fold step_decoder rs d) =
     (if collect_jobs d then fold (\<lambda>r. mem_put (rec_job r)) rs (latest d) else latest d)"
  by (induction rs arbitrary: d) (auto simp: step_decoder_def)

text \<open>The exact result of a scan of a well-formed journal followed by an unfinished line.\<close>

lemma scan_reader_good:
  assumes "faithful C J" "good_journal C J rs" "newline \<notin> set t"
    and len: "length (concat (map (line_of C) rs) @ t) \<le> u64_max"
  shows "scan_reader C collect \<lparr>rd_bytes = concat (map (line_of C) rs) @ t, rd_fault = False\<rparr> =
           Inr \<lparr>sc_jobs = (if collect then mem_load_all (replay rs) else []), sc_torn_tail = (t \<noteq> []),
                sc_max_sequence = last_sequence rs, sc_incompatible = 0, sc_exists = True,
                sc_bytes = length (concat (map (line_of C) rs) @ t), sc_records = length rs\<rparr>"
proof -
  let ?ls = "map (line_of C) rs"
  let ?h = "default_health\<lparr>lh_exists := True\<rparr>"
  let ?d = "\<lparr>latest = [], collect_jobs = collect, dec_records = 0\<rparr>"
  have lines: "list_all is_line ?ls"
    using assms(1,2) by (auto simp: list_all_iff good_journal_def good_record_def elim: faithful_line)
  have split: "split_lines (concat ?ls @ t) = (?ls, t)" by (rule split_lines_unique [OF lines assms(3)])
  have short: "list_all (\<lambda>l. length l \<le> max_line_bytes job_scan_options) (t # ?ls)"
    using len split_lines_length(2) [OF split]
    by (fastforce simp: list_all_iff job_scan_options_def)
  obtain h' where run: "scan_lines (job_ledger C) job_scan_options ?h ?d ?ls =
      Inr (Continue, h', fold step_decoder rs ?d)"
    and h': "max_observed_sequence h' = last_sequence rs" "incompatible_records h' = 0"
      "issue_count h' TornTail = 0" "bytes_observed h' = length (concat ?ls)"
    using scan_good_records [OF assms(1,2), of ?h ?d] len
    by (auto simp: default_health_def issue_count_def last_sequence_def split: if_splits)
  have scan: "scan_jsonl (job_ledger C) job_scan_options ?d \<lparr>rd_bytes = concat ?ls @ t, rd_fault = False\<rparr> =
      Inr (finish_tail h' t, fold step_decoder rs ?d)"
    by (subst scan_jsonl_split [OF split len short]) (simp add: scan_split_def run)
  have tail: "max_observed_sequence (finish_tail h' t) = last_sequence rs"
    "incompatible_records (finish_tail h' t) = 0"
    "(0 < issue_count (finish_tail h' t) TornTail) = (t \<noteq> [])"
    "bytes_observed (finish_tail h' t) = length (concat ?ls @ t)"
    using h' len by (auto simp: finish_tail_def record_issue_def issue_count_def sat_add_pos)
  show ?thesis
    unfolding scan_reader_def scan using tail
    by (simp add: fold_step_decoder replay_def mem_load_all_def)
qed

section \<open>Truncated journals\<close>

lemma good_journal_take: "good_journal C J rs \<Longrightarrow> good_journal C J (take k rs)"
  by (auto simp: good_journal_def list_all_iff take_map [symmetric] sorted_wrt_take dest: in_set_takeD)

lemma good_journal_lines: "faithful C J \<Longrightarrow> good_journal C J rs \<Longrightarrow> list_all is_line (map (line_of C) rs)"
  by (auto simp: list_all_iff good_journal_def good_record_def elim: faithful_line)

section \<open>Recovery on open\<close>

lemma io_call_clean [simp]: "dk_io d = [] \<Longrightarrow> io_call d = (Inr (), d)"
  by (simp add: io_call_def next_io_def)

lemma recover_job_id [simp]: "job_id (snd (recover_job b j)) = job_id j"
  by (auto simp: recover_job_def Let_def split: option.splits)

lemma recover_job_status:
  "status (snd (recover_job True j)) = ReconciliationRequired"
  "status (snd (recover_job False j)) = (if status j = Running then ReconciliationRequired else status j)"
  "resolution (snd (recover_job True j)) = None"
  by (auto simp: recover_job_def Let_def require_reconciliation_def split: option.splits)

lemma recover_job_valid:
  "has_valid_resolution u j \<Longrightarrow> has_valid_resolution u (snd (recover_job b j))"
  by (auto simp: recover_job_def Let_def require_reconciliation_def has_valid_resolution_def
      split: option.splits)

lemma recover_job_recovered:
  "r \<in> set (fst (recover_job b j)) \<Longrightarrow>
     r = snd (recover_job b j) \<and> \<not> b \<and> status r = ReconciliationRequired"
  by (auto simp: recover_job_def Let_def require_reconciliation_def split: option.splits if_splits)

lemma recover_all_index:
  "snd (recover_all b js m) = fold (\<lambda>j. mem_put (snd (recover_job b j))) js m"
  by (induction js arbitrary: m) (simp_all add: Let_def case_prod_unfold)

lemma recover_all_recovered:
  "r \<in> set (fst (recover_all b js m)) \<Longrightarrow>
     r \<in> (\<lambda>j. snd (recover_job b j)) ` set js \<and> \<not> b \<and> status r = ReconciliationRequired"
proof (induction js arbitrary: m)
  case (Cons j js)
  from Cons.prems consider "r \<in> set (fst (recover_job b j))"
    | "r \<in> set (fst (recover_all b js (mem_put (snd (recover_job b j)) m)))"
    by (auto simp: Let_def case_prod_unfold)
  then show ?case
  proof cases
    case 1
    then show ?thesis using recover_job_recovered [OF 1] by auto
  next
    case 2
    from Cons.IH [OF 2] show ?thesis by auto
  qed
qed simp

text \<open>A predicate on jobs that holds for the whole index.\<close>

definition index_all :: "(job \<Rightarrow> bool) \<Rightarrow> job_index \<Rightarrow> bool" where
  "index_all P m \<longleftrightarrow> index_ok m \<and> (\<forall>j \<in> set (mem_load_all m). P j)"

lemma mem_load_all_put: "set (mem_load_all (mem_put j m)) \<subseteq> insert j (set (mem_load_all m))"
  using set_update_subset [of "job_id j" j m] by (force simp: mem_load_all_def mem_put_def)

lemma index_all_put: "index_all P m \<Longrightarrow> P j \<Longrightarrow> index_all P (mem_put j m)"
  using mem_load_all_put [of j m] by (auto simp: index_all_def index_ok_put)

lemma index_all_put': "index_all P m \<Longrightarrow> P j \<Longrightarrow> index_all P (AList.update (job_id j) j m)"
  using index_all_put [of P m j] by (simp add: mem_put_def)

lemma index_all_fold: "index_all P m \<Longrightarrow> \<forall>j \<in> set js. P (f j) \<Longrightarrow> index_all P (fold (\<lambda>j. mem_put (f j)) js m)"
  by (induction js arbitrary: m) (auto intro: index_all_put)

lemma index_all_prune: "index_all P m \<Longrightarrow> index_all P (mem_prune_terminal n m)"
  by (auto simp: index_all_def mem_prune_terminal_def index_ok_delete mem_load_all_def set_fold_delete)

lemma index_all_Nil [simp]: "index_all P []"
  by (simp add: index_all_def mem_load_all_def)

lemma and_then_disk_index:
  "and_then (on_disk f s) g = (r, s') \<Longrightarrow>
     (\<exists>e d. r = Inl e \<and> s' = s\<lparr>js_disk := d\<rparr>) \<or> (\<exists>x d. f (js_disk s) = (Inr x, d) \<and> g x (s\<lparr>js_disk := d\<rparr>) = (r, s'))"
  by (auto simp: on_disk_def and_then_def split: prod.splits sum.splits)

lemma append_compact_index: "append_compact C now s = (r, s') \<Longrightarrow> js_index s' = js_index s"
  by (auto simp: append_compact_def split: prod.splits option.splits dest!: and_then_disk_index)

text \<open>Whatever the outcome of an append, the index is as before or has exactly the new job; on
  success it has the new job.\<close>

lemma journal_append_index:
  assumes "journal_append C now ev j s = (r, s')"
  shows "js_index s' = js_index s \<or> js_index s' = mem_put j (js_index s)"
    and "r = Inr () \<Longrightarrow> js_index s' = mem_put j (js_index s)"
  using assms
  by (auto simp: journal_append_def Let_def mem_put_def split: option.splits if_splits
      dest!: and_then_disk_index append_compact_index)

lemma append_recovered_index_all:
  "append_recovered C now js s = (Inr (), s') \<Longrightarrow> index_all P (js_index s) \<Longrightarrow> \<forall>j \<in> set js. P j \<Longrightarrow>
     index_all P (js_index s')"
proof (induction js arbitrary: s)
  case (Cons j js)
  from Cons.prems(1) obtain u s1 where s1: "journal_append C now EvRecovered j s = (Inr u, s1)"
    "append_recovered C now js s1 = (Inr (), s')" by (auto elim: and_then_InrE)
  from journal_append_index(2) [OF s1(1)] have "js_index s1 = mem_put j (js_index s)" by simp
  with Cons.prems have "index_all P (js_index s1)" by (simp add: index_all_put)
  with Cons.IH [OF s1(2)] Cons.prems(3) show ?case by simp
qed simp

lemma journal_open_cases:
  assumes "journal_open C now d = (Inr s, d')"
  obtains d0 sc d1 d2 nxt m d3 where
    "io_call d = (Inr (), d0)" "scan_path C True d0 = (Inr sc, d1)"
    "(if scan_damaged sc then archive_damaged_journal d1 else (Inr (), d1)) = (Inr (), d2)"
    "initial_sequence C now (scan_damaged sc) (sc_max_sequence sc)
       (snd (recover_all (scan_damaged sc) (sc_jobs sc) [])) d2 = (Inr (nxt, m), d3)"
    "open_writer C now (fst (recover_all (scan_damaged sc) (sc_jobs sc) [])) (sc_torn_tail sc) nxt m d3
       = (Inr s, d')"
  using assms unfolding journal_open_def Let_def case_prod_unfold
  by (elim and_then_InrE) auto

lemma initial_sequence_index:
  "initial_sequence C now damaged mx m0 d = (Inr (nxt, m), d') \<Longrightarrow>
     m = m0 \<or> m = mem_prune_terminal COMPACT_RETAINED_TERMINAL m0"
  unfolding initial_sequence_def Let_def
  by (simp only: split: if_splits) (fastforce elim: and_then_InrE)+

lemma initial_sequence_index_all:
  "initial_sequence C now damaged mx m0 d = (Inr (nxt, m), d') \<Longrightarrow> index_all P m0 \<Longrightarrow> index_all P m"
  using initial_sequence_index [of C now damaged mx m0 d nxt m d'] index_all_prune by auto

lemma open_writer_index_all:
  assumes "open_writer C now rec torn nxt m d = (Inr s, d')" "index_all P m" "\<forall>j \<in> set rec. P j"
  shows "index_all P (js_index s)"
proof -
  obtain h d1 where "(case append_recovered C now rec
      \<lparr>js_disk = d1, js_index = m, js_handle = h, js_next_sequence = nxt, js_recovered_torn_tail = torn\<rparr> of
      (Inl e, s) \<Rightarrow> (Inl e, js_disk s) | (Inr _, s) \<Rightarrow> (Inr s, js_disk s)) = (Inr s, d')"
    using assms(1) unfolding open_writer_def by (rule and_then_InrE)
  then have "append_recovered C now rec
      \<lparr>js_disk = d1, js_index = m, js_handle = h, js_next_sequence = nxt, js_recovered_torn_tail = torn\<rparr>
      = (Inr (), s)"
    by (simp split: prod.splits sum.splits)
  with assms(2,3) show ?thesis using append_recovered_index_all by fastforce
qed

text \<open>Whatever is on the disk and whatever the system calls return, a store that opens holds
  every job as the recovery loop left it.\<close>

lemma journal_open_index_all:
  assumes "journal_open C now d = (Inr s, d')"
    and "\<And>sc d0 d1 j. io_call d = (Inr (), d0) \<Longrightarrow> scan_path C True d0 = (Inr sc, d1) \<Longrightarrow>
           P (snd (recover_job (scan_damaged sc) j))"
  shows "index_all P (js_index s)"
proof (rule journal_open_cases [OF assms(1)])
  fix d0 sc d1 d2 nxt m d3
  let ?R = "recover_all (scan_damaged sc) (sc_jobs sc) []"
  assume io: "io_call d = (Inr (), d0)" "scan_path C True d0 = (Inr sc, d1)"
    and init: "initial_sequence C now (scan_damaged sc) (sc_max_sequence sc) (snd ?R) d2 = (Inr (nxt, m), d3)"
    and writer: "open_writer C now (fst ?R) (sc_torn_tail sc) nxt m d3 = (Inr s, d')"
  have P: "P (snd (recover_job (scan_damaged sc) j))" for j by (rule assms(2) [OF io])
  then have "index_all P (snd ?R)" by (simp add: recover_all_index index_all_fold)
  with init have "index_all P m" by (rule initial_sequence_index_all)
  moreover have "\<forall>j \<in> set (fst ?R). P j" using P recover_all_recovered by fastforce
  ultimately show ?thesis by (rule open_writer_index_all [OF writer])
qed

section \<open>The store interface\<close>

interpretation journal: job_store "journal_ops C now" "\<lambda>s i. mem_get i (js_index s)" "\<lambda>s. index_ok (js_index s)"
  for C now
proof
  fix s :: journal_store and j :: job and s' ev
  let ?ev = "if status j = Pending then EvSubmitted else from_status (status j)"
  assume ok: "index_ok (js_index s)"
  show "(\<lambda>i. mem_get i (js_index s')) = (\<lambda>i. mem_get i (js_index s))(job_id j \<mapsto> j)"
    if "so_update (journal_ops C now) j ev s = (Inr (), s')"
    using that journal_append_index(2) [of C now ev j s "Inr ()" s']
    by (simp add: journal_ops_def hmap_simps fun_eq_iff)
  show "index_ok (js_index s')" if "so_update (journal_ops C now) j ev s = (r, s')" for r
    using that ok journal_append_index(1) [of C now ev j s r s']
    by (auto simp: journal_ops_def intro: index_ok_put)
  show "(\<lambda>i. mem_get i (js_index s')) = (\<lambda>i. mem_get i (js_index s)) \<or>
        (\<lambda>i. mem_get i (js_index s')) = (\<lambda>i. mem_get i (js_index s))(job_id j \<mapsto> j)"
    if "so_update (journal_ops C now) j ev s = (Inl e, s')" for e
    using that journal_append_index(1) [of C now ev j s "Inl e" s']
    by (auto simp: journal_ops_def hmap_simps fun_eq_iff)
  show "(\<lambda>i. mem_get i (js_index s')) = (\<lambda>i. mem_get i (js_index s))(job_id j \<mapsto> j)"
    if "so_put (journal_ops C now) j s = (Inr (), s')"
    using that journal_append_index(2) [of C now ?ev j s "Inr ()" s']
    by (simp add: journal_ops_def journal_put_def hmap_simps fun_eq_iff)
  show "index_ok (js_index s')" if "so_put (journal_ops C now) j s = (r, s')" for r
    using that ok journal_append_index(1) [of C now ?ev j s r s']
    by (auto simp: journal_ops_def journal_put_def intro: index_ok_put)
  show "(\<lambda>i. mem_get i (js_index s')) = (\<lambda>i. mem_get i (js_index s)) \<or>
        (\<lambda>i. mem_get i (js_index s')) = (\<lambda>i. mem_get i (js_index s))(job_id j \<mapsto> j)"
    if "so_put (journal_ops C now) j s = (Inl e, s')" for e
    using that journal_append_index(1) [of C now ?ev j s "Inl e" s']
    by (auto simp: journal_ops_def journal_put_def hmap_simps fun_eq_iff)
  show "\<exists>js. so_load_all (journal_ops C now) s = Inr js \<and> distinct (map job_id js) \<and>
          (\<forall>j. j \<in> set js \<longleftrightarrow> mem_get (job_id j) (js_index s) = Some j)"
    using index_load_all [OF ok] by (simp add: journal_ops_def)
  show "\<exists>js. so_pending (journal_ops C now) s = Inr js \<and> distinct (map job_id js) \<and>
          (\<forall>j. j \<in> set js \<longleftrightarrow> mem_get (job_id j) (js_index s) = Some j \<and> status j = Pending)"
    using index_pending [OF ok] by (simp add: journal_ops_def)
qed (simp add: journal_ops_def)

section \<open>Compaction of a well-formed store\<close>

fun compact_records :: "time \<Rightarrow> u64 \<Rightarrow> job list \<Rightarrow> journal_record list" where
  "compact_records now sq [] = []"
| "compact_records now sq (j # js) =
     \<lparr>schema_version = JOURNAL_SCHEMA_VERSION, sequence = sq, recorded_at = now,
      event = from_status (status j), rec_job = j\<rparr> # compact_records now (sq + 1) js"

definition valid_job :: "codec \<Rightarrow> job set \<Rightarrow> job \<Rightarrow> bool" where
  "valid_job C J j \<longleftrightarrow> j \<in> J \<and> has_valid_resolution (cd_uuid_ok C) j"

text \<open>The bytes of a compacted journal.\<close>

definition snapshot :: "codec \<Rightarrow> time \<Rightarrow> job_index \<Rightarrow> bytes" where
  "snapshot C now m = concat (map (line_of C) (compact_records now 0 (sort_key created_at (map snd m))))"

lemma compact_write_clean:
  assumes "faithful C J" "set js \<subseteq> J" "dk_io d = []"
  shows "compact_write C now sq js d = (Inr (concat (map (line_of C) (compact_records now sq js))), d)"
  using assms
proof (induction js arbitrary: sq)
  case (Cons j js)
  let ?r = "\<lparr>schema_version = JOURNAL_SCHEMA_VERSION, sequence = sq, recorded_at = now,
      event = from_status (status j), rec_job = j\<rparr>"
  obtain bs where "cd_enc C ?r = Some bs" "line_of C ?r = bs @ [newline]"
    using faithful_line [OF Cons.prems(1), of ?r] Cons.prems(2) by auto
  with Cons show ?case by simp
qed simp

lemma compact_journal_clean:
  assumes "faithful C J" "set (map snd m) \<subseteq> J" "dk_io d = []"
  shows "compact_journal C now (map snd m) d =
           (Inr (), d\<lparr>dk_file := Some (snapshot C now m), dk_inode := dk_inode d + 1\<rparr>)"
  using compact_write_clean [OF assms(1) _ assms(3), of "sort_key created_at (map snd m)" now 0] assms
  by (simp add: compact_journal_def rename_over_def sync_parent_def snapshot_def)

lemma length_compact_records [simp]: "length (compact_records now sq js) = length js"
  by (induction js arbitrary: sq) auto

lemma map_rec_job_compact [simp]: "map rec_job (compact_records now sq js) = js"
  by (induction js arbitrary: sq) auto

lemma sequence_compact:
  "i < length js \<Longrightarrow> sequence (compact_records now sq js ! i) = sq + word_of_nat i"
  by (induction js arbitrary: sq i) (auto simp: nth_Cons' algebra_simps of_nat_diff)

lemma in_compact_records:
  "r \<in> set (compact_records now sq js) \<Longrightarrow>
     rec_job r \<in> set js \<and> schema_version r = JOURNAL_SCHEMA_VERSION \<and> event r = from_status (status (rec_job r))"
  by (induction js arbitrary: sq) auto

lemma compact_record_ok:
  "r \<in> set (compact_records now sq js) \<Longrightarrow> \<forall>j \<in> set js. valid_job C J j \<Longrightarrow> good_record C J r"
  using in_compact_records [of r now sq js]
  by (auto simp: good_record_def record_problem_def valid_job_def event_matches_status_def)

lemma good_journal_compact:
  assumes "\<forall>j \<in> set js. valid_job C J j" "length js < 2 ^ 64"
  shows "good_journal C J (compact_records now 0 js)"
proof -
  have "sequence (compact_records now 0 js ! i) < sequence (compact_records now 0 js ! k)"
    if "i < k" "k < length js" for i k
    using that assms(2) by (simp add: sequence_compact word_less_nat_alt unat_of_nat take_bit_nat_eq_self)
  then have "sorted_wrt (<) (map sequence (compact_records now 0 js))"
    by (simp add: sorted_wrt_iff_nth_less)
  with assms(1) compact_record_ok show ?thesis by (auto simp: good_journal_def list_all_iff)
qed

lemma last_sequence_compact:
  "js \<noteq> [] \<Longrightarrow> last_sequence (compact_records now 0 js) = Some (word_of_nat (length js - 1))"
  using sequence_compact [of "length js - 1" js now 0] length_compact_records [of now 0 js]
  by (auto simp: last_sequence_def last_conv_nth simp del: length_compact_records)

section \<open>A concrete codec\<close>

text \<open>A codec for a table of jobs that writes every field of a record in unary. It meets the
  hypothesis \<open>faithful\<close> for the jobs of the table.\<close>

definition event_list :: "job_event list" where
  "event_list = [EvSubmitted, EvStarted, EvCompleted, EvFailed, EvRetried, EvCancelled, EvRecovered, EvResolved]"

definition unary :: "nat \<Rightarrow> bytes" where
  "unary n = replicate n 1 @ [2]"

fun unary_fields :: "nat \<Rightarrow> bytes \<Rightarrow> nat list" where
  "unary_fields a [] = []"
| "unary_fields a (b # bs) = (if b = 2 then a # unary_fields 0 bs else unary_fields (a + 1) bs)"

definition table_enc :: "job list \<Rightarrow> journal_record \<Rightarrow> bytes option" where
  "table_enc js r =
     (case (position (\<lambda>j. j = rec_job r) js, position (\<lambda>e. e = event r) event_list) of
        (Some k, Some e) \<Rightarrow>
          Some (concat (map unary [k, e, unat (schema_version r), unat (sequence r),
                                   nat (recorded_at r), nat (- recorded_at r)]))
      | _ \<Rightarrow> None)"

definition table_dec :: "job list \<Rightarrow> bytes \<Rightarrow> journal_record option" where
  "table_dec js bs =
     (case unary_fields 0 bs of
        [k, e, v, q, a, b] \<Rightarrow>
          if k < length js \<and> e < length event_list
          then Some \<lparr>schema_version = word_of_nat v, sequence = word_of_nat q,
                     recorded_at = int a - int b, event = event_list ! e, rec_job = js ! k\<rparr>
          else None
      | _ \<Rightarrow> None)"

definition table_codec :: "job list \<Rightarrow> codec" where
  "table_codec js = \<lparr>cd_enc = table_enc js, cd_dec = table_dec js, cd_uuid_ok = (\<lambda>_. True)\<rparr>"

lemma unary_fields_unary: "unary_fields a (unary n @ bs) = (a + n) # unary_fields 0 bs"
  unfolding unary_def by (induction n arbitrary: a) auto

lemma unary_fields_concat: "unary_fields 0 (concat (map unary ns)) = ns"
  by (induction ns) (simp_all add: unary_fields_unary)

lemma newline_unary: "newline \<notin> set (concat (map unary ns))"
  by (auto simp: unary_def newline_def)

lemma faithful_table: "faithful (table_codec js) (set js)"
  unfolding faithful_def
proof (intro allI impI)
  fix r :: journal_record assume "rec_job r \<in> set js"
  then obtain k where k: "position (\<lambda>j. j = rec_job r) js = Some k"
    by (cases "position (\<lambda>j. j = rec_job r) js") (auto simp: position_None_iff)
  have "event r \<in> set event_list" by (cases "event r") (simp_all add: event_list_def)
  then obtain e where e: "position (\<lambda>e. e = event r) event_list = Some e"
    by (cases "position (\<lambda>e. e = event r) event_list") (auto simp: position_None_iff)
  have nth: "k < length js" "js ! k = rec_job r" "e < length event_list" "event_list ! e = event r"
    using position_SomeD [OF k] position_SomeD [OF e] by blast+
  let ?ns = "[k, e, unat (schema_version r), unat (sequence r), nat (recorded_at r), nat (- recorded_at r)]"
  have "table_enc js r = Some (concat (map unary ?ns))" by (simp add: table_enc_def k e)
  moreover have "table_dec js (concat (map unary ?ns)) = Some r"
    unfolding table_dec_def unary_fields_concat using nth by simp
  moreover have "concat (map unary ?ns) \<noteq> []" by (simp add: unary_def)
  ultimately show "\<exists>bs. cd_enc (table_codec js) r = Some bs \<and> bs \<noteq> [] \<and> newline \<notin> set bs \<and>
      cd_dec (table_codec js) bs = Some r"
    unfolding table_codec_def codec.simps using newline_unary by blast
qed

lemma table_line:
  "line_of (table_codec js) r =
     (case (position (\<lambda>j. j = rec_job r) js, position (\<lambda>e. e = event r) event_list) of
        (Some k, Some e) \<Rightarrow>
          concat (map unary [k, e, unat (schema_version r), unat (sequence r), nat (recorded_at r), nat (- recorded_at r)])
            @ [newline]
      | _ \<Rightarrow> [])"
  by (simp add: line_of_def table_codec_def table_enc_def split: option.splits)

text \<open>A journal of two records of one job, for the instances below.\<close>

definition sample_job :: job where
  "sample_job = job_new (JobId ''a'') ''n'' JNull Low 3"

definition sample_record :: "u64 \<Rightarrow> job_event \<Rightarrow> job \<Rightarrow> journal_record" where
  "sample_record q ev j =
     \<lparr>schema_version = JOURNAL_SCHEMA_VERSION, sequence = q, recorded_at = 3, event = ev, rec_job = j\<rparr>"

definition sample_jobs :: "job list" where
  "sample_jobs = [sample_job, start 4 sample_job, snd (recover_job True sample_job),
     snd (recover_job True (start 4 sample_job)), snd (recover_job False (start 4 sample_job))]"

definition sample_journal :: "journal_record list" where
  "sample_journal = [sample_record 0 EvSubmitted sample_job, sample_record 1 EvStarted (start 4 sample_job)]"

lemma sample_status [simp]: "status sample_job = Pending" "job_id sample_job = JobId ''a''"
  "sample_job \<noteq> start t sample_job"
  by (simp add: sample_job_def)+ (metis job_status.distinct(1) transition_status(1,7) sample_job_def)

lemma sample_valid: "j \<in> set sample_jobs \<Longrightarrow> has_valid_resolution u j"
proof -
  have "has_valid_resolution u sample_job" "has_valid_resolution u (start 4 sample_job)"
    by (simp_all add: sample_job_def has_valid_resolution_def job_defs)
  then show "j \<in> set sample_jobs \<Longrightarrow> has_valid_resolution u j"
    by (auto simp: sample_jobs_def intro: recover_job_valid)
qed

lemma sample_journal_good: "good_journal (table_codec sample_jobs) (set sample_jobs) sample_journal"
  using sample_valid [of sample_job] sample_valid [of "start 4 sample_job"]
  by (simp add: good_journal_def sample_journal_def good_record_def sample_record_def sample_jobs_def
      record_problem_def event_matches_status_def)

lemma sample_lines:
  "line_of (table_codec sample_jobs) (sample_record q EvSubmitted sample_job) =
     [2, 2, 1, 2] @ unary (unat q) @ [1, 1, 1, 2, 2, newline]"
  "line_of (table_codec sample_jobs) (sample_record q EvStarted (start 4 sample_job)) =
     [1, 2, 1, 2, 1, 2] @ unary (unat q) @ [1, 1, 1, 2, 2, newline]"
  by (simp_all add: table_line sample_record_def sample_jobs_def event_list_def unary_def
      JOURNAL_SCHEMA_VERSION_def numeral_eq_Suc)

lemmas sample_eval = sample_journal_def sample_lines unary_def u64_max_def replay_def
  mem_load_all_def mem_put_def sample_record_def

section \<open>Properties\<close>

text \<open>C18. A crash may cut the journal at any byte. Scanning what is left gives exactly the
  latest state of every job according to the records that were completely written, reports the
  highest sequence number among them, and raises the torn-tail flag exactly when the cut fell
  inside a record.\<close>

theorem journal_crash_scan:
  assumes "faithful C J" "good_journal C J rs"
    and "length (concat (map (line_of C) rs)) \<le> u64_max"
  shows "let bs = take n (concat (map (line_of C) rs));
             k = whole_lines n (map (line_of C) rs);
             whole = length (concat (map (line_of C) (take k rs)))
         in scan_reader C True \<lparr>rd_bytes = bs, rd_fault = False\<rparr> =
              Inr \<lparr>sc_jobs = mem_load_all (replay (take k rs)), sc_torn_tail = (whole < length bs),
                   sc_max_sequence = last_sequence (take k rs), sc_incompatible = 0, sc_exists = True,
                   sc_bytes = length bs, sc_records = length (take k rs)\<rparr>"
proof -
  let ?ls = "map (line_of C) rs"
  let ?k = "whole_lines n ?ls"
  obtain t where t: "take n (concat ?ls) = concat (take ?k ?ls) @ t" "newline \<notin> set t"
    using take_whole_lines [OF good_journal_lines [OF assms(1,2)], of n] by blast
  have "length (concat (take ?k ?ls) @ t) \<le> length (concat ?ls)" unfolding t(1) [symmetric] by simp
  then have "length (concat (map (line_of C) (take ?k rs)) @ t) \<le> u64_max"
    using assms(3) by (simp add: take_map)
  from scan_reader_good [OF assms(1) good_journal_take [OF assms(2)] t(2) this, of True]
  show ?thesis unfolding Let_def t(1) by (simp add: take_map)
qed

theorem journal_crash_scan_witness:
  "\<exists>sc. scan_reader (table_codec sample_jobs) True
          \<lparr>rd_bytes = take 12 (concat (map (line_of (table_codec sample_jobs)) sample_journal)), rd_fault = False\<rparr>
        = Inr sc \<and> sc_jobs sc = [sample_job] \<and> sc_torn_tail sc"
proof -
  let ?C = "table_codec sample_jobs"
  have len: "map length (map (line_of ?C) sample_journal) = [11, 14]"
    by (simp add: sample_journal_def sample_lines unary_def)
  then have k: "whole_lines 12 (map (line_of ?C) sample_journal) = 1"
    "length (concat (map (line_of ?C) sample_journal)) = 25"
    "length (concat (map (line_of ?C) (take 1 sample_journal))) = 11"
    by (simp_all add: sample_journal_def)
  from journal_crash_scan [OF faithful_table sample_journal_good, of 12] k
  show ?thesis
    by (simp add: Let_def u64_max_def)
       (simp add: sample_journal_def replay_def mem_load_all_def mem_put_def sample_record_def)
qed

end
