(* ===== verification/Job_Recovery.thy ===== *)
theory Job_Recovery
  imports Job_Journal
begin

text \<open>
  Durability of the job journal: the invariant that ties the bytes on the disk to the index of
  the store, its preservation by appends, compaction and retention, and what a store finds when
  it opens the journal again, after a clean stop or a crash. A disk without pending faults
  (\<open>dk_io d = []\<close>) performs every call; the theorems on faulty disks are stated separately.
\<close>

section \<open>The invariant\<close>

text \<open>The journal on the disk holds the records \<open>rs\<close>, and the index agrees with them except
  for the ids in \<open>X\<close>, whose new state is still to be written.\<close>

definition journal_inv_upto ::
  "job_id set \<Rightarrow> codec \<Rightarrow> job set \<Rightarrow> journal_record list \<Rightarrow> journal_store \<Rightarrow> bool" where
  "journal_inv_upto X C J rs s \<longleftrightarrow>
     dk_io (js_disk s) = [] \<and>
     dk_file (js_disk s) = Some (concat (map (line_of C) rs)) \<and>
     js_handle s = dk_inode (js_disk s) \<and>
     good_journal C J rs \<and>
     (\<forall>r \<in> set rs. sequence r < js_next_sequence s) \<and>
     index_all (valid_job C J) (js_index s) \<and>
     (\<forall>i. i \<notin> X \<longrightarrow> mem_get i (js_index s) = mem_get i (replay rs))"

abbreviation journal_inv :: "codec \<Rightarrow> job set \<Rightarrow> journal_record list \<Rightarrow> journal_store \<Rightarrow> bool" where
  "journal_inv \<equiv> journal_inv_upto {}"

definition fits :: "codec \<Rightarrow> time \<Rightarrow> job_index \<Rightarrow> bool" where
  "fits C now m \<longleftrightarrow> length (snapshot C now m) \<le> u64_max"

lemma journal_inv_upto_mono: "journal_inv C J rs s \<Longrightarrow> journal_inv_upto X C J rs s"
  by (simp add: journal_inv_upto_def)

lemma index_ok_fold_put: "index_ok m \<Longrightarrow> index_ok (fold mem_put js m)"
  by (induction js arbitrary: m) (auto intro: index_ok_put)

lemma replay_fold: "replay rs = fold mem_put (map rec_job rs) []"
  by (simp add: replay_def fold_map o_def)

lemma index_ok_replay [simp]: "index_ok (replay rs)"
  by (simp add: replay_fold index_ok_fold_put)

lemma replay_snoc: "replay (rs @ [r]) = mem_put (rec_job r) (replay rs)"
  by (simp add: replay_def)

lemma fold_put_get:
  "distinct (map job_id js) \<Longrightarrow>
     mem_get i (fold mem_put js []) = Some j \<longleftrightarrow> j \<in> set js \<and> job_id j = i"
proof (induction js rule: rev_induct)
  case Nil
  then show ?case by (simp add: mem_get_def)
next
  case (snoc x xs)
  then show ?case by (auto simp: hmap_simps image_iff)
qed

lemma mem_get_eqI:
  assumes "index_ok m" "index_ok m'" "set (mem_load_all m) = set (mem_load_all m')"
  shows "mem_get i m = mem_get i m'"
proof -
  have "mem_get i m = Some j \<longleftrightarrow> mem_get i m' = Some j" for j
    using assms by (simp add: index_ok_get)
  then show ?thesis by (metis option.exhaust)
qed

lemma set_load_fold_put:
  "distinct (map job_id js) \<Longrightarrow> set (mem_load_all (fold mem_put js [])) = set js"
  using fold_put_get [of js] index_load_all(2) [OF index_ok_fold_put [OF index_ok_Nil], of _ js]
  by blast

lemma replay_compact:
  assumes "index_ok m"
  shows "mem_get i (replay (compact_records now 0 (sort_key created_at (map snd m)))) = mem_get i m"
proof (rule mem_get_eqI)
  have "distinct (map job_id (sort_key created_at (map snd m)))"
    using index_load_all(1) [OF assms] by (simp add: mem_load_all_def)
  then show "set (mem_load_all (replay (compact_records now 0 (sort_key created_at (map snd m))))) =
      set (mem_load_all m)"
    by (simp add: replay_fold set_load_fold_put) (simp add: mem_load_all_def)
qed (simp_all add: assms)

section \<open>Compaction and appends\<close>

lemma index_all_jobs: "index_all (valid_job C J) m \<Longrightarrow> set (map snd m) \<subseteq> J \<and> (\<forall>j \<in> set (map snd m). valid_job C J j)"
  by (auto simp: index_all_def mem_load_all_def valid_job_def)

lemma compacted_journal:
  assumes "index_all (valid_job C J) m" "length m < 2 ^ 64"
  shows "good_journal C J (compact_records now 0 (sort_key created_at (map snd m)))"
    and "\<forall>r \<in> set (compact_records now 0 (sort_key created_at (map snd m))). sequence r < word_of_nat (length m)"
proof -
  let ?js = "sort_key created_at (map snd m)"
  show "good_journal C J (compact_records now 0 ?js)"
    using index_all_jobs [OF assms(1)] assms(2) by (intro good_journal_compact) auto
  have "sequence (compact_records now 0 ?js ! i) < word_of_nat (length m)" if "i < length m" for i
    using that assms(2)
    by (simp add: sequence_compact word_less_nat_alt unat_of_nat take_bit_nat_eq_self)
  then show "\<forall>r \<in> set (compact_records now 0 ?js). sequence r < word_of_nat (length m)"
    by (auto simp: in_set_conv_nth)
qed

lemma scan_path_good:
  assumes "faithful C J" "good_journal C J rs" "dk_io d = []"
    and "dk_file d = Some (concat (map (line_of C) rs))" "length (concat (map (line_of C) rs)) \<le> u64_max"
  shows "\<exists>sc. scan_path C collect d = (Inr sc, d) \<and> sc_max_sequence sc = last_sequence rs \<and>
             (collect \<longrightarrow> sc_jobs sc = mem_load_all (replay rs)) \<and> \<not> sc_torn_tail sc \<and> sc_incompatible sc = 0"
  using scan_reader_good [OF assms(1,2), of "[]" collect] assms(3-)
  by (simp add: scan_path_def)

lemma compacted_store:
  assumes "faithful C J" "index_all (valid_job C J) m" "length m < 2 ^ 64"
    and d: "dk_io d = []" "dk_file d = Some (snapshot C now m)"
  shows "journal_inv C J (compact_records now 0 (sort_key created_at (map snd m)))
           \<lparr>js_disk = d, js_index = m, js_handle = dk_inode d, js_next_sequence = word_of_nat (length m),
            js_recovered_torn_tail = t\<rparr>"
  using compacted_journal [OF assms(2,3), of now] assms replay_compact [of m _ now]
  by (simp add: journal_inv_upto_def snapshot_def index_all_def)

lemma next_after_compact:
  assumes "m \<noteq> []"
  shows "length m < 2 ^ 64 \<Longrightarrow>
    next_after (last_sequence (compact_records now 0 (sort_key created_at (map snd m)))) = Some (word_of_nat (length m))"
proof -
  assume len: "length m < 2 ^ 64"
  let ?js = "sort_key created_at (map snd m)"
  have "?js \<noteq> []" using assms by (metis length_0_conv length_map length_sort)
  then have "last_sequence (compact_records now 0 ?js) = Some (word_of_nat (length m - 1))"
    using last_sequence_compact [of ?js now] by simp
  moreover have "(word_of_nat (length m - 1) :: u64) \<noteq> - 1"
  proof
    assume "(word_of_nat (length m - 1) :: u64) = - 1"
    then have "unat (word_of_nat (length m - 1) :: u64) = unat (- 1 :: u64)" by simp
    then have "length m - 1 = 2 ^ 64 - 1"
      using len by (simp add: unat_of_nat take_bit_nat_eq_self unsigned_minus_1_eq_mask mask_eq_exp_minus_1)
    with len assms show False by (cases m) auto
  qed
  moreover have "(word_of_nat (length m - 1) :: u64) + 1 = word_of_nat (length m)"
    using assms by (cases m) (simp_all add: algebra_simps)
  ultimately show ?thesis by (simp add: next_after_def checked_succ_def)
qed

lemma append_compact_clean:
  assumes "faithful C J" "index_all (valid_job C J) (js_index s)" "js_index s \<noteq> []"
    "length (js_index s) < 2 ^ 64" "dk_io (js_disk s) = []" "fits C now (js_index s)"
  shows "\<exists>s' rs'. append_compact C now s = (Inr (), s') \<and> journal_inv C J rs' s' \<and>
           js_index s' = js_index s \<and> js_next_sequence s' = word_of_nat (length (js_index s)) \<and>
           dk_archives (js_disk s') = dk_archives (js_disk s)"
proof -
  let ?m = "js_index s"
  let ?rs = "compact_records now 0 (sort_key created_at (map snd ?m))"
  let ?d = "(js_disk s)\<lparr>dk_file := Some (snapshot C now ?m), dk_inode := Suc (dk_inode (js_disk s))\<rparr>"
  have comp: "compact_journal C now (map snd ?m) (js_disk s) = (Inr (), ?d)"
    using compact_journal_clean [OF assms(1) _ assms(5), of ?m now] index_all_jobs [OF assms(2)] by simp
  obtain sc where sc: "scan_path C False ?d = (Inr sc, ?d)" "sc_max_sequence sc = last_sequence ?rs"
    using scan_path_good [OF assms(1) compacted_journal(1) [OF assms(2,4)], of ?d now False] assms(5,6)
    by (auto simp: fits_def snapshot_def)
  let ?s = "s\<lparr>js_disk := ?d, js_handle := dk_inode ?d, js_next_sequence := word_of_nat (length ?m)\<rparr>"
  have "append_compact C now s = (Inr (), ?s)"
    using next_after_compact [OF assms(3,4), of now] assms(5)
    by (simp add: append_compact_def comp on_disk_def open_append_def sc)
  moreover have "journal_inv C J ?rs ?s"
    using compacted_store [OF assms(1,2,4), of ?d now "js_recovered_torn_tail s"] assms(5)
    by (simp add: journal_inv_upto_def)
  ultimately show ?thesis by (intro exI [of _ ?s] exI [of _ ?rs]) simp
qed

definition event_ok :: "job_event \<Rightarrow> job \<Rightarrow> bool" where
  "event_ok ev j \<longleftrightarrow> ev = from_status (status j) \<or> ev = EvSubmitted \<and> status j = Pending"

abbreviation new_record :: "time \<Rightarrow> u64 \<Rightarrow> job_event \<Rightarrow> job \<Rightarrow> journal_record" where
  "new_record now q ev j \<equiv>
     \<lparr>schema_version = JOURNAL_SCHEMA_VERSION, sequence = q, recorded_at = now, event = ev, rec_job = j\<rparr>"

lemma good_journal_snoc:
  assumes "good_journal C J rs" "\<forall>r \<in> set rs. sequence r < q" "valid_job C J j" "event_ok ev j"
  shows "good_journal C J (rs @ [new_record now q ev j])"
  using assms
  by (auto simp: good_journal_def good_record_def valid_job_def event_ok_def record_problem_def
      event_matches_status_def sorted_wrt_append)

lemma append_plain_inv:
  assumes "journal_inv_upto X C J rs s" "valid_job C J j" "event_ok ev j" "js_next_sequence s \<noteq> - 1"
  shows "journal_inv_upto (X - {job_id j}) C J (rs @ [new_record now (js_next_sequence s) ev j])
           (s\<lparr>js_disk := (js_disk s)\<lparr>dk_file := Some (concat (map (line_of C) rs) @ line_of C (new_record now (js_next_sequence s) ev j))\<rparr>,
              js_next_sequence := js_next_sequence s + 1, js_index := mem_put j (js_index s)\<rparr>)"
proof -
  have lt: "js_next_sequence s < js_next_sequence s + 1"
    using assms(4) by (simp add: word_less_nat_alt unat_succ)
  then have "\<forall>r \<in> set rs. sequence r < js_next_sequence s + 1"
    using assms(1) by (auto simp: journal_inv_upto_def intro: order.strict_trans)
  moreover have "good_journal C J (rs @ [new_record now (js_next_sequence s) ev j])"
    using assms by (intro good_journal_snoc) (auto simp: journal_inv_upto_def)
  ultimately show ?thesis
    using assms(1,2) lt by (auto simp: journal_inv_upto_def replay_snoc hmap_simps index_all_put)
qed

text \<open>An append on a disk that performs every call.\<close>

lemma journal_append_clean:
  assumes "faithful C J" "journal_inv_upto X C J rs s" "valid_job C J j" "event_ok ev j"
    "js_next_sequence s \<noteq> - 1" "fits C now (mem_put j (js_index s))"
  shows "\<exists>s' rs'. journal_append C now ev j s = (Inr (), s') \<and>
           journal_inv_upto (X - {job_id j}) C J rs' s' \<and>
           js_index s' = mem_put j (js_index s) \<and>
           dk_archives (js_disk s') = dk_archives (js_disk s) \<and>
           (js_next_sequence s' = js_next_sequence s + 1 \<or>
            js_next_sequence s' = word_of_nat (length (js_index s')))"
proof -
  let ?r = "new_record now (js_next_sequence s) ev j"
  let ?d = "(js_disk s)\<lparr>dk_file := Some (concat (map (line_of C) rs) @ line_of C ?r)\<rparr>"
  let ?s = "s\<lparr>js_disk := ?d, js_next_sequence := js_next_sequence s + 1, js_index := mem_put j (js_index s)\<rparr>"
  obtain bs where bs: "cd_enc C ?r = Some bs" "line_of C ?r = bs @ [newline]"
    using faithful_line [OF assms(1), of ?r] assms(3) by (auto simp: valid_job_def)
  have disk: "dk_io (js_disk s) = []" "dk_file (js_disk s) = Some (concat (map (line_of C) rs))"
    "js_handle s = dk_inode (js_disk s)" using assms(2) by (simp_all add: journal_inv_upto_def)
  have inv: "journal_inv_upto (X - {job_id j}) C J (rs @ [?r]) ?s" by (rule append_plain_inv [OF assms(2-5)])
  have run: "journal_append C now ev j s =
      (if length (js_index ?s) + COMPACT_THRESHOLD \<le> unat (js_next_sequence ?s)
       then append_compact C now ?s else (Inr (), ?s))"
    using assms(5) bs disk
    by (simp add: journal_append_def checked_succ_def on_disk_def write_all_def append_bytes_def mem_put_def)
  show ?thesis
  proof (cases "length (js_index ?s) + COMPACT_THRESHOLD \<le> unat (js_next_sequence ?s)")
    case True
    have "unat (js_next_sequence ?s) < 2 ^ 64"
      using unsigned_less [of "js_next_sequence ?s", where ?'a = nat] by simp
    with True have len: "length (js_index ?s) < 2 ^ 64" by linarith
    have ne: "js_index ?s \<noteq> []" by (simp add: mem_put_def)
    have pre: "index_all (valid_job C J) (js_index ?s)" "dk_io (js_disk ?s) = []" "fits C now (js_index ?s)"
      using inv assms(6) by (simp_all add: journal_inv_upto_def)
    obtain s' rs' where "append_compact C now ?s = (Inr (), s')" "journal_inv C J rs' s'"
      "js_index s' = js_index ?s" "js_next_sequence s' = word_of_nat (length (js_index ?s))"
      "dk_archives (js_disk s') = dk_archives (js_disk ?s)"
      using append_compact_clean [OF assms(1) pre(1) ne len pre(2,3)] by blast
    with run True show ?thesis
      by (intro exI [of _ s'] exI [of _ rs']) (auto intro: journal_inv_upto_mono)
  next
    case False
    with run inv show ?thesis by (intro exI [of _ ?s] exI [of _ "rs @ [?r]"]) simp
  qed
qed

section \<open>Opening a well-formed journal\<close>

lemma mem_put_same: "mem_get (job_id j) m = Some j \<Longrightarrow> mem_put j m = m"
  by (induction m) (auto simp: mem_get_def mem_put_def)

lemma append_recovered_clean:
  assumes "faithful C J" "journal_inv_upto X C J rs s" "fits C now (js_index s)"
    "\<forall>j \<in> set js. mem_get (job_id j) (js_index s) = Some j \<and> status j = ReconciliationRequired"
    "unat (js_next_sequence s) + length js \<le> 2 ^ 63" "length (js_index s) \<le> 2 ^ 62" "length js \<le> 2 ^ 62"
  shows "\<exists>s' rs'. append_recovered C now js s = (Inr (), s') \<and>
           journal_inv_upto (X - job_id ` set js) C J rs' s' \<and>
           js_index s' = js_index s \<and> dk_archives (js_disk s') = dk_archives (js_disk s)"
  using assms
proof (induction js arbitrary: s rs X)
  case (Cons j js)
  from Cons.prems(4) have same: "mem_put j (js_index s) = js_index s" by (simp add: mem_put_same)
  have ok: "index_ok (js_index s)" "index_all (valid_job C J) (js_index s)"
    using Cons.prems(2) by (simp_all add: journal_inv_upto_def index_all_def)
  then have "valid_job C J j"
    using Cons.prems(4) index_ok_get [OF ok(1), of "job_id j" j] by (auto simp: index_all_def)
  moreover have "event_ok EvRecovered j" using Cons.prems(4) by (simp add: event_ok_def)
  moreover have nxt: "js_next_sequence s \<noteq> - 1" "unat (js_next_sequence s + 1) = Suc (unat (js_next_sequence s))"
  proof -
    show "js_next_sequence s \<noteq> - 1"
      using Cons.prems(5) by (auto simp: unsigned_minus_1_eq_mask mask_eq_exp_minus_1)
    then show "unat (js_next_sequence s + 1) = Suc (unat (js_next_sequence s))" by (rule unat_succ)
  qed
  ultimately obtain s1 rs1 where s1: "journal_append C now EvRecovered j s = (Inr (), s1)"
    "journal_inv_upto (X - {job_id j}) C J rs1 s1" "js_index s1 = js_index s" "dk_archives (js_disk s1) = dk_archives (js_disk s)"
    "js_next_sequence s1 = js_next_sequence s + 1 \<or> js_next_sequence s1 = word_of_nat (length (js_index s))"
    using journal_append_clean [OF Cons.prems(1,2), of j EvRecovered now] Cons.prems(3) same by auto
  have "unat (js_next_sequence s1) \<le> max (Suc (unat (js_next_sequence s))) (length (js_index s))"
    using s1(5) nxt(2) Cons.prems(6) by (auto simp: unat_of_nat)
  then have "unat (js_next_sequence s1) + length js \<le> 2 ^ 63" using Cons.prems(5-7) by auto
  with Cons.IH [OF Cons.prems(1) s1(2)] Cons.prems s1
  obtain s' rs' where "append_recovered C now js s1 = (Inr (), s')"
    "journal_inv_upto (X - {job_id j} - job_id ` set js) C J rs' s'"
    "js_index s' = js_index s" "dk_archives (js_disk s') = dk_archives (js_disk s)"
    by auto
  moreover have "X - {job_id j} - job_id ` set js = X - job_id ` set (j # js)" by auto
  ultimately show ?case using s1(1) by auto
qed auto

text \<open>The jobs a recovery may have to write: those of the journal and what recovery makes of
  them. A job that already awaits reconciliation is in the form \<open>require_reconciliation\<close> gives it.\<close>

definition recover_closed :: "job set \<Rightarrow> bool" where
  "recover_closed J \<longleftrightarrow>
     (\<forall>j \<in> J. snd (recover_job True j) \<in> J \<and> snd (recover_job False j) \<in> J \<and>
               (status j = ReconciliationRequired \<longrightarrow> snd (recover_job False j) = j))"

definition recovered_index :: "bool \<Rightarrow> journal_record list \<Rightarrow> job_index" where
  "recovered_index damaged rs = snd (recover_all damaged (mem_load_all (replay rs)) [])"

lemma recovered_index_fold:
  "recovered_index b rs = fold mem_put (map (\<lambda>j. snd (recover_job b j)) (mem_load_all (replay rs))) []"
  by (simp add: recovered_index_def recover_all_index fold_map o_def)

lemma recovered_index_ids: "distinct (map job_id (map (\<lambda>j. snd (recover_job b j)) (mem_load_all (replay rs))))"
  using index_load_all(1) [OF index_ok_replay [of rs]] by (simp add: o_def)

lemma recovered_index_get:
  "mem_get i (recovered_index b rs) = map_option (\<lambda>j. snd (recover_job b j)) (mem_get i (replay rs))"
proof -
  have "mem_get i (recovered_index b rs) = Some j \<longleftrightarrow>
      map_option (\<lambda>j. snd (recover_job b j)) (mem_get i (replay rs)) = Some j" for j
    unfolding recovered_index_fold fold_put_get [OF recovered_index_ids]
    by (auto simp: index_ok_get [OF index_ok_replay])
  then show ?thesis by (metis option.exhaust)
qed

lemma replay_valid:
  assumes "good_journal C J rs" "j \<in> set (mem_load_all (replay rs))"
  shows "valid_job C J j"
proof -
  have "set (mem_load_all (fold mem_put js m)) \<subseteq> set js \<union> set (mem_load_all m)" for js m
    by (induction js arbitrary: m) (use mem_load_all_put in fastforce)+
  from this [of "map rec_job rs" "[]"] assms(2) have "j \<in> rec_job ` set rs"
    by (auto simp: replay_fold mem_load_all_def)
  with assms(1) show ?thesis
    by (auto simp: good_journal_def good_record_def valid_job_def record_problem_def list_all_iff
        split: if_splits)
qed

lemma length_fold_put: "length (fold mem_put js m) \<le> length js + length m"
proof (induction js arbitrary: m)
  case (Cons j js)
  from Cons [of "mem_put j m"] show ?case
    by (simp add: mem_put_def length_update split: if_splits)
qed simp

lemma recovered_index_valid:
  assumes "good_journal C J rs" "recover_closed J"
  shows "index_all (valid_job C J) (recovered_index b rs)"
    and "length (recovered_index b rs) \<le> length rs"
proof -
  have "valid_job C J (snd (recover_job b j))" if "j \<in> set (mem_load_all (replay rs))" for j
    using replay_valid [OF assms(1) that] assms(2) recover_job_valid
    by (cases b) (auto simp: valid_job_def recover_closed_def)
  then show "index_all (valid_job C J) (recovered_index b rs)"
    by (simp add: recovered_index_def recover_all_index index_all_fold)
  have "length (mem_load_all (replay rs)) \<le> length rs"
    using length_fold_put [of "map rec_job rs" "[]"] by (simp add: replay_fold mem_load_all_def)
  then show "length (recovered_index b rs) \<le> length rs"
    using length_fold_put [of "map (\<lambda>j. snd (recover_job b j)) (mem_load_all (replay rs))" "[]"]
    by (simp add: recovered_index_fold)
qed

text \<open>The index a store starts with.\<close>

definition opened_index :: "bool \<Rightarrow> journal_record list \<Rightarrow> job_index" where
  "opened_index damaged rs =
     (if \<not> damaged \<and> (case last_sequence rs of Some q \<Rightarrow> word_of_nat COMPACT_THRESHOLD \<le> q | None \<Rightarrow> False)
      then mem_prune_terminal COMPACT_RETAINED_TERMINAL (recovered_index damaged rs)
      else recovered_index damaged rs)"

definition recovered_jobs :: "bool \<Rightarrow> journal_record list \<Rightarrow> job list" where
  "recovered_jobs damaged rs = fst (recover_all damaged (mem_load_all (replay rs)) [])"

lemma mem_get_prune_keeps:
  assumes "index_ok m" "mem_get i m = Some j" "\<not> is_terminal j"
  shows "mem_get i (mem_prune_terminal n m) = Some j"
proof -
  have "(i, j) \<in> set m" using assms(2) by (auto simp: mem_get_def dest: map_of_SomeD)
  from mem_prune_kept [OF assms(1) this assms(3)] have "(i, j) \<in> set (mem_prune_terminal n m)" .
  moreover have "distinct (map fst (mem_prune_terminal n m))"
    using index_ok_delete [OF assms(1)] by (simp add: mem_prune_terminal_def index_ok_def)
  ultimately show ?thesis unfolding mem_get_def by (rule map_of_is_SomeI [rotated])
qed

lemma opened_index_get:
  assumes "mem_get i (recovered_index b rs) = Some j" "\<not> is_terminal j"
  shows "mem_get i (opened_index b rs) = Some j"
proof -
  have "index_ok (recovered_index b rs)" by (simp add: recovered_index_fold index_ok_fold_put)
  from mem_get_prune_keeps [OF this assms] assms(1) show ?thesis
    by (cases b) (simp_all add: opened_index_def)
qed

lemma recovered_jobs_indexed:
  assumes "j \<in> set (recovered_jobs b rs)"
  shows "mem_get (job_id j) (opened_index b rs) = Some j \<and> status j = ReconciliationRequired"
proof -
  from recover_all_recovered [OF assms [unfolded recovered_jobs_def]]
  obtain j0 where j: "j0 \<in> set (mem_load_all (replay rs))" "j = snd (recover_job b j0)"
    "status j = ReconciliationRequired" by auto
  then have "mem_get (job_id j) (replay rs) = Some j0" by (simp add: index_ok_get)
  with j(2) have get: "mem_get (job_id j) (recovered_index b rs) = Some j" by (simp add: recovered_index_get)
  have "\<not> is_terminal j" using j(3) by (simp add: is_terminal_def)
  with opened_index_get [OF get] j(3) show ?thesis by simp
qed

lemma recover_all_running:
  "j \<in> set js \<Longrightarrow> status j = Running \<Longrightarrow> snd (recover_job False j) \<in> set (fst (recover_all False js m))"
proof (induction js arbitrary: m)
  case (Cons x xs)
  have "snd (recover_job False j) \<in> set (fst (recover_job False j))"
    using Cons.prems(2) by (simp add: recover_job_def Let_def require_reconciliation_def)
  with Cons show ?case by (auto simp: Let_def case_prod_unfold)
qed simp

lemma recovered_jobs_complete:
  assumes "good_journal C J rs" "recover_closed J"
    and "mem_get i (recovered_index False rs) \<noteq> mem_get i (replay rs)"
  shows "i \<in> job_id ` set (recovered_jobs False rs)"
proof (cases "mem_get i (replay rs)")
  case None
  with assms(3) show ?thesis by (simp add: recovered_index_get)
next
  case (Some j)
  then have j: "j \<in> set (mem_load_all (replay rs))" "job_id j = i" by (simp_all add: index_ok_get)
  from Some assms(3) have ne: "snd (recover_job False j) \<noteq> j" by (simp add: recovered_index_get)
  have "j \<in> J" using replay_valid [OF assms(1) j(1)] by (simp add: valid_job_def)
  with assms(2) ne have "status j \<noteq> ReconciliationRequired" by (auto simp: recover_closed_def)
  with ne have "status j = Running" by (auto simp: recover_job_def Let_def split: if_splits)
  from recover_all_running [OF j(1) this, of "[]"] j(2) show ?thesis
    unfolding recovered_jobs_def by (metis image_eqI recover_job_id)
qed

lemma fold_delete_length: "length (fold AList.delete ks m) \<le> length m"
  by (induction ks arbitrary: m) (auto intro: order_trans [OF _ length_delete_le])

lemma sequence_le_last:
  assumes "sorted_wrt (<) (map sequence rs)" "r \<in> set rs"
  shows "\<exists>q. last_sequence rs = Some q \<and> sequence r \<le> q"
  using assms
  by (cases rs rule: rev_cases) (auto simp: last_sequence_def sorted_wrt_append)

lemma next_above:
  assumes "good_journal C J rs" "last_sequence rs \<noteq> Some (- 1)"
    "\<not> (case last_sequence rs of Some q \<Rightarrow> word_of_nat COMPACT_THRESHOLD \<le> q | None \<Rightarrow> False)"
  shows "\<forall>r \<in> set rs. sequence r < (case next_after (last_sequence rs) of Some n \<Rightarrow> n | None \<Rightarrow> 0)"
    and "unat (case next_after (last_sequence rs) of Some n \<Rightarrow> n | None \<Rightarrow> 0) \<le> 4096"
proof -
  show "\<forall>r \<in> set rs. sequence r < (case next_after (last_sequence rs) of Some n \<Rightarrow> n | None \<Rightarrow> 0)"
  proof
    fix r assume "r \<in> set rs"
    then obtain q where q: "last_sequence rs = Some q" "sequence r \<le> q"
      using sequence_le_last assms(1) unfolding good_journal_def by blast
    with assms(2) have "q < q + 1" by (simp add: word_less_nat_alt unat_succ)
    with q assms(2) show "sequence r < (case next_after (last_sequence rs) of Some n \<Rightarrow> n | None \<Rightarrow> 0)"
      by (auto simp: next_after_def checked_succ_def)
  qed
  show "unat (case next_after (last_sequence rs) of Some n \<Rightarrow> n | None \<Rightarrow> 0) \<le> 4096"
  proof (cases "last_sequence rs")
    case (Some q)
    with assms(3) have "unat q < 4096" by (simp add: COMPACT_THRESHOLD_def word_less_nat_alt not_le)
    with Some assms(2) show ?thesis by (simp add: next_after_def checked_succ_def unat_succ)
  qed (simp add: next_after_def)
qed

lemma open_writer_clean:
  assumes "faithful C J" "fits C now m" "length m \<le> 2 ^ 62" "length js \<le> 2 ^ 62"
    and "journal_inv_upto X C J rs
           \<lparr>js_disk = d, js_index = m, js_handle = dk_inode d, js_next_sequence = nxt, js_recovered_torn_tail = torn\<rparr>"
    and "\<forall>j \<in> set js. mem_get (job_id j) m = Some j \<and> status j = ReconciliationRequired"
    and "X \<subseteq> job_id ` set js" "unat nxt + length js \<le> 2 ^ 63"
  shows "\<exists>s rs'. open_writer C now js torn nxt m d = (Inr s, js_disk s) \<and> journal_inv C J rs' s \<and>
           js_index s = m \<and> dk_archives (js_disk s) = dk_archives d"
proof -
  let ?s = "\<lparr>js_disk = d, js_index = m, js_handle = dk_inode d, js_next_sequence = nxt, js_recovered_torn_tail = torn\<rparr>"
  have d: "dk_io d = []" "\<exists>bs. dk_file d = Some bs" using assms(5) by (simp_all add: journal_inv_upto_def)
  from append_recovered_clean [OF assms(1,5), of now js] assms(2-4,6,8) obtain s rs' where
    s: "append_recovered C now js ?s = (Inr (), s)" "journal_inv_upto (X - job_id ` set js) C J rs' s"
      "js_index s = m" "dk_archives (js_disk s) = dk_archives d" by auto
  have "X - job_id ` set js = {}" using assms(7) by blast
  with s(2) have "journal_inv C J rs' s" by simp
  moreover have "open_writer C now js torn nxt m d = (Inr s, js_disk s)"
    using d s(1) by (auto simp: open_writer_def open_append_def)
  ultimately show ?thesis using s by blast
qed

text \<open>The sequence number and the disk the writer starts from.\<close>

lemma initial_sequence_clean:
  assumes "faithful C J" "good_journal C J rs" "recover_closed J" "length rs \<le> 2 ^ 62"
    and d: "dk_io d = []" "\<not> b \<Longrightarrow> dk_file d = Some (concat (map (line_of C) rs))"
    and b: "last_sequence rs = Some (- 1) \<Longrightarrow> b"
  shows "\<exists>nxt d' rs' X. initial_sequence C now b (last_sequence rs) (recovered_index b rs) d
             = (Inr (nxt, opened_index b rs), d') \<and>
           journal_inv_upto X C J rs'
             \<lparr>js_disk = d', js_index = opened_index b rs, js_handle = dk_inode d', js_next_sequence = nxt,
              js_recovered_torn_tail = t\<rparr> \<and>
           X \<subseteq> job_id ` set (recovered_jobs b rs) \<and> unat nxt \<le> 2 ^ 62 \<and> dk_archives d' = dk_archives d"
proof -
  let ?m = "recovered_index b rs"
  let ?full = "case last_sequence rs of Some q \<Rightarrow> word_of_nat COMPACT_THRESHOLD \<le> q | None \<Rightarrow> False"
  note valid = recovered_index_valid [OF assms(2,3), of b]
  have compaction: ?thesis
    if "initial_sequence C now b (last_sequence rs) ?m d =
          and_then (compact_journal C now (map snd m) d) (\<lambda>_ d. (Inr (word_of_nat (length m), m), d))"
      "m = opened_index b rs" "index_all (valid_job C J) m" "length m \<le> length rs" for m
  proof -
    let ?d = "d\<lparr>dk_file := Some (snapshot C now m), dk_inode := Suc (dk_inode d)\<rparr>"
    have "initial_sequence C now b (last_sequence rs) ?m d = (Inr (word_of_nat (length m), m), ?d)"
      using that(1) compact_journal_clean [OF assms(1) _ d(1), of m now] index_all_jobs [OF that(3)] by simp
    moreover have "length m < 2 ^ 64" using that(4) assms(4) by simp
    then have "journal_inv C J (compact_records now 0 (sort_key created_at (map snd m)))
        \<lparr>js_disk = ?d, js_index = m, js_handle = dk_inode ?d, js_next_sequence = word_of_nat (length m),
         js_recovered_torn_tail = t\<rparr>"
      using compacted_store [OF assms(1) that(3), of ?d now t] d(1) by simp
    moreover have "unat (word_of_nat (length m) :: u64) \<le> 2 ^ 62"
      using that(4) assms(4) by (simp add: unat_of_nat take_bit_nat_eq_self)
    ultimately show ?thesis using that(2) by (intro exI [of _ "word_of_nat (length m)"] exI [of _ ?d] exI) auto
  qed
  consider "b" | "\<not> b" ?full | "\<not> b" "\<not> ?full" by blast
  then show ?thesis
  proof cases
    case 1
    then show ?thesis using compaction [of ?m] valid by (simp add: initial_sequence_def opened_index_def)
  next
    case 2
    let ?p = "mem_prune_terminal COMPACT_RETAINED_TERMINAL ?m"
    have "length ?p \<le> length ?m"
      by (simp add: mem_prune_terminal_def fold_delete_length)
    with 2 show ?thesis
      using compaction [of ?p] valid index_all_prune by (simp add: initial_sequence_def opened_index_def Let_def)
  next
    case 3
    let ?nxt = "case next_after (last_sequence rs) of Some n \<Rightarrow> n | None \<Rightarrow> 0"
    let ?X = "job_id ` set (recovered_jobs b rs)"
    have above: "\<forall>r \<in> set rs. sequence r < ?nxt" "unat ?nxt \<le> 4096"
      using next_above [OF assms(2)] 3 b by auto
    have "mem_get i ?m = mem_get i (replay rs)" if "i \<notin> ?X" for i
      using recovered_jobs_complete [OF assms(2,3)] that 3 by auto
    then have "journal_inv_upto ?X C J rs
        \<lparr>js_disk = d, js_index = ?m, js_handle = dk_inode d, js_next_sequence = ?nxt, js_recovered_torn_tail = t\<rparr>"
      using assms(2) d 3 above valid by (simp add: journal_inv_upto_def)
    moreover have "initial_sequence C now b (last_sequence rs) ?m d = (Inr (?nxt, opened_index b rs), d)"
      using 3 by (simp add: initial_sequence_def opened_index_def)
    moreover have "opened_index b rs = ?m" using 3 by (simp add: opened_index_def)
    ultimately show ?thesis using above(2) by (intro exI [of _ ?nxt] exI [of _ d] exI [of _ rs] exI [of _ ?X]) auto
  qed
qed

definition journal_damaged :: "journal_record list \<Rightarrow> bytes \<Rightarrow> bool" where
  "journal_damaged rs t \<longleftrightarrow> t \<noteq> [] \<or> last_sequence rs = Some (- 1)"

lemma length_recovered_jobs: "length (recovered_jobs b rs) \<le> length rs"
proof -
  have "length (fst (recover_all b js m)) \<le> length js" for js m
  proof (induction js arbitrary: m)
    case (Cons j js)
    have "length (fst (recover_job b j)) \<le> 1" by (auto simp: recover_job_def Let_def)
    with Cons [of "mem_put (snd (recover_job b j)) m"] show ?case
      by (simp add: Let_def case_prod_unfold)
  qed simp
  moreover have "length (mem_load_all (replay rs)) \<le> length rs"
    using length_fold_put [of "map rec_job rs" "[]"] by (simp add: replay_fold mem_load_all_def)
  ultimately show ?thesis unfolding recovered_jobs_def using order_trans by blast
qed

text \<open>Opening a journal of complete records, with or without an unfinished last line.\<close>

lemma journal_open_clean:
  fixes rs t defines "b \<equiv> journal_damaged rs t" and "bs \<equiv> \<lambda>C. concat (map (line_of C) rs) @ t"
  assumes "faithful C J" "good_journal C J rs" "recover_closed J" "length rs \<le> 2 ^ 62"
    and "newline \<notin> set t" "length (bs C) \<le> u64_max" "fits C now (opened_index b rs)"
    and d: "dk_io d = []" "dk_file d = Some (bs C)"
  shows "\<exists>s rs'. journal_open C now d = (Inr s, js_disk s) \<and> journal_inv C J rs' s \<and>
           js_index s = opened_index b rs \<and>
           dk_archives (js_disk s) = (if b then [bs C] else []) @ dk_archives d"
proof -
  obtain sc where sc: "scan_path C True d = (Inr sc, d)" "sc_jobs sc = mem_load_all (replay rs)"
    "sc_torn_tail sc = (t \<noteq> [])" "sc_max_sequence sc = last_sequence rs" "sc_incompatible sc = 0"
    using scan_reader_good [OF assms(3,4,7), of True] assms(8) d by (simp add: scan_path_def bs_def)
  then have b: "scan_damaged sc = b" by (simp add: scan_damaged_def b_def journal_damaged_def)
  let ?d = "if b then d\<lparr>dk_file := None, dk_archives := bs C # dk_archives d\<rparr> else d"
  have arch: "(if b then archive_damaged_journal d else (Inr (), d)) = (Inr (), ?d)"
    using d by (simp add: archive_damaged_journal_def sync_parent_def)
  have init: "dk_io ?d = []" "\<not> b \<Longrightarrow> dk_file ?d = Some (concat (map (line_of C) rs))"
    "last_sequence rs = Some (- 1) \<Longrightarrow> b"
    using d by (auto simp: b_def bs_def journal_damaged_def)
  obtain nxt d' rs0 X where
    i: "initial_sequence C now b (last_sequence rs) (recovered_index b rs) ?d = (Inr (nxt, opened_index b rs), d')"
      "journal_inv_upto X C J rs0 \<lparr>js_disk = d', js_index = opened_index b rs, js_handle = dk_inode d',
         js_next_sequence = nxt, js_recovered_torn_tail = (t \<noteq> [])\<rparr>"
      "X \<subseteq> job_id ` set (recovered_jobs b rs)" "unat nxt \<le> 2 ^ 62" "dk_archives d' = dk_archives ?d"
    using initial_sequence_clean [OF assms(3-6) init, of now "t \<noteq> []"] by blast
  have "length (opened_index b rs) \<le> length (recovered_index b rs)"
    by (simp add: opened_index_def mem_prune_terminal_def fold_delete_length)
  then have len: "length (opened_index b rs) \<le> 2 ^ 62" "length (recovered_jobs b rs) \<le> 2 ^ 62"
    "unat nxt + length (recovered_jobs b rs) \<le> 2 ^ 63"
    using recovered_index_valid(2) [OF assms(4,5), of b] length_recovered_jobs [of b rs] assms(6) i(4) by auto
  obtain s rs' where s: "open_writer C now (recovered_jobs b rs) (t \<noteq> []) nxt (opened_index b rs) d' = (Inr s, js_disk s)"
    "journal_inv C J rs' s" "js_index s = opened_index b rs" "dk_archives (js_disk s) = dk_archives d'"
    using open_writer_clean [OF assms(3,9) len(1,2) i(2) _ i(3) len(3)] recovered_jobs_indexed by blast
  have "journal_open C now d = (Inr s, js_disk s)"
    using d(1) sc(1) b arch i(1) s(1) unfolding journal_open_def
    by (simp add: Let_def case_prod_unfold sc(2-4) recovered_index_def recovered_jobs_def)
  with s i(5) show ?thesis by (intro exI [of _ s] exI [of _ rs']) auto
qed

section \<open>Retention\<close>

lemma reload_index:
  assumes "good_journal C J rs"
  shows "index_all (valid_job C J) (fold mem_put (mem_load_all (replay rs)) [])"
    and "mem_get i (fold mem_put (mem_load_all (replay rs)) []) = mem_get i (replay rs)"
proof -
  show "index_all (valid_job C J) (fold mem_put (mem_load_all (replay rs)) [])"
    using index_all_fold [of "valid_job C J" "[]" "mem_load_all (replay rs)" id] replay_valid [OF assms] by simp
  show "mem_get i (fold mem_put (mem_load_all (replay rs)) []) = mem_get i (replay rs)"
    by (rule mem_get_eqI)
       (simp_all add: index_ok_fold_put set_load_fold_put index_load_all(1) [OF index_ok_replay])
qed

lemma journal_prune_clean:
  assumes "faithful C J" "journal_inv C J rs s" "length (js_index s) < 2 ^ 64"
    "fits C now (mem_prune_terminal n (js_index s))"
  shows "\<exists>s' rs'. journal_prune_terminal C now n s = (Inr (), s') \<and> journal_inv C J rs' s' \<and>
           (\<forall>i. mem_get i (js_index s') = mem_get i (mem_prune_terminal n (js_index s)))"
proof (cases "length (filter (\<lambda>(i, j). is_terminal j) (js_index s)) - n = 0")
  case True
  then have "mem_prune_terminal n (js_index s) = js_index s"
    by (simp add: mem_prune_terminal_def prune_victims_order)
  with True assms(2) show ?thesis by (intro exI [of _ s] exI [of _ rs]) (simp add: journal_prune_terminal_def)
next
  case False
  let ?m = "mem_prune_terminal n (js_index s)"
  let ?rs = "compact_records now 0 (sort_key created_at (map snd ?m))"
  let ?d = "(js_disk s)\<lparr>dk_file := Some (snapshot C now ?m), dk_inode := Suc (dk_inode (js_disk s))\<rparr>"
  have io: "dk_io (js_disk s) = []" using assms(2) by (simp add: journal_inv_upto_def)
  have valid: "index_all (valid_job C J) ?m"
    using assms(2) by (simp add: journal_inv_upto_def index_all_prune)
  have len: "length ?m < 2 ^ 64"
    using assms(3) fold_delete_length [of "prune_victims n (js_index s)" "js_index s"]
    by (simp add: mem_prune_terminal_def)
  note comp = compacted_journal [OF valid len, of now]
  have run: "compact_journal C now (map snd ?m) (js_disk s) = (Inr (), ?d)"
    using compact_journal_clean [OF assms(1) _ io, of ?m now] index_all_jobs [OF valid] by simp
  obtain sc where sc: "scan_path C True ?d = (Inr sc, ?d)" "sc_max_sequence sc = last_sequence ?rs"
    "sc_jobs sc = mem_load_all (replay ?rs)"
    using scan_path_good [OF assms(1) comp(1), of ?d True] io assms(4) by (auto simp: fits_def snapshot_def)
  have nxt: "(case next_after (last_sequence ?rs) of Some q \<Rightarrow> q | None \<Rightarrow> 0) = word_of_nat (length ?m)"
  proof (cases "?m = []")
    case True
    then show ?thesis by (simp add: last_sequence_def next_after_def)
  next
    case False
    from next_after_compact [OF this len, of now] show ?thesis by simp
  qed
  let ?s = "s\<lparr>js_disk := ?d, js_handle := dk_inode ?d, js_next_sequence := word_of_nat (length ?m),
              js_index := fold mem_put (mem_load_all (replay ?rs)) []\<rparr>"
  have "journal_prune_terminal C now n s = (Inr (), ?s)"
    using False io nxt by (simp add: journal_prune_terminal_def run on_disk_def open_append_def sc)
  moreover have "journal_inv C J ?rs ?s"
    using compacted_store [OF assms(1) valid len, of ?d now] io reload_index [OF comp(1)]
    by (simp add: journal_inv_upto_def)
  moreover have "mem_get i (js_index ?s) = mem_get i ?m" for i
    using reload_index(2) [OF comp(1)] replay_compact [of ?m i now] valid by (simp add: index_all_def)
  ultimately show ?thesis by blast
qed

section \<open>Faulty disks\<close>

lemma io_call_file: "io_call d = (r, d') \<Longrightarrow> dk_file d' = dk_file d \<and> dk_inode d' = dk_inode d \<and> dk_archives d' = dk_archives d"
  by (auto simp: io_call_def next_io_def split: list.splits io_outcome.splits)

lemma write_all_file:
  assumes "write_all h bs d = (r, d')" "dk_file d = Some old"
  shows "\<exists>k. dk_file d' = Some (old @ take k bs) \<and> dk_archives d' = dk_archives d \<and>
             (r = Inr () \<and> h = dk_inode d \<longrightarrow> length bs \<le> k)"
proof (cases "next_io d")
  case (Pair o1 d1)
  with next_io_file [of d] have d1: "dk_file d1 = Some old" "dk_inode d1 = dk_inode d" "dk_archives d1 = dk_archives d"
    using assms(2) by auto
  show ?thesis
  proof (cases o1)
    case IoOk
    with Pair assms(1) d1 show ?thesis
      by (intro exI [of _ "if h = dk_inode d then length bs else 0"]) (auto simp: write_all_def append_bytes_def)
  next
    case (IoErr n)
    with Pair assms(1) d1 show ?thesis
      by (intro exI [of _ "if h = dk_inode d then n else 0"]) (auto simp: write_all_def append_bytes_def)
  qed
qed

lemma journal_append_file:
  assumes "journal_append C now ev j s = (r, s')" "dk_file (js_disk s) = Some old"
    and "unat (js_next_sequence s) + 1 < length (mem_put j (js_index s)) + COMPACT_THRESHOLD"
  shows "\<exists>k. let line = line_of C (new_record now (js_next_sequence s) ev j)
             in dk_file (js_disk s') = Some (old @ take k line) \<and>
                dk_archives (js_disk s') = dk_archives (js_disk s) \<and>
                (r = Inr () \<and> js_handle s = dk_inode (js_disk s) \<longrightarrow> length line \<le> k)"
proof (cases "js_next_sequence s = - 1 \<or> cd_enc C (new_record now (js_next_sequence s) ev j) = None")
  case True
  with assms(1,2) show ?thesis
    by (intro exI [of _ 0]) (auto simp: journal_append_def checked_succ_def split: option.splits if_splits)
next
  case False
  then obtain bs where bs: "cd_enc C (new_record now (js_next_sequence s) ev j) = Some bs" by auto
  have small: "\<not> length (mem_put j (js_index s)) + COMPACT_THRESHOLD \<le> unat (js_next_sequence s + 1)"
    using False assms(3) by (simp add: unat_succ)
  obtain r1 d1 where w: "write_all (js_handle s) (bs @ [newline]) (js_disk s) = (r1, d1)" by fastforce
  from write_all_file [OF w assms(2)] obtain k where
    k: "dk_file d1 = Some (old @ take k (bs @ [newline]))" "dk_archives d1 = dk_archives (js_disk s)"
      "r1 = Inr () \<and> js_handle s = dk_inode (js_disk s) \<longrightarrow> length (bs @ [newline]) \<le> k" by blast
  obtain r2 d2 where d2: "io_call d1 = (r2, d2)" by fastforce
  obtain r3 d3 where d3: "io_call d2 = (r3, d3)" by fastforce
  have "dk_file (js_disk s') = dk_file d1 \<and> dk_archives (js_disk s') = dk_archives d1 \<and> (r = Inr () \<longrightarrow> r1 = Inr ())"
    using assms(1) False small io_call_file [OF d2] io_call_file [OF d3]
    by (cases r1; cases r2; cases r3)
       (auto simp: journal_append_def checked_succ_def bs on_disk_def w d2 d3 mem_put_def Let_def)
  with k show ?thesis by (intro exI [of _ k]) (auto simp: line_of_def bs Let_def)
qed

section \<open>A sample store\<close>

definition sample_disk :: "bytes \<Rightarrow> disk" where
  "sample_disk bs = \<lparr>dk_file = Some bs, dk_inode = 0, dk_archives = [], dk_io = []\<rparr>"

definition sample_store :: journal_store where
  "sample_store =
     \<lparr>js_disk = sample_disk (concat (map (line_of (table_codec sample_jobs)) sample_journal)),
      js_index = [(JobId ''a'', start 4 sample_job)], js_handle = 0, js_next_sequence = 2,
      js_recovered_torn_tail = False\<rparr>"

lemma table_line_length:
  "length (line_of (table_codec js) r) \<le>
     length js + unat (schema_version r) + unat (sequence r) + nat (recorded_at r) + nat (- recorded_at r) + 15"
proof -
  have "k \<le> length js" if "position (\<lambda>j. j = rec_job r) js = Some k" for k
    using position_SomeD [OF that] by simp
  moreover have "e \<le> 8" if "position (\<lambda>e. e = event r) event_list = Some e" for e
    using position_SomeD [OF that] by (simp add: event_list_def)
  ultimately show ?thesis
    by (fastforce simp: table_line unary_def split: option.splits)
qed

lemma fits_single: "fits (table_codec sample_jobs) 5 [(i, j)]"
  using table_line_length [of sample_jobs "new_record 5 0 (from_status (status j)) j"]
  by (simp add: fits_def snapshot_def JOURNAL_SCHEMA_VERSION_def sample_jobs_def u64_max_def)

lemma sample_closed: "recover_closed (set sample_jobs)"
  by (simp add: recover_closed_def sample_jobs_def recover_job_def Let_def sample_job_def job_defs)

lemma sample_store_inv: "journal_inv (table_codec sample_jobs) (set sample_jobs) sample_journal sample_store"
proof -
  have "valid_job (table_codec sample_jobs) (set sample_jobs) (start 4 sample_job)"
    using sample_valid [of "start 4 sample_job"] by (simp add: valid_job_def sample_jobs_def)
  then have "index_all (valid_job (table_codec sample_jobs) (set sample_jobs)) [(JobId ''a'', start 4 sample_job)]"
    using index_all_put [of "valid_job (table_codec sample_jobs) (set sample_jobs)" "[]" "start 4 sample_job"]
    by (simp add: mem_put_def)
  moreover have "replay sample_journal = [(JobId ''a'', start 4 sample_job)]"
    by (simp add: replay_def sample_journal_def sample_record_def mem_put_def)
  moreover have "\<forall>r \<in> set sample_journal. sequence r < 2"
    by (simp add: sample_journal_def sample_record_def)
  ultimately show ?thesis
    using sample_journal_good by (simp add: journal_inv_upto_def sample_store_def sample_disk_def)
qed

section \<open>Properties\<close>

text \<open>C17. A store that opened never holds a running job, whatever bytes were on the disk and
  whichever system calls failed on the way: an interrupted execution is never taken up again.\<close>

theorem journal_open_never_running:
  assumes "journal_open C now d = (Inr s, d')"
  shows "index_ok (js_index s) \<and> Running \<notin> status ` set (mem_load_all (js_index s))"
proof -
  have "index_all (\<lambda>j. status j \<noteq> Running) (js_index s)"
    by (rule journal_open_index_all [OF assms])
       (metis (full_types) job_status.distinct(17) job_status.distinct(19) recover_job_status(1,2))
  then show ?thesis by (auto simp: index_all_def)
qed

text \<open>C16. An append on a disk that performs its calls is acknowledged, makes the new state of the
  job visible, and keeps the journal on the disk in step with the index, also when it compacts
  the journal.\<close>

theorem journal_append_durable:
  assumes "faithful C J" "journal_inv C J rs s" "valid_job C J j" "event_ok ev j"
    "js_next_sequence s \<noteq> - 1" "fits C now (mem_put j (js_index s))"
  shows "\<exists>s' rs'. journal_append C now ev j s = (Inr (), s') \<and> journal_inv C J rs' s' \<and>
           js_index s' = mem_put j (js_index s)"
  using journal_append_clean [OF assms] by auto

theorem journal_append_durable_witness:
  "\<exists>s'. journal_append (table_codec sample_jobs) 5 EvRecovered (snd (recover_job False (start 4 sample_job)))
          sample_store = (Inr (), s') \<and>
        js_index s' = [(JobId ''a'', snd (recover_job False (start 4 sample_job)))]"
proof -
  let ?C = "table_codec sample_jobs" and ?j = "snd (recover_job False (start 4 sample_job))"
  have j: "valid_job ?C (set sample_jobs) ?j"
    using sample_valid [of ?j] by (simp add: valid_job_def sample_jobs_def)
  have "event_ok EvRecovered ?j" by (simp add: event_ok_def recover_job_status)
  moreover have "mem_put ?j (js_index sample_store) = [(JobId ''a'', ?j)]"
    by (simp add: mem_put_def sample_store_def)
  moreover have "js_next_sequence sample_store \<noteq> - 1" by (simp add: sample_store_def)
  ultimately show ?thesis
    using journal_append_durable [OF faithful_table sample_store_inv j, of EvRecovered 5] fits_single by auto
qed



theorem journal_open_never_running_witness:
  "\<exists>s. journal_open (table_codec sample_jobs) 5 (js_disk sample_store) = (Inr s, js_disk s) \<and>
       js_index s \<noteq> [] \<and> Running \<notin> status ` set (mem_load_all (js_index s))"
proof -
  let ?C = "table_codec sample_jobs" and ?j = "snd (recover_job False (start 4 sample_job))"
  have rep: "replay sample_journal = [(JobId ''a'', start 4 sample_job)]"
    by (simp add: sample_journal_def sample_record_def replay_def mem_put_def)
  have b: "journal_damaged sample_journal [] = False"
    by (simp add: journal_damaged_def last_sequence_def sample_journal_def sample_record_def)
  have "last_sequence sample_journal = Some 1"
    by (simp add: last_sequence_def sample_journal_def sample_record_def)
  moreover have "recovered_index False sample_journal = [(JobId ''a'', ?j)]"
    by (simp add: recovered_index_fold rep mem_load_all_def mem_put_def)
  ultimately have "opened_index False sample_journal = [(JobId ''a'', ?j)]"
    by (simp add: opened_index_def COMPACT_THRESHOLD_def word_le_nat_alt)
  moreover have "length (concat (map (line_of ?C) sample_journal)) \<le> u64_max" "length sample_journal \<le> 2 ^ 62"
    by (simp_all add: sample_journal_def sample_lines unary_def u64_max_def)
  ultimately obtain s where s: "journal_open ?C 5 (js_disk sample_store) = (Inr s, js_disk s)"
    "js_index s = [(JobId ''a'', ?j)]"
    using journal_open_clean [OF faithful_table sample_journal_good sample_closed, of "[]" 5 "js_disk sample_store"]
      b fits_single by (auto simp: sample_store_def sample_disk_def)
  with journal_open_never_running [OF s(1)] show ?thesis by auto
qed

text \<open>Retention on a disk that performs its calls rewrites the journal with exactly the jobs
  the in-memory retention keeps.\<close>

theorem journal_prune_durable:
  assumes "faithful C J" "journal_inv C J rs s" "length (js_index s) < 2 ^ 64"
    "fits C now (mem_prune_terminal n (js_index s))"
  shows "\<exists>s' rs'. journal_prune_terminal C now n s = (Inr (), s') \<and> journal_inv C J rs' s' \<and>
           (\<forall>i. mem_get i (js_index s') = mem_get i (mem_prune_terminal n (js_index s)))"
  using assms by (rule journal_prune_clean)

theorem journal_prune_durable_witness:
  "\<exists>s'. journal_prune_terminal (table_codec sample_jobs) 5 0 sample_store = (Inr (), s') \<and>
        mem_get (JobId ''a'') (js_index s') = Some (start 4 sample_job)"
proof -
  have "mem_prune_terminal 0 (js_index sample_store) = js_index sample_store"
    by (simp add: mem_prune_terminal_def prune_victims_def sample_store_def is_terminal_def)
  moreover have "js_index sample_store = [(JobId ''a'', start 4 sample_job)]" by (simp add: sample_store_def)
  ultimately show ?thesis
    using journal_prune_durable [OF faithful_table sample_store_inv, of 5 0] fits_single
    by (auto simp: mem_get_def)
qed

text \<open>Whichever system calls fail, an append that does not compact only ever adds a prefix of
  its own line to the file: no earlier byte changes, and an acknowledged append through a handle
  on the journal has added the whole line.\<close>

theorem journal_append_keeps_history:
  assumes "journal_append C now ev j s = (r, s')" "dk_file (js_disk s) = Some old"
    and "unat (js_next_sequence s) + 1 < length (mem_put j (js_index s)) + COMPACT_THRESHOLD"
  shows "\<exists>k. let line = line_of C (new_record now (js_next_sequence s) ev j)
             in dk_file (js_disk s') = Some (old @ take k line) \<and>
                dk_archives (js_disk s') = dk_archives (js_disk s) \<and>
                (r = Inr () \<and> js_handle s = dk_inode (js_disk s) \<longrightarrow> length line \<le> k)"
  using assms by (rule journal_append_file)

theorem journal_append_keeps_history_witness:
  "\<exists>k s'. journal_append (table_codec sample_jobs) 5 EvStarted (start 4 sample_job)
            (sample_store\<lparr>js_disk := (js_disk sample_store)\<lparr>dk_io := [IoErr 3]\<rparr>\<rparr>) = (Inl StoreIo, s') \<and>
          dk_file (js_disk s') =
            Some (concat (map (line_of (table_codec sample_jobs)) sample_journal) @
                  take k (line_of (table_codec sample_jobs) (new_record 5 2 EvStarted (start 4 sample_job))))"
proof -
  let ?C = "table_codec sample_jobs"
  let ?s = "sample_store\<lparr>js_disk := (js_disk sample_store)\<lparr>dk_io := [IoErr 3]\<rparr>\<rparr>"
  obtain bs where "cd_enc ?C (new_record 5 2 EvStarted (start 4 sample_job)) = Some bs"
    using faithful_line [OF faithful_table, of "new_record 5 2 EvStarted (start 4 sample_job)" sample_jobs]
    by (auto simp: sample_jobs_def)
  then obtain s' where s': "journal_append ?C 5 EvStarted (start 4 sample_job) ?s = (Inl StoreIo, s')"
    by (simp add: journal_append_def sample_store_def sample_disk_def checked_succ_def on_disk_def
        write_all_def next_io_def)
  then show ?thesis
    using journal_append_keeps_history [OF s', of "concat (map (line_of ?C) sample_journal)"]
    by (auto simp: Let_def sample_store_def sample_disk_def COMPACT_THRESHOLD_def)
qed

text \<open>A line whose sequence number was already seen: counted as incompatible and not applied.\<close>

lemma scan_stale_record:
  assumes "faithful C J" "good_record C J r" "max_observed_sequence h = Some (sequence r)"
  shows "\<exists>h'. scan_complete (job_ledger C) job_scan_options h d (line_of C r)
                = Inr (Continue, h', d\<lparr>dec_records := dec_records d + 1\<rparr>)
            \<and> incompatible_records h' = sat_add (incompatible_records h) 1"
proof -
  let ?p = "\<lparr>observation = Accepted (Some (sequence r)), pr_record = Some r\<rparr>"
  let ?l = "line_at h (line_of C r)"
  let ?o = "observe Increasing (ln_number ?l) (ln_offset ?l) (Accepted (Some (sequence r)))
              (enter_line h (line_of C r) ?p)"
  have verdict: "fst ?o = SeqInvalid"
    using assms(3) by (simp add: observe_verdict obs_sequence_def obs_rejected_def sequence_valid_def)
  then have "incompatible_records (snd ?o) = sat_add (incompatible_records h) 1"
    by (simp add: observe_incompatible)
  moreover have "scan_complete (job_ledger C) job_scan_options h d (line_of C r)
      = Inr (Continue, snd ?o, d\<lparr>dec_records := dec_records d + 1\<rparr>)"
    using decode_good_record [OF assms(1,2), of d h] verdict
    by (auto simp: scan_complete_def job_ledger_def job_scan_options_def Let_def job_apply_def split: prod.splits)
  ultimately show ?thesis by blast
qed

lemma scan_lines_snoc:
  "scan_lines D opts h d ls = Inr (Continue, h1, d1) \<Longrightarrow>
     scan_lines D opts h d (ls @ [l]) = scan_lines D opts h1 d1 [l]"
  by (simp add: scan_lines_append)

text \<open>Two records with one sequence number at the end of a journal: the second is dropped.\<close>

lemma scan_duplicate_sequence:
  assumes "faithful C J" "good_journal C J (rs @ [r1])" "good_record C J r2" "sequence r2 = sequence r1"
    and len: "length (concat (map (line_of C) (rs @ [r1, r2]))) \<le> u64_max"
  shows "\<exists>sc. scan_reader C True \<lparr>rd_bytes = concat (map (line_of C) (rs @ [r1, r2])), rd_fault = False\<rparr> = Inr sc
           \<and> sc_jobs sc = mem_load_all (replay (rs @ [r1])) \<and> sc_incompatible sc = 1"
proof -
  let ?ls = "map (line_of C) (rs @ [r1])" and ?l = "line_of C r2"
  let ?h = "default_health\<lparr>lh_exists := True\<rparr>"
  let ?d = "\<lparr>latest = [], collect_jobs = True, dec_records = 0\<rparr>"
  have lines: "list_all is_line (?ls @ [?l])"
    using good_journal_lines [OF assms(1,2)] assms(1,3) by (auto simp: good_record_def elim: faithful_line)
  have cat: "concat (map (line_of C) (rs @ [r1, r2])) = concat (?ls @ [?l]) @ []" by simp
  have split: "split_lines (concat (map (line_of C) (rs @ [r1, r2]))) = (?ls @ [?l], [])"
    unfolding cat by (rule split_lines_unique [OF lines]) simp
  have short: "list_all (\<lambda>l. length l \<le> max_line_bytes job_scan_options) ([] # ?ls @ [?l])"
    using len split_lines_length(2) [OF split] by (fastforce simp: list_all_iff job_scan_options_def)
  define d1 where "d1 = fold step_decoder (rs @ [r1]) ?d"
  obtain h1 where h1: "scan_lines (job_ledger C) job_scan_options ?h ?d ?ls = Inr (Continue, h1, d1)"
    "max_observed_sequence h1 = Some (sequence r2)" "incompatible_records h1 = 0"
    using scan_good_records [OF assms(1,2), of ?h ?d] len assms(4)
    by (auto simp: default_health_def last_sequence_def d1_def)
  obtain h2 where h2: "scan_complete (job_ledger C) job_scan_options h1 d1 ?l =
      Inr (Continue, h2, d1\<lparr>dec_records := dec_records d1 + 1\<rparr>)" "incompatible_records h2 = 1"
    using scan_stale_record [OF assms(1,3) h1(2), of d1] h1(3) by (auto simp: u64_max_def)
  have run: "scan_jsonl (job_ledger C) job_scan_options ?d
      \<lparr>rd_bytes = concat (map (line_of C) (rs @ [r1, r2])), rd_fault = False\<rparr>
      = Inr (h2, d1\<lparr>dec_records := dec_records d1 + 1\<rparr>)"
    by (subst scan_jsonl_split [OF split len short])
       (simp only: scan_split_def scan_lines_snoc [OF h1(1)], simp add: h2(1) finish_tail_def)
  have "latest d1 = replay (rs @ [r1])"
    unfolding d1_def fold_step_decoder(3) by (simp add: replay_def)
  then show ?thesis unfolding scan_reader_def run mem_load_all_def using h2(2) by simp
qed

text \<open>C19. When the final sync of an append fails, the caller is told so, but the bytes stay in the
  file and the sequence number is used again. The next append is acknowledged; yet when the
  journal is read back its record is rejected for its repeated sequence number: the journal
  counts as damaged and the acknowledged job is missing.\<close>

theorem failed_sync_loses_next_append:
  assumes "faithful C J" "journal_inv C J rs s" "js_next_sequence s \<noteq> - 1"
    and j: "valid_job C J j1" "event_ok ev1 j1" "valid_job C J j2" "event_ok ev2 j2"
    and new: "job_id j1 \<noteq> job_id j2" "mem_get (job_id j2) (js_index s) = None"
    and "unat (js_next_sequence s) + 1 < length (mem_put j2 (js_index s)) + COMPACT_THRESHOLD"
    and "length (concat (map (line_of C) (rs @ [new_record now (js_next_sequence s) ev1 j1,
                                               new_record now (js_next_sequence s) ev2 j2]))) \<le> u64_max"
  shows "\<exists>s1 s2 bs sc.
           journal_append C now ev1 j1 (s\<lparr>js_disk := (js_disk s)\<lparr>dk_io := [IoOk, IoOk, IoErr 0]\<rparr>\<rparr>) = (Inl StoreIo, s1) \<and>
           journal_append C now ev2 j2 s1 = (Inr (), s2) \<and>
           dk_file (js_disk s2) = Some bs \<and>
           scan_reader C True \<lparr>rd_bytes = bs, rd_fault = False\<rparr> = Inr sc \<and>
           scan_damaged sc \<and> job_id j2 \<notin> job_id ` set (sc_jobs sc)"
proof -
  let ?r1 = "new_record now (js_next_sequence s) ev1 j1"
  let ?r2 = "new_record now (js_next_sequence s) ev2 j2"
  let ?bs = "concat (map (line_of C) (rs @ [?r1, ?r2]))"
  let ?s1 = "s\<lparr>js_disk := (js_disk s)\<lparr>dk_file := Some (concat (map (line_of C) (rs @ [?r1])))\<rparr>\<rparr>"
  have J: "rec_job ?r1 \<in> J" "rec_job ?r2 \<in> J" using j by (simp_all add: valid_job_def)
  obtain b1 where b1: "cd_enc C ?r1 = Some b1" "line_of C ?r1 = b1 @ [newline]"
    by (rule faithful_line [OF assms(1) J(1)])
  obtain b2 where b2: "cd_enc C ?r2 = Some b2" "line_of C ?r2 = b2 @ [newline]"
    by (rule faithful_line [OF assms(1) J(2)])
  have disk: "dk_io (js_disk s) = []" "dk_file (js_disk s) = Some (concat (map (line_of C) rs))"
    "js_handle s = dk_inode (js_disk s)" "good_journal C J rs" "\<forall>r \<in> set rs. sequence r < js_next_sequence s"
    "mem_get i (js_index s) = mem_get i (replay rs)" for i
    using assms(2) by (simp_all add: journal_inv_upto_def)
  have first: "journal_append C now ev1 j1 (s\<lparr>js_disk := (js_disk s)\<lparr>dk_io := [IoOk, IoOk, IoErr 0]\<rparr>\<rparr>)
      = (Inl StoreIo, ?s1)"
    using assms(3) disk(1-3) b1
    by (simp add: journal_append_def checked_succ_def on_disk_def write_all_def next_io_def append_bytes_def io_call_def)
  obtain s2 where second: "journal_append C now ev2 j2 ?s1 = (Inr (), s2)" "dk_file (js_disk s2) = Some ?bs"
    using assms(3,10) disk(1-3) b1 b2
    by (simp add: journal_append_def checked_succ_def on_disk_def write_all_def append_bytes_def mem_put_def unat_succ)
  have good: "good_journal C J (rs @ [?r1])" by (rule good_journal_snoc [OF disk(4,5) j(1,2)])
  have "good_record C J ?r2"
    using good_journal_snoc [OF disk(4,5) j(3,4)] by (simp add: good_journal_def)
  from scan_duplicate_sequence [OF assms(1) good this _ assms(11)]
  obtain sc where sc: "scan_reader C True \<lparr>rd_bytes = ?bs, rd_fault = False\<rparr> = Inr sc"
    "sc_jobs sc = mem_load_all (replay (rs @ [?r1]))" "sc_incompatible sc = 1" by auto
  have "mem_get (job_id j2) (replay (rs @ [?r1])) = None"
    using new disk(6) by (simp add: replay_snoc hmap_simps)
  then have "job_id j2 \<notin> job_id ` set (sc_jobs sc)"
    unfolding sc(2) using index_load_all(2) [OF index_ok_replay [of "rs @ [?r1]"]] by fastforce
  moreover have "scan_damaged sc" using sc(3) by (simp add: scan_damaged_def)
  ultimately show ?thesis using first second sc(1) by blast
qed

theorem failed_sync_loses_next_append_witness:
  "\<exists>C s j1 j2 s1 s2 bs sc.
     journal_append C 5 EvSubmitted j1 s = (Inl StoreIo, s1) \<and>
     journal_append C 5 EvSubmitted j2 s1 = (Inr (), s2) \<and> dk_file (js_disk s2) = Some bs \<and>
     scan_reader C True \<lparr>rd_bytes = bs, rd_fault = False\<rparr> = Inr sc \<and> scan_damaged sc \<and>
     job_id j2 \<notin> job_id ` set (sc_jobs sc)"
proof -
  let ?b = "job_new (JobId ''b'') ''n'' JNull Low 3"
  let ?js = "[sample_job, ?b]"
  let ?C = "table_codec ?js"
  let ?s = "\<lparr>js_disk = sample_disk [], js_index = [], js_handle = 0, js_next_sequence = 0,
             js_recovered_torn_tail = False\<rparr>"
  have inv: "journal_inv ?C (set ?js) [] ?s"
    by (simp add: journal_inv_upto_def sample_disk_def good_journal_def replay_def)
  have valid: "valid_job ?C (set ?js) sample_job" "valid_job ?C (set ?js) ?b"
    by (simp_all add: valid_job_def has_valid_resolution_def sample_job_def job_new_def)
  have ev: "event_ok EvSubmitted sample_job" "event_ok EvSubmitted ?b" by (simp_all add: event_ok_def)
  have "length (line_of ?C (new_record 5 0 EvSubmitted j)) \<le> 30" for j
    using table_line_length [of ?js "new_record 5 0 EvSubmitted j"] by (simp add: JOURNAL_SCHEMA_VERSION_def)
  from add_mono [OF this [of sample_job] this [of ?b]]
  have len: "length (concat (map (line_of ?C) ([] @ [new_record 5 (js_next_sequence ?s) EvSubmitted sample_job,
      new_record 5 (js_next_sequence ?s) EvSubmitted ?b]))) \<le> u64_max" by (simp add: u64_max_def)
  have "js_next_sequence ?s \<noteq> - 1" "job_id sample_job \<noteq> job_id ?b" "mem_get (job_id ?b) (js_index ?s) = None"
    "unat (js_next_sequence ?s) + 1 < length (mem_put ?b (js_index ?s)) + COMPACT_THRESHOLD"
    by (simp_all add: mem_get_def COMPACT_THRESHOLD_def)
  from failed_sync_loses_next_append [OF faithful_table inv this(1) valid(1) ev(1) valid(2) ev(2) this(2-4) len]
  show ?thesis by blast
qed

end
