(* ===== verification/Scheduler.thy ===== *)
theory Scheduler
  imports Job_Queue Job_Recovery "HOL-Library.Option_ord"
begin

text \<open>
  The job scheduler (\<open>task-scheduler/src/scheduler.rs\<close>). The state gathers what the fields of
  \<open>JobScheduler\<close> and the join set of the run loop hold. Every section the code runs under its
  transition lock is one function; the run loop, the tasks it spawns and the public calls
  interleave freely in the relation of the theory \<open>Scheduler_Run\<close>. The store is any
  implementation of the trait \<open>JobStore\<close>.
\<close>

section \<open>Configuration and handlers\<close>

record scheduler_config =
  max_concurrent_jobs :: nat
  max_queue_size :: nat
  cfg_max_retries :: u32
  retry_backoff_base_ms :: u64
  retry_backoff_max_ms :: u64
  job_timeout_ms :: u64
  max_output_bytes :: nat
  drain_timeout_ms :: u64
  retained_terminal_jobs :: nat
  journal_path :: "string option"

definition default_scheduler_config :: scheduler_config where
  "default_scheduler_config =
     \<lparr>max_concurrent_jobs = 10, max_queue_size = 1000, cfg_max_retries = 3,
      retry_backoff_base_ms = 1000, retry_backoff_max_ms = 60000, job_timeout_ms = 300000,
      max_output_bytes = 64 * 1024, drain_timeout_ms = 30000, retained_terminal_jobs = 1024,
      journal_path = None\<rparr>"

text \<open>The trait \<open>JobHandler\<close> without \<open>execute\<close>, whose outcome is an argument of the task.\<close>

record handler =
  required_capabilities :: "capability list"
  safe_to_retry :: bool

section \<open>The state\<close>

text \<open>\<open>sd_executing\<close> are the jobs of the spawned tasks that hold a permit, \<open>sd_backoff\<close> the jobs
  of the tasks that wait for a retry to become due.\<close>

record 'st scheduler =
  sd_config :: scheduler_config
  sd_queue :: job_queue
  sd_store :: 'st
  sd_permits :: nat
  sd_handlers :: "(string \<times> handler) list"
  sd_registry :: job_index
  sd_abort_handles :: "job_id set"
  sd_admission_issue :: "string option"
  sd_shutdown :: bool
  total_submitted :: u64
  total_completed :: u64
  total_failed :: u64
  total_retried :: u64
  active_jobs :: u64
  sd_executing :: "job list"
  sd_backoff :: "job list"

text \<open>What a call takes from its surroundings: the store's operations, a clock reading, a fresh
  job id, the text of a store error, the random jitter sample, UUID parsing, and the sizes of the
  writes with which \<open>serde_json\<close> serialises a value.\<close>

record 'st env =
  en_ops :: "'st store_ops"
  en_now :: time
  en_fresh :: job_id
  en_err :: "store_error \<Rightarrow> string"
  en_jitter :: rat
  en_uuid_ok :: "string \<Rightarrow> bool"
  en_writes :: "json \<Rightarrow> nat list"

definition store_err :: "'st env \<Rightarrow> store_error \<Rightarrow> job_failure" where
  "store_err E e = StoreFailure (en_err E e)"

definition store_err_for_job :: "'st env \<Rightarrow> job_id \<Rightarrow> store_error \<Rightarrow> job_failure" where
  "store_err_for_job E i e = StoreFailure (''job '' @ job_id_str i @ '': '' @ en_err E e)"

definition with_store :: "scheduler_config \<Rightarrow> 'st \<Rightarrow> 'st scheduler" where
  "with_store cfg st =
     \<lparr>sd_config = cfg,
      sd_queue = with_retry_config
        \<lparr>rcfg_max_retries = cfg_max_retries cfg, backoff_base_ms = retry_backoff_base_ms cfg,
         backoff_max_ms = retry_backoff_max_ms cfg\<rparr> (queue_new (max_queue_size cfg)),
      sd_store = st, sd_permits = max 1 (max_concurrent_jobs cfg), sd_handlers = [],
      sd_registry = [], sd_abort_handles = {}, sd_admission_issue = None, sd_shutdown = False,
      total_submitted = 0, total_completed = 0, total_failed = 0, total_retried = 0,
      active_jobs = 0, sd_executing = [], sd_backoff = []\<rparr>"

definition register_handler :: "string \<Rightarrow> handler \<Rightarrow> 'st scheduler \<Rightarrow> 'st scheduler" where
  "register_handler n h s = s\<lparr>sd_handlers := AList.update n h (sd_handlers s)\<rparr>"

text \<open>\<open>OnceLock::set\<close> keeps the first reason.\<close>

definition deny_admission :: "string \<Rightarrow> 'st scheduler \<Rightarrow> 'st scheduler" where
  "deny_admission reason s =
     (case sd_admission_issue s of Some _ \<Rightarrow> s | None \<Rightarrow> s\<lparr>sd_admission_issue := Some reason\<rparr>)"

definition request_shutdown :: "'st scheduler \<Rightarrow> 'st scheduler" where
  "request_shutdown s = s\<lparr>sd_shutdown := True\<rparr>"

section \<open>Submission\<close>

definition submit ::
  "'st env \<Rightarrow> job_config \<Rightarrow> 'st scheduler \<Rightarrow> (job_failure + job_id) \<times> 'st scheduler" where
  "submit E cfg s =
     (if so_integrity_issue (en_ops E) (sd_store s) \<noteq> None \<or> sd_admission_issue s \<noteq> None
      then (Inl Integrity, s)
      else case prepare (sd_queue s) cfg (en_fresh E) (en_now E) of
             Inl e \<Rightarrow> (Inl e, s)
           | Inr j \<Rightarrow>
               (case so_put (en_ops E) j (sd_store s) of
                  (Inl e, st) \<Rightarrow> (Inl (AdmissionUncertain (job_id j) (en_err E e)), s\<lparr>sd_store := st\<rparr>)
                | (Inr _, st) \<Rightarrow>
                    (case requeue j (sd_queue s) of
                       Inl e \<Rightarrow> (Inl e, s\<lparr>sd_store := st\<rparr>)
                     | Inr q \<Rightarrow>
                         (Inr (job_id j),
                          s\<lparr>sd_store := st, sd_queue := q, sd_registry := mem_put j (sd_registry s),
                            total_submitted := total_submitted s + 1\<rparr>))))"

definition submit_authorized ::
  "'st env \<Rightarrow> job_config \<Rightarrow> capability_set \<Rightarrow> 'st scheduler \<Rightarrow> (job_failure + job_id) \<times> 'st scheduler" where
  "submit_authorized E cfg caps s =
     (case map_of (sd_handlers s) (jc_name cfg) of
        Some h \<Rightarrow>
          (case find (\<lambda>c. \<not> capset_contains caps c) (required_capabilities h) of
             Some required \<Rightarrow> (Inl (MissingCapability required), s)
           | None \<Rightarrow> submit E cfg s)
      | None \<Rightarrow> submit E cfg s)"

section \<open>Retention\<close>

definition registry_victims :: "nat \<Rightarrow> job_index \<Rightarrow> job_id list" where
  "registry_victims retained m =
     (let terminal = map (\<lambda>(i, j). (i, completed_at j)) (filter (\<lambda>(i, j). is_terminal j) m);
          excess = length terminal - retained
      in if excess = 0 then [] else map fst (take excess (sort_key snd terminal)))"

definition prune_terminal :: "'st scheduler \<Rightarrow> 'st scheduler" where
  "prune_terminal s =
     s\<lparr>sd_registry := fold AList.delete
         (registry_victims (retained_terminal_jobs (sd_config s)) (sd_registry s)) (sd_registry s)\<rparr>"

definition prune_store_terminal :: "'st env \<Rightarrow> 'st scheduler \<Rightarrow> 'st scheduler" where
  "prune_store_terminal E s =
     s\<lparr>sd_store := snd (so_prune_terminal (en_ops E) (retained_terminal_jobs (sd_config s)) (sd_store s))\<rparr>"

section \<open>Persisting a transition\<close>

fun event_debug :: "job_event \<Rightarrow> string" where
  "event_debug EvSubmitted = ''Submitted''"
| "event_debug EvStarted = ''Started''"
| "event_debug EvCompleted = ''Completed''"
| "event_debug EvFailed = ''Failed''"
| "event_debug EvRetried = ''Retried''"
| "event_debug EvCancelled = ''Cancelled''"
| "event_debug EvRecovered = ''Recovered''"
| "event_debug EvResolved = ''Resolved''"

definition persist_or_reconcile ::
  "'st env \<Rightarrow> job \<Rightarrow> job_event \<Rightarrow> 'st scheduler \<Rightarrow> bool \<times> 'st scheduler" where
  "persist_or_reconcile E snap ev s =
     (case so_update (en_ops E) snap ev (sd_store s) of
        (Inr _, st) \<Rightarrow> (True, s\<lparr>sd_store := st\<rparr>)
      | (Inl e, st) \<Rightarrow>
          (case mem_get (job_id snap) (sd_registry s) of
             None \<Rightarrow> (False, s\<lparr>sd_store := st\<rparr>)
           | Some j \<Rightarrow>
               (let unresolved = require_reconciliation
                      (event_debug ev @ '' persistence uncertain: '' @ en_err E e) j
                in (False,
                    s\<lparr>sd_registry := mem_put unresolved (sd_registry s),
                      sd_store := snd (so_update (en_ops E) unresolved EvRecovered st)\<rparr>))))"

section \<open>Aborting\<close>

fun abort_registry :: "'st env \<Rightarrow> job_index \<Rightarrow> 'st \<Rightarrow> job_index \<times> 'st" where
  "abort_registry E [] st = ([], st)"
| "abort_registry E ((i, j) # m) st =
     (if status j = Running
      then (let j' = require_reconciliation ''shutdown interrupted handler; effect may have occurred'' j;
                (m', st') = abort_registry E m (snd (so_update (en_ops E) j' EvRecovered st))
            in ((i, j') # m', st'))
      else (let (m', st') = abort_registry E m st in ((i, j) # m', st')))"

definition abort_all_running :: "'st env \<Rightarrow> 'st scheduler \<Rightarrow> 'st scheduler" where
  "abort_all_running E s =
     (let (m, st) = abort_registry E (sd_registry s) (sd_store s)
      in s\<lparr>sd_abort_handles := {}, sd_registry := m, sd_store := st\<rparr>)"

text \<open>Dropping the guard of one task, and dropping the whole join set.\<close>

definition drop_task :: "job_id \<Rightarrow> 'st scheduler \<Rightarrow> 'st scheduler" where
  "drop_task i s =
     s\<lparr>sd_permits := sd_permits s + 1, active_jobs := active_jobs s - 1,
       sd_abort_handles := sd_abort_handles s - {i},
       sd_executing := filter (\<lambda>j. job_id j \<noteq> i) (sd_executing s)\<rparr>"

definition drop_tasks :: "'st scheduler \<Rightarrow> 'st scheduler" where
  "drop_tasks s =
     (fold drop_task (map job_id (sd_executing s)) s)\<lparr>sd_backoff := []\<rparr>"

text \<open>The run loop returns after a drain timeout or a start it could not record: it aborts what
  runs and its join set is dropped.\<close>

definition run_abort :: "'st env \<Rightarrow> 'st scheduler \<Rightarrow> 'st scheduler" where
  "run_abort E s = drop_tasks (abort_all_running E s)"

section \<open>Starting a job\<close>

datatype start_outcome =
    NoPermit | Idle | SkippedCancelled | RequeueFailed job_failure | StartFailed job_failure
  | StartedJob job

definition start_stored :: "'st env \<Rightarrow> job \<Rightarrow> 'st scheduler \<Rightarrow> start_outcome \<times> 'st scheduler" where
  "start_stored E j s =
     (case so_update (en_ops E) j EvStarted (sd_store s) of
        (Inl e, st) \<Rightarrow>
          (let j' = j\<lparr>status := Pending, started_at := None\<rparr>;
               reg = (case mem_get (job_id j) (sd_registry s) of
                        Some _ \<Rightarrow> mem_put j' (sd_registry s) | None \<Rightarrow> sd_registry s);
               s1 = s\<lparr>sd_store := st, sd_registry := reg\<rparr>
           in case requeue j' (sd_queue s) of
                Inl err \<Rightarrow> (RequeueFailed err, s1)
              | Inr q \<Rightarrow> (StartFailed (store_err_for_job E (job_id j) e), s1\<lparr>sd_queue := q\<rparr>))
      | (Inr _, st) \<Rightarrow>
          (StartedJob j,
           s\<lparr>sd_store := st, active_jobs := active_jobs s + 1, sd_permits := sd_permits s - 1,
             sd_executing := j # sd_executing s,
             sd_abort_handles := insert (job_id j) (sd_abort_handles s)\<rparr>))"

definition start_next :: "'st env \<Rightarrow> 'st scheduler \<Rightarrow> start_outcome \<times> 'st scheduler" where
  "start_next E s =
     (if sd_permits s = 0 then (NoPermit, s)
      else case next_job (en_now E) (sd_queue s) of
             (None, q) \<Rightarrow> (Idle, s\<lparr>sd_queue := q\<rparr>)
           | (Some j, q) \<Rightarrow>
               (case mem_get (job_id j) (sd_registry s) of
                  Some registered \<Rightarrow>
                    if status registered = Cancelled
                    then (SkippedCancelled, s\<lparr>sd_queue := q\<rparr>)
                    else (let r = start (en_now E) registered
                          in start_stored E r
                               (s\<lparr>sd_queue := q, sd_registry := mem_put r (sd_registry s)\<rparr>))
                | None \<Rightarrow> start_stored E (start (en_now E) j) (s\<lparr>sd_queue := q\<rparr>)))"

section \<open>Running a job\<close>

text \<open>\<open>OutputCounter\<close>: the serialiser's writes are counted until one would exceed the limit.\<close>

fun count_writes :: "nat \<Rightarrow> nat \<Rightarrow> nat list \<Rightarrow> bool" where
  "count_writes limit written [] = True"
| "count_writes limit written (n # ns) =
     (if limit < sat_add written n then False else count_writes limit (written + n) ns)"

definition output_within_bound :: "'st env \<Rightarrow> json \<Rightarrow> nat \<Rightarrow> bool" where
  "output_within_bound E output limit = count_writes limit 0 (en_writes E output)"

text \<open>Decimal text of a number, as \<open>format!\<close> writes it.\<close>

fun decimal :: "nat \<Rightarrow> string" where
  "decimal n = (if n < 10 then [char_of (48 + n)] else decimal (n div 10) @ [char_of (48 + n mod 10)])"

declare decimal.simps [simp del]

definition execute_job :: "'st env \<Rightarrow> 'st scheduler \<Rightarrow> job \<Rightarrow> (string + json) \<Rightarrow> job_result" where
  "execute_job E s j outcome =
     (let failed = (\<lambda>msg. \<lparr>jr_job_id = job_id j, jr_success = False, jr_output = None,
                           jr_error = Some msg, jr_completed_at = en_now E\<rparr>);
          limit = max_output_bytes (sd_config s)
      in case map_of (sd_handlers s) (job_name j) of
           None \<Rightarrow> failed (''no handler registered for job: '' @ job_name j)
         | Some h \<Rightarrow>
             (case outcome of
                Inr output \<Rightarrow>
                  if output_within_bound E output limit
                  then \<lparr>jr_job_id = job_id j, jr_success = True, jr_output = Some output,
                        jr_error = None, jr_completed_at = en_now E\<rparr>
                  else failed (''job output exceeds '' @ decimal limit @ '' bytes'')
              | Inl e \<Rightarrow> failed e))"

definition timeout_result :: "'st env \<Rightarrow> job_id \<Rightarrow> job_result" where
  "timeout_result E i =
     \<lparr>jr_job_id = i, jr_success = False, jr_output = None, jr_error = Some ''job timeout'',
      jr_completed_at = en_now E\<rparr>"

text \<open>The tail of a successful or finally failed execution: persist, retain, count.\<close>

definition finish_terminal ::
  "'st env \<Rightarrow> job \<Rightarrow> job_event \<Rightarrow> ('st scheduler \<Rightarrow> 'st scheduler) \<Rightarrow> 'st scheduler \<Rightarrow> 'st scheduler" where
  "finish_terminal E snap ev bump s =
     (case persist_or_reconcile E snap ev s of
        (False, s1) \<Rightarrow> s1
      | (True, s1) \<Rightarrow> bump (prune_store_terminal E (prune_terminal s1)))"

definition finish_job ::
  "'st env \<Rightarrow> job_id \<Rightarrow> job_result \<Rightarrow> bool \<Rightarrow> 'st scheduler \<Rightarrow> (nat \<times> job) option \<times> 'st scheduler" where
  "finish_job E i res timed_out s0 =
     (let s = s0\<lparr>sd_abort_handles := sd_abort_handles s0 - {i}\<rparr>;
          reg = (\<lambda>j. s\<lparr>sd_registry := mem_put j (sd_registry s)\<rparr>)
      in case mem_get i (sd_registry s) of
           None \<Rightarrow> (None, s)
         | Some j \<Rightarrow>
             if status j \<noteq> Running then (None, s)
             else if timed_out
             then (let j1 = require_reconciliation ''handler timed out; effect may have occurred'' j
                   in (None, snd (persist_or_reconcile E j1 EvRecovered (reg j1))))
             else if jr_success res
             then (let j1 = complete (en_now E) res j
                   in (None, finish_terminal E j1 EvCompleted
                               (\<lambda>s. s\<lparr>total_completed := total_completed s + 1\<rparr>) (reg j1)))
             else (let err = (case jr_error res of Some e \<Rightarrow> e | None \<Rightarrow> ''job failed'');
                       j1 = (fail (en_now E) err j)\<lparr>result := Some res\<rparr>;
                       replay_safe = (case map_of (sd_handlers s) (job_name j1) of
                                        Some h \<Rightarrow> safe_to_retry h | None \<Rightarrow> False)
                   in if \<not> can_retry j1 \<or> \<not> replay_safe
                      then (None, finish_terminal E j1 EvFailed
                                    (\<lambda>s. s\<lparr>total_failed := total_failed s + 1\<rparr>) (reg j1))
                      else (let j2 = prepare_retry j1
                            in case persist_or_reconcile E j2 EvRetried (reg j2) of
                                 (False, s1) \<Rightarrow> (None, s1)
                               | (True, s1) \<Rightarrow>
                                   (Some (calculate_backoff (jq_retry_config (sd_queue s1))
                                            (retry_count j1 + 1) (en_jitter E), j2),
                                    s1\<lparr>total_retried := total_retried s1 + 1\<rparr>))))"

text \<open>The rest of a task after its handler returned or timed out.\<close>

definition finish_task ::
  "'st env \<Rightarrow> job \<Rightarrow> job_result \<Rightarrow> bool \<Rightarrow> 'st scheduler \<Rightarrow> 'st scheduler" where
  "finish_task E j res timed_out s =
     (case finish_job E (job_id j) res timed_out s of
        (retry, s1) \<Rightarrow>
          (let s2 = drop_task (job_id j) s1
           in case retry of None \<Rightarrow> s2 | Some (_, w) \<Rightarrow> s2\<lparr>sd_backoff := w # sd_backoff s2\<rparr>))"

text \<open>The only error of \<open>requeue\<close> is \<open>QueueFull\<close>, whose text is \<open>queue is full\<close>.\<close>

definition requeue_after_backoff :: "'st env \<Rightarrow> job \<Rightarrow> 'st scheduler \<Rightarrow> 'st scheduler" where
  "requeue_after_backoff E w s =
     (if sd_shutdown s then s
      else case mem_get (job_id w) (sd_registry s) of
             None \<Rightarrow> s
           | Some j \<Rightarrow>
               if status j \<noteq> Pending then s
               else (case requeue w (sd_queue s) of
                       Inr q \<Rightarrow> s\<lparr>sd_registry := mem_put w (sd_registry s), sd_queue := q\<rparr>
                     | Inl e \<Rightarrow>
                         (let j1 = fail (en_now E) ''requeue failed: queue is full'' w
                          in case persist_or_reconcile E j1 EvFailed
                                    (s\<lparr>sd_registry := mem_put j1 (sd_registry s)\<rparr>) of
                               (False, s1) \<Rightarrow> s1
                             | (True, s1) \<Rightarrow>
                                 (prune_store_terminal E s1)\<lparr>total_failed := total_failed s1 + 1\<rparr>)))"

section \<open>Reading\<close>

definition get_job :: "'st env \<Rightarrow> job_id \<Rightarrow> 'st scheduler \<Rightarrow> job option" where
  "get_job E i s =
     (case mem_get i (sd_registry s) of
        Some j \<Rightarrow> Some j
      | None \<Rightarrow> (case so_get (en_ops E) i (sd_store s) of Inr r \<Rightarrow> r | Inl _ \<Rightarrow> None))"

record scheduler_stats =
  ss_total_submitted :: u64
  ss_total_completed :: u64
  ss_total_failed :: u64
  ss_total_retried :: u64
  ss_active_jobs :: nat
  ss_queued_jobs :: nat

definition sched_stats :: "'st scheduler \<Rightarrow> scheduler_stats" where
  "sched_stats s =
     \<lparr>ss_total_submitted = total_submitted s, ss_total_completed = total_completed s,
      ss_total_failed = total_failed s, ss_total_retried = total_retried s,
      ss_active_jobs = unat (active_jobs s), ss_queued_jobs = qs_pending (stats (sd_queue s))\<rparr>"

section \<open>Cancellation\<close>

definition cancel_job :: "'st env \<Rightarrow> job_id \<Rightarrow> 'st scheduler \<Rightarrow> (job_failure + unit) \<times> 'st scheduler" where
  "cancel_job E i s =
     (case mem_get i (sd_registry s) of
        None \<Rightarrow> (Inl (NotFound i), s)
      | Some j \<Rightarrow>
          (if status j \<in> {Completed, Failed, Cancelled, Resolved}
           then (Inl (already_finished i (status j)), s)
           else if status j = Pending
           then (let snap = cancel (en_now E) j
                 in case so_update (en_ops E) snap EvCancelled (sd_store s) of
                      (Inl e, st) \<Rightarrow> (Inl (store_err_for_job E i e), s\<lparr>sd_store := st\<rparr>)
                    | (Inr _, st) \<Rightarrow>
                        (Inr (),
                         prune_store_terminal E (prune_terminal
                           (s\<lparr>sd_store := st,
                              sd_queue := snd (cancel_queued (en_now E) i (sd_queue s)),
                              sd_registry := mem_put snap (sd_registry s)\<rparr>))))
           else if status j = Running
           then (let snap = require_reconciliation
                       ''running job cancelled; handler effect may have occurred'' j;
                     s1 = s\<lparr>sd_registry := mem_put snap (sd_registry s),
                            sd_abort_handles := sd_abort_handles s - {i}\<rparr>
                 in case so_update (en_ops E) snap EvRecovered (sd_store s) of
                      (Inl e, st) \<Rightarrow> (Inl (store_err_for_job E i e), s1\<lparr>sd_store := st\<rparr>)
                    | (Inr _, st) \<Rightarrow> (Inr (), s1\<lparr>sd_store := st\<rparr>))
           else (Inl (Execution (''job '' @ job_id_str i @ '' requires reconciliation before cancellation'')), s)))"

section \<open>Operator resolution\<close>

definition resolution_snapshot :: "resolution_receipt \<Rightarrow> job \<Rightarrow> job" where
  "resolution_snapshot r j =
     j\<lparr>resolution_pending := False, status := Resolved, completed_at := Some (rr_resolved_at r),
       result := None, job_error := None, resolution := Some r\<rparr>"

definition resolve_job ::
  "'st env \<Rightarrow> job_id \<Rightarrow> principal_id \<Rightarrow> resolution_request \<Rightarrow> 'st scheduler \<Rightarrow>
   (job_failure + resolution_receipt) \<times> 'st scheduler" where
  "resolve_job E i actor input s =
     (case validate_request input of
        Inl reason \<Rightarrow> (Inl (Execution reason), s)
      | Inr _ \<Rightarrow>
          (case mem_get i (sd_registry s) of
             None \<Rightarrow> (Inl (NotFound i), s)
           | Some j \<Rightarrow>
               if owner j \<noteq> Some actor then (Inl (NotFound i), s)
               else if resolution_pending j \<or> \<not> has_valid_resolution (en_uuid_ok E) j
               then (Inl ResolutionUncertain, s)
               else (case resolution j of
                       Some receipt \<Rightarrow>
                         if rr_actor receipt = actor \<and> rr_decision receipt = rq_decision input
                            \<and> rr_evidence receipt = rq_evidence input
                         then (Inr receipt, s)
                         else (Inl (Execution ''job resolution conflicts with its durable receipt''), s)
                     | None \<Rightarrow>
                         if status j \<noteq> ReconciliationRequired
                         then (Inl (Execution ''only reconciliation-required jobs can be resolved''), s)
                         else if so_integrity_issue (en_ops E) (sd_store s) \<noteq> None
                         then (Inl ResolutionUncertain, s)
                         else (let receipt = \<lparr>rr_job_id = job_id_str i, rr_decision = rq_decision input,
                                     rr_evidence = rq_evidence input, rr_actor = actor,
                                     rr_resolved_at = en_now E, rr_provenance = ''operatorAttested''\<rparr>;
                                   snap = resolution_snapshot receipt j
                               in case so_update (en_ops E) snap EvResolved (sd_store s) of
                                    (Inl e, st) \<Rightarrow>
                                      (Inl ResolutionUncertain,
                                       s\<lparr>sd_store := st,
                                         sd_registry := mem_put (j\<lparr>resolution_pending := True\<rparr>) (sd_registry s)\<rparr>)
                                  | (Inr _, st) \<Rightarrow>
                                      (Inr receipt,
                                       prune_store_terminal E (prune_terminal
                                         (s\<lparr>sd_store := st, sd_registry := mem_put snap (sd_registry s)\<rparr>)))))))"

section \<open>Opening\<close>

fun hydrate_jobs :: "job list \<Rightarrow> 'st scheduler \<Rightarrow> (job_failure + unit) \<times> 'st scheduler" where
  "hydrate_jobs [] s = (Inr (), s)"
| "hydrate_jobs (j # js) s =
     (let s1 = s\<lparr>sd_registry := mem_put j (sd_registry s), total_submitted := total_submitted s + 1\<rparr>;
          s2 = (case status j of
                  Completed \<Rightarrow> s1\<lparr>total_completed := total_completed s1 + 1\<rparr>
                | Failed \<Rightarrow> s1\<lparr>total_failed := total_failed s1 + 1\<rparr>
                | _ \<Rightarrow> s1)
      in if status j = Pending
         then (case requeue j (sd_queue s2) of
                 Inl e \<Rightarrow> (Inl e, s2)
               | Inr q \<Rightarrow> hydrate_jobs js (s2\<lparr>sd_queue := q\<rparr>))
         else hydrate_jobs js s2)"

definition hydrate :: "'st env \<Rightarrow> 'st scheduler \<Rightarrow> (job_failure + unit) \<times> 'st scheduler" where
  "hydrate E s =
     (case so_prune_terminal (en_ops E) (retained_terminal_jobs (sd_config s)) (sd_store s) of
        (Inl e, st) \<Rightarrow> (Inl (store_err E e), s\<lparr>sd_store := st\<rparr>)
      | (Inr _, st) \<Rightarrow>
          (case so_load_all (en_ops E) st of
             Inl e \<Rightarrow> (Inl (store_err E e), s\<lparr>sd_store := st\<rparr>)
           | Inr js \<Rightarrow> hydrate_jobs js (s\<lparr>sd_store := st\<rparr>)))"

definition open_journal ::
  "journal_store env \<Rightarrow> codec \<Rightarrow> scheduler_config \<Rightarrow> disk \<Rightarrow> job_failure + journal_store scheduler" where
  "open_journal E C cfg d =
     (case journal_open C (en_now E) d of
        (Inl e, _) \<Rightarrow> Inl (store_err E e)
      | (Inr st, _) \<Rightarrow>
          (case hydrate E (with_store cfg st) of
             (Inl e, _) \<Rightarrow> Inl e
           | (Inr _, s) \<Rightarrow> Inr s))"

end
