(* ===== verification/Scheduler_Core.thy ===== *)
theory Scheduler_Core
  imports Scheduler
begin

text \<open>
  The invariant of the scheduler and the abstract machine its transitions refine. The machine
  keeps the queue, the registry, the tasks and the permits, and leaves the store and the
  counters open; its trace records submissions and the moments a handler is started. The theory
  shows that every move keeps the invariant and bounds how often a handler is started. That the
  scheduler refines the machine is shown in the theory \<open>Scheduler_Run\<close>.
\<close>

section \<open>Events\<close>

datatype sched_event = Submitted job | Executed job_id

definition event_id :: "sched_event \<Rightarrow> job_id" where
  "event_id ev = (case ev of Submitted j \<Rightarrow> job_id j | Executed i \<Rightarrow> i)"

section \<open>The invariant\<close>

definition queued_ids :: "'st scheduler \<Rightarrow> job_id list" where
  "queued_ids s = map job_id (contents (sd_queue s))"

definition reg :: "'st scheduler \<Rightarrow> job_id \<Rightarrow> job option" where
  "reg s i = mem_get i (sd_registry s)"

definition capacity :: "'st scheduler \<Rightarrow> nat" where
  "capacity s = max 1 (max_concurrent_jobs (sd_config s))"

text \<open>Every queued job is pending in the registry, once.\<close>

definition queue_part :: "'st scheduler \<Rightarrow> bool" where
  "queue_part s \<longleftrightarrow>
     queue_inv (sd_queue s) \<and> index_ok (sd_registry s) \<and> distinct (queued_ids s) \<and>
     (\<forall>q \<in> set (contents (sd_queue s)). status q = Pending \<and>
        (\<exists>j. reg s (job_id q) = Some j \<and> status j = Pending))"

text \<open>The tasks that execute hold the permits that are not free, and each job has one task.\<close>

definition task_part :: "'st scheduler \<Rightarrow> bool" where
  "task_part s \<longleftrightarrow>
     sd_permits s + length (sd_executing s) = capacity s \<and>
     distinct (map job_id (sd_executing s) @ map job_id (sd_backoff s)) \<and>
     sd_abort_handles s \<subseteq> job_id ` set (sd_executing s)"

text \<open>A task that executes is not pending, and a running job has a task that can be aborted.\<close>

definition exec_part :: "'st scheduler \<Rightarrow> bool" where
  "exec_part s \<longleftrightarrow>
     (\<forall>j \<in> set (sd_executing s). \<forall>j'. reg s (job_id j) = Some j' \<longrightarrow> status j' \<noteq> Pending) \<and>
     (\<forall>i j. reg s i = Some j \<longrightarrow> status j = Running \<longrightarrow> i \<in> sd_abort_handles s)"

text \<open>A waiting retry is the pending job of the registry, or that job has ended meanwhile.\<close>

definition wait_part :: "'st scheduler \<Rightarrow> bool" where
  "wait_part s \<longleftrightarrow>
     (\<forall>w \<in> set (sd_backoff s). status w = Pending \<and>
        (\<forall>j. reg s (job_id w) = Some j \<longrightarrow>
           j = w \<and> job_id w \<notin> set (queued_ids s) \<or> status j \<notin> {Pending, Running}))"

definition sched_inv :: "'st scheduler \<Rightarrow> bool" where
  "sched_inv s \<longleftrightarrow> queue_part s \<and> task_part s \<and> exec_part s \<and> wait_part s"

lemmas sched_parts = sched_inv_def queue_part_def task_part_def exec_part_def wait_part_def

section \<open>The abstract machine\<close>

text \<open>The part of the state the invariant speaks about.\<close>

definition same_core :: "'st scheduler \<Rightarrow> 'st scheduler \<Rightarrow> bool" where
  "same_core s t \<longleftrightarrow>
     sd_config s = sd_config t \<and> sd_queue s = sd_queue t \<and> sd_permits s = sd_permits t \<and>
     sd_handlers s = sd_handlers t \<and> sd_registry s = sd_registry t \<and>
     sd_abort_handles s = sd_abort_handles t \<and> sd_executing s = sd_executing t \<and>
     sd_backoff s = sd_backoff t"

definition replay_safe :: "'st scheduler \<Rightarrow> string \<Rightarrow> bool" where
  "replay_safe s n = (case map_of (sd_handlers s) n of Some h \<Rightarrow> safe_to_retry h | None \<Rightarrow> False)"

text \<open>Two states of one job that differ in its progress only.\<close>

definition keeps :: "job \<Rightarrow> job \<Rightarrow> bool" where
  "keeps j j' \<longleftrightarrow> job_id j' = job_id j \<and> job_name j' = job_name j \<and>
     max_retries j' = max_retries j \<and> retry_count j' = retry_count j"

definition settled :: "job \<Rightarrow> bool" where
  "settled j \<longleftrightarrow> status j \<notin> {Pending, Running}"

abbreviation put_reg :: "job \<Rightarrow> 'st scheduler \<Rightarrow> 'st scheduler" where
  "put_reg j s \<equiv> s\<lparr>sd_registry := mem_put j (sd_registry s)\<rparr>"

definition fewer :: "job_queue \<Rightarrow> job_queue \<Rightarrow> bool" where
  "fewer q q' \<longleftrightarrow> queue_inv q' \<and> set (contents q') \<subseteq> set (contents q) \<and> distinct (map job_id (contents q'))"

definition settle_running :: "(job \<Rightarrow> job) \<Rightarrow> job_index \<Rightarrow> job_index" where
  "settle_running f m = map (\<lambda>(i, j). (i, if status j = Running then f j else j)) m"

text \<open>The moves of the machine. Only \<open>core_start\<close> starts a handler.\<close>

inductive core_run :: "'st scheduler \<Rightarrow> sched_event list \<Rightarrow> 'st scheduler \<Rightarrow> bool" for s0 where
  core_init: "core_run s0 [] s0"
| core_same: "core_run s0 tr s \<Longrightarrow> same_core s t \<Longrightarrow> core_run s0 tr t"
| core_settle: "core_run s0 tr s \<Longrightarrow> reg s (job_id j) = Some j \<Longrightarrow> job_id j \<notin> set (queued_ids s) \<Longrightarrow>
    keeps j j' \<Longrightarrow> settled j' \<Longrightarrow> core_run s0 tr (put_reg j' s)"
| core_dequeue: "core_run s0 tr s \<Longrightarrow> fewer (sd_queue s) q \<Longrightarrow> core_run s0 tr (s\<lparr>sd_queue := q\<rparr>)"
| core_enqueue: "core_run s0 tr s \<Longrightarrow> reg s (job_id j) = Some j \<Longrightarrow> status j = Pending \<Longrightarrow>
    job_id j \<notin> set (queued_ids s) \<union> job_id ` set (sd_backoff s) \<Longrightarrow> keeps j j' \<Longrightarrow> status j' = Pending \<Longrightarrow>
    requeue j' (sd_queue s) = Inr q \<Longrightarrow> core_run s0 tr ((put_reg j' s)\<lparr>sd_queue := q\<rparr>)"
| core_forget: "core_run s0 tr s \<Longrightarrow> (\<And>i. i \<in> set is \<Longrightarrow> \<exists>j. reg s i = Some j \<and> is_terminal j) \<Longrightarrow>
    core_run s0 tr (s\<lparr>sd_registry := fold AList.delete is (sd_registry s)\<rparr>)"
| core_abort: "core_run s0 tr s \<Longrightarrow> (\<And>j. keeps j (f j) \<and> settled (f j)) \<Longrightarrow>
    core_run s0 tr (s\<lparr>sd_registry := settle_running f (sd_registry s)\<rparr>)"
| core_untrack: "core_run s0 tr s \<Longrightarrow> H \<subseteq> sd_abort_handles s \<Longrightarrow>
    (\<And>i j. reg s i = Some j \<Longrightarrow> status j = Running \<Longrightarrow> i \<in> H) \<Longrightarrow> core_run s0 tr (s\<lparr>sd_abort_handles := H\<rparr>)"
| core_drop: "core_run s0 tr s \<Longrightarrow> i \<in> job_id ` set (sd_executing s) \<Longrightarrow>
    (\<And>j. reg s i = Some j \<Longrightarrow> status j \<noteq> Running) \<Longrightarrow> core_run s0 tr (drop_task i s)"
| core_submit: "core_run s0 tr s \<Longrightarrow> job_id j \<notin> event_id ` set tr \<Longrightarrow> reg s0 (job_id j) = None \<Longrightarrow>
    status j = Pending \<Longrightarrow> retry_count j = 0 \<Longrightarrow> requeue j (sd_queue s) = Inr q \<Longrightarrow>
    core_run s0 (tr @ [Submitted j]) ((put_reg j s)\<lparr>sd_queue := q\<rparr>)"
| core_start: "core_run s0 tr s \<Longrightarrow> 0 < sd_permits s \<Longrightarrow> reg s (job_id j) = Some j \<Longrightarrow> status j = Pending \<Longrightarrow>
    job_id j \<notin> set (queued_ids s) \<union> job_id ` set (sd_backoff s) \<Longrightarrow>
    core_run s0 (tr @ [Executed (job_id j)])
      ((put_reg (start now j) s)\<lparr>sd_permits := sd_permits s - 1,
         sd_executing := start now j # sd_executing s,
         sd_abort_handles := insert (job_id j) (sd_abort_handles s)\<rparr>)"
| core_retry: "core_run s0 tr s \<Longrightarrow> reg s (job_id j) = Some j \<Longrightarrow> status j = Running \<Longrightarrow> keeps j j' \<Longrightarrow>
    can_retry j' \<Longrightarrow> replay_safe s (job_name j) \<Longrightarrow>
    core_run s0 tr ((drop_task (job_id j) (put_reg (prepare_retry j') s))
                      \<lparr>sd_backoff := prepare_retry j' # sd_backoff s\<rparr>)"
| core_unwait: "core_run s0 tr s \<Longrightarrow> w \<in> set (sd_backoff s) \<Longrightarrow>
    core_run s0 tr (s\<lparr>sd_backoff := remove1 w (sd_backoff s)\<rparr>)"

section \<open>Lemmas on the parts\<close>

lemma reg_put [simp]: "reg (put_reg j s) i = (if i = job_id j then Some j else reg s i)"
  by (simp add: reg_def hmap_simps)

lemma reg_frame [simp]:
  "reg (s\<lparr>sd_queue := q\<rparr>) = reg s" "reg (s\<lparr>sd_permits := p\<rparr>) = reg s" "reg (s\<lparr>sd_executing := x\<rparr>) = reg s"
  "reg (s\<lparr>sd_abort_handles := h\<rparr>) = reg s" "reg (s\<lparr>sd_backoff := b\<rparr>) = reg s" "reg (s\<lparr>active_jobs := a\<rparr>) = reg s"
  "reg (drop_task i s) = reg s"
  by (simp_all add: reg_def fun_eq_iff drop_task_def)

lemma reg_forget:
  "reg (s\<lparr>sd_registry := fold AList.delete is (sd_registry s)\<rparr>) i = (if i \<in> set is then None else reg s i)"
  by (simp add: reg_def mem_get_def fold_delete_map_of)

lemma reg_settle_running:
  "reg (s\<lparr>sd_registry := settle_running f (sd_registry s)\<rparr>) i =
     map_option (\<lambda>j. if status j = Running then f j else j) (reg s i)"
proof -
  have "map_of (settle_running f m) i = map_option (\<lambda>j. if status j = Running then f j else j) (map_of m i)" for m
    by (induction m) (auto simp: settle_running_def)
  then show ?thesis by (simp add: reg_def mem_get_def)
qed

lemma queued_frame [simp]:
  "queued_ids (s\<lparr>sd_registry := m\<rparr>) = queued_ids s" "queued_ids (s\<lparr>sd_permits := p\<rparr>) = queued_ids s"
  "queued_ids (s\<lparr>sd_executing := x\<rparr>) = queued_ids s" "queued_ids (s\<lparr>sd_abort_handles := h\<rparr>) = queued_ids s"
  "queued_ids (s\<lparr>sd_backoff := b\<rparr>) = queued_ids s" "queued_ids (s\<lparr>active_jobs := a\<rparr>) = queued_ids s"
  "queued_ids (drop_task i s) = queued_ids s"
  by (simp_all add: queued_ids_def drop_task_def)

lemma capacity_frame [simp]:
  "capacity (s\<lparr>sd_registry := m\<rparr>) = capacity s" "capacity (s\<lparr>sd_permits := p\<rparr>) = capacity s"
  "capacity (s\<lparr>sd_executing := x\<rparr>) = capacity s" "capacity (s\<lparr>sd_abort_handles := h\<rparr>) = capacity s"
  "capacity (s\<lparr>sd_backoff := b\<rparr>) = capacity s" "capacity (s\<lparr>sd_queue := q\<rparr>) = capacity s"
  "capacity (s\<lparr>active_jobs := a\<rparr>) = capacity s" "capacity (drop_task i s) = capacity s"
  by (simp_all add: capacity_def drop_task_def)

lemma mset_insort_prio: "mset (insort_prio j xs) = add_mset j (mset xs)"
  by (simp add: insort_prio_def) (metis mset_append takeWhile_dropWhile_id)

lemma requeue_queued:
  assumes "queue_inv q" "requeue j q = Inr q'"
  shows "queue_inv q'" "mset (contents q') = add_mset j (mset (contents q))"
proof -
  have room: "length (contents q) < jq_max_size q"
    using assms requeue_full [of q j] by (cases "length (contents q) < jq_max_size q") auto
  from contents_requeue [OF assms(1) this, of j] assms(2)
  show "queue_inv q'" "mset (contents q') = add_mset j (mset (contents q))"
    by (auto simp: mset_insort_prio)
qed

lemma next_job_queued:
  assumes "queue_inv q" "next_job now q = (Some j, q')"
  obtains q0 where "queue_inv q'" "mset (contents q) = add_mset q0 (mset (contents q'))" "j = start now q0"
    "jq_max_size q' = jq_max_size q"
proof (cases "position is_pending (contents q)")
  case None
  with assms(2) next_job_none show thesis by force
next
  case (Some k)
  then have k: "k < length (contents q)" by (auto dest: position_SomeD)
  from next_job_some [OF assms(1) Some, of now] assms(2)
  have "j = start now (contents q ! k)" "queue_inv q'" "contents q' = remove_nth k (contents q)"
    "jq_max_size q' = jq_max_size q" by auto
  moreover have "mset (contents q) = add_mset (contents q ! k) (mset (remove_nth k (contents q)))"
    using id_take_nth_drop [OF k] by (metis mset.simps(2) mset_append remove_nth_def union_mset_add_mset_right)
  ultimately show thesis by (intro that [of "contents q ! k"]) auto
qed

lemma mset_ids:
  assumes "mset xs = add_mset y (mset ys)"
  shows "set xs = insert y (set ys)" "distinct (map f xs) \<longleftrightarrow> f y \<notin> f ` set ys \<and> distinct (map f ys)"
proof -
  show "set xs = insert y (set ys)" using assms by (metis set_mset_add_mset_insert set_mset_mset)
  have "mset (map f xs) = mset (map f (y # ys))" using assms by (simp add: mset_map)
  then have "distinct (map f xs) = distinct (map f (y # ys))" by (rule mset_eq_imp_distinct_iff)
  then show "distinct (map f xs) \<longleftrightarrow> f y \<notin> f ` set ys \<and> distinct (map f ys)" by simp
qed

section \<open>Every move keeps the invariant\<close>

lemma same_core_inv: "same_core s t \<Longrightarrow> sched_inv s \<Longrightarrow> sched_inv t"
  by (simp add: same_core_def sched_parts reg_def queued_ids_def capacity_def)

lemma inv_not_queued:
  "sched_inv s \<Longrightarrow> reg s i = Some j \<Longrightarrow> status j \<noteq> Pending \<Longrightarrow> i \<notin> set (queued_ids s)"
  by (force simp: sched_inv_def queue_part_def queued_ids_def)

lemma inv_settle:
  assumes "sched_inv s" "settled j'" "job_id j' \<notin> set (queued_ids s)"
  shows "sched_inv (put_reg j' s)"
proof -
  have "queue_part (put_reg j' s)"
    using assms by (auto simp: sched_inv_def queue_part_def index_ok_put queued_ids_def image_iff)
  moreover have "task_part (put_reg j' s)" using assms(1) by (simp add: sched_inv_def task_part_def)
  moreover have "exec_part (put_reg j' s)"
    using assms by (auto simp: sched_inv_def exec_part_def settled_def)
  moreover have "wait_part (put_reg j' s)"
    using assms by (auto simp: sched_inv_def wait_part_def settled_def)
  ultimately show ?thesis by (simp add: sched_inv_def)
qed

lemma inv_forget:
  assumes "sched_inv s" "\<And>i. i \<in> set is \<Longrightarrow> \<exists>j. reg s i = Some j \<and> is_terminal j"
  shows "sched_inv (s\<lparr>sd_registry := fold AList.delete is (sd_registry s)\<rparr>)" (is "sched_inv ?s")
proof -
  have kept: "i \<notin> set is" if "reg s i = Some j" "status j = Pending" for i j
    using assms(2) [of i] that by (auto simp: is_terminal_def)
  have "queue_part ?s"
    using assms(1) kept by (auto simp: sched_inv_def queue_part_def index_ok_delete reg_forget)
  moreover have "task_part ?s" using assms(1) by (simp add: sched_inv_def task_part_def)
  moreover have "exec_part ?s" using assms(1) by (auto simp: sched_inv_def exec_part_def reg_forget)
  moreover have "wait_part ?s" using assms(1) by (auto simp: sched_inv_def wait_part_def reg_forget)
  ultimately show ?thesis by (simp add: sched_inv_def)
qed

lemma inv_untrack:
  "sched_inv s \<Longrightarrow> H \<subseteq> sd_abort_handles s \<Longrightarrow> (\<And>i j. reg s i = Some j \<Longrightarrow> status j = Running \<Longrightarrow> i \<in> H) \<Longrightarrow>
     sched_inv (s\<lparr>sd_abort_handles := H\<rparr>)"
  by (auto simp: sched_parts)

lemma index_ok_settle_running:
  assumes "\<And>j. keeps j (f j)" "index_ok m"
  shows "index_ok (settle_running f m)"
proof -
  have "map fst (settle_running f m) = map fst m" by (induction m) (auto simp: settle_running_def)
  moreover have "job_id (f j) = job_id j" for j using assms(1) by (simp add: keeps_def)
  ultimately show ?thesis using assms(2) by (auto simp: index_ok_def) (auto simp: settle_running_def)
qed

lemma inv_abort:
  assumes "sched_inv s" "\<And>j. keeps j (f j) \<and> settled (f j)"
  shows "sched_inv (s\<lparr>sd_registry := settle_running f (sd_registry s)\<rparr>)" (is "sched_inv ?s")
proof -
  have f: "status (f j) \<noteq> Pending" "status (f j) \<noteq> Running" for j using assms(2) by (simp_all add: settled_def)
  have "queue_part ?s"
    using assms by (fastforce simp: sched_inv_def queue_part_def reg_settle_running index_ok_settle_running)
  moreover have "task_part ?s" using assms(1) by (simp add: sched_inv_def task_part_def)
  moreover have "exec_part ?s" using assms(1) f by (auto simp: sched_inv_def exec_part_def reg_settle_running)
  moreover have "wait_part ?s" using assms(1) f by (auto simp: sched_inv_def wait_part_def reg_settle_running)
  ultimately show ?thesis by (simp add: sched_inv_def)
qed

lemma length_filter_id:
  assumes "distinct (map f xs)" "y \<in> set xs"
  shows "length (filter (\<lambda>x. f x \<noteq> f y) xs) + 1 = length xs"
  using assms
proof (induction xs)
  case (Cons x xs)
  show ?case
  proof (cases "f x = f y")
    case True
    with Cons.prems(1) have "\<forall>z \<in> set xs. f z \<noteq> f y" by (auto simp: image_iff)
    then have "filter (\<lambda>x. f x \<noteq> f y) xs = xs" by simp
    with True show ?thesis by simp
  next
    case False
    with Cons show ?thesis by auto
  qed
qed simp

lemma task_part_drop:
  assumes "task_part s" "i \<in> job_id ` set (sd_executing s)"
  shows "task_part (drop_task i s)"
proof -
  from assms(2) obtain y where y: "y \<in> set (sd_executing s)" "i = job_id y" by auto
  have "distinct (map job_id (sd_executing s))" using assms(1) by (simp add: task_part_def)
  from length_filter_id [OF this y(1)] have "sd_permits (drop_task i s) + length (sd_executing (drop_task i s)) = capacity s"
    using assms(1) by (simp add: drop_task_def task_part_def y(2))
  with assms(1) show ?thesis by (auto simp: drop_task_def task_part_def distinct_map_filter)
qed

lemma inv_drop:
  assumes "sched_inv s" "i \<in> job_id ` set (sd_executing s)" "\<And>j. reg s i = Some j \<Longrightarrow> status j \<noteq> Running"
  shows "sched_inv (drop_task i s)"
proof -
  have "queue_part (drop_task i s)" using assms(1) by (simp add: sched_inv_def queue_part_def) (simp add: drop_task_def)
  moreover have "exec_part (drop_task i s)"
    using assms(1,3) by (auto simp: sched_inv_def exec_part_def) (auto simp: drop_task_def)
  moreover have "wait_part (drop_task i s)"
    using assms(1) by (simp add: sched_inv_def wait_part_def) (simp add: drop_task_def)
  ultimately show ?thesis using task_part_drop [OF _ assms(2)] assms(1) by (simp add: sched_inv_def)
qed

text \<open>A pending job that has no task enters the queue.\<close>

lemma inv_enqueue:
  assumes "sched_inv s" "requeue j (sd_queue s) = Inr q" "status j = Pending" "job_id j \<notin> set (queued_ids s)"
    "job_id j \<notin> job_id ` set (sd_executing s)" "job_id j \<notin> job_id ` set (sd_backoff s)"
  shows "sched_inv ((put_reg j s)\<lparr>sd_queue := q\<rparr>)" (is "sched_inv ?s")
proof -
  have qi: "queue_inv (sd_queue s)" using assms(1) by (simp add: sched_inv_def queue_part_def)
  note ms = requeue_queued(2) [OF qi assms(2)]
  have q: "queue_inv q" "set (contents q) = insert j (set (contents (sd_queue s)))"
    "distinct (map job_id (contents q))"
    using requeue_queued(1) [OF qi assms(2)] mset_ids(1) [OF ms] mset_ids(2) [OF ms, of job_id] assms(1,4)
    by (auto simp: sched_inv_def queue_part_def queued_ids_def)
  have "queue_part ?s"
    using assms(1,3,4) q by (auto simp: sched_inv_def queue_part_def index_ok_put queued_ids_def image_iff)
  moreover have "task_part ?s" using assms(1) by (simp add: sched_inv_def task_part_def)
  moreover have "exec_part ?s" using assms(1,3,5) by (auto simp: sched_inv_def exec_part_def image_iff)
  moreover have "wait_part ?s"
  proof -
    have "set (queued_ids ?s) = insert (job_id j) (set (queued_ids s))" using q(2) by (simp add: queued_ids_def)
    with assms(1,6) show ?thesis by (auto simp: sched_inv_def wait_part_def image_iff)
  qed
  ultimately show ?thesis by (simp add: sched_inv_def)
qed

lemma inv_dequeue:
  assumes "sched_inv s" "fewer (sd_queue s) q"
  shows "sched_inv (s\<lparr>sd_queue := q\<rparr>)" (is "sched_inv ?s")
proof -
  have sub: "set (queued_ids ?s) \<subseteq> set (queued_ids s)" using assms(2) by (auto simp: queued_ids_def fewer_def)
  have "queue_part ?s" using assms by (auto simp: sched_inv_def queue_part_def queued_ids_def fewer_def)
  moreover have "task_part ?s" "exec_part ?s" using assms(1) by (simp_all add: sched_inv_def task_part_def exec_part_def)
  moreover have "wait_part ?s" using assms(1) sub by (auto simp: sched_inv_def wait_part_def)
  ultimately show ?thesis by (simp add: sched_inv_def)
qed

text \<open>A pending job is not executing.\<close>

lemma inv_not_executing:
  "sched_inv s \<Longrightarrow> reg s i = Some j \<Longrightarrow> status j = Pending \<Longrightarrow> i \<notin> job_id ` set (sd_executing s)"
  by (auto simp: sched_inv_def exec_part_def)

text \<open>A queued job has no waiting retry.\<close>

lemma inv_not_waiting:
  assumes "sched_inv s" "i \<in> set (queued_ids s)"
  shows "i \<notin> job_id ` set (sd_backoff s)"
proof
  assume "i \<in> job_id ` set (sd_backoff s)"
  then obtain w where w: "w \<in> set (sd_backoff s)" "i = job_id w" by auto
  from assms obtain j where "reg s i = Some j" "status j = Pending"
    by (auto simp: sched_inv_def queue_part_def queued_ids_def)
  with w assms show False by (auto simp: sched_inv_def wait_part_def)
qed

lemma inv_start:
  assumes "sched_inv s" "0 < sd_permits s" "reg s (job_id j) = Some j" "status j = Pending"
    "job_id j \<notin> set (queued_ids s) \<union> job_id ` set (sd_backoff s)"
  shows "sched_inv ((put_reg (start now j) s)\<lparr>sd_permits := sd_permits s - 1,
           sd_executing := start now j # sd_executing s,
           sd_abort_handles := insert (job_id j) (sd_abort_handles s)\<rparr>)" (is "sched_inv ?s")
proof -
  have new: "job_id j \<notin> job_id ` set (sd_executing s)" using inv_not_executing assms(1,3,4) .
  have "queue_part ?s"
    using assms(1,5) by (auto simp: sched_inv_def queue_part_def index_ok_put start_def queued_ids_def image_iff)
  moreover have "task_part ?s" using assms(1,2,5) new by (auto simp: sched_inv_def task_part_def start_def)
  moreover have "exec_part ?s" using assms(1) by (auto simp: sched_inv_def exec_part_def start_def)
  moreover have "wait_part ?s" using assms(1,5) by (auto simp: sched_inv_def wait_part_def start_def image_iff)
  ultimately show ?thesis by (simp add: sched_inv_def)
qed

lemma inv_retry:
  assumes "sched_inv s" "reg s (job_id j) = Some j" "status j = Running" "keeps j j'"
  shows "sched_inv ((drop_task (job_id j) (put_reg (prepare_retry j') s))
                      \<lparr>sd_backoff := prepare_retry j' # sd_backoff s\<rparr>)" (is "sched_inv ?s")
proof -
  have i: "job_id (prepare_retry j') = job_id j" "status (prepare_retry j') = Pending"
    using assms(4) by (simp_all add: keeps_def prepare_retry_def)
  have x: "job_id j \<in> job_id ` set (sd_executing s)"
    using assms(1,2,3) by (auto simp: sched_inv_def exec_part_def task_part_def)
  have nq: "job_id j \<notin> set (queued_ids s)" using inv_not_queued [OF assms(1,2)] assms(3) by simp
  have nw: "job_id j \<notin> job_id ` set (sd_backoff s)" using assms(1) x by (auto simp: sched_inv_def task_part_def)
  have "queue_part ?s"
    using assms(1) nq i by (auto simp: sched_inv_def queue_part_def index_ok_put queued_ids_def image_iff)
      (auto simp: drop_task_def index_ok_put)
  moreover have "task_part ?s"
  proof -
    have "task_part (drop_task (job_id j) (put_reg (prepare_retry j') s))"
      using task_part_drop [of "put_reg (prepare_retry j') s"] x assms(1) by (simp add: sched_inv_def task_part_def)
    then show ?thesis using i nw by (auto simp: task_part_def drop_task_def)
  qed
  moreover have "exec_part ?s"
    using assms(1) i by (auto simp: sched_inv_def exec_part_def) (auto simp: drop_task_def)
  moreover have "wait_part ?s"
    using assms(1) i nq nw by (auto simp: sched_inv_def wait_part_def image_iff)
  ultimately show ?thesis by (simp add: sched_inv_def)
qed

lemma inv_unwait: "sched_inv s \<Longrightarrow> sched_inv (s\<lparr>sd_backoff := remove1 w (sd_backoff s)\<rparr>)"
proof -
  assume s: "sched_inv s"
  let ?s = "s\<lparr>sd_backoff := remove1 w (sd_backoff s)\<rparr>"
  have sub: "set (remove1 w (sd_backoff s)) \<subseteq> set (sd_backoff s)" by (rule set_remove1_subset)
  have "queue_part ?s" "exec_part ?s" using s by (simp_all add: sched_inv_def queue_part_def exec_part_def)
  moreover have "task_part ?s"
    using s sub by (auto simp: sched_inv_def task_part_def distinct_map dest: inj_on_subset)
  moreover have "wait_part ?s" using s sub by (auto simp: sched_inv_def wait_part_def)
  ultimately show ?thesis by (simp add: sched_inv_def)
qed

section \<open>How often a handler is started\<close>

definition executions :: "job_id \<Rightarrow> sched_event list \<Rightarrow> nat" where
  "executions i tr = length (filter (\<lambda>ev. ev = Executed i) tr)"

text \<open>A job enters a run by a submission or from the recovered journal.\<close>

definition origin :: "'st scheduler \<Rightarrow> sched_event list \<Rightarrow> job \<Rightarrow> bool" where
  "origin s0 tr j \<longleftrightarrow> Submitted j \<in> set tr \<or> reg s0 (job_id j) = Some j"

definition known :: "'st scheduler \<Rightarrow> sched_event list \<Rightarrow> job_id set" where
  "known s0 tr = event_id ` set tr \<union> dom (reg s0)"

definition job_ids :: "'st scheduler \<Rightarrow> job_id set" where
  "job_ids s = dom (reg s) \<union> job_id ` set (sd_executing s) \<union> job_id ` set (sd_backoff s)"

definition retries_left :: "'st scheduler \<Rightarrow> job \<Rightarrow> nat" where
  "retries_left s j = (if replay_safe s (job_name j) then unat (max_retries j) - unat (retry_count j) else 0)"

text \<open>The registered state \<open>j\<close> of a job that started out as \<open>j0\<close>: the retries used so far and
  those left add up to the budget of \<open>j0\<close>, and each retry allows one more start.\<close>

definition progress :: "'st scheduler \<Rightarrow> job \<Rightarrow> job \<Rightarrow> nat \<Rightarrow> bool" where
  "progress s0 j0 j n \<longleftrightarrow>
     job_name j = job_name j0 \<and> max_retries j = max_retries j0 \<and> unat (retry_count j0) \<le> unat (retry_count j) \<and>
     unat (retry_count j) - unat (retry_count j0) \<le> retries_left s0 j0 \<and>
     n + (if status j = Pending then 1 else 0) \<le> unat (retry_count j) - unat (retry_count j0) + 1"

definition budget_ok :: "'st scheduler \<Rightarrow> sched_event list \<Rightarrow> 'st scheduler \<Rightarrow> bool" where
  "budget_ok s0 tr s \<longleftrightarrow>
     (\<forall>j0. origin s0 tr j0 \<longrightarrow>
        executions (job_id j0) tr \<le> retries_left s0 j0 + 1 \<and>
        (\<forall>j. reg s (job_id j0) = Some j \<longrightarrow> progress s0 j0 j (executions (job_id j0) tr)))"

definition trace_inv :: "'st scheduler \<Rightarrow> sched_event list \<Rightarrow> 'st scheduler \<Rightarrow> bool" where
  "trace_inv s0 tr s \<longleftrightarrow>
     sched_inv s \<and> sd_handlers s = sd_handlers s0 \<and> job_ids s \<subseteq> known s0 tr \<and> budget_ok s0 tr s"

lemma budget_okD:
  assumes "budget_ok s0 tr s" "origin s0 tr j0"
  shows "executions (job_id j0) tr \<le> retries_left s0 j0 + 1"
    and "reg s (job_id j0) = Some j \<Longrightarrow> progress s0 j0 j (executions (job_id j0) tr)"
  using assms by (auto simp: budget_ok_def)

text \<open>Moves that leave the trace alone: the registry may lose jobs, and a changed entry must
  have made progress.\<close>

lemma budget_step:
  assumes "budget_ok s0 tr s"
    and "\<And>j0 j'. origin s0 tr j0 \<Longrightarrow> reg s' (job_id j0) = Some j' \<Longrightarrow>
           reg s (job_id j0) = Some j' \<or> progress s0 j0 j' (executions (job_id j0) tr)"
  shows "budget_ok s0 tr s'"
  using assms unfolding budget_ok_def by blast

lemma progress_keeps:
  "progress s0 j0 j n \<Longrightarrow> keeps j j' \<Longrightarrow> status j = Pending \<or> status j' \<noteq> Pending \<Longrightarrow> progress s0 j0 j' n"
  by (auto simp: progress_def keeps_def)

lemma budget_put:
  assumes "budget_ok s0 tr s" "reg s (job_id j) = Some j" "keeps j j'" "status j = Pending \<or> status j' \<noteq> Pending"
  shows "budget_ok s0 tr (put_reg j' s)"
proof (rule budget_step [OF assms(1)])
  fix j0 j'' assume o: "origin s0 tr j0" and r: "reg (put_reg j' s) (job_id j0) = Some j''"
  show "reg s (job_id j0) = Some j'' \<or> progress s0 j0 j'' (executions (job_id j0) tr)"
  proof (cases "job_id j0 = job_id j'")
    case True
    then have "job_id j0 = job_id j" using assms(3) by (simp add: keeps_def)
    then have "progress s0 j0 j (executions (job_id j0) tr)" using budget_okD(2) [OF assms(1) o] assms(2) by simp
    then have "progress s0 j0 j' (executions (job_id j0) tr)" by (rule progress_keeps [OF _ assms(3,4)])
    with r True show ?thesis by simp
  next
    case False
    with r show ?thesis by simp
  qed
qed

lemma budget_same: "budget_ok s0 tr s \<Longrightarrow> reg s' = reg s \<Longrightarrow> budget_ok s0 tr s'"
  by (simp add: budget_ok_def)

lemma origin_known: "origin s0 tr j \<Longrightarrow> job_id j \<in> known s0 tr"
  by (force simp: origin_def known_def event_id_def)

lemma executions_unknown: "i \<notin> event_id ` set tr \<Longrightarrow> executions i tr = 0"
  by (induction tr) (auto simp: executions_def event_id_def split: sched_event.splits)

lemma executions_snoc: "executions i (tr @ [ev]) = executions i tr + (if ev = Executed i then 1 else 0)"
  by (simp add: executions_def)

lemma origin_snoc: "origin s0 (tr @ [ev]) j \<longleftrightarrow> origin s0 tr j \<or> ev = Submitted j"
  by (auto simp: origin_def)

lemma budget_submit:
  assumes "budget_ok s0 tr s" "job_id j \<notin> known s0 tr" "status j = Pending"
  shows "budget_ok s0 (tr @ [Submitted j]) (put_reg j s)"
  unfolding budget_ok_def
proof (intro allI impI)
  fix j0 assume o: "origin s0 (tr @ [Submitted j]) j0"
  have n: "executions (job_id j0) (tr @ [Submitted j]) = executions (job_id j0) tr" by (simp add: executions_snoc)
  show "executions (job_id j0) (tr @ [Submitted j]) \<le> retries_left s0 j0 + 1 \<and>
        (\<forall>j'. reg (put_reg j s) (job_id j0) = Some j' \<longrightarrow> progress s0 j0 j' (executions (job_id j0) (tr @ [Submitted j])))"
  proof (cases "job_id j0 = job_id j")
    case True
    then have "\<not> origin s0 tr j0" using assms(2) origin_known by force
    then have "j0 = j" using o by (simp add: origin_snoc)
    moreover have "executions (job_id j) tr = 0" using assms(2) by (intro executions_unknown) (simp add: known_def)
    ultimately show ?thesis using n assms(3) by (simp add: progress_def)
  next
    case False
    then have "origin s0 tr j0" using o by (auto simp: origin_snoc)
    with False n budget_okD [OF assms(1)] show ?thesis by simp
  qed
qed

lemma progress_start: "progress s0 j0 j n \<Longrightarrow> status j = Pending \<Longrightarrow> progress s0 j0 (start now j) (n + 1)"
  by (simp add: progress_def start_def)

lemma budget_start:
  assumes "budget_ok s0 tr s" "reg s (job_id j) = Some j" "status j = Pending"
  shows "budget_ok s0 (tr @ [Executed (job_id j)]) (put_reg (start now j) s)"
  unfolding budget_ok_def
proof (intro allI impI)
  fix j0 assume "origin s0 (tr @ [Executed (job_id j)]) j0"
  then have o: "origin s0 tr j0" by (simp add: origin_snoc)
  note ok = budget_okD [OF assms(1) o]
  show "executions (job_id j0) (tr @ [Executed (job_id j)]) \<le> retries_left s0 j0 + 1 \<and>
        (\<forall>j'. reg (put_reg (start now j) s) (job_id j0) = Some j' \<longrightarrow>
              progress s0 j0 j' (executions (job_id j0) (tr @ [Executed (job_id j)])))"
  proof (cases "job_id j0 = job_id j")
    case True
    then have p: "progress s0 j0 j (executions (job_id j0) tr)" using ok(2) assms(2) by simp
    then have "executions (job_id j0) tr \<le> retries_left s0 j0" using assms(3) by (simp add: progress_def)
    with True progress_start [OF p assms(3), of now] show ?thesis by (simp add: executions_snoc start_def)
  next
    case False
    with ok show ?thesis by (simp add: executions_snoc start_def)
  qed
qed

lemma progress_retry:
  assumes "progress s0 j0 j n" "keeps j j'" "can_retry j'" "replay_safe s0 (job_name j)"
  shows "progress s0 j0 (prepare_retry j') n"
proof -
  have lt: "retry_count j' < max_retries j'" using assms(3) by (simp add: can_retry_def)
  then have "unat (retry_count j' + 1) = unat (retry_count j') + 1"
    by (metis unat_succ Suc_eq_plus1 word_order.extremum_strict)
  with lt assms show ?thesis
    by (auto simp: progress_def keeps_def prepare_retry_def retries_left_def word_less_nat_alt)
qed

lemma budget_retry:
  assumes "budget_ok s0 tr s" "reg s (job_id j) = Some j" "keeps j j'" "can_retry j'" "replay_safe s0 (job_name j)"
  shows "budget_ok s0 tr (put_reg (prepare_retry j') s)"
proof (rule budget_step [OF assms(1)])
  fix j0 j'' assume o: "origin s0 tr j0" and r: "reg (put_reg (prepare_retry j') s) (job_id j0) = Some j''"
  have i: "job_id (prepare_retry j') = job_id j" using assms(3) by (simp add: keeps_def prepare_retry_def)
  show "reg s (job_id j0) = Some j'' \<or> progress s0 j0 j'' (executions (job_id j0) tr)"
  proof (cases "job_id j0 = job_id j")
    case True
    then have "progress s0 j0 j (executions (job_id j0) tr)" using budget_okD(2) [OF assms(1) o] assms(2) by simp
    then have "progress s0 j0 (prepare_retry j') (executions (job_id j0) tr)" by (rule progress_retry [OF _ assms(3,4,5)])
    with r True i show ?thesis by simp
  next
    case False
    with r i show ?thesis by simp
  qed
qed

section \<open>The invariant of the machine\<close>

lemma job_ids_same: "same_core s t \<Longrightarrow> job_ids t = job_ids s"
  by (simp add: same_core_def job_ids_def reg_def dom_def)

lemma known_snoc: "known s0 (tr @ [ev]) = insert (event_id ev) (known s0 tr)"
  by (auto simp: known_def)

lemma known_event [simp]: "event_id (Submitted j) = job_id j" "event_id (Executed i) = i"
  by (simp_all add: event_id_def)

lemma core_submit_inv:
  assumes "trace_inv s0 tr s" "job_id j \<notin> event_id ` set tr" "reg s0 (job_id j) = None" "status j = Pending"
    "requeue j (sd_queue s) = Inr q"
  shows "trace_inv s0 (tr @ [Submitted j]) ((put_reg j s)\<lparr>sd_queue := q\<rparr>)" (is "trace_inv _ _ ?s")
proof -
  have b: "budget_ok s0 tr s" using assms(1) by (simp add: trace_inv_def)
  have new: "job_id j \<notin> known s0 tr" using assms(2,3) by (auto simp: known_def)
  then have "job_id j \<notin> job_ids s" using assms(1) by (auto simp: trace_inv_def)
  then have fresh: "reg s (job_id j) = None" "job_id j \<notin> job_id ` set (sd_executing s)"
    "job_id j \<notin> job_id ` set (sd_backoff s)" by (auto simp: job_ids_def)
  have "job_id j \<notin> set (queued_ids s)"
    using assms(1) fresh(1) by (auto simp: trace_inv_def sched_inv_def queue_part_def queued_ids_def)
  with assms fresh have "sched_inv ?s" by (intro inv_enqueue) (simp_all add: trace_inv_def)
  moreover have "budget_ok s0 (tr @ [Submitted j]) ?s"
    by (rule budget_same [OF budget_submit [OF b new assms(4)]]) (simp add: fun_eq_iff)
  moreover have "job_ids ?s \<subseteq> insert (job_id j) (job_ids s)" by (auto simp: job_ids_def split: if_splits)
  ultimately show ?thesis using assms(1) by (auto simp: trace_inv_def known_snoc)
qed

lemma core_start_inv:
  assumes "trace_inv s0 tr s" "0 < sd_permits s" "reg s (job_id j) = Some j" "status j = Pending"
    "job_id j \<notin> set (queued_ids s) \<union> job_id ` set (sd_backoff s)"
  shows "trace_inv s0 (tr @ [Executed (job_id j)])
      ((put_reg (start now j) s)\<lparr>sd_permits := sd_permits s - 1, sd_executing := start now j # sd_executing s,
         sd_abort_handles := insert (job_id j) (sd_abort_handles s)\<rparr>)" (is "trace_inv _ ?tr ?s")
proof -
  have b: "budget_ok s0 tr s" using assms(1) by (simp add: trace_inv_def)
  have "sched_inv ?s" using assms by (intro inv_start) (simp_all add: trace_inv_def)
  moreover have "budget_ok s0 ?tr ?s"
    by (rule budget_same [OF budget_start [OF b assms(3,4)]]) (simp add: fun_eq_iff)
  moreover have "job_ids ?s \<subseteq> insert (job_id j) (job_ids s)"
    by (auto simp: job_ids_def start_def split: if_splits)
  ultimately show ?thesis using assms(1) by (auto simp: trace_inv_def known_snoc)
qed

lemma core_retry_inv:
  assumes "trace_inv s0 tr s" "reg s (job_id j) = Some j" "status j = Running" "keeps j j'" "can_retry j'"
    "replay_safe s (job_name j)"
  shows "trace_inv s0 tr ((drop_task (job_id j) (put_reg (prepare_retry j') s))
           \<lparr>sd_backoff := prepare_retry j' # sd_backoff s\<rparr>)" (is "trace_inv _ _ ?s")
proof -
  have i: "job_id (prepare_retry j') = job_id j" using assms(4) by (simp add: keeps_def prepare_retry_def)
  have safe: "replay_safe s0 (job_name j)" using assms(1,6) by (simp add: trace_inv_def replay_safe_def)
  have b: "budget_ok s0 tr s" using assms(1) by (simp add: trace_inv_def)
  have "sched_inv ?s" using assms by (intro inv_retry) (simp_all add: trace_inv_def)
  moreover have "budget_ok s0 tr ?s"
    by (rule budget_same [OF budget_retry [OF b assms(2,4,5) safe]]) (simp add: fun_eq_iff)
  moreover have "job_ids ?s \<subseteq> job_ids s"
    using i assms(2) by (auto simp: job_ids_def split: if_splits) (auto simp: drop_task_def)
  moreover have "sd_handlers ?s = sd_handlers s" by (simp add: drop_task_def)
  ultimately show ?thesis using assms(1) by (auto simp: trace_inv_def)
qed

text \<open>A move that leaves the trace alone keeps the trace invariant when it keeps the others.\<close>

lemma trace_quiet:
  assumes "trace_inv s0 tr s" "sched_inv s'" "sd_handlers s' = sd_handlers s" "job_ids s' \<subseteq> job_ids s"
    "budget_ok s0 tr s'"
  shows "trace_inv s0 tr s'"
  using assms by (auto simp: trace_inv_def)

lemma core_enqueue_inv:
  assumes "trace_inv s0 tr s" "reg s (job_id j) = Some j" "status j = Pending"
    "job_id j \<notin> set (queued_ids s) \<union> job_id ` set (sd_backoff s)" "keeps j j'" "status j' = Pending"
    "requeue j' (sd_queue s) = Inr q"
  shows "trace_inv s0 tr ((put_reg j' s)\<lparr>sd_queue := q\<rparr>)"
proof (rule trace_quiet [OF assms(1)])
  have i: "job_id j' = job_id j" using assms(5) by (simp add: keeps_def)
  have inv: "sched_inv s" and b: "budget_ok s0 tr s" using assms(1) by (simp_all add: trace_inv_def)
  show "sched_inv ((put_reg j' s)\<lparr>sd_queue := q\<rparr>)"
    using inv_not_executing [OF inv assms(2,3)] assms(4,6,7) i by (intro inv_enqueue [OF inv]) simp_all
  show "job_ids ((put_reg j' s)\<lparr>sd_queue := q\<rparr>) \<subseteq> job_ids s"
    using assms(2) i by (auto simp: job_ids_def split: if_splits)
  show "budget_ok s0 tr ((put_reg j' s)\<lparr>sd_queue := q\<rparr>)"
    by (rule budget_same [OF budget_put [OF b assms(2,5)]]) (simp_all add: assms(3))
qed simp

lemma core_settle_inv:
  assumes "trace_inv s0 tr s" "reg s (job_id j) = Some j" "job_id j \<notin> set (queued_ids s)" "keeps j j'" "settled j'"
  shows "trace_inv s0 tr (put_reg j' s)"
proof (rule trace_quiet [OF assms(1)])
  have i: "job_id j' = job_id j" using assms(4) by (simp add: keeps_def)
  have inv: "sched_inv s" and b: "budget_ok s0 tr s" using assms(1) by (simp_all add: trace_inv_def)
  show "sched_inv (put_reg j' s)" using assms(3) i by (intro inv_settle [OF inv assms(5)]) simp
  show "job_ids (put_reg j' s) \<subseteq> job_ids s" using assms(2) i by (auto simp: job_ids_def split: if_splits)
  show "budget_ok s0 tr (put_reg j' s)"
    using assms(5) by (intro budget_put [OF b assms(2,4)]) (simp add: settled_def)
qed simp

lemma core_abort_inv:
  assumes "trace_inv s0 tr s" "\<And>j. keeps j (f j) \<and> settled (f j)"
  shows "trace_inv s0 tr (s\<lparr>sd_registry := settle_running f (sd_registry s)\<rparr>)" (is "trace_inv _ _ ?s")
proof (rule trace_quiet [OF assms(1)])
  have inv: "sched_inv s" and b: "budget_ok s0 tr s" using assms(1) by (simp_all add: trace_inv_def)
  show "sched_inv ?s" by (rule inv_abort [OF inv assms(2)])
  show "job_ids ?s \<subseteq> job_ids s" by (auto simp: job_ids_def reg_settle_running)
  show "budget_ok s0 tr ?s"
  proof (rule budget_step [OF b])
    fix j0 j' assume o: "origin s0 tr j0" and "reg ?s (job_id j0) = Some j'"
    then obtain j where j: "reg s (job_id j0) = Some j" "j' = (if status j = Running then f j else j)"
      by (auto simp: reg_settle_running)
    have "progress s0 j0 j (executions (job_id j0) tr)" using budget_okD(2) [OF b o j(1)] .
    then have "progress s0 j0 (f j) (executions (job_id j0) tr)"
      by (rule progress_keeps) (use assms(2) [of j] in \<open>auto simp: settled_def\<close>)
    with j show "reg s (job_id j0) = Some j' \<or> progress s0 j0 j' (executions (job_id j0) tr)" by auto
  qed
qed simp

lemma core_run_inv:
  assumes "core_run s0 tr s" "sched_inv s0" "sd_executing s0 = []" "sd_backoff s0 = []"
  shows "trace_inv s0 tr s"
  using assms
proof (induction rule: core_run.induct)
  case core_init
  then show ?case
    by (auto simp: trace_inv_def job_ids_def known_def budget_ok_def origin_def executions_def progress_def)
next
  case (core_same tr s t)
  then have t: "trace_inv s0 tr s" by simp
  then have "sched_inv t" using same_core_inv core_same.hyps(2) by (auto simp: trace_inv_def)
  moreover have "reg t = reg s" using core_same.hyps(2) by (simp add: same_core_def reg_def fun_eq_iff)
  ultimately show ?case
    using t core_same.hyps(2) job_ids_same [OF core_same.hyps(2)]
    by (auto simp: trace_inv_def same_core_def intro: budget_same)
next
  case (core_settle tr s j j')
  then show ?case by (intro core_settle_inv) simp_all
next
  case (core_dequeue tr s q)
  then have t: "trace_inv s0 tr s" by simp
  then show ?case using inv_dequeue [OF _ core_dequeue.hyps(2)]
    by (auto simp: trace_inv_def job_ids_def intro: budget_same)
next
  case (core_enqueue tr s j j' q)
  then show ?case by (intro core_enqueue_inv) simp_all
next
  case (core_forget tr s "is")
  then have t: "trace_inv s0 tr s" by simp
  show ?case
  proof (rule trace_quiet [OF t])
    show "sched_inv (s\<lparr>sd_registry := fold AList.delete is (sd_registry s)\<rparr>)"
      using t core_forget.hyps(2) by (intro inv_forget) (simp_all add: trace_inv_def)
    show "job_ids (s\<lparr>sd_registry := fold AList.delete is (sd_registry s)\<rparr>) \<subseteq> job_ids s"
      by (auto simp: job_ids_def reg_forget split: if_splits)
    have "budget_ok s0 tr s" using t by (simp add: trace_inv_def)
    then show "budget_ok s0 tr (s\<lparr>sd_registry := fold AList.delete is (sd_registry s)\<rparr>)"
      by (rule budget_step) (simp add: reg_forget split: if_splits)
  qed simp
next
  case (core_abort tr s f)
  then show ?case by (intro core_abort_inv) simp_all
next
  case (core_untrack tr s H)
  then have t: "trace_inv s0 tr s" by simp
  then show ?case using inv_untrack [OF _ core_untrack.hyps(2,3)]
    by (auto simp: trace_inv_def job_ids_def intro: budget_same)
next
  case (core_drop tr s i)
  then have t: "trace_inv s0 tr s" by simp
  show ?case
  proof (rule trace_quiet [OF t])
    show "sched_inv (drop_task i s)" using t core_drop.hyps(2,3) by (intro inv_drop) (simp_all add: trace_inv_def)
    show "job_ids (drop_task i s) \<subseteq> job_ids s" by (auto simp: job_ids_def) (auto simp: drop_task_def)
    show "budget_ok s0 tr (drop_task i s)" using t by (auto simp: trace_inv_def intro: budget_same)
    show "sd_handlers (drop_task i s) = sd_handlers s" by (simp add: drop_task_def)
  qed
next
  case (core_submit tr s j q)
  then show ?case by (intro core_submit_inv) simp_all
next
  case (core_start tr s j now)
  then show ?case by (intro core_start_inv) simp_all
next
  case (core_retry tr s j j')
  then show ?case by (intro core_retry_inv) simp_all
next
  case (core_unwait tr s w)
  then have t: "trace_inv s0 tr s" by simp
  moreover have "job_ids (s\<lparr>sd_backoff := remove1 w (sd_backoff s)\<rparr>) \<subseteq> job_ids s"
    using set_remove1_subset [of w "sd_backoff s"] by (auto simp: job_ids_def)
  ultimately show ?case using inv_unwait by (auto simp: trace_inv_def intro: budget_same)
qed

end
