(* ===== verification/Scheduler_Run.thy ===== *)
theory Scheduler_Run
  imports Scheduler_Core
begin

text \<open>
  Runs of the scheduler: the public calls, the run loop, the tasks it spawns and their timers
  interleave in any order, each section the code protects by its transition lock being one
  step. Every run is simulated by the machine of \<open>Scheduler_Core\<close>, from which the properties of
  the scheduler follow.
\<close>

section \<open>Runs\<close>

text \<open>\<open>Env\<close> holds the surroundings a step may meet. Job ids are fresh UUIDs: a submission does
  not draw an id a previous one drew or the recovered journal held. The run loop starts jobs until shutdown is requested; it
  returns when a drain times out or a start cannot be recorded, and may be called again.\<close>

inductive sched_run :: "'st env set \<Rightarrow> 'st scheduler \<Rightarrow> sched_event list \<Rightarrow> 'st scheduler \<Rightarrow> bool"
  for Env s0 where
  run_init: "sched_run Env s0 [] s0"
| run_submit: "sched_run Env s0 tr s \<Longrightarrow> E \<in> Env \<Longrightarrow> en_fresh E \<notin> event_id ` set tr \<Longrightarrow>
    mem_get (en_fresh E) (sd_registry s0) = None \<Longrightarrow>
    submit E cfg s = (Inr i, s') \<Longrightarrow> mem_get i (sd_registry s') = Some j \<Longrightarrow>
    sched_run Env s0 (tr @ [Submitted j]) s'"
| run_submit_refused: "sched_run Env s0 tr s \<Longrightarrow> E \<in> Env \<Longrightarrow> submit E cfg s = (Inl e, s') \<Longrightarrow>
    sched_run Env s0 tr s'"
| run_start: "sched_run Env s0 tr s \<Longrightarrow> E \<in> Env \<Longrightarrow> \<not> sd_shutdown s \<Longrightarrow>
    start_next E s = (StartedJob j, s') \<Longrightarrow> sched_run Env s0 (tr @ [Executed (job_id j)]) s'"
| run_no_start: "sched_run Env s0 tr s \<Longrightarrow> E \<in> Env \<Longrightarrow> \<not> sd_shutdown s \<Longrightarrow>
    start_next E s = (r, s') \<Longrightarrow> r \<in> {NoPermit, Idle, SkippedCancelled} \<Longrightarrow> sched_run Env s0 tr s'"
| run_start_failed: "sched_run Env s0 tr s \<Longrightarrow> E \<in> Env \<Longrightarrow> \<not> sd_shutdown s \<Longrightarrow>
    start_next E s = (StartFailed e, s') \<Longrightarrow> sched_run Env s0 tr s'"
| run_requeue_failed: "sched_run Env s0 tr s \<Longrightarrow> E \<in> Env \<Longrightarrow> \<not> sd_shutdown s \<Longrightarrow>
    start_next E s = (RequeueFailed e, s') \<Longrightarrow> sched_run Env s0 tr (drop_tasks s')"
| run_finish: "sched_run Env s0 tr s \<Longrightarrow> E \<in> Env \<Longrightarrow> j \<in> set (sd_executing s) \<Longrightarrow>
    sched_run Env s0 tr (finish_task E j (execute_job E s j outcome) False s)"
| run_timeout: "sched_run Env s0 tr s \<Longrightarrow> E \<in> Env \<Longrightarrow> j \<in> set (sd_executing s) \<Longrightarrow>
    sched_run Env s0 tr (finish_task E j (timeout_result E (job_id j)) True s)"
| run_aborted: "sched_run Env s0 tr s \<Longrightarrow> j \<in> set (sd_executing s) \<Longrightarrow>
    job_id j \<notin> sd_abort_handles s \<Longrightarrow> sched_run Env s0 tr (drop_task (job_id j) s)"
| run_retry_due: "sched_run Env s0 tr s \<Longrightarrow> E \<in> Env \<Longrightarrow> w \<in> set (sd_backoff s) \<Longrightarrow>
    sched_run Env s0 tr (requeue_after_backoff E w (s\<lparr>sd_backoff := remove1 w (sd_backoff s)\<rparr>))"
| run_retry_stopped: "sched_run Env s0 tr s \<Longrightarrow> sd_shutdown s \<Longrightarrow> w \<in> set (sd_backoff s) \<Longrightarrow>
    sched_run Env s0 tr (s\<lparr>sd_backoff := remove1 w (sd_backoff s)\<rparr>)"
| run_cancel: "sched_run Env s0 tr s \<Longrightarrow> E \<in> Env \<Longrightarrow> cancel_job E i s = (r, s') \<Longrightarrow> sched_run Env s0 tr s'"
| run_resolve: "sched_run Env s0 tr s \<Longrightarrow> E \<in> Env \<Longrightarrow> resolve_job E i actor input s = (r, s') \<Longrightarrow>
    sched_run Env s0 tr s'"
| run_deny: "sched_run Env s0 tr s \<Longrightarrow> sched_run Env s0 tr (deny_admission reason s)"
| run_shutdown: "sched_run Env s0 tr s \<Longrightarrow> sched_run Env s0 tr (request_shutdown s)"
| run_returns: "sched_run Env s0 tr s \<Longrightarrow> E \<in> Env \<Longrightarrow> sched_run Env s0 tr (run_abort E s)"

section \<open>The scheduler refines the machine\<close>

text \<open>A scheduler that can start to run: freshly made, or hydrated from a store.\<close>

definition ready :: "'st scheduler \<Rightarrow> bool" where
  "ready s \<longleftrightarrow> sched_inv s \<and> sd_executing s = [] \<and> sd_backoff s = []"

lemma core_inv: "ready s0 \<Longrightarrow> core_run s0 tr s \<Longrightarrow> sched_inv s"
  using core_run_inv by (auto simp: ready_def trace_inv_def)

lemma reg_id: "sched_inv s \<Longrightarrow> reg s i = Some j \<Longrightarrow> job_id j = i"
  by (auto simp: sched_inv_def queue_part_def reg_def index_ok_get)

lemma mem_put_twice [simp]: "job_id a = job_id b \<Longrightarrow> mem_put a (mem_put b m) = mem_put a m"
  by (simp add: mem_put_def update_last)

lemma keeps_ids: "keeps j j' \<Longrightarrow> job_id j' = job_id j"
  by (simp add: keeps_def)

lemma keeps_simps [simp]:
  "keeps j j" "keeps j (require_reconciliation r j)" "keeps j (complete now res j)" "keeps j (fail now e j)"
  "keeps j (cancel now j)" "keeps j (resolution_snapshot rc j)" "keeps j (start now j)"
  "keeps j (j'\<lparr>result := x\<rparr>) = keeps j j'" "keeps j (j'\<lparr>resolution_pending := b\<rparr>) = keeps j j'"
  "keeps j (j'\<lparr>status := st\<rparr>) = keeps j j'" "keeps j (j'\<lparr>started_at := t\<rparr>) = keeps j j'"
  by (simp_all add: keeps_def job_defs require_reconciliation_def resolution_snapshot_def)

lemma settled_simps [simp]:
  "settled (require_reconciliation r j)" "settled (complete now res j)" "settled (fail now e j)"
  "settled (cancel now j)" "settled (resolution_snapshot rc j)" "settled (j\<lparr>result := x\<rparr>) = settled j"
  "settled (j\<lparr>resolution_pending := b\<rparr>) = settled j"
  by (simp_all add: settled_def job_defs require_reconciliation_def resolution_snapshot_def)

lemma same_core_refl [simp]: "same_core s s"
  by (simp add: same_core_def)

lemma same_core_frame [simp]:
  "same_core s (t\<lparr>sd_store := st\<rparr>) = same_core s t" "same_core s (t\<lparr>total_submitted := n\<rparr>) = same_core s t"
  "same_core s (t\<lparr>total_completed := n\<rparr>) = same_core s t" "same_core s (t\<lparr>total_failed := n\<rparr>) = same_core s t"
  "same_core s (t\<lparr>total_retried := n\<rparr>) = same_core s t" "same_core s (t\<lparr>active_jobs := n\<rparr>) = same_core s t"
  "same_core s (t\<lparr>sd_shutdown := b\<rparr>) = same_core s t" "same_core s (t\<lparr>sd_admission_issue := a\<rparr>) = same_core s t"
  "same_core s (prune_store_terminal E t) = same_core s t"
  by (simp_all add: same_core_def prune_store_terminal_def)

lemma same_core_drop: "same_core s t \<Longrightarrow> same_core (drop_task i s) (drop_task i t)"
  by (simp add: same_core_def drop_task_def)

lemma same_core_reg: "same_core s t \<Longrightarrow> reg t = reg s \<and> sd_executing t = sd_executing s"
  by (simp add: same_core_def reg_def fun_eq_iff)

lemma persist_cases:
  assumes "persist_or_reconcile E snap ev s = (b, s')" "reg s (job_id snap) = Some g" "job_id g = job_id snap"
  obtains (ok) b "same_core s s'"
    | (uncertain) u where "\<not> b" "keeps g u" "settled u" "same_core (put_reg u s) s'"
proof (cases "so_update (en_ops E) snap ev (sd_store s)")
  case (Pair r st)
  show ?thesis
  proof (cases r)
    case (Inl e)
    let ?u = "require_reconciliation (event_debug ev @ '' persistence uncertain: '' @ en_err E e) g"
    have "\<not> b" "same_core (put_reg ?u s) s'"
      using assms Pair Inl by (auto simp: persist_or_reconcile_def reg_def Let_def)
    then show ?thesis by (intro uncertain [of ?u]) simp_all
  next
    case (Inr x)
    then show ?thesis using assms(1) Pair ok by (auto simp: persist_or_reconcile_def)
  qed
qed

lemma victims_terminal:
  assumes "index_ok m" "i \<in> set (registry_victims n m)"
  shows "\<exists>j. mem_get i m = Some j \<and> is_terminal j"
proof -
  from assms(2) obtain j where "(i, j) \<in> set m" "is_terminal j"
    by (auto simp: registry_victims_def Let_def split: if_splits dest!: in_set_takeD)
  with assms(1) show ?thesis by (auto simp: index_ok_def mem_get_def intro: map_of_is_SomeI)
qed

lemma prune_core: "ready s0 \<Longrightarrow> core_run s0 tr s \<Longrightarrow> core_run s0 tr (prune_terminal s)"
proof -
  assume r: "ready s0" and c: "core_run s0 tr s"
  have "index_ok (sd_registry s)" using core_inv [OF r c] by (simp add: sched_inv_def queue_part_def)
  then show ?thesis
    unfolding prune_terminal_def by (intro core_forget [OF c]) (simp add: reg_def victims_terminal)
qed

lemma prune_reg: "reg (prune_terminal s) i = Some j \<Longrightarrow> reg s i = Some j"
  by (simp add: prune_terminal_def reg_forget split: if_splits)

lemma prune_executing [simp]: "sd_executing (prune_terminal s) = sd_executing s"
  by (simp add: prune_terminal_def)

subsection \<open>Finishing a task\<close>

text \<open>The handler's job has been settled and its task is about to end.\<close>

definition finished :: "'st scheduler \<Rightarrow> sched_event list \<Rightarrow> job_id \<Rightarrow> 'st scheduler \<Rightarrow> bool" where
  "finished s0 tr i s \<longleftrightarrow>
     core_run s0 tr s \<and> i \<in> job_id ` set (sd_executing s) \<and> (\<forall>j. reg s i = Some j \<longrightarrow> settled j)"

lemma finished_same: "finished s0 tr i s \<Longrightarrow> same_core s t \<Longrightarrow> finished s0 tr i t"
  using same_core_reg [of s t] by (auto simp: finished_def intro: core_same)

lemma finished_drop: "finished s0 tr i s \<Longrightarrow> core_run s0 tr (drop_task i s)"
  by (auto simp: finished_def settled_def intro: core_drop)

lemma finished_prune: "ready s0 \<Longrightarrow> finished s0 tr i s \<Longrightarrow> finished s0 tr i (prune_terminal s)"
  by (auto simp: finished_def intro: prune_core dest: prune_reg)

lemma finished_put:
  assumes "ready s0" "finished s0 tr i s" "reg s i = Some j" "keeps j u" "settled u"
  shows "finished s0 tr i (put_reg u s)"
proof -
  have c: "core_run s0 tr s" using assms(2) by (simp add: finished_def)
  note inv = core_inv [OF assms(1) c]
  have i: "job_id j = i" by (rule reg_id [OF inv assms(3)])
  have "status j \<noteq> Pending" using assms(2,3) by (auto simp: finished_def settled_def)
  then have "i \<notin> set (queued_ids s)" by (rule inv_not_queued [OF inv assms(3)])
  then have "core_run s0 tr (put_reg u s)" using assms(3-5) i by (intro core_settle [OF c, of j]) simp_all
  with assms i keeps_ids [OF assms(4)] show ?thesis by (simp add: finished_def)
qed

lemma finished_persist:
  assumes "ready s0" "finished s0 tr i s" "reg s i = Some snap" "job_id snap = i"
    "persist_or_reconcile E snap ev s = (b, s')"
  shows "finished s0 tr i s'"
  using assms(5)
proof (rule persist_cases)
  show "reg s (job_id snap) = Some snap" using assms(3,4) by simp
next
  assume "same_core s s'"
  then show ?thesis by (rule finished_same [OF assms(2)])
next
  fix u assume u: "keeps snap u" "settled u" "same_core (put_reg u s) s'"
  show ?thesis by (rule finished_same [OF finished_put [OF assms(1-3) u(1,2)] u(3)])
qed simp

lemma finish_terminal_core:
  assumes "ready s0" "finished s0 tr i s" "reg s i = Some snap" "job_id snap = i" "\<And>t. same_core t (bump t)"
  shows "finished s0 tr i (finish_terminal E snap ev bump s)"
proof (cases "persist_or_reconcile E snap ev s")
  case (Pair b s1)
  have f: "finished s0 tr i s1" by (rule finished_persist [OF assms(1-4) Pair])
  have "finished s0 tr i (bump (prune_store_terminal E (prune_terminal s1)))"
    by (rule finished_same [OF finished_same [OF finished_prune [OF assms(1) f]] assms(5)]) simp
  with f Pair show ?thesis by (cases b) (simp_all add: finish_terminal_def)
qed

definition untracked :: "job_id \<Rightarrow> 'st scheduler \<Rightarrow> 'st scheduler" where
  "untracked i s = s\<lparr>sd_abort_handles := sd_abort_handles s - {i}\<rparr>"

text \<open>The registered job is settled and its abort handle forgotten.\<close>

lemma enter_finished:
  assumes "ready s0" "core_run s0 tr s" "reg s i = Some g" "status g = Running" "keeps g u" "settled u"
  shows "finished s0 tr i (put_reg u (untracked i s))"
proof -
  note inv = core_inv [OF assms(1,2)]
  have i: "job_id g = i" by (rule reg_id [OF inv assms(3)])
  have nq: "i \<notin> set (queued_ids s)" by (rule inv_not_queued [OF inv assms(3)]) (simp add: assms(4))
  have u: "job_id u = i" using keeps_ids [OF assms(5)] i by simp
  have "core_run s0 tr (put_reg u s)" by (rule core_settle [OF assms(2), of g]) (simp_all add: i nq assms(3,5,6))
  then have "core_run s0 tr ((put_reg u s)\<lparr>sd_abort_handles := sd_abort_handles s - {i}\<rparr>)"
  proof (rule core_untrack)
    fix k j assume k: "reg (put_reg u s) k = Some j" "status j = Running"
    then have "k \<noteq> i" using assms(6) u by (auto simp: settled_def)
    with k u inv show "k \<in> sd_abort_handles s - {i}" by (auto simp: sched_inv_def exec_part_def)
  qed auto
  moreover have "i \<in> job_id ` set (sd_executing s)"
    using inv assms(3,4) by (auto simp: sched_inv_def exec_part_def task_part_def)
  moreover have "put_reg u (untracked i s) = (put_reg u s)\<lparr>sd_abort_handles := sd_abort_handles s - {i}\<rparr>"
    by (simp add: untracked_def)
  ultimately show ?thesis using u assms(6) by (simp add: finished_def)
qed

lemma finish_job_retry:
  assumes "ready s0" "core_run s0 tr s" "reg s i = Some g" "status g = Running" "keeps g f" "can_retry f"
    "replay_safe s (job_name g)"
    "persist_or_reconcile E (prepare_retry f) EvRetried
       (put_reg (prepare_retry f) (untracked i s)) = (b, s1)"
  shows "core_run s0 tr (if b then (drop_task i s1)\<lparr>sd_backoff := prepare_retry f # sd_backoff s1\<rparr>
                         else drop_task i s1)"
proof -
  let ?w = "prepare_retry f"
  let ?p = "put_reg ?w (untracked i s)"
  let ?r = "(drop_task i (put_reg ?w s))\<lparr>sd_backoff := ?w # sd_backoff s\<rparr>"
  note inv = core_inv [OF assms(1,2)]
  have i: "job_id g = i" by (rule reg_id [OF inv assms(3)])
  have w: "job_id ?w = i" using keeps_ids [OF assms(5)] i by (simp add: prepare_retry_def)
  have retry: "core_run s0 tr ?r" using core_retry [OF assms(2) _ assms(4-7)] assms(3) i by simp
  have regw: "reg ?p (job_id ?w) = Some ?w" by simp
  from assms(8) regw refl show ?thesis
  proof (rule persist_cases)
    assume b: b "same_core ?p s1"
    then have "same_core ?r ((drop_task i s1)\<lparr>sd_backoff := ?w # sd_backoff s1\<rparr>)"
      by (auto simp: same_core_def drop_task_def untracked_def)
    with b core_same [OF retry] show ?thesis by simp
  next
    fix u assume u: "\<not> b" "keeps ?w u" "settled u" "same_core (put_reg u ?p) s1"
    let ?v = "?r\<lparr>sd_backoff := remove1 ?w (sd_backoff ?r)\<rparr>"
    have v: "core_run s0 tr ?v" by (rule core_unwait [OF retry]) simp
    have "i \<notin> set (queued_ids s)" by (rule inv_not_queued [OF inv assms(3)]) (simp add: assms(4))
    then have "core_run s0 tr (put_reg u ?v)"
      using w u by (intro core_settle [OF v, of ?w]) simp_all
    moreover have "same_core (put_reg u ?v) (drop_task i s1)"
      using u(4) w keeps_ids [OF u(2)] by (auto simp: same_core_def drop_task_def untracked_def)
    ultimately show ?thesis using u(1) core_same by auto
  qed
qed

definition failed_job :: "time \<Rightarrow> job_result \<Rightarrow> job \<Rightarrow> job" where
  "failed_job now res g =
     (fail now (case jr_error res of Some e \<Rightarrow> e | None \<Rightarrow> ''job failed'') g)\<lparr>result := Some res\<rparr>"

lemma failed_job_simps [simp]:
  "keeps g (failed_job now res g)" "settled (failed_job now res g)" "job_name (failed_job now res g) = job_name g"
  "retry_count (failed_job now res g) = retry_count g"
  by (simp_all add: failed_job_def fail_def keeps_def settled_def)

lemma finish_job_running:
  assumes "mem_get i (sd_registry s) = Some g" "status g = Running"
  shows "finish_job E i res timed_out s =
    (let t = untracked i s; c = complete (en_now E) res g; f = failed_job (en_now E) res g;
         u = require_reconciliation ''handler timed out; effect may have occurred'' g
     in if timed_out then (None, snd (persist_or_reconcile E u EvRecovered (put_reg u t)))
        else if jr_success res
        then (None, finish_terminal E c EvCompleted (\<lambda>s. s\<lparr>total_completed := total_completed s + 1\<rparr>) (put_reg c t))
        else if can_retry f \<and> replay_safe s (job_name g)
        then (case persist_or_reconcile E (prepare_retry f) EvRetried (put_reg (prepare_retry f) t) of
                (False, s1) \<Rightarrow> (None, s1)
              | (True, s1) \<Rightarrow>
                  (Some (calculate_backoff (jq_retry_config (sd_queue s1)) (retry_count f + 1) (en_jitter E), prepare_retry f),
                   s1\<lparr>total_retried := total_retried s1 + 1\<rparr>))
        else (None, finish_terminal E f EvFailed (\<lambda>s. s\<lparr>total_failed := total_failed s + 1\<rparr>) (put_reg f t)))"
proof -
  have "retry_count (fail now e g) = retry_count g" for now e by (simp add: fail_def)
  then show ?thesis
    using assms by (simp add: finish_job_def Let_def untracked_def replay_safe_def failed_job_def [symmetric] split: prod.splits bool.splits)
qed

text \<open>Whether a result asks for another attempt.\<close>

definition retries :: "'st env \<Rightarrow> 'st scheduler \<Rightarrow> job \<Rightarrow> job_result \<Rightarrow> bool \<Rightarrow> bool" where
  "retries E s g res timed_out \<longleftrightarrow> \<not> timed_out \<and> \<not> jr_success res \<and>
     can_retry (failed_job (en_now E) res g) \<and> replay_safe s (job_name g)"

lemma finish_job_idle:
  assumes "core_run s0 tr s" "j \<in> set (sd_executing s)" "\<And>g. reg s (job_id j) = Some g \<Longrightarrow> status g \<noteq> Running"
    "finish_job E (job_id j) res timed_out s = (r, s')"
  shows "r = None \<and> core_run s0 tr (drop_task (job_id j) s')"
proof -
  let ?s = "s\<lparr>sd_abort_handles := sd_abort_handles s - {job_id j}\<rparr>"
  have "core_run s0 tr (drop_task (job_id j) s)" using assms(2,3) by (intro core_drop [OF assms(1)]) auto
  moreover have "same_core (drop_task (job_id j) s) (drop_task (job_id j) ?s)"
    by (simp add: same_core_def drop_task_def)
  moreover have "r = None" "s' = ?s"
    using assms(3,4) by (auto simp: finish_job_def reg_def Let_def split: option.splits if_splits)
  ultimately show ?thesis using core_same by auto
qed

lemma finish_job_final:
  assumes "ready s0" "core_run s0 tr s" "reg s i = Some g" "status g = Running" "\<not> retries E s g res timed_out"
    "finish_job E i res timed_out s = (r, s')"
  shows "r = None \<and> finished s0 tr i s'"
proof -
  let ?p = "\<lambda>u. put_reg u (untracked i s)"
  let ?t = "require_reconciliation ''handler timed out; effect may have occurred'' g"
  let ?c = "complete (en_now E) res g"
  let ?f = "failed_job (en_now E) res g"
  have gi: "job_id g = i" by (rule reg_id [OF core_inv [OF assms(1,2)] assms(3)])
  have ids: "job_id ?t = i" "job_id ?c = i" "job_id ?f = i" using gi by (simp_all add: require_reconciliation_def complete_def failed_job_def fail_def)
  have mg: "mem_get i (sd_registry s) = Some g" using assms(3) by (simp add: reg_def)
  note fin = enter_finished [OF assms(1-4)]
  note finish = assms(6) [unfolded finish_job_running [OF mg assms(4)] Let_def]
  show ?thesis
  proof (cases timed_out)
    case True
    obtain b s1 where p: "persist_or_reconcile E ?t EvRecovered (?p ?t) = (b, s1)"
      by (cases "persist_or_reconcile E ?t EvRecovered (?p ?t)")
    have "finished s0 tr i s1" by (rule finished_persist [OF assms(1) fin _ _ p]) (simp_all add: ids gi)
    with finish True p show ?thesis by simp
  next
    case nt: False
    show ?thesis
    proof (cases "jr_success res")
      case True
      have "finished s0 tr i (finish_terminal E ?c EvCompleted (\<lambda>s. s\<lparr>total_completed := total_completed s + 1\<rparr>) (?p ?c))"
        by (rule finish_terminal_core [OF assms(1) fin]) (simp_all add: ids gi)
      with finish nt True show ?thesis by auto
    next
      case False
      have "finished s0 tr i (finish_terminal E ?f EvFailed (\<lambda>s. s\<lparr>total_failed := total_failed s + 1\<rparr>) (?p ?f))"
        by (rule finish_terminal_core [OF assms(1) fin]) (simp_all add: ids gi)
      moreover have "\<not> (can_retry ?f \<and> replay_safe s (job_name g))" using assms(5) nt False by (simp add: retries_def)
      ultimately show ?thesis using finish nt False by auto
    qed
  qed
qed

lemma finish_job_again:
  assumes "ready s0" "core_run s0 tr s" "reg s i = Some g" "status g = Running" "retries E s g res timed_out"
    "finish_job E i res timed_out s = (r, s')"
  shows "core_run s0 tr (case r of None \<Rightarrow> drop_task i s'
                         | Some (d, w) \<Rightarrow> (drop_task i s')\<lparr>sd_backoff := w # sd_backoff s'\<rparr>)"
proof -
  let ?f = "failed_job (en_now E) res g"
  let ?p = "put_reg (prepare_retry ?f) (untracked i s)"
  have again: "\<not> timed_out" "\<not> jr_success res" "can_retry ?f" "replay_safe s (job_name g)"
    using assms(5) by (simp_all add: retries_def)
  have mg: "mem_get i (sd_registry s) = Some g" using assms(3) by (simp add: reg_def)
  obtain b s1 where p: "persist_or_reconcile E (prepare_retry ?f) EvRetried ?p = (b, s1)"
    by (cases "persist_or_reconcile E (prepare_retry ?f) EvRetried ?p")
  have c: "core_run s0 tr (if b then (drop_task i s1)\<lparr>sd_backoff := prepare_retry ?f # sd_backoff s1\<rparr> else drop_task i s1)"
    by (rule finish_job_retry [OF assms(1-4) _ again(3,4) p]) simp
  note finish = assms(6) [unfolded finish_job_running [OF mg assms(4)] Let_def] again p
  show ?thesis
  proof (cases b)
    case True
    then obtain d where d: "r = Some (d, prepare_retry ?f)" "s' = s1\<lparr>total_retried := total_retried s1 + 1\<rparr>"
      using finish by auto
    have "same_core ((drop_task i s1)\<lparr>sd_backoff := prepare_retry ?f # sd_backoff s1\<rparr>)
            ((drop_task i s')\<lparr>sd_backoff := prepare_retry ?f # sd_backoff s'\<rparr>)"
      by (simp add: d(2) same_core_def drop_task_def)
    with c True d(1) core_same show ?thesis by auto
  next
    case False
    then have "r = None" "s' = s1"
      using finish by auto
    with c False show ?thesis by simp
  qed
qed

lemma finish_job_core:
  assumes "ready s0" "core_run s0 tr s" "j \<in> set (sd_executing s)" "finish_job E (job_id j) res timed_out s = (r, s')"
  shows "core_run s0 tr (case r of None \<Rightarrow> drop_task (job_id j) s'
                         | Some (d, w) \<Rightarrow> (drop_task (job_id j) s')\<lparr>sd_backoff := w # sd_backoff s'\<rparr>)"
proof (cases "\<exists>g. reg s (job_id j) = Some g \<and> status g = Running")
  case False
  then show ?thesis using finish_job_idle [OF assms(2,3) _ assms(4)] by auto
next
  case True
  then obtain g where g: "reg s (job_id j) = Some g" "status g = Running" by auto
  show ?thesis
  proof (cases "retries E s g res timed_out")
    case True
    show ?thesis by (rule finish_job_again [OF assms(1,2) g True assms(4)])
  next
    case False
    from finish_job_final [OF assms(1,2) g False assms(4)] show ?thesis by (auto dest: finished_drop)
  qed
qed

lemma finish_task_core:
  assumes "ready s0" "core_run s0 tr s" "j \<in> set (sd_executing s)"
  shows "core_run s0 tr (finish_task E j res timed_out s)"
proof (cases "finish_job E (job_id j) res timed_out s")
  case (Pair r s')
  have "sd_backoff (drop_task (job_id j) s') = sd_backoff s'" by (simp add: drop_task_def)
  with finish_job_core [OF assms Pair] Pair show ?thesis
    by (auto simp: finish_task_def Let_def split: option.splits)
qed

subsection \<open>Submitting and starting\<close>

lemma prepare_fresh: "prepare q cfg i now = Inr j \<Longrightarrow> job_id j = i \<and> status j = Pending \<and> retry_count j = 0"
  by (auto simp: prepare_def Let_def job_new_def with_max_retries_def split: if_splits)

lemma submit_core:
  assumes "core_run s0 tr s" "en_fresh E \<notin> event_id ` set tr" "reg s0 (en_fresh E) = None"
    "submit E cfg s = (Inr i, s')" "reg s' i = Some j"
  shows "core_run s0 (tr @ [Submitted j]) s'"
proof -
  from assms(4) obtain j' st q where j': "prepare (sd_queue s) cfg (en_fresh E) (en_now E) = Inr j'"
    "requeue j' (sd_queue s) = Inr q" "i = job_id j'"
    "s' = s\<lparr>sd_store := st, sd_queue := q, sd_registry := mem_put j' (sd_registry s), total_submitted := total_submitted s + 1\<rparr>"
    by (auto simp: submit_def split: if_splits sum.splits prod.splits)
  note f = prepare_fresh [OF j'(1)]
  have "j = j'" using assms(5) j'(3,4) by (simp add: reg_def hmap_simps)
  moreover have "core_run s0 (tr @ [Submitted j']) ((put_reg j' s)\<lparr>sd_queue := q\<rparr>)"
    using f j'(2) assms(2,3) by (intro core_submit [OF assms(1)]) simp_all
  moreover have "same_core ((put_reg j' s)\<lparr>sd_queue := q\<rparr>) s'" by (simp add: j'(4) same_core_def)
  ultimately show ?thesis using core_same by auto
qed

lemma submit_refused_core: "submit E cfg s = (Inl e, s') \<Longrightarrow> same_core s s'"
  by (auto simp: submit_def split: if_splits sum.splits prod.splits)

text \<open>What the run loop takes from the queue.\<close>

lemma next_job_taken:
  assumes "sched_inv s" "next_job now (sd_queue s) = (Some j, q)"
  obtains g where "reg s (job_id j) = Some g" "status g = Pending" "job_id g = job_id j" "fewer (sd_queue s) q"
    "job_id j \<notin> job_id ` set (contents q)" "job_id j \<notin> job_id ` set (sd_backoff s)"
    "queue_inv q" "length (contents q) < jq_max_size q"
proof -
  have qi: "queue_inv (sd_queue s)" using assms(1) by (simp add: sched_inv_def queue_part_def)
  obtain q0 where q: "queue_inv q" "mset (contents (sd_queue s)) = add_mset q0 (mset (contents q))" "j = start now q0"
    "jq_max_size q = jq_max_size (sd_queue s)"
    by (rule next_job_queued [OF qi assms(2)])
  have j: "job_id j = job_id q0" using q(3) by (simp add: start_def)
  note ids = mset_ids(1) [OF q(2)] mset_ids(2) [OF q(2), of job_id]
  have dist: "distinct (map job_id (contents (sd_queue s)))" using assms(1) by (simp add: sched_inv_def queue_part_def queued_ids_def)
  have mem: "job_id q0 \<in> set (queued_ids s)" "q0 \<in> set (contents (sd_queue s))" using ids(1) by (auto simp: queued_ids_def)
  from assms(1) mem(2) obtain g where g: "reg s (job_id q0) = Some g" "status g = Pending"
    by (auto simp: sched_inv_def queue_part_def)
  have "size (mset (contents (sd_queue s))) = size (add_mset q0 (mset (contents q)))" using q(2) by simp
  then have len: "length (contents q) < jq_max_size q" using qi q(4) by (simp add: queue_inv_def)
  show thesis
    by (rule that [of g])
      (use g j ids dist q(1) len reg_id [OF assms(1) g(1)] inv_not_waiting [OF assms(1) mem(1)]
        in \<open>auto simp: fewer_def\<close>)
qed

lemma next_job_idle:
  assumes "queue_inv q" "next_job now q = (None, q')"
  shows "q' = q"
proof (cases "position is_pending (contents q)")
  case None
  from next_job_none [OF None, of now] assms(2) show ?thesis by simp
next
  case (Some k)
  from next_job_some [OF assms(1) Some, of now] assms(2) show ?thesis by auto
qed

definition start_moves :: "'st scheduler \<Rightarrow> sched_event list \<Rightarrow> start_outcome \<Rightarrow> 'st scheduler \<Rightarrow> bool" where
  "start_moves s0 tr r s' \<longleftrightarrow>
     (case r of StartedJob j \<Rightarrow> core_run s0 (tr @ [Executed (job_id j)]) s' | RequeueFailed e \<Rightarrow> False
      | _ \<Rightarrow> core_run s0 tr s')"

text \<open>Starting a job that was just taken from the queue, with the queue's other jobs left.\<close>

lemma start_stored_core:
  assumes "core_run s0 tr d" "0 < sd_permits d" "reg d (job_id g) = Some g" "status g = Pending"
    "job_id g \<notin> set (queued_ids d) \<union> job_id ` set (sd_backoff d)"
    "queue_inv (sd_queue d)" "length (contents (sd_queue d)) < jq_max_size (sd_queue d)"
    "start_stored E (start now g) (put_reg (start now g) d) = (r, s')"
  shows "start_moves s0 tr r s'"
proof -
  let ?r = "start now g"
  have rid: "job_id ?r = job_id g" by (simp add: start_def)
  obtain x st where u: "so_update (en_ops E) ?r EvStarted (sd_store d) = (x, st)"
    by (cases "so_update (en_ops E) ?r EvStarted (sd_store d)")
  show ?thesis
  proof (cases x)
    case (Inr y)
    let ?t = "(put_reg ?r d)\<lparr>sd_permits := sd_permits d - 1, sd_executing := ?r # sd_executing d,
       sd_abort_handles := insert (job_id g) (sd_abort_handles d)\<rparr>"
    have "core_run s0 (tr @ [Executed (job_id g)]) ?t" by (rule core_start [OF assms(1-5)])
    moreover have "same_core ?t s'" "r = StartedJob ?r"
      using assms(8) u Inr rid by (auto simp: start_stored_def same_core_def)
    ultimately show ?thesis using core_same rid by (auto simp: start_moves_def)
  next
    case (Inl e)
    let ?p = "?r\<lparr>status := Pending, started_at := None\<rparr>"
    obtain q' where q': "requeue ?p (sd_queue d) = Inr q'" using contents_requeue [OF assms(6,7), of ?p] by blast
    have "core_run s0 tr ((put_reg ?p d)\<lparr>sd_queue := q'\<rparr>)"
      by (rule core_enqueue [OF assms(1,3,4,5)]) (simp_all add: q')
    moreover have "same_core ((put_reg ?p d)\<lparr>sd_queue := q'\<rparr>) s'" "\<exists>e. r = StartFailed e"
      using assms(8) u Inl rid q' by (auto simp: start_stored_def same_core_def Let_def mem_get_put)
    ultimately show ?thesis using core_same by (auto simp: start_moves_def)
  qed
qed

lemma start_next_core:
  assumes "ready s0" "core_run s0 tr s" "start_next E s = (r, s')"
  shows "start_moves s0 tr r s'"
proof -
  note inv = core_inv [OF assms(1,2)]
  have qi: "queue_inv (sd_queue s)" using inv by (simp add: sched_inv_def queue_part_def)
  consider (permit) "sd_permits s = 0"
    | (idle) q where "0 < sd_permits s" "next_job (en_now E) (sd_queue s) = (None, q)"
    | (job) j q where "0 < sd_permits s" "next_job (en_now E) (sd_queue s) = (Some j, q)"
    by (metis gr0I option.exhaust surj_pair)
  then show ?thesis
  proof cases
    case permit
    with assms show ?thesis by (auto simp: start_next_def start_moves_def)
  next
    case idle
    with next_job_idle [OF qi idle(2)] assms show ?thesis by (auto simp: start_next_def start_moves_def)
  next
    case (job j q)
    obtain g where g: "reg s (job_id j) = Some g" "status g = Pending" "job_id g = job_id j" "fewer (sd_queue s) q"
      "job_id j \<notin> job_id ` set (contents q)" "job_id j \<notin> job_id ` set (sd_backoff s)"
      "queue_inv q" "length (contents q) < jq_max_size q"
      by (rule next_job_taken [OF inv job(2)])
    have "start_stored E (start (en_now E) g) (put_reg (start (en_now E) g) (s\<lparr>sd_queue := q\<rparr>)) = (r, s')"
      using assms(3) job g(1,2) by (simp add: start_next_def reg_def Let_def)
    then show ?thesis
      by (rule start_stored_core [OF core_dequeue [OF assms(2) g(4)], rotated -1])
        (use g job(1) in \<open>simp_all add: queued_ids_def\<close>)
  qed
qed

subsection \<open>Retries, cancellation and resolution\<close>

text \<open>A job outside the queue is settled and the transition recorded as far as the store allows.\<close>

lemma settle_persist:
  assumes "ready s0" "core_run s0 tr s" "reg s (job_id g) = Some g" "job_id g \<notin> set (queued_ids s)" "keeps g u" "settled u"
    "persist_or_reconcile E u ev (put_reg u s) = (b, s')"
  shows "core_run s0 tr s'"
proof -
  have u: "job_id u = job_id g" by (rule keeps_ids [OF assms(5)])
  have c: "core_run s0 tr (put_reg u s)" by (rule core_settle [OF assms(2-6)])
  have "reg (put_reg u s) (job_id u) = Some u" by simp
  from assms(7) this refl show ?thesis
  proof (rule persist_cases)
    assume "same_core (put_reg u s) s'"
    then show ?thesis by (rule core_same [OF c])
  next
    fix v assume v: "keeps u v" "settled v" "same_core (put_reg v (put_reg u s)) s'"
    have "core_run s0 tr (put_reg v (put_reg u s))"
      by (rule core_settle [OF c, of u]) (use u v assms(4) in simp_all)
    then show ?thesis by (rule core_same [OF _ v(3)])
  qed
qed

lemma distinct_map_remove1: "distinct (map f xs) \<Longrightarrow> x \<in> set xs \<Longrightarrow> f x \<notin> f ` set (remove1 x xs)"
  by (induction xs) (auto simp: image_iff)

lemma requeue_after_backoff_core:
  assumes "ready s0" "core_run s0 tr s" "w \<in> set (sd_backoff s)"
  shows "core_run s0 tr (requeue_after_backoff E w (s\<lparr>sd_backoff := remove1 w (sd_backoff s)\<rparr>))"
    (is "core_run _ _ (requeue_after_backoff E w ?t)")
proof -
  note inv = core_inv [OF assms(1,2)]
  have t: "core_run s0 tr ?t" by (rule core_unwait [OF assms(2,3)])
  show ?thesis
  proof (cases "\<not> sd_shutdown s \<and> (\<exists>j. reg s (job_id w) = Some j \<and> status j = Pending)")
    case False
    then have "requeue_after_backoff E w ?t = ?t"
      by (auto simp: requeue_after_backoff_def reg_def split: option.splits)
    with t show ?thesis by simp
  next
    case True
    with inv assms(3) have w: "reg ?t (job_id w) = Some w" "status w = Pending" "job_id w \<notin> set (queued_ids ?t)"
      by (auto simp: sched_inv_def wait_part_def)
    have "distinct (map job_id (sd_backoff s))" using inv by (simp add: sched_inv_def task_part_def)
    from distinct_map_remove1 [OF this] have nb: "job_id w \<notin> job_id ` set (sd_backoff ?t)" using assms(3) by simp
    show ?thesis
    proof (cases "requeue w (sd_queue s)")
      case (Inr q)
      have "core_run s0 tr ((put_reg w ?t)\<lparr>sd_queue := q\<rparr>)"
        by (rule core_enqueue [OF t w(1,2)]) (use nb w Inr in simp_all)
      with True w Inr show ?thesis by (simp add: requeue_after_backoff_def reg_def)
    next
      case (Inl e)
      let ?f = "fail (en_now E) ''requeue failed: queue is full'' w"
      obtain b s1 where p: "persist_or_reconcile E ?f EvFailed (put_reg ?f ?t) = (b, s1)"
        by (cases "persist_or_reconcile E ?f EvFailed (put_reg ?f ?t)")
      have c: "core_run s0 tr s1" by (rule settle_persist [OF assms(1) t w(1,3) _ _ p]) simp_all
      then have "core_run s0 tr ((prune_store_terminal E s1)\<lparr>total_failed := total_failed s1 + 1\<rparr>)"
        by (rule core_same) simp
      with c True w Inl p show ?thesis by (cases b) (simp_all add: requeue_after_backoff_def reg_def)
    qed
  qed
qed

lemma settle_prune_core:
  assumes "ready s0" "core_run s0 tr s" "reg s (job_id g) = Some g" "job_id g \<notin> set (queued_ids s)" "keeps g u" "settled u"
  shows "core_run s0 tr (prune_store_terminal E (prune_terminal (put_reg u s)))"
  by (rule core_same [OF prune_core [OF assms(1) core_settle [OF assms(2-6)]]]) simp

lemma store_core: "core_run s0 tr s \<Longrightarrow> core_run s0 tr (s\<lparr>sd_store := st\<rparr>)"
  by (rule core_same) (auto simp: same_core_def)

lemma store_frame [simp]: "reg (s\<lparr>sd_store := st\<rparr>) = reg s" "queued_ids (s\<lparr>sd_store := st\<rparr>) = queued_ids s"
  by (simp_all add: reg_def queued_ids_def fun_eq_iff)

lemma cancel_queued_fewer:
  assumes "queue_inv q" "distinct (map job_id (contents q))" "\<forall>j \<in> set (contents q). status j = Pending"
    "cancel_queued now i q = (r, q')"
  shows "fewer q q' \<and> i \<notin> job_id ` set (contents q')"
  using assms(1)
proof (cases rule: cancel_queued_cases [of q now i])
  case missing
  with assms show ?thesis by (auto simp: fewer_def)
next
  case (finished j)
  with assms(3) show ?thesis by auto
next
  case (removed k q2)
  then have q': "q' = q2" using assms(4) by simp
  have "mset (contents q) = add_mset (contents q ! k) (mset (contents q'))"
    using id_take_nth_drop [OF removed(1)] removed(7) q'
    by (metis mset.simps(2) mset_append remove_nth_def union_mset_add_mset_right)
  from mset_ids(1) [OF this] mset_ids(2) [OF this, of job_id] removed(2,5) q' assms(2) show ?thesis by (auto simp: fewer_def)
qed

lemma cancel_job_core:
  assumes "ready s0" "core_run s0 tr s" "cancel_job E i s = (r, s')"
  shows "core_run s0 tr s'"
proof -
  note inv = core_inv [OF assms(1,2)]
  consider (pending) g where "reg s i = Some g" "status g = Pending" | (running) g where "reg s i = Some g" "status g = Running"
    | (none) "\<And>g. reg s i = Some g \<Longrightarrow> status g \<notin> {Pending, Running}" by blast
  then show ?thesis
  proof cases
    case none
    then have "s' = s" using assms(3) by (auto simp: cancel_job_def reg_def split: option.splits if_splits)
    with assms(2) show ?thesis by simp
  next
    case (running g)
    let ?u = "require_reconciliation ''running job cancelled; handler effect may have occurred'' g"
    have "finished s0 tr i (put_reg ?u (untracked i s))" by (rule enter_finished [OF assms(1,2) running]) simp_all
    moreover have "same_core (put_reg ?u (untracked i s)) s'"
      using assms(3) running by (auto simp: cancel_job_def reg_def Let_def untracked_def same_core_def split: prod.splits sum.splits)
    ultimately show ?thesis using core_same by (auto simp: finished_def)
  next
    case (pending g)
    have g: "job_id g = i" by (rule reg_id [OF inv pending(1)])
    obtain x st where u: "so_update (en_ops E) (cancel (en_now E) g) EvCancelled (sd_store s) = (x, st)"
      by (cases "so_update (en_ops E) (cancel (en_now E) g) EvCancelled (sd_store s)")
    obtain e q where q: "cancel_queued (en_now E) i (sd_queue s) = (e, q)" by (cases "cancel_queued (en_now E) i (sd_queue s)")
    have out: "fewer (sd_queue s) q \<and> i \<notin> job_id ` set (contents q)"
      by (rule cancel_queued_fewer [OF _ _ _ q]) (use inv in \<open>auto simp: sched_inv_def queue_part_def queued_ids_def\<close>)
    let ?d = "s\<lparr>sd_store := st, sd_queue := q\<rparr>"
    have d: "core_run s0 tr ?d" by (rule core_dequeue [OF store_core [OF assms(2)]]) (simp add: out)
    have "core_run s0 tr (prune_store_terminal E (prune_terminal (put_reg (cancel (en_now E) g) ?d)))"
      by (rule settle_prune_core [OF assms(1) d, of g]) (use g pending out in \<open>simp_all add: queued_ids_def\<close>)
    moreover have "s' = s\<lparr>sd_store := st\<rparr> \<or> s' = prune_store_terminal E (prune_terminal (put_reg (cancel (en_now E) g) ?d))"
      using assms(3) pending u q by (cases x) (auto simp: cancel_job_def reg_def Let_def)
    ultimately show ?thesis using store_core [OF assms(2), of st] by auto
  qed
qed

lemma resolve_job_core:
  assumes "ready s0" "core_run s0 tr s" "resolve_job E i actor input s = (r, s')"
  shows "core_run s0 tr s'"
proof (cases "s' = s")
  case True
  with assms(2) show ?thesis by simp
next
  case False
  note inv = core_inv [OF assms(1,2)]
  from assms(3) False obtain g rc st where g: "reg s i = Some g" "status g = ReconciliationRequired"
    and s': "s' = put_reg (g\<lparr>resolution_pending := True\<rparr>) (s\<lparr>sd_store := st\<rparr>) \<or>
      s' = prune_store_terminal E (prune_terminal (put_reg (resolution_snapshot rc g) (s\<lparr>sd_store := st\<rparr>)))"
    by (auto simp: resolve_job_def reg_def Let_def split: sum.splits option.splits if_splits prod.splits)
  have gi: "job_id g = i" by (rule reg_id [OF inv g(1)])
  have nq: "job_id g \<notin> set (queued_ids s)" using inv_not_queued [OF inv g(1)] g(2) gi by simp
  note c = store_core [OF assms(2), of st]
  have rg: "reg (s\<lparr>sd_store := st\<rparr>) (job_id g) = Some g" using g(1) gi by simp
  have nq': "job_id g \<notin> set (queued_ids (s\<lparr>sd_store := st\<rparr>))" using nq by simp
  have "core_run s0 tr (put_reg (g\<lparr>resolution_pending := True\<rparr>) (s\<lparr>sd_store := st\<rparr>))"
    by (rule core_settle [OF c rg nq']) (simp_all add: settled_def g(2))
  moreover have "core_run s0 tr (prune_store_terminal E (prune_terminal (put_reg (resolution_snapshot rc g) (s\<lparr>sd_store := st\<rparr>))))"
    by (rule settle_prune_core [OF assms(1) c rg nq']) simp_all
  ultimately show ?thesis using s' by auto
qed

subsection \<open>Ending the run loop\<close>

lemma abort_registry_settles:
  "fst (abort_registry E m st) =
     settle_running (require_reconciliation ''shutdown interrupted handler; effect may have occurred'') m"
  by (induction m arbitrary: st) (auto simp: settle_running_def Let_def case_prod_unfold)

definition no_running :: "'st scheduler \<Rightarrow> bool" where
  "no_running s \<longleftrightarrow> (\<forall>i j. reg s i = Some j \<longrightarrow> status j \<noteq> Running)"

lemma abort_all_running_core:
  assumes "core_run s0 tr s"
  shows "core_run s0 tr (abort_all_running E s)" "no_running (abort_all_running E s)"
proof -
  let ?f = "require_reconciliation ''shutdown interrupted handler; effect may have occurred''"
  let ?a = "s\<lparr>sd_registry := settle_running ?f (sd_registry s)\<rparr>"
  have st: "status (?f j) = ReconciliationRequired" for j by (simp add: require_reconciliation_def)
  have nr: "no_running ?a" unfolding no_running_def reg_settle_running
  proof (intro allI impI)
    fix i j assume "map_option (\<lambda>j. if status j = Running then ?f j else j) (reg s i) = Some j"
    then obtain z where z: "j = (if status z = Running then ?f z else z)" by auto
    show "status j \<noteq> Running" using z st [of z] by (cases "status z = Running") simp_all
  qed
  have "core_run s0 tr ?a" by (rule core_abort [OF assms]) simp
  then have u: "core_run s0 tr (?a\<lparr>sd_abort_handles := {}\<rparr>)"
    by (rule core_untrack) (use nr in \<open>auto simp: no_running_def\<close>)
  have same: "same_core (?a\<lparr>sd_abort_handles := {}\<rparr>) (abort_all_running E s)"
    using abort_registry_settles [of E "sd_registry s" "sd_store s"]
    by (auto simp: abort_all_running_def same_core_def split: prod.splits)
  show "core_run s0 tr (abort_all_running E s)" by (rule core_same [OF u same])
  show "no_running (abort_all_running E s)"
    using nr same_core_reg [OF same] by (simp add: no_running_def)
qed

lemma drop_all_core:
  assumes "core_run s0 tr s" "distinct is" "set is \<subseteq> job_id ` set (sd_executing s)" "no_running s"
  shows "core_run s0 tr (fold drop_task is s)"
  using assms
proof (induction "is" arbitrary: s)
  case (Cons i "is")
  have "core_run s0 tr (drop_task i s)"
    using Cons.prems by (intro core_drop) (auto simp: no_running_def)
  moreover have "set is \<subseteq> job_id ` set (sd_executing (drop_task i s))"
  proof
    fix k assume k: "k \<in> set is"
    then obtain j where "j \<in> set (sd_executing s)" "job_id j = k" using Cons.prems(3) by auto
    moreover have "k \<noteq> i" using k Cons.prems(2) by auto
    ultimately show "k \<in> job_id ` set (sd_executing (drop_task i s))" by (auto simp: drop_task_def)
  qed
  moreover have "no_running (drop_task i s)" using Cons.prems(4) by (simp add: no_running_def)
  ultimately show ?case using Cons by simp
qed simp

lemma unwait_all_core:
  assumes "core_run s0 tr s"
  shows "core_run s0 tr (s\<lparr>sd_backoff := []\<rparr>)"
proof -
  have "core_run s0 tr (s\<lparr>sd_backoff := ws\<rparr>) \<Longrightarrow> core_run s0 tr (s\<lparr>sd_backoff := []\<rparr>)" for ws
  proof (induction ws)
    case (Cons w ws)
    from core_unwait [OF Cons.prems, of w] show ?case by (intro Cons.IH) simp
  qed simp
  from this [of "sd_backoff s"] assms show ?thesis by simp
qed

lemma drop_tasks_core:
  assumes "ready s0" "core_run s0 tr s" "no_running s"
  shows "core_run s0 tr (drop_tasks s)"
proof -
  have "distinct (map job_id (sd_executing s))"
    using core_inv [OF assms(1,2)] by (simp add: sched_inv_def task_part_def)
  then have "core_run s0 tr (fold drop_task (map job_id (sd_executing s)) s)"
    by (intro drop_all_core [OF assms(2) _ _ assms(3)]) simp_all
  then show ?thesis unfolding drop_tasks_def by (rule unwait_all_core)
qed

lemma sched_run_core:
  assumes "sched_run Env s0 tr s" "ready s0"
  shows "core_run s0 tr s"
  using assms(1)
proof (induction rule: sched_run.induct)
  case run_init
  show ?case by (rule core_init)
next
  case (run_submit tr s E cfg i s' j)
  then show ?case by (intro submit_core [of s0 tr s E cfg i s' j]) (simp_all add: reg_def)
next
  case (run_submit_refused tr s E cfg e s')
  then show ?case using submit_refused_core core_same by blast
next
  case (run_start tr s E j s')
  from start_next_core [OF assms(2) run_start.IH run_start.hyps(4)] show ?case by (simp add: start_moves_def)
next
  case (run_no_start tr s E r s')
  from start_next_core [OF assms(2) run_no_start.IH run_no_start.hyps(4)] run_no_start.hyps(5)
  show ?case by (auto simp: start_moves_def)
next
  case (run_start_failed tr s E e s')
  from start_next_core [OF assms(2) run_start_failed.IH run_start_failed.hyps(4)] show ?case by (simp add: start_moves_def)
next
  case (run_requeue_failed tr s E e s')
  from start_next_core [OF assms(2) run_requeue_failed.IH run_requeue_failed.hyps(4)] show ?case by (simp add: start_moves_def)
next
  case (run_finish tr s E j outcome)
  show ?case by (rule finish_task_core [OF assms(2) run_finish.IH run_finish.hyps(3)])
next
  case (run_timeout tr s E j)
  show ?case by (rule finish_task_core [OF assms(2) run_timeout.IH run_timeout.hyps(3)])
next
  case (run_aborted tr s j)
  have "sched_inv s" by (rule core_inv [OF assms(2) run_aborted.IH])
  with run_aborted.hyps show ?case by (intro core_drop [OF run_aborted.IH]) (auto simp: sched_inv_def exec_part_def)
next
  case (run_retry_due tr s E w)
  show ?case by (rule requeue_after_backoff_core [OF assms(2) run_retry_due.IH run_retry_due.hyps(3)])
next
  case (run_retry_stopped tr s w)
  show ?case by (rule core_unwait [OF run_retry_stopped.IH run_retry_stopped.hyps(3)])
next
  case (run_cancel tr s E i r s')
  show ?case by (rule cancel_job_core [OF assms(2) run_cancel.IH run_cancel.hyps(3)])
next
  case (run_resolve tr s E i actor input r s')
  show ?case by (rule resolve_job_core [OF assms(2) run_resolve.IH run_resolve.hyps(3)])
next
  case (run_deny tr s reason)
  show ?case by (rule core_same [OF run_deny.IH]) (simp add: deny_admission_def split: option.splits)
next
  case (run_shutdown tr s)
  show ?case by (rule core_same [OF run_shutdown.IH]) (simp add: request_shutdown_def)
next
  case (run_returns tr s E)
  show ?case unfolding run_abort_def
    by (rule drop_tasks_core [OF assms(2) abort_all_running_core [OF run_returns.IH]])
qed

end
