(* ===== verification/Scheduler_Contracts.thy ===== *)
theory Scheduler_Contracts
  imports Scheduler_Run
begin

text \<open>
  What the scheduler promises: schedulers are opened ready to run, runs keep the invariant and
  the retry budget, and each public call does on every branch what its callers rely on.
\<close>

section \<open>Opening\<close>

lemma ready_with_store: "ready (with_store cfg st)"
  by (simp add: ready_def sched_parts with_store_def with_retry_config_def reg_def mem_get_def queued_ids_def capacity_def)
     (simp add: contents_def queue_new_def queue_inv_def)

lemma ready_register_handler: "ready s \<Longrightarrow> ready (register_handler n h s)"
  by (auto simp: ready_def sched_parts register_handler_def reg_def queued_ids_def capacity_def)

text \<open>A job of a scheduler without tasks enters the registry, and the queue if it is pending.\<close>

lemma ready_register:
  assumes "ready s" "reg s (job_id j) = None" "status j \<noteq> Running"
  shows "ready (put_reg j s)"
proof -
  have inv: "sched_inv s" and none: "sd_executing s = []" "sd_backoff s = []" using assms(1) by (simp_all add: ready_def)
  have "queue_part (put_reg j s)"
    using inv assms(2) by (auto simp: sched_inv_def queue_part_def index_ok_put)
  moreover have "task_part (put_reg j s)" using inv by (simp add: sched_inv_def task_part_def)
  moreover have "exec_part (put_reg j s)" using inv none assms(3) by (auto simp: sched_inv_def exec_part_def)
  moreover have "wait_part (put_reg j s)" using none by (simp add: wait_part_def)
  ultimately show ?thesis using none by (simp add: ready_def sched_inv_def)
qed

lemma ready_enqueue:
  assumes "ready s" "reg s (job_id j) = None" "status j = Pending" "requeue j (sd_queue s) = Inr q"
  shows "ready ((put_reg j s)\<lparr>sd_queue := q\<rparr>)"
proof -
  have inv: "sched_inv s" and none: "sd_executing s = []" "sd_backoff s = []" using assms(1) by (simp_all add: ready_def)
  have "job_id j \<notin> set (queued_ids s)"
    using inv assms(2) by (auto simp: sched_inv_def queue_part_def queued_ids_def)
  with inv none assms(3,4) have "sched_inv ((put_reg j s)\<lparr>sd_queue := q\<rparr>)" by (intro inv_enqueue) simp_all
  with none show ?thesis by (simp add: ready_def)
qed

lemma ready_same: "ready s \<Longrightarrow> same_core s t \<Longrightarrow> ready t"
  using same_core_inv [of s t] by (simp add: ready_def) (simp add: same_core_def)

text \<open>The counters a recovered job bumps.\<close>

definition count_recovered :: "job \<Rightarrow> 'st scheduler \<Rightarrow> 'st scheduler" where
  "count_recovered j s0 =
     (let s = s0\<lparr>total_submitted := total_submitted s0 + 1\<rparr>
      in case status j of
           Completed \<Rightarrow> s\<lparr>total_completed := total_completed s + 1\<rparr>
         | Failed \<Rightarrow> s\<lparr>total_failed := total_failed s + 1\<rparr>
         | _ \<Rightarrow> s)"

lemma same_core_count [simp]: "same_core s (count_recovered j t) = same_core s t"
  by (simp add: count_recovered_def Let_def split: job_status.split)

lemma same_core_count_queue: "same_core (s\<lparr>sd_queue := q\<rparr>) ((count_recovered j s)\<lparr>sd_queue := q\<rparr>)"
  by (simp add: same_core_def count_recovered_def Let_def split: job_status.split)

lemma count_recovered_frame [simp]:
  "sd_queue (count_recovered j s) = sd_queue s" "sd_registry (count_recovered j s) = sd_registry s"
  "reg (count_recovered j s) = reg s"
  by (simp_all add: count_recovered_def Let_def reg_def fun_eq_iff split: job_status.split)

lemma hydrate_jobs_Cons:
  "hydrate_jobs (j # js) s =
     (if status j = Pending
      then (case requeue j (sd_queue s) of
              Inl e \<Rightarrow> (Inl e, count_recovered j (put_reg j s))
            | Inr q \<Rightarrow> hydrate_jobs js ((count_recovered j (put_reg j s))\<lparr>sd_queue := q\<rparr>))
      else hydrate_jobs js (count_recovered j (put_reg j s)))"
  by (cases "status j") (simp_all add: hydrate_jobs.simps(2) count_recovered_def Let_def split: sum.split)

declare hydrate_jobs.simps(2) [simp del]

lemma dom_put_reg: "dom (reg (put_reg j s)) = insert (job_id j) (dom (reg s))"
  by (auto split: if_splits)

lemma hydrate_jobs_spec:
  assumes "ready s" "distinct (map job_id js)" "job_id ` set js \<inter> dom (reg s) = {}"
    "\<forall>j \<in> set js. status j \<noteq> Running" "hydrate_jobs js s = (r, s')"
  shows "ready s' \<and>
    (if length (contents (sd_queue s)) + length (filter is_pending js) \<le> jq_max_size (sd_queue s)
     then r = Inr () \<and> sd_registry s' = fold mem_put js (sd_registry s) \<and>
          contents (sd_queue s') = fold insort_prio (filter is_pending js) (contents (sd_queue s))
     else r = Inl QueueFull)"
  using assms
proof (induction js arbitrary: s)
  case Nil
  then have "length (contents (sd_queue s)) \<le> jq_max_size (sd_queue s)"
    by (simp add: ready_def sched_inv_def queue_part_def queue_inv_def)
  with Nil show ?case by simp
next
  case (Cons j js)
  have new: "reg s (job_id j) = None" using Cons.prems(3) by auto
  have out: "job_id ` set js \<inter> insert (job_id j) (dom (reg s)) = {}" using Cons.prems(2,3) by auto
  have qi: "queue_inv (sd_queue s)" using Cons.prems(1) by (simp add: ready_def sched_inv_def queue_part_def)
  show ?case
  proof (cases "status j = Pending")
    case False
    let ?t = "count_recovered j (put_reg j s)"
    have t: "ready ?t" "job_id ` set js \<inter> dom (reg ?t) = {}" "hydrate_jobs js ?t = (r, s')"
      using ready_same [OF ready_register [OF Cons.prems(1) new]] Cons.prems False out
      by (simp_all add: hydrate_jobs_Cons dom_put_reg)
    from Cons.IH [OF t(1) _ t(2) _ t(3)] Cons.prems(2,4) False show ?thesis by simp
  next
    case True
    show ?thesis
    proof (cases "length (contents (sd_queue s)) < jq_max_size (sd_queue s)")
      case room: True
      then obtain q where q: "requeue j (sd_queue s) = Inr q" "jq_max_size q = jq_max_size (sd_queue s)"
        "contents q = insort_prio j (contents (sd_queue s))" using contents_requeue [OF qi] by blast
      let ?t = "(count_recovered j (put_reg j s))\<lparr>sd_queue := q\<rparr>"
      have t: "ready ?t" "job_id ` set js \<inter> dom (reg ?t) = {}" "hydrate_jobs js ?t = (r, s')"
        using ready_same [OF ready_enqueue [OF Cons.prems(1) new True q(1)], of ?t] Cons.prems True q(1) out
        by (simp_all add: hydrate_jobs_Cons dom_put_reg same_core_count_queue)
      from Cons.IH [OF t(1) _ t(2) _ t(3)] Cons.prems(2,4) True q show ?thesis by simp
    next
      case full: False
      have "requeue j (sd_queue s) = Inl QueueFull" using full by (intro requeue_full [OF qi]) simp
      then have "r = Inl QueueFull" "s' = count_recovered j (put_reg j s)"
        using Cons.prems(5) True by (simp_all add: hydrate_jobs_Cons)
      with ready_same [OF ready_register [OF Cons.prems(1) new]] full True show ?thesis by simp
    qed
  qed
qed

section \<open>A sample environment\<close>

definition memory_env :: "time \<Rightarrow> job_id \<Rightarrow> job_index env" where
  "memory_env now fresh =
     \<lparr>en_ops = memory_ops, en_now = now, en_fresh = fresh, en_err = (\<lambda>_. ''store''), en_jitter = 0,
      en_uuid_ok = (\<lambda>_. True), en_writes = (\<lambda>_. [2, 3])\<rparr>"

definition demo_config :: job_config where
  "demo_config = \<lparr>jc_name = ''fetch'', jc_payload = JNull, jc_priority = Normal, jc_max_retries = 2,
     jc_timeout = None, jc_correlation_id = None, jc_owner = Some (PrincipalId 7)\<rparr>"

definition demo_start :: "job_index scheduler" where
  "demo_start = register_handler ''fetch'' \<lparr>required_capabilities = [JobRead], safe_to_retry = False\<rparr>
     (with_store default_scheduler_config [])"

definition demo_submitted :: "job_index scheduler" where
  "demo_submitted = snd (submit (memory_env 5 (JobId ''a'')) demo_config demo_start)"

definition demo_running :: "job_index scheduler" where
  "demo_running = snd (start_next (memory_env 6 (JobId ''b'')) demo_submitted)"

definition demo_job :: job where
  "demo_job = (job_new (JobId ''a'') ''fetch'' JNull Normal 5)\<lparr>max_retries := 2, owner := Some (PrincipalId 7)\<rparr>"

lemmas demo_eval = memory_env_def demo_config_def demo_start_def demo_job_def submit_def start_next_def start_stored_def
  register_handler_def with_store_def with_retry_config_def queue_new_def default_scheduler_config_def memory_ops_def
  prepare_def requeue_def queue_len_def mem_put_def mem_get_def with_max_retries_def job_new_def next_job_def start_def

lemma demo_submitted_eval:
  "submit (memory_env 5 (JobId ''a'')) demo_config demo_start = (Inr (JobId ''a''), demo_submitted)"
  "demo_submitted = demo_start\<lparr>sd_store := [(JobId ''a'', demo_job)], sd_queue := (sd_queue demo_start)\<lparr>jq_jobs := [(Normal, [demo_job])]\<rparr>,
     sd_registry := [(JobId ''a'', demo_job)], total_submitted := 1\<rparr>"
  by (simp_all add: demo_submitted_def) (simp_all add: demo_eval)

lemma demo_running_eval:
  "start_next (memory_env 6 (JobId ''b'')) demo_submitted = (StartedJob (start 6 demo_job), demo_running)"
  "sd_registry demo_running = [(JobId ''a'', start 6 demo_job)]" "sd_executing demo_running = [start 6 demo_job]"
  by (simp_all add: demo_running_def demo_submitted_eval(2)) (simp_all add: demo_eval Let_def)

section \<open>Runs\<close>

lemma demo_run: "sched_run {memory_env 5 (JobId ''a''), memory_env 6 (JobId ''b'')} demo_start
  [Submitted demo_job, Executed (JobId ''a'')] demo_running"
proof -
  let ?Env = "{memory_env 5 (JobId ''a''), memory_env 6 (JobId ''b'')}"
  have "sched_run ?Env demo_start ([] @ [Submitted demo_job]) demo_submitted"
    by (rule run_submit [OF run_init _ _ _ demo_submitted_eval(1)])
       (simp_all add: memory_env_def demo_submitted_eval(2) mem_get_def demo_start_def register_handler_def with_store_def)
  from run_start [OF this _ _ demo_running_eval(1)]
  have "sched_run ?Env demo_start (([] @ [Submitted demo_job]) @ [Executed (job_id (start 6 demo_job))]) demo_running"
    by (simp add: demo_submitted_eval(2)) (simp add: demo_start_def register_handler_def with_store_def)
  then show ?thesis by (simp add: start_def demo_job_def job_new_def)
qed

lemma demo_ready: "ready demo_start"
  unfolding demo_start_def by (rule ready_register_handler [OF ready_with_store])





text \<open>C7. A handler is started at most once for a job whose handler is not safe to retry, and
  otherwise at most once more than the retries the job has left when it enters the run by a
  submission or from the recovered store; no interleaving of failures, timeouts, cancellations
  and shutdowns starts it again.\<close>

theorem handler_starts_bounded:
  assumes "sched_run Env s0 tr s" "ready s0" "origin s0 tr j"
  shows "executions (job_id j) tr \<le>
         (if replay_safe s0 (job_name j) then unat (max_retries j) - unat (retry_count j) + 1 else 1)"
proof -
  have "trace_inv s0 tr s"
    using core_run_inv [OF sched_run_core [OF assms(1,2)]] assms(2) by (simp add: ready_def)
  then have "budget_ok s0 tr s" by (simp add: trace_inv_def)
  from budget_okD(1) [OF this assms(3)] show ?thesis by (simp add: retries_left_def split: if_splits)
qed

theorem handler_starts_bounded_witness:
  "executions (JobId ''a'') [Submitted demo_job, Executed (JobId ''a'')] \<le> 1"
proof -
  have "\<not> replay_safe demo_start (job_name demo_job)"
    by (simp add: replay_safe_def demo_start_def register_handler_def with_store_def demo_job_def job_new_def)
  moreover have "origin demo_start [Submitted demo_job, Executed (JobId ''a'')] demo_job" by (simp add: origin_def)
  moreover have "job_id demo_job = JobId ''a''" by (simp add: demo_job_def job_new_def)
  ultimately show ?thesis using handler_starts_bounded [OF demo_run demo_ready, of demo_job] by simp
qed

text \<open>C23. When the run loop returns, at a drain timeout or after a start it could not record, no
  task is left, every permit is free, the jobs that were running await reconciliation and no other
  job has changed.\<close>

theorem run_abort_releases:
  assumes "sched_run Env s0 tr s" "ready s0"
  shows "sd_executing (run_abort E s) = [] \<and> sd_backoff (run_abort E s) = [] \<and>
         sd_permits (run_abort E s) = max 1 (max_concurrent_jobs (sd_config (run_abort E s))) \<and>
         (\<forall>i. reg (run_abort E s) i = map_option (\<lambda>j. if status j = Running
            then require_reconciliation ''shutdown interrupted handler; effect may have occurred'' j else j) (reg s i))"
proof -
  have drop_exec: "sd_executing (fold drop_task is t) = filter (\<lambda>j. job_id j \<notin> set is) (sd_executing t)"
    and drop_reg: "reg (fold drop_task is t) = reg t" for "is" and t :: "'a scheduler"
    by (induction "is" arbitrary: t) (auto simp: drop_task_def intro!: filter_cong)
  have c: "core_run s0 tr (run_abort E s)" unfolding run_abort_def
    by (rule drop_tasks_core [OF assms(2) abort_all_running_core [OF sched_run_core [OF assms]]])
  have empty: "sd_executing (run_abort E s) = []" "sd_backoff (run_abort E s) = []"
    by (simp_all add: run_abort_def drop_tasks_def drop_exec filter_empty_conv)
  have "sd_permits (run_abort E s) + length (sd_executing (run_abort E s)) = capacity (run_abort E s)"
    using core_inv [OF assms(2) c] by (simp add: sched_inv_def task_part_def)
  moreover have "reg (run_abort E s) = reg (s\<lparr>sd_registry := settle_running
      (require_reconciliation ''shutdown interrupted handler; effect may have occurred'') (sd_registry s)\<rparr>)"
    using abort_registry_settles [of E "sd_registry s" "sd_store s"]
    by (auto simp: run_abort_def drop_tasks_def drop_reg abort_all_running_def reg_def split: prod.splits)
  ultimately show ?thesis using empty by (simp add: reg_settle_running capacity_def)
qed

theorem run_abort_releases_witness:
  "map_option status (reg (run_abort (memory_env 9 (JobId ''c'')) demo_running) (JobId ''a'')) = Some ReconciliationRequired"
proof -
  have "reg demo_running (JobId ''a'') = Some (start 6 demo_job)" by (simp add: reg_def demo_running_eval(2) mem_get_def)
  with run_abort_releases [OF demo_run demo_ready, of "memory_env 9 (JobId ''c'')"] show ?thesis
    by (simp add: start_def require_reconciliation_def)
qed

section \<open>Calls\<close>

text \<open>C31. A submission is admitted only to a caller that holds every capability the handler of
  that job requires; a refused one changes neither queue, registry nor store.\<close>

theorem submit_authorized_safe:
  assumes "map_of (sd_handlers s) (jc_name cfg) = Some h"
  shows "(fst (submit_authorized E cfg caps s) = Inr i \<longrightarrow>
            set (required_capabilities h) \<subseteq> {c. capset_contains caps c}) \<and>
         (\<not> set (required_capabilities h) \<subseteq> {c. capset_contains caps c} \<longrightarrow>
            (\<exists>c \<in> set (required_capabilities h). \<not> capset_contains caps c \<and>
               submit_authorized E cfg caps s = (Inl (MissingCapability c), s)))"
proof (cases "find (\<lambda>c. \<not> capset_contains caps c) (required_capabilities h)")
  case None
  then have "set (required_capabilities h) \<subseteq> {c. capset_contains caps c}" by (auto simp: find_None_iff)
  then show ?thesis by auto
next
  case (Some c)
  then have "c \<in> set (required_capabilities h)" "\<not> capset_contains caps c"
    by (auto simp: find_Some_iff)
  with Some assms show ?thesis by (auto simp: submit_authorized_def)
qed

theorem submit_authorized_safe_witness:
  "submit_authorized (memory_env 5 (JobId ''a'')) demo_config {} demo_start = (Inl (MissingCapability JobRead), demo_start)"
proof -
  have "map_of (sd_handlers demo_start) (jc_name demo_config) = Some \<lparr>required_capabilities = [JobRead], safe_to_retry = False\<rparr>"
    by (simp add: demo_start_def register_handler_def with_store_def demo_config_def)
  from submit_authorized_safe [OF this, of "memory_env 5 (JobId ''a'')" "{}" "JobId ''a''"] show ?thesis
    by (simp add: capset_contains_def)
qed

lemma count_writes_sum:
  "written + sum_list ns \<le> u64_max \<Longrightarrow> count_writes limit written ns \<longleftrightarrow> ns = [] \<or> written + sum_list ns \<le> limit"
proof (induction ns arbitrary: written)
  case (Cons n ns)
  then show ?case by (cases "ns = []") (auto simp: sat_add_def)
qed simp

text \<open>The output of a handler is accepted exactly when the serialised bytes fit the limit,
  although the counter stops at the first write that exceeds it.\<close>

theorem output_within_bound_exact:
  assumes "sum_list (en_writes E output) \<le> u64_max"
  shows "output_within_bound E output limit \<longleftrightarrow> sum_list (en_writes E output) \<le> limit"
  using count_writes_sum [of 0 "en_writes E output" limit] assms
  by (cases "en_writes E output = []") (auto simp: output_within_bound_def)

theorem output_within_bound_exact_witness:
  "output_within_bound (memory_env 5 (JobId ''a'')) JNull 5 \<and> \<not> output_within_bound (memory_env 5 (JobId ''a'')) JNull 4"
proof -
  have "sum_list (en_writes (memory_env 5 (JobId ''a'')) JNull) = 5" by (simp add: memory_env_def)
  then show ?thesis
    using output_within_bound_exact [of "memory_env 5 (JobId ''a'')" JNull 5]
      output_within_bound_exact [of "memory_env 5 (JobId ''a'')" JNull 4] by (simp add: u64_max_def)
qed

lemma reg_counters [simp]:
  "reg (s\<lparr>total_completed := n\<rparr>) = reg s" "reg (s\<lparr>total_failed := n\<rparr>) = reg s" "reg (s\<lparr>total_retried := n\<rparr>) = reg s"
  by (simp_all add: reg_def fun_eq_iff)

text \<open>What a result makes of a running job, and the event that records it.\<close>

definition outcome_job :: "'st env \<Rightarrow> 'st scheduler \<Rightarrow> job \<Rightarrow> job_result \<Rightarrow> bool \<Rightarrow> job" where
  "outcome_job E s g res timed_out =
     (if timed_out then require_reconciliation ''handler timed out; effect may have occurred'' g
      else if jr_success res then complete (en_now E) res g
      else if retries E s g res timed_out then prepare_retry (failed_job (en_now E) res g)
      else failed_job (en_now E) res g)"

definition outcome_event :: "'st env \<Rightarrow> 'st scheduler \<Rightarrow> job \<Rightarrow> job_result \<Rightarrow> bool \<Rightarrow> job_event" where
  "outcome_event E s g res timed_out =
     (if timed_out then EvRecovered else if jr_success res then EvCompleted
      else if retries E s g res timed_out then EvRetried else EvFailed)"

lemma persist_ok:
  "so_update (en_ops E) snap ev (sd_store s) = (Inr x, st) \<Longrightarrow> persist_or_reconcile E snap ev s = (True, s\<lparr>sd_store := st\<rparr>)"
  by (simp add: persist_or_reconcile_def)

lemma persist_err:
  assumes "so_update (en_ops E) snap ev (sd_store s) = (Inl e, st)" "reg s (job_id snap) = Some g" "job_id g = job_id snap"
  obtains s1 j where "persist_or_reconcile E snap ev s = (False, s1)" "reg s1 (job_id snap) = Some j" "status j = ReconciliationRequired"
  using assms by (auto simp: persist_or_reconcile_def reg_def Let_def hmap_simps require_reconciliation_def)

text \<open>The whole of \<open>finish_job\<close> on a running job: record the outcome, then retain or wait.\<close>

lemma finish_job_outcome_form:
  assumes "mem_get i (sd_registry s) = Some g" "status g = Running"
  shows "finish_job E i res timed_out s =
    (let u = outcome_job E s g res timed_out
     in case persist_or_reconcile E u (outcome_event E s g res timed_out) (put_reg u (untracked i s)) of
          (False, s1) \<Rightarrow> (None, s1)
        | (True, s1) \<Rightarrow>
            if timed_out then (None, s1)
            else if jr_success res
            then (None, (\<lambda>s. s\<lparr>total_completed := total_completed s + 1\<rparr>) (prune_store_terminal E (prune_terminal s1)))
            else if retries E s g res timed_out
            then (Some (calculate_backoff (jq_retry_config (sd_queue s1)) (retry_count g + 1) (en_jitter E), u),
                  s1\<lparr>total_retried := total_retried s1 + 1\<rparr>)
            else (None, (\<lambda>s. s\<lparr>total_failed := total_failed s + 1\<rparr>) (prune_store_terminal E (prune_terminal s1))))"
  using finish_job_running [OF assms, of E res timed_out]
  by (cases timed_out; cases "jr_success res")
     (auto simp: Let_def outcome_job_def outcome_event_def retries_def finish_terminal_def split: prod.splits bool.splits)

lemma outcome_job_id: "job_id (outcome_job E s g res timed_out) = job_id g"
  by (simp add: outcome_job_def require_reconciliation_def complete_def prepare_retry_def failed_job_def fail_def)

text \<open>C12. What becomes of a running job when its handler returns or times out. If the outcome is
  recorded, the job is completed, failed, waiting for a retry or, after a timeout, awaiting
  reconciliation, and a retry is scheduled exactly when the handler failed, is safe to retry and
  retries are left. If the store does not confirm the record, the job awaits reconciliation and is
  not retried, whatever the handler returned.\<close>

theorem finish_job_outcome:
  assumes "reg s i = Some g" "status g = Running" "job_id g = i" "finish_job E i res timed_out s = (r, s')"
  shows "case so_update (en_ops E) (outcome_job E s g res timed_out) (outcome_event E s g res timed_out) (sd_store s) of
      (Inl e, st) \<Rightarrow> r = None \<and> (\<exists>j. reg s' i = Some j \<and> status j = ReconciliationRequired)
    | (Inr _, st) \<Rightarrow> reg s' i \<in> {None, Some (outcome_job E s g res timed_out)} \<and>
        (r = None \<longleftrightarrow> \<not> retries E s g res timed_out)"
proof -
  let ?u = "outcome_job E s g res timed_out" and ?ev = "outcome_event E s g res timed_out"
  let ?p = "put_reg ?u (untracked i s)"
  have uid: "job_id ?u = i" using assms(3) by (simp add: outcome_job_id)
  have ru: "reg ?p i = Some ?u" using uid by simp
  have st: "sd_store ?p = sd_store s" by (simp add: untracked_def)
  note form = finish_job_outcome_form [OF assms(1) [unfolded reg_def] assms(2), of E res timed_out, unfolded Let_def]
  obtain x st where x: "so_update (en_ops E) ?u ?ev (sd_store s) = (x, st)" by (cases "so_update (en_ops E) ?u ?ev (sd_store s)")
  show ?thesis
  proof (cases x)
    case (Inl e)
    obtain s1 j where "persist_or_reconcile E ?u ?ev ?p = (False, s1)" "reg s1 (job_id ?u) = Some j" "status j = ReconciliationRequired"
      by (rule persist_err [of E ?u ?ev ?p e st ?u]) (use x Inl st ru uid in simp_all)
    with form assms(4) x Inl uid show ?thesis by simp
  next
    case (Inr y)
    have p: "persist_or_reconcile E ?u ?ev ?p = (True, ?p\<lparr>sd_store := st\<rparr>)" by (rule persist_ok) (use x Inr st in simp)
    let ?t = "?p\<lparr>sd_store := st\<rparr>"
    have rt: "reg ?t i = Some ?u" using ru by simp
    have pr: "reg (prune_store_terminal E (prune_terminal ?t)) i \<in> {None, Some ?u}"
      using rt prune_reg [of ?t i] by (cases "reg (prune_terminal ?t) i") (auto simp: prune_store_terminal_def reg_def)
    have "(r, s') = (if timed_out then (None, ?t)
            else if jr_success res
            then (None, (\<lambda>s. s\<lparr>total_completed := total_completed s + 1\<rparr>) (prune_store_terminal E (prune_terminal ?t)))
            else if retries E s g res timed_out
            then (Some (calculate_backoff (jq_retry_config (sd_queue ?t)) (retry_count g + 1) (en_jitter E), ?u),
                  ?t\<lparr>total_retried := total_retried ?t + 1\<rparr>)
            else (None, (\<lambda>s. s\<lparr>total_failed := total_failed s + 1\<rparr>) (prune_store_terminal E (prune_terminal ?t))))"
      using form assms(4) p by simp
    then have "reg s' i \<in> {None, Some ?u}" "r = None \<longleftrightarrow> \<not> retries E s g res timed_out"
      using pr rt by (auto simp: retries_def split: if_splits)
    then show ?thesis using x Inr by simp
  qed
qed

theorem finish_job_outcome_witness:
  "\<exists>r s'. finish_job (memory_env 8 (JobId ''c'')) (JobId ''a'') (timeout_result (memory_env 8 (JobId ''c'')) (JobId ''a'')) False
            demo_running = (r, s') \<and> r = None"
proof -
  let ?E = "memory_env 8 (JobId ''c'')" and ?res = "timeout_result (memory_env 8 (JobId ''c'')) (JobId ''a'')"
  obtain r s' where f: "finish_job ?E (JobId ''a'') ?res False demo_running = (r, s')" by (cases "finish_job ?E (JobId ''a'') ?res False demo_running")
  have g: "reg demo_running (JobId ''a'') = Some (start 6 demo_job)" "status (start 6 demo_job) = Running"
    "job_id (start 6 demo_job) = JobId ''a''"
    by (simp_all add: reg_def demo_running_eval(2) mem_get_def) (simp_all add: start_def demo_job_def job_new_def)
  have "sd_handlers demo_running = [(''fetch'', \<lparr>required_capabilities = [JobRead], safe_to_retry = False\<rparr>)]"
    by (simp add: demo_running_def demo_submitted_eval(2)) (simp add: demo_eval Let_def)
  then have "\<not> retries ?E demo_running (start 6 demo_job) ?res False"
    by (simp add: retries_def replay_safe_def demo_job_def job_new_def start_def)
  with finish_job_outcome [OF g f] f show ?thesis by (auto simp: memory_env_def memory_ops_def)
qed

lemma prune_queue [simp]:
  "sd_queue (prune_terminal s) = sd_queue s" "sd_queue (prune_store_terminal E s) = sd_queue s"
  "sd_executing (prune_store_terminal E s) = sd_executing s" "reg (prune_store_terminal E s) = reg s"
  by (simp_all add: prune_terminal_def prune_store_terminal_def reg_def fun_eq_iff)

text \<open>C21. A confirmed cancellation takes the job out of the queue for good, or marks a running one
  as awaiting reconciliation and takes away its task's abort handle; it never reports a running
  job as cancelled. A refused one leaves the queue as it was, and the registry too unless the job
  was running.\<close>

theorem cancel_job_effect:
  assumes "sched_run Env s0 tr s" "ready s0" "cancel_job E i s = (r, s')"
  shows "if r = Inr () then
           i \<notin> set (queued_ids s') \<and> i \<notin> sd_abort_handles s' \<and>
           (\<exists>g. reg s i = Some g \<and>
              (if status g = Running then map_option status (reg s' i) = Some ReconciliationRequired
               else status g = Pending \<and> reg s' i \<in> {None, Some (cancel (en_now E) g)}))
         else sd_queue s' = sd_queue s \<and>
           (map_option status (reg s i) \<noteq> Some Running \<longrightarrow> sd_registry s' = sd_registry s)"
proof -
  have inv: "sched_inv s" by (rule core_inv [OF assms(2) sched_run_core [OF assms(1,2)]])
  consider (none) "\<And>g. reg s i = Some g \<Longrightarrow> status g \<notin> {Pending, Running}"
    | (running) g where "reg s i = Some g" "status g = Running" | (pending) g where "reg s i = Some g" "status g = Pending"
    by blast
  then show ?thesis
  proof cases
    case none
    then have "s' = s \<and> r \<noteq> Inr ()" using assms(3) by (auto simp: cancel_job_def reg_def split: option.splits if_splits)
    then show ?thesis by simp
  next
    case (running g)
    have "i \<notin> set (queued_ids s)" by (rule inv_not_queued [OF inv running(1)]) (simp add: running(2))
    moreover have "job_id g = i" by (rule reg_id [OF inv running(1)])
    ultimately show ?thesis using assms(3) running
      by (auto simp: cancel_job_def reg_def Let_def queued_ids_def hmap_simps require_reconciliation_def split: prod.splits sum.splits)
  next
    case (pending g)
    obtain x st where x: "so_update (en_ops E) (cancel (en_now E) g) EvCancelled (sd_store s) = (x, st)"
      by (cases "so_update (en_ops E) (cancel (en_now E) g) EvCancelled (sd_store s)")
    obtain e q where q: "cancel_queued (en_now E) i (sd_queue s) = (e, q)" by (cases "cancel_queued (en_now E) i (sd_queue s)")
    have out: "i \<notin> job_id ` set (contents q)"
      using cancel_queued_fewer [OF _ _ _ q] inv by (auto simp: sched_inv_def queue_part_def queued_ids_def)
    have na: "i \<notin> sd_abort_handles s"
      using inv_not_executing [OF inv pending] inv by (auto simp: sched_inv_def task_part_def)
    have gi: "job_id g = i" by (rule reg_id [OF inv pending(1)])
    show ?thesis
    proof (cases x)
      case (Inl err)
      then have "r \<noteq> Inr ()" "s' = s\<lparr>sd_store := st\<rparr>" using assms(3) pending x by (auto simp: cancel_job_def reg_def Let_def)
      then show ?thesis by simp
    next
      case (Inr y)
      let ?t = "s\<lparr>sd_store := st, sd_queue := q, sd_registry := mem_put (cancel (en_now E) g) (sd_registry s)\<rparr>"
      have s': "r = Inr ()" "s' = prune_store_terminal E (prune_terminal ?t)"
        using assms(3) pending x q Inr by (simp_all add: cancel_job_def reg_def Let_def)
      have "reg ?t i = Some (cancel (en_now E) g)" using gi by (simp add: reg_def hmap_simps cancel_def)
      then have "reg s' i \<in> {None, Some (cancel (en_now E) g)}"
        using prune_reg [of ?t i] unfolding s'(2) by (cases "reg (prune_terminal ?t) i") auto
      moreover have "i \<notin> set (queued_ids s')" using out by (simp add: queued_ids_def s'(2))
      moreover have "i \<notin> sd_abort_handles s'" using na by (simp add: s'(2) prune_terminal_def prune_store_terminal_def)
      ultimately show ?thesis using s'(1) pending by simp
    qed
  qed
qed

theorem cancel_job_effect_witness:
  "map_option status (reg (snd (cancel_job (memory_env 9 (JobId ''c'')) (JobId ''a'') demo_running)) (JobId ''a'')) = Some ReconciliationRequired"
proof -
  let ?E = "memory_env 9 (JobId ''c'')"
  have g: "reg demo_running (JobId ''a'') = Some (start 6 demo_job)" by (simp add: reg_def demo_running_eval(2) mem_get_def)
  obtain s' where s': "cancel_job ?E (JobId ''a'') demo_running = (Inr (), s')"
    using g by (auto simp: cancel_job_def reg_def Let_def start_def memory_env_def memory_ops_def)
  from cancel_job_effect [OF demo_run demo_ready s'] g s' show ?thesis by (simp add: start_def)
qed



section \<open>Starting and recovery\<close>

context job_store
begin

text \<open>A job whose handler is started is running in the store.\<close>

lemma started_recorded:
  assumes "invar (sd_store s)" "en_ops E = ops" "start_next E s = (StartedJob j, s')"
  shows "status j = Running" "view (sd_store s') (job_id j) = Some j" "invar (sd_store s')"
proof -
  obtain g st t where g: "j = start (en_now E) g" "so_update ops j EvStarted (sd_store s) = (Inr (), st)" "sd_store s' = st"
    using assms(2,3)
    by (auto simp: start_next_def start_stored_def Let_def split: if_splits prod.splits option.splits sum.splits)
  show "status j = Running" by (simp add: g(1) start_def)
  show "view (sd_store s') (job_id j) = Some j" using update_ok [OF assms(1) g(2)] g(3) by simp
  show "invar (sd_store s')" using update_invar [OF assms(1) g(2)] g(3) by simp
qed

text \<open>An admitted job is pending in the store.\<close>

lemma submitted_recorded:
  assumes "invar (sd_store s)" "en_ops E = ops" "submit E cfg s = (Inr i, s')"
  shows "\<exists>j. view (sd_store s') i = Some j \<and> reg s' i = Some j \<and> status j = Pending" "invar (sd_store s')"
proof -
  obtain j st q where j: "prepare (sd_queue s) cfg (en_fresh E) (en_now E) = Inr j" "so_put ops j (sd_store s) = (Inr (), st)"
    "i = job_id j" "s' = s\<lparr>sd_store := st, sd_queue := q, sd_registry := mem_put j (sd_registry s), total_submitted := total_submitted s + 1\<rparr>"
    using assms(2,3) by (auto simp: submit_def split: if_splits sum.splits prod.splits)
  show "\<exists>j. view (sd_store s') i = Some j \<and> reg s' i = Some j \<and> status j = Pending"
    using put_ok [OF assms(1) j(2)] prepare_fresh [OF j(1)] j(3,4) by (simp add: reg_def hmap_simps)
  show "invar (sd_store s')" using put_invar [OF assms(1) j(2)] j(4) by simp
qed

end


definition journal_env :: "codec \<Rightarrow> time \<Rightarrow> time \<Rightarrow> journal_store env" where
  "journal_env C recorded now =
     \<lparr>en_ops = journal_ops C recorded, en_now = now, en_fresh = JobId ''z'', en_err = (\<lambda>_. ''store''), en_jitter = 0,
      en_uuid_ok = (\<lambda>_. True), en_writes = (\<lambda>_. [])\<rparr>"

text \<open>A journal that holds the submission of the sample job, and a scheduler that has queued it.\<close>

definition sample_submitted :: journal_store where
  "sample_submitted =
     \<lparr>js_disk = sample_disk (concat (map (line_of (table_codec sample_jobs)) [sample_record 0 EvSubmitted sample_job])),
      js_index = [(JobId ''a'', sample_job)], js_handle = 0, js_next_sequence = 1, js_recovered_torn_tail = False\<rparr>"

definition sample_scheduler :: "journal_store scheduler" where
  "sample_scheduler = snd (hydrate_jobs [sample_job] (with_store default_scheduler_config sample_submitted))"

lemma sample_submitted_inv:
  "journal_inv (table_codec sample_jobs) (set sample_jobs) [sample_record 0 EvSubmitted sample_job] sample_submitted"
proof -
  have "good_journal (table_codec sample_jobs) (set sample_jobs) [sample_record 0 EvSubmitted sample_job]"
    using good_journal_take [OF sample_journal_good, of 1] by (simp add: sample_journal_def)
  moreover have "valid_job (table_codec sample_jobs) (set sample_jobs) sample_job"
    using sample_valid [of sample_job] by (simp add: valid_job_def sample_jobs_def)
  ultimately show ?thesis
    by (simp add: journal_inv_upto_def sample_submitted_def sample_disk_def index_all_def index_ok_def
        sample_record_def replay_def mem_put_def mem_load_all_def)
qed

lemma sample_start:
  "\<exists>s'. start_next (journal_env (table_codec sample_jobs) 5 4) sample_scheduler = (StartedJob (start 4 sample_job), s')"
  "sd_store sample_scheduler = sample_submitted"
proof -
  let ?C = "table_codec sample_jobs" and ?j = "start 4 sample_job"
  have v: "valid_job ?C (set sample_jobs) ?j" using sample_valid [of ?j] by (simp add: valid_job_def sample_jobs_def)
  have ev: "event_ok EvStarted ?j" by (simp add: event_ok_def start_def)
  have "mem_put ?j (js_index sample_submitted) = [(JobId ''a'', ?j)]"
    by (simp add: mem_put_def sample_submitted_def)
  then have "fits ?C 5 (mem_put ?j (js_index sample_submitted))" using fits_single by simp
  then obtain st where "journal_append ?C 5 EvStarted ?j sample_submitted = (Inr (), st)"
    using journal_append_clean [OF faithful_table sample_submitted_inv v ev] by (auto simp: sample_submitted_def)
  then show "\<exists>s'. start_next (journal_env ?C 5 4) sample_scheduler = (StartedJob ?j, s')"
    by (simp add: sample_scheduler_def hydrate_jobs_Cons requeue_def with_store_def with_retry_config_def queue_new_def
        queue_len_def default_scheduler_config_def count_recovered_def Let_def start_next_def start_stored_def next_job_def
        journal_env_def journal_ops_def mem_put_def mem_get_def sample_job_def job_new_def)
  show "sd_store sample_scheduler = sample_submitted"
    by (simp add: sample_scheduler_def hydrate_jobs_Cons requeue_def with_store_def with_retry_config_def queue_new_def
        queue_len_def default_scheduler_config_def count_recovered_def Let_def)
qed


subsection \<open>Hydration\<close>

definition pending_ids :: "job_index \<Rightarrow> job_id set" where
  "pending_ids m = {i. \<exists>j. mem_get i m = Some j \<and> status j = Pending}"

lemma pending_ids_card:
  assumes "index_ok m"
  shows "pending_ids m = job_id ` set (mem_pending m)" "card (pending_ids m) = length (mem_pending m)"
proof -
  show eq: "pending_ids m = job_id ` set (mem_pending m)"
    using index_ok_get [OF assms] by (auto simp: pending_ids_def mem_pending_def mem_load_all_def image_iff)
  have "card (set (map job_id (mem_pending m))) = length (mem_pending m)"
    using distinct_card [OF index_pending(1) [OF assms]] by simp
  then show "card (pending_ids m) = length (mem_pending m)" by (simp add: eq)
qed

lemma fold_put_load:
  assumes "index_ok m"
  shows "mem_get i (fold mem_put (mem_load_all m) []) = mem_get i m"
  by (rule mem_get_eqI) (simp_all add: assms index_ok_fold_put set_load_fold_put index_load_all(1) [OF assms])

lemma set_fold_insort: "set (fold insort_prio js xs) = set js \<union> set xs"
  by (induction js arbitrary: xs) auto

lemma hydrate_spec:
  assumes "so_prune_terminal (en_ops E) (retained_terminal_jobs cfg) st = (Inr (), st')"
    "so_load_all (en_ops E) st' = Inr (mem_load_all m)" "index_ok m" "Running \<notin> status ` set (mem_load_all m)"
    "hydrate E (with_store cfg st) = (r, s)"
  shows "if card (pending_ids m) \<le> max_queue_size cfg
         then r = Inr () \<and> ready s \<and> (\<forall>i. reg s i = mem_get i m) \<and> set (queued_ids s) = pending_ids m
         else r = Inl QueueFull"
proof -
  let ?s = "(with_store cfg st)\<lparr>sd_store := st'\<rparr>"
  have w: "sd_queue ?s = sd_queue (with_store cfg st)" "sd_registry ?s = []" "contents (sd_queue ?s) = []"
    "jq_max_size (sd_queue ?s) = max_queue_size cfg" "reg ?s = (\<lambda>i. None)"
    by (auto simp: with_store_def with_retry_config_def contents_def queue_new_def reg_def mem_get_def)
  have ready: "ready ?s" by (rule ready_same [OF ready_with_store]) (simp add: same_core_def)
  have h: "hydrate_jobs (mem_load_all m) ?s = (r, s)"
    using assms(1,2,5) by (simp add: hydrate_def with_store_def)
  have nr: "\<forall>j \<in> set (mem_load_all m). status j \<noteq> Running" using assms(4) by force
  have dis: "job_id ` set (mem_load_all m) \<inter> dom (reg ?s) = {}" unfolding w(5) by (simp add: dom_def)
  have p: "filter is_pending (mem_load_all m) = mem_pending m" by (simp add: mem_pending_def mem_load_all_def)
  note spec = hydrate_jobs_spec [OF ready index_load_all(1) [OF assms(3)] dis nr h, unfolded w(2-4) p]
  have qi: "set (queued_ids s) = pending_ids m" if "contents (sd_queue s) = fold insort_prio (mem_pending m) []"
    using that pending_ids_card(1) [OF assms(3)] by (simp add: queued_ids_def set_fold_insort)
  have rg: "reg s i = mem_get i m" if "sd_registry s = fold mem_put (mem_load_all m) []" for i
    using that fold_put_load [OF assms(3)] by (simp add: reg_def)
  show ?thesis
  proof (cases "card (pending_ids m) \<le> max_queue_size cfg")
    case True
    then have "r = Inr ()" "ready s" "sd_registry s = fold mem_put (mem_load_all m) []"
      "contents (sd_queue s) = fold insort_prio (mem_pending m) []"
      using spec pending_ids_card(2) [OF assms(3)] by simp_all
    with True qi rg show ?thesis by simp
  next
    case False
    with spec pending_ids_card(2) [OF assms(3)] show ?thesis by simp
  qed
qed

text \<open>C30. Hydration takes over exactly the jobs the store holds after its retention, queues exactly
  the pending ones and yields a scheduler that is ready to run. When the store holds more pending
  jobs than the queue admits, it fails instead.\<close>

theorem hydrate_restores:
  assumes "so_prune_terminal (en_ops E) (retained_terminal_jobs cfg) st = (Inr (), st')"
    "so_load_all (en_ops E) st' = Inr (mem_load_all m)" "index_ok m" "Running \<notin> status ` set (mem_load_all m)"
    "hydrate E (with_store cfg st) = (r, s)"
  shows "if card (pending_ids m) \<le> max_queue_size cfg
         then r = Inr () \<and> ready s \<and> (\<forall>i. reg s i = mem_get i m) \<and> set (queued_ids s) = pending_ids m
         else r = Inl QueueFull"
  by (rule hydrate_spec [OF assms])

theorem hydrate_restores_witness:
  "fst (hydrate (memory_env 9 (JobId ''c'')) (with_store (default_scheduler_config\<lparr>max_queue_size := 0\<rparr>) [(JobId ''a'', demo_job)]))
     = Inl QueueFull"
proof -
  let ?E = "memory_env 9 (JobId ''c'')" and ?m = "[(JobId ''a'', demo_job)]"
  let ?cfg = "default_scheduler_config\<lparr>max_queue_size := 0\<rparr>"
  obtain r s where h: "hydrate ?E (with_store ?cfg ?m) = (r, s)" by (cases "hydrate ?E (with_store ?cfg ?m)")
  have j: "status demo_job = Pending" "job_id demo_job = JobId ''a''" by (simp_all add: demo_job_def job_new_def)
  have ok: "index_ok ?m" using j by (simp add: index_ok_def)
  have "card (pending_ids ?m) = 1" using pending_ids_card(2) [OF ok] j by (simp add: mem_pending_def)
  moreover have "so_prune_terminal (en_ops ?E) (retained_terminal_jobs ?cfg) ?m = (Inr (), ?m)"
    using j by (simp add: memory_env_def memory_ops_def mem_prune_terminal_def prune_victims_def is_terminal_def)
  moreover have "so_load_all (en_ops ?E) ?m = Inr (mem_load_all ?m)" by (simp add: memory_env_def memory_ops_def)
  ultimately show ?thesis using hydrate_restores [of ?E ?cfg ?m ?m ?m r s] h ok j by (simp add: mem_load_all_def)
qed

lemma recover_not_running: "status (snd (recover_job b j)) \<noteq> Running"
  by (cases b) (simp_all add: recover_job_status)

text \<open>Retention on a journal that opened: the unfinished jobs stay.\<close>

lemma journal_retained:
  assumes "faithful C J" "journal_inv C J rs st" "length (js_index st) < 2 ^ 64"
    "fits C now (mem_prune_terminal n (js_index st))" "index_all (\<lambda>j. status j \<noteq> Running) (js_index st)"
  obtains st' where "journal_prune_terminal C now n st = (Inr (), st')" "index_ok (js_index st')"
    "pending_ids (js_index st') = pending_ids (js_index st)" "Running \<notin> status ` set (mem_load_all (js_index st'))"
    "\<forall>i j. mem_get i (js_index st) = Some j \<and> \<not> is_terminal j \<longrightarrow> mem_get i (js_index st') = Some j"
proof -
  let ?m = "js_index st"
  have ok: "index_ok ?m" using assms(5) by (simp add: index_all_def)
  obtain st' rs2 where st': "journal_prune_terminal C now n st = (Inr (), st')" "journal_inv C J rs2 st'"
    "\<forall>i. mem_get i (js_index st') = mem_get i (mem_prune_terminal n ?m)"
    using journal_prune_clean [OF assms(1-4)] by blast
  have ok': "index_ok (js_index st')" using st'(2) by (simp add: journal_inv_upto_def index_all_def)
  have sub: "mem_get i ?m = Some j" if "mem_get i (js_index st') = Some j" for i j
    using that st'(3) by (auto simp: mem_prune_terminal_def mem_get_def fold_delete_map_of split: if_splits)
  have keep: "mem_get i (js_index st') = Some j" if "mem_get i ?m = Some j" "\<not> is_terminal j" for i j
    using st'(3) mem_get_prune_keeps [OF ok that] by simp
  have "\<not> is_terminal j" if "status j = Pending" for j using that by (simp add: is_terminal_def)
  then have "pending_ids (js_index st') = pending_ids ?m" unfolding pending_ids_def using sub keep by blast
  moreover have "Running \<notin> status ` set (mem_load_all (js_index st'))"
  proof
    assume "Running \<in> status ` set (mem_load_all (js_index st'))"
    then obtain j where j: "mem_get (job_id j) (js_index st') = Some j" "status j = Running"
      using index_ok_get [OF ok'] by auto
    with sub [OF j(1)] index_ok_get [OF ok] assms(5) show False by (auto simp: index_all_def)
  qed
  ultimately show thesis using that [OF st'(1) ok'] keep by blast
qed



subsection \<open>Progress\<close>

text \<open>C20. The run loop makes progress: with a free permit, a job in the queue and a store that records
  the start, \<open>start_next\<close> starts a job, namely a pending one of the highest priority present, and the
  job leaves the queue for a task of its own.\<close>

theorem start_next_progress:
  assumes "sched_run Env s0 tr s" "ready s0" "0 < sd_permits s" "queued_ids s \<noteq> []"
    "\<And>j. fst (so_update (en_ops E) j EvStarted (sd_store s)) = Inr ()"
  shows "\<exists>j s'. start_next E s = (StartedJob j, s') \<and> j \<in> set (sd_executing s') \<and> job_id j \<in> set (queued_ids s) \<and>
           job_id j \<notin> set (queued_ids s') \<and> (\<forall>q \<in> set (contents (sd_queue s)). priority q \<le> priority (hd (contents (sd_queue s)))) \<and>
           job_id j = job_id (hd (contents (sd_queue s)))"
proof -
  have inv: "sched_inv s" by (rule core_inv [OF assms(2) sched_run_core [OF assms(1,2)]])
  have qi: "queue_inv (sd_queue s)" using inv by (simp add: sched_inv_def queue_part_def)
  obtain h ys where c: "contents (sd_queue s) = h # ys" using assms(4) by (cases "contents (sd_queue s)") (auto simp: queued_ids_def)
  then have "status h = Pending" using inv by (auto simp: sched_inv_def queue_part_def)
  then have pos: "position is_pending (contents (sd_queue s)) = Some 0" by (simp add: c)
  obtain q where q: "next_job (en_now E) (sd_queue s) = (Some (start (en_now E) h), q)" "contents q = ys"
    using next_job_some [OF qi pos, of "en_now E"] by (auto simp: c remove_nth_def)
  obtain g where g: "reg s (job_id h) = Some g" "status g = Pending" "job_id g = job_id h"
    "job_id h \<notin> job_id ` set (contents q)"
    by (rule next_job_taken [OF inv q(1)]) (simp add: start_def)
  let ?r = "start (en_now E) g"
  obtain st where st: "so_update (en_ops E) ?r EvStarted (sd_store s) = (Inr (), st)"
    using assms(5) [of ?r] by (cases "so_update (en_ops E) ?r EvStarted (sd_store s)") auto
  obtain s' where s': "start_next E s = (StartedJob ?r, s')" "?r \<in> set (sd_executing s')" "sd_queue s' = q"
    using assms(3) q(1) g(1,2) st by (simp add: start_next_def reg_def start_stored_def Let_def)
  have rid: "job_id ?r = job_id h" using g(3) by (simp add: start_def)
  have "sorted_wrt (\<lambda>a b. priority b \<le> priority a) (contents (sd_queue s))"
    using sorted_flat [of "jq_jobs (sd_queue s)"] qi by (simp add: queue_inv_def contents_def)
  then have "\<forall>x \<in> set (contents (sd_queue s)). priority x \<le> priority h" by (simp add: c)
  with s' rid g(4) show ?thesis by (intro exI [of _ ?r] exI [of _ s']) (auto simp: queued_ids_def c)
qed

theorem start_next_progress_witness:
  "\<exists>j s'. start_next (memory_env 6 (JobId ''b'')) demo_submitted = (StartedJob j, s') \<and> job_id j = JobId ''a''"
proof -
  let ?Env = "{memory_env 5 (JobId ''a'')}"
  have run: "sched_run ?Env demo_start ([] @ [Submitted demo_job]) demo_submitted"
    by (rule run_submit [OF run_init _ _ _ demo_submitted_eval(1)])
       (simp_all add: memory_env_def demo_submitted_eval(2) mem_get_def demo_start_def register_handler_def with_store_def)
  have q: "contents (sd_queue demo_submitted) = [demo_job]" "0 < sd_permits demo_submitted" "job_id demo_job = JobId ''a''"
    by (simp_all add: demo_submitted_eval(2) contents_def)
       (simp_all add: demo_start_def register_handler_def with_store_def default_scheduler_config_def demo_job_def job_new_def)
  from start_next_progress [OF run demo_ready, of "memory_env 6 (JobId ''b'')"] q show ?thesis
    by (auto simp: queued_ids_def memory_env_def memory_ops_def)
qed

end
