(* ===== verification/Session_Ownership.thy ===== *)
theory Session_Ownership
  imports Capabilities
begin

text \<open>
  The registry of session owners (\<open>interface-core/src/session_ownership.rs\<close>). The state behind the
  lock is a record; a poisoned lock, the effect of a panic in a writer, is a flag every call
  observes. A reservation object is its id, held by the caller until it is finalized or dropped.
\<close>

section \<open>The registry\<close>

datatype session_id = SessionId uuid

datatype ownership_error = CapacityExhausted | OwnershipConflict | FinalizeFailed | Poisoned

record ownership_registry =
  ow_capacity :: nat
  ow_owners :: "(session_id \<times> principal_id) list"
  ow_reservations :: "(u64 \<times> principal_id) list"
  ow_next_reservation_id :: u64
  ow_fail_next_finalize :: bool
  ow_poisoned :: bool

text \<open>\<open>bounded\<close> panics on a capacity of zero.\<close>

definition ownership_bounded :: "nat \<Rightarrow> ownership_registry option" where
  "ownership_bounded capacity =
     (if capacity = 0 then None
      else Some \<lparr>ow_capacity = capacity, ow_owners = [], ow_reservations = [], ow_next_reservation_id = 1,
                 ow_fail_next_finalize = False, ow_poisoned = False\<rparr>)"

definition owns_session :: "principal_id \<Rightarrow> session_id \<Rightarrow> ownership_registry \<Rightarrow> bool" where
  "owns_session p s st \<longleftrightarrow> \<not> ow_poisoned st \<and> map_of (ow_owners st) s = Some p"

definition owns_authenticated_session :: "principal_id \<Rightarrow> session_id \<Rightarrow> ownership_registry \<Rightarrow> bool" where
  "owns_authenticated_session p s st \<longleftrightarrow> \<not> ow_poisoned st \<and> map_of (ow_owners st) s = Some p"

definition ownership_reserve ::
  "principal_id \<Rightarrow> ownership_registry \<Rightarrow> (ownership_error + u64) \<times> ownership_registry" where
  "ownership_reserve p st =
     (if ow_poisoned st then (Inl Poisoned, st)
      else if ow_capacity st \<le> length (ow_owners st) + length (ow_reservations st) then (Inl CapacityExhausted, st)
      else if ow_next_reservation_id st = - 1 then (Inl CapacityExhausted, st)
      else (Inr (ow_next_reservation_id st),
            st\<lparr>ow_next_reservation_id := ow_next_reservation_id st + 1,
               ow_reservations := AList.update (ow_next_reservation_id st) p (ow_reservations st)\<rparr>))"

definition record_authenticated_session ::
  "principal_id \<Rightarrow> session_id \<Rightarrow> ownership_registry \<Rightarrow> (ownership_error + unit) \<times> ownership_registry" where
  "record_authenticated_session p s st =
     (if ow_poisoned st then (Inl Poisoned, st)
      else case map_of (ow_owners st) s of
             Some q \<Rightarrow> (if q = p then Inr () else Inl OwnershipConflict, st)
           | None \<Rightarrow>
               if ow_capacity st \<le> length (ow_owners st) + length (ow_reservations st) then (Inl CapacityExhausted, st)
               else (Inr (), st\<lparr>ow_owners := AList.update s p (ow_owners st)\<rparr>))"

definition release_authenticated_session ::
  "principal_id \<Rightarrow> session_id \<Rightarrow> ownership_registry \<Rightarrow> ownership_registry" where
  "release_authenticated_session p s st =
     (if \<not> ow_poisoned st \<and> map_of (ow_owners st) s = Some p
      then st\<lparr>ow_owners := AList.delete s (ow_owners st)\<rparr> else st)"

definition inject_finalize_failure :: "ownership_registry \<Rightarrow> ownership_registry" where
  "inject_finalize_failure st = (if ow_poisoned st then st else st\<lparr>ow_fail_next_finalize := True\<rparr>)"

text \<open>Finalizing consumes the reservation; the object's destructor has nothing left to do after it.\<close>

definition ownership_finalize ::
  "u64 \<Rightarrow> session_id \<Rightarrow> ownership_registry \<Rightarrow> (ownership_error + unit) \<times> ownership_registry" where
  "ownership_finalize i s st =
     (if ow_poisoned st then (Inl Poisoned, st)
      else case map_of (ow_reservations st) i of
             None \<Rightarrow> (Inl FinalizeFailed, st)
           | Some p \<Rightarrow>
               (let st1 = st\<lparr>ow_reservations := AList.delete i (ow_reservations st)\<rparr>
                in if ow_fail_next_finalize st then (Inl FinalizeFailed, st1\<lparr>ow_fail_next_finalize := False\<rparr>)
                   else case map_of (ow_owners st) s of
                          Some q \<Rightarrow> (if q = p then Inr () else Inl OwnershipConflict, st1)
                        | None \<Rightarrow> (Inr (), st1\<lparr>ow_owners := AList.update s p (ow_owners st)\<rparr>)))"

definition drop_reservation :: "u64 \<Rightarrow> ownership_registry \<Rightarrow> ownership_registry" where
  "drop_reservation i st =
     (if ow_poisoned st then st else st\<lparr>ow_reservations := AList.delete i (ow_reservations st)\<rparr>)"

section \<open>Runs\<close>

text \<open>The calls, and the registry together with the reservations callers hold.\<close>

datatype ownership_call =
    CallReserve principal_id | CallRecord principal_id session_id | CallRelease principal_id session_id
  | CallFinalize u64 session_id | CallDrop u64 | CallInject

fun ownership_step :: "ownership_call \<Rightarrow> ownership_registry \<Rightarrow> ownership_registry" where
  "ownership_step (CallReserve p) st = snd (ownership_reserve p st)"
| "ownership_step (CallRecord p s) st = snd (record_authenticated_session p s st)"
| "ownership_step (CallRelease p s) st = release_authenticated_session p s st"
| "ownership_step (CallFinalize i s) st = snd (ownership_finalize i s st)"
| "ownership_step (CallDrop i) st = drop_reservation i st"
| "ownership_step CallInject st = inject_finalize_failure st"

fun held_after :: "ownership_call \<Rightarrow> ownership_registry \<Rightarrow> u64 set \<Rightarrow> u64 set" where
  "held_after (CallReserve p) st H = (case fst (ownership_reserve p st) of Inr i \<Rightarrow> insert i H | Inl _ \<Rightarrow> H)"
| "held_after (CallFinalize i s) st H = H - {i}"
| "held_after (CallDrop i) st H = H - {i}"
| "held_after _ st H = H"

fun call_reservation :: "ownership_call \<Rightarrow> u64 option" where
  "call_reservation (CallFinalize i s) = Some i"
| "call_reservation (CallDrop i) = Some i"
| "call_reservation _ = None"

inductive ownership_run :: "nat \<Rightarrow> u64 set \<Rightarrow> ownership_registry \<Rightarrow> bool" for capacity where
  own_new: "ownership_bounded capacity = Some st \<Longrightarrow> ownership_run capacity {} st"
| own_call: "ownership_run capacity H st \<Longrightarrow> (case call_reservation c of None \<Rightarrow> True | Some i \<Rightarrow> i \<in> H) \<Longrightarrow>
    ownership_run capacity (held_after c st H) (ownership_step c st)"

text \<open>Held reservations are the ones in the registry, and owners and reservations fit together.\<close>

definition ownership_inv :: "nat \<Rightarrow> u64 set \<Rightarrow> ownership_registry \<Rightarrow> bool" where
  "ownership_inv capacity H st \<longleftrightarrow>
     ow_capacity st = capacity \<and> \<not> ow_poisoned st \<and>
     distinct (map fst (ow_owners st)) \<and> distinct (map fst (ow_reservations st)) \<and>
     H = fst ` set (ow_reservations st) \<and> (\<forall>i \<in> H. i < ow_next_reservation_id st) \<and>
     length (ow_owners st) + length (ow_reservations st) \<le> capacity"

lemma length_delete_key:
  "distinct (map fst m) \<Longrightarrow> length (AList.delete k m) = (if k \<in> fst ` set m then length m - 1 else length m)"
proof (induction m)
  case (Cons e m)
  have "AList.delete k m = m" if "k \<notin> fst ` set m" for k using that by (force simp: AList.delete_eq filter_id_conv)
  with Cons show ?case by (cases e) (auto simp: Suc_diff_le split: if_splits dest: length_pos_if_in_set)
qed simp

lemma keys_delete: "fst ` set (AList.delete k m) = fst ` set m - {k}"
  by (force simp: AList.delete_eq)

lemma map_of_key: "map_of m k = Some v \<Longrightarrow> k \<in> fst ` set m"
  by (force dest: map_of_SomeD)

lemma ownership_step_inv:
  assumes "ownership_inv capacity H st" "case call_reservation c of None \<Rightarrow> True | Some i \<Rightarrow> i \<in> H"
  shows "ownership_inv capacity (held_after c st H) (ownership_step c st)"
proof (cases c)
  case (CallReserve p)
  let ?n = "ow_next_reservation_id st"
  have new: "?n \<notin> fst ` set (ow_reservations st)" using assms(1) by (auto simp: ownership_inv_def)
  have lt: "i < ?n \<Longrightarrow> ?n \<noteq> - 1 \<Longrightarrow> i < ?n + 1" for i :: u64
    by (simp add: word_less_nat_alt unat_succ)
  have next_lt: "?n \<noteq> - 1 \<Longrightarrow> ?n < ?n + 1" by (simp add: word_less_nat_alt unat_succ)
  show ?thesis using assms(1) CallReserve new lt next_lt
    by (cases "?n = - 1") (auto simp: ownership_inv_def ownership_reserve_def distinct_update length_update dom_update image_iff
        dest: set_update_subset [THEN subsetD])
next
  case (CallRecord p s)
  then show ?thesis using assms(1)
    by (auto simp: ownership_inv_def record_authenticated_session_def distinct_update length_update dest: map_of_eq_None_iff [THEN iffD1] split: option.splits)
next
  case (CallRelease p s)
  then show ?thesis using assms(1)
    by (auto simp: ownership_inv_def release_authenticated_session_def distinct_delete length_delete_key)
next
  case (CallFinalize i s)
  obtain k where k: "length (ow_reservations st) = Suc k"
    using assms CallFinalize by (cases "ow_reservations st") (auto simp: ownership_inv_def)
  with CallFinalize assms show ?thesis
    by (auto simp: k ownership_inv_def ownership_finalize_def Let_def distinct_update distinct_delete length_update length_delete_key
        keys_delete map_of_eq_None_iff split: option.splits if_splits)
next
  case (CallDrop i)
  then show ?thesis using assms
    by (auto simp: ownership_inv_def drop_reservation_def distinct_delete length_delete_key keys_delete)
next
  case CallInject
  then show ?thesis using assms(1) by (simp add: ownership_inv_def inject_finalize_failure_def)
qed

lemma ownership_run_inv: "ownership_run capacity H st \<Longrightarrow> ownership_inv capacity H st"
proof (induction rule: ownership_run.induct)
  case (own_new st)
  then show ?case by (auto simp: ownership_bounded_def ownership_inv_def split: if_splits)
next
  case (own_call H st c)
  show ?case by (rule ownership_step_inv [OF own_call.IH own_call.hyps(2)])
qed

section \<open>Properties\<close>

text \<open>C38. The registry never holds more owners and reservations than its capacity, so a reservation
  is a promise: whoever still holds one can finalize it for any session that has no owner yet, and
  then owns that session, however full the registry is.\<close>

theorem reservation_guarantees_slot:
  assumes "ownership_run capacity H st" "i \<in> H" "map_of (ow_owners st) s = None" "\<not> ow_fail_next_finalize st"
  shows "length (ow_owners st) + length (ow_reservations st) \<le> capacity \<and>
         (\<exists>p st'. map_of (ow_reservations st) i = Some p \<and> ownership_finalize i s st = (Inr (), st') \<and>
            owns_session p s st' \<and> map_of (ow_reservations st') i = None)"
proof -
  have inv: "ownership_inv capacity H st" by (rule ownership_run_inv [OF assms(1)])
  then obtain p where p: "map_of (ow_reservations st) i = Some p"
    using assms(2) by (auto simp: ownership_inv_def)
  have "ownership_finalize i s st = (Inr (), st\<lparr>ow_reservations := AList.delete i (ow_reservations st),
      ow_owners := AList.update s p (ow_owners st)\<rparr>)"
    using inv p assms(3,4) by (simp add: ownership_inv_def ownership_finalize_def Let_def)
  then show ?thesis using inv p by (simp add: ownership_inv_def owns_session_def hmap_simps)
qed

theorem reservation_guarantees_slot_witness:
  "\<exists>st st'. ownership_run 1 {1} st \<and> ownership_finalize 1 (SessionId 5) st = (Inr (), st') \<and> owns_session (PrincipalId 7) (SessionId 5) st'"
proof -
  obtain st0 where st0: "ownership_bounded 1 = Some st0" by (simp add: ownership_bounded_def)
  let ?c = "CallReserve (PrincipalId 7)" and ?st = "ownership_step (CallReserve (PrincipalId 7)) st0"
  have run: "ownership_run 1 (held_after ?c st0 {}) ?st" by (rule own_call [OF own_new [OF st0]]) simp
  have e: "held_after ?c st0 {} = {1}" "ow_owners ?st = []" "\<not> ow_fail_next_finalize ?st" "map_of (ow_reservations ?st) 1 = Some (PrincipalId 7)"
    using st0 by (auto simp: ownership_bounded_def ownership_reserve_def)
  from reservation_guarantees_slot [OF run, of 1 "SessionId 5"] e run show ?thesis by auto
qed

text \<open>A session keeps its owner: no call changes who owns a session that has an owner, except the
  owner's own release; in particular recording it for somebody else, finalizing somebody else's
  reservation for it and releasing it in somebody else's name leave it alone.\<close>

theorem owner_stable:
  assumes "map_of (ow_owners st) s = Some p" "c \<noteq> CallRelease p s"
  shows "map_of (ow_owners (ownership_step c st)) s = Some p"
  using assms
  by (cases c) (auto simp: ownership_reserve_def record_authenticated_session_def release_authenticated_session_def
      ownership_finalize_def drop_reservation_def inject_finalize_failure_def Let_def hmap_simps split: option.splits)

theorem owner_stable_witness:
  "\<exists>st. map_of (ow_owners st) (SessionId 5) = Some (PrincipalId 7) \<and>
        map_of (ow_owners (ownership_step (CallRelease (PrincipalId 8) (SessionId 5)) st)) (SessionId 5) = Some (PrincipalId 7)"
proof -
  let ?st = "\<lparr>ow_capacity = 1, ow_owners = [(SessionId 5, PrincipalId 7)], ow_reservations = [], ow_next_reservation_id = 1,
     ow_fail_next_finalize = False, ow_poisoned = False\<rparr>"
  have "map_of (ow_owners ?st) (SessionId 5) = Some (PrincipalId 7)" by simp
  from owner_stable [OF this, of "CallRelease (PrincipalId 8) (SessionId 5)"] this show ?thesis by (intro exI [of _ ?st]) simp
qed

end
