(* ===== verification/Authority.thy ===== *)
theory Authority
  imports Capabilities
begin

text \<open>
  Bearer tokens and authorization: the in-memory \<open>AuthorityStore\<close> of
  \<open>interface-core/src/auth.rs\<close> and the \<open>AuthorizationGuard\<close> of \<open>interface-core/src/lib.rs\<close>. The
  revocation flags a record shares with the handles made from it (\<open>Arc<AtomicBool>\<close>) are cells of
  the store, which records and handles name by index. The digest (\<open>sha2\<close>) and the token encoding
  (\<open>base64\<close>) are parameters; the clock, the random token and fresh correlation ids are arguments.
\<close>

section \<open>Interface errors\<close>

datatype interface_error_code =
    IeInvalidRequest | IeUnsupportedInterfaceVersion | IeInvalidIdempotencyKey | IeIdempotencyConflict
  | IeDeadlineExceeded | IeAuthenticationFailed | IeTokenExpired | IeMissingCapability | IeMalformedScope
  | IeArtifactDenied | IeUnsupportedOperation | IeNotFound | IeResourceExhausted | IeEngineUnreachable
  | IeInternal

datatype error_layer =
    LayerInterface | LayerBroker | LayerWorkflow | LayerPage | LayerDriver | LayerBrowser | LayerNetwork
  | LayerSite | LayerJournal

record interface_error =
  ie_code :: interface_error_code
  ie_layer :: error_layer
  ie_message :: string
  ie_correlation_id :: uuid
  ie_command_id :: "uuid option"
  ie_retryable :: bool
  ie_retry_after_ms :: "u64 option"
  ie_reconciliation_required :: bool
  ie_required_capability :: "capability option"

definition authentication_error :: "uuid \<Rightarrow> interface_error" where
  "authentication_error cid =
     \<lparr>ie_code = IeAuthenticationFailed, ie_layer = LayerInterface, ie_message = ''authentication failed'',
      ie_correlation_id = cid, ie_command_id = None, ie_retryable = False, ie_retry_after_ms = None,
      ie_reconciliation_required = False, ie_required_capability = None\<rparr>"

definition authority_exhausted_error :: "uuid \<Rightarrow> interface_error" where
  "authority_exhausted_error cid =
     \<lparr>ie_code = IeResourceExhausted, ie_layer = LayerInterface, ie_message = ''authority capacity exhausted'',
      ie_correlation_id = cid, ie_command_id = None, ie_retryable = False, ie_retry_after_ms = None,
      ie_reconciliation_required = False, ie_required_capability = None\<rparr>"

section \<open>The store\<close>

type_synonym digest = "bytes"

record authority_record =
  ar_token_hash :: digest
  ar_principal_id :: principal_id
  ar_capabilities :: capability_set
  ar_expires_at :: time
  ar_revoked :: nat

record capability_handle =
  ch_principal_id :: principal_id
  ch_capabilities :: capability_set
  ch_expires_at :: time
  ch_revoked :: nat

record authority_store =
  au_records :: "authority_record list"
  au_capacity :: nat
  au_cells :: "bool list"

definition cell_load :: "bool list \<Rightarrow> nat \<Rightarrow> bool" where
  "cell_load cells c \<longleftrightarrow> c < length cells \<and> cells ! c"

definition authority_with_capacity :: "nat \<Rightarrow> authority_store" where
  "authority_with_capacity n = \<lparr>au_records = [], au_capacity = n, au_cells = []\<rparr>"

definition authority_in_memory :: authority_store where
  "authority_in_memory = authority_with_capacity 1024"

definition handle_of_record :: "authority_record \<Rightarrow> capability_handle" where
  "handle_of_record r =
     \<lparr>ch_principal_id = ar_principal_id r, ch_capabilities = ar_capabilities r,
      ch_expires_at = ar_expires_at r, ch_revoked = ar_revoked r\<rparr>"

definition enroll_hash ::
  "time \<Rightarrow> uuid \<Rightarrow> digest \<Rightarrow> principal_id \<Rightarrow> capability list \<Rightarrow> time \<Rightarrow> authority_store \<Rightarrow>
   (interface_error + capability_handle) \<times> authority_store" where
  "enroll_hash now cid token_hash who caps expires_at st =
     (if expires_at \<le> now then (Inl (authentication_error cid), st)
      else (let live = filter (\<lambda>r. now < ar_expires_at r \<and> \<not> cell_load (au_cells st) (ar_revoked r)) (au_records st);
                st1 = st\<lparr>au_records := live\<rparr>
            in if au_capacity st \<le> length live then (Inl (authority_exhausted_error cid), st1)
               else (let r = \<lparr>ar_token_hash = token_hash, ar_principal_id = who,
                              ar_capabilities = capset_new caps, ar_expires_at = expires_at,
                              ar_revoked = length (au_cells st)\<rparr>
                     in (Inr (handle_of_record r),
                         st1\<lparr>au_records := live @ [r], au_cells := au_cells st @ [False]\<rparr>))))"

text \<open>\<open>getrandom\<close> may fail, which leaves no token bytes.\<close>

definition authority_issue ::
  "(string \<Rightarrow> digest) \<Rightarrow> (bytes \<Rightarrow> string) \<Rightarrow> time \<Rightarrow> uuid \<Rightarrow> bytes option \<Rightarrow> principal_id \<Rightarrow> capability list \<Rightarrow>
   time \<Rightarrow> authority_store \<Rightarrow> (interface_error + string) \<times> authority_store" where
  "authority_issue sha256 encode now cid token_bytes who caps expires_at st =
     (case token_bytes of
        None \<Rightarrow> (Inl (authentication_error cid), st)
      | Some bs \<Rightarrow>
          (let bearer = encode bs
           in case enroll_hash now cid (sha256 bearer) who caps expires_at st of
                (Inl e, st1) \<Rightarrow> (Inl e, st1)
              | (Inr _, st1) \<Rightarrow> (Inr bearer, st1)))"

text \<open>The loop over all records keeps the first one whose digest matches.\<close>

fun first_match :: "digest \<Rightarrow> authority_record list \<Rightarrow> authority_record option \<Rightarrow> authority_record option" where
  "first_match h [] matched = matched"
| "first_match h (r # rs) matched =
     first_match h rs (if ar_token_hash r = h \<and> matched = None then Some r else matched)"

definition authenticate ::
  "(string \<Rightarrow> digest) \<Rightarrow> uuid \<Rightarrow> string \<Rightarrow> time \<Rightarrow> authority_store \<Rightarrow> interface_error + capability_handle" where
  "authenticate sha256 cid bearer now st =
     (let within = length bearer \<le> 4096;
          candidate = (if within then sha256 bearer else sha256 [])
      in case first_match candidate (au_records st) None of
           None \<Rightarrow> Inl (authentication_error cid)
         | Some r \<Rightarrow>
             if \<not> within \<or> cell_load (au_cells st) (ar_revoked r) \<or> ar_expires_at r \<le> now
             then Inl (authentication_error cid) else Inr (handle_of_record r))"

definition authority_verify ::
  "(string \<Rightarrow> digest) \<Rightarrow> uuid \<Rightarrow> string \<Rightarrow> time \<Rightarrow> authority_store \<Rightarrow> interface_error + capability_handle" where
  "authority_verify sha256 cid bearer now st = authenticate sha256 cid bearer now st"

fun store_flags :: "principal_id \<Rightarrow> authority_record list \<Rightarrow> bool list \<Rightarrow> bool list" where
  "store_flags p [] cells = cells"
| "store_flags p (r # rs) cells =
     store_flags p rs (if ar_principal_id r = p then cells[ar_revoked r := True] else cells)"

definition authority_revoke :: "principal_id \<Rightarrow> authority_store \<Rightarrow> authority_store" where
  "authority_revoke p st = st\<lparr>au_cells := store_flags p (au_records st) (au_cells st)\<rparr>"

section \<open>Handles and the guard\<close>

definition handle_context ::
  "uuid \<Rightarrow> time \<Rightarrow> idempotency_key option \<Rightarrow> capability_handle \<Rightarrow> request_context" where
  "handle_context cid deadline key h =
     \<lparr>rc_interface_version = InterfaceVersion, rc_correlation_id = cid, rc_principal_id = ch_principal_id h,
      rc_capabilities = ch_capabilities h, rc_deadline = deadline, rc_idempotency_key = key\<rparr>"

definition handle_allows :: "capability_handle \<Rightarrow> capability \<Rightarrow> bool" where
  "handle_allows h c = capset_contains (ch_capabilities h) c"

definition is_invalid_at :: "authority_store \<Rightarrow> capability_handle \<Rightarrow> time \<Rightarrow> bool" where
  "is_invalid_at st h now \<longleftrightarrow> ch_expires_at h \<le> now \<or> cell_load (au_cells st) (ch_revoked h)"

definition is_valid_at :: "authority_store \<Rightarrow> capability_handle \<Rightarrow> time \<Rightarrow> bool" where
  "is_valid_at st h now \<longleftrightarrow> \<not> is_invalid_at st h now"

definition guard_error ::
  "request_context \<Rightarrow> interface_error_code \<Rightarrow> string \<Rightarrow> capability option \<Rightarrow> interface_error" where
  "guard_error ctx code message c =
     \<lparr>ie_code = code, ie_layer = LayerInterface, ie_message = message, ie_correlation_id = rc_correlation_id ctx,
      ie_command_id = None, ie_retryable = False, ie_retry_after_ms = None,
      ie_reconciliation_required = False, ie_required_capability = c\<rparr>"

definition guard_validate ::
  "authority_store \<Rightarrow> time \<Rightarrow> capability_handle \<Rightarrow> request_context \<Rightarrow> interface_error + unit" where
  "guard_validate st now h ctx =
     (case validate_at ctx now of
        Inl _ \<Rightarrow> Inl (guard_error ctx IeDeadlineExceeded ''request deadline exceeded'' None)
      | Inr _ \<Rightarrow>
          if is_invalid_at st h now \<or> rc_principal_id ctx \<noteq> ch_principal_id h
          then Inl (guard_error ctx IeAuthenticationFailed ''authentication failed'' None) else Inr ())"

definition require_capability ::
  "capability_handle \<Rightarrow> request_context \<Rightarrow> capability \<Rightarrow> interface_error + unit" where
  "require_capability h ctx c =
     (if \<not> handle_allows h c \<or> \<not> capset_contains (rc_capabilities ctx) c
      then Inl (guard_error ctx IeMissingCapability ''required capability is missing'' (Some c)) else Inr ())"

fun require_all :: "capability_handle \<Rightarrow> request_context \<Rightarrow> capability list \<Rightarrow> interface_error + unit" where
  "require_all h ctx [] = Inr ()"
| "require_all h ctx (c # cs) =
     (case require_capability h ctx c of Inl e \<Rightarrow> Inl e | Inr _ \<Rightarrow> require_all h ctx cs)"

definition authorize ::
  "authority_store \<Rightarrow> time \<Rightarrow> capability_handle \<Rightarrow> request_context \<Rightarrow> interface_operation \<Rightarrow> interface_error + unit" where
  "authorize st now h ctx op =
     (case guard_validate st now h ctx of
        Inl e \<Rightarrow> Inl e | Inr _ \<Rightarrow> require_all h ctx (operation_required op))"

section \<open>Lemmas\<close>

lemma first_match_find:
  "first_match h rs m = (case m of Some r \<Rightarrow> Some r | None \<Rightarrow> find (\<lambda>r. ar_token_hash r = h) rs)"
  by (induction rs arbitrary: m) (auto split: option.splits)

lemma find_SomeD: "find P xs = Some x \<Longrightarrow> x \<in> set xs \<and> P x"
  by (induction xs) (auto split: if_splits)

lemma find_first:
  "find P rs = Some r \<longleftrightarrow> (\<exists>xs ys. rs = xs @ r # ys \<and> (\<forall>x \<in> set xs. \<not> P x) \<and> P r)" (is "_ \<longleftrightarrow> ?R rs")
proof
  show "?R rs" if "find P rs = Some r"
    using that
  proof (induction rs)
    case (Cons x rs)
    show ?case
    proof (cases "P x")
      case True
      with Cons.prems show ?thesis by (intro exI [of _ "[]"] exI [of _ rs]) simp
    next
      case False
      with Cons obtain xs ys where "rs = xs @ r # ys" "\<forall>x \<in> set xs. \<not> P x" "P r" by auto
      with False show ?thesis by (intro exI [of _ "x # xs"] exI [of _ ys]) simp
    qed
  qed simp
  show "find P rs = Some r" if "?R rs"
  proof -
    from that obtain xs ys where "rs = xs @ r # ys" "\<forall>x \<in> set xs. \<not> P x" "P r" by blast
    then show ?thesis by (induction xs arbitrary: rs) auto
  qed
qed

lemma authenticate_record:
  "authenticate sha256 cid bearer now st = Inr h \<Longrightarrow> \<exists>r \<in> set (au_records st). h = handle_of_record r"
  by (auto simp: authenticate_def Let_def first_match_find dest!: find_SomeD split: option.splits if_splits)

lemma length_store_flags [simp]: "length (store_flags p rs cells) = length cells"
  by (induction rs arbitrary: cells) auto

lemma cell_load_update: "cell_load (cells[c := True]) d \<longleftrightarrow> cell_load cells d \<or> d = c \<and> c < length cells"
  by (cases "d = c") (auto simp: cell_load_def)

lemma cell_load_store_flags:
  "cell_load (store_flags p rs cells) c \<longleftrightarrow>
     cell_load cells c \<or> c < length cells \<and> (\<exists>r \<in> set rs. ar_principal_id r = p \<and> ar_revoked r = c)"
  by (induction rs arbitrary: cells) (auto simp: cell_load_update)

lemma cell_load_append: "cell_load (cells @ [False]) c \<longleftrightarrow> cell_load cells c"
  by (auto simp: cell_load_def nth_append)

lemma require_all_iff:
  "require_all h ctx cs = Inr () \<longleftrightarrow>
     (\<forall>c \<in> set cs. capset_contains (ch_capabilities h) c \<and> capset_contains (rc_capabilities ctx) c)"
  by (induction cs) (auto simp: require_capability_def handle_allows_def)

subsection \<open>Handles over time\<close>

text \<open>The store, the latest clock reading it has seen, and the handles it has handed out.\<close>

inductive authority_run ::
  "(string \<Rightarrow> digest) \<Rightarrow> nat \<Rightarrow> time \<Rightarrow> capability_handle list \<Rightarrow> authority_store \<Rightarrow> bool" for sha256 capacity where
  run_new: "authority_run sha256 capacity now [] (authority_with_capacity capacity)"
| run_enroll: "authority_run sha256 capacity t hs st \<Longrightarrow> t \<le> now \<Longrightarrow>
    enroll_hash now cid h p caps expires st = (Inr handle, st') \<Longrightarrow> authority_run sha256 capacity now (handle # hs) st'"
| run_refused: "authority_run sha256 capacity t hs st \<Longrightarrow> t \<le> now \<Longrightarrow>
    enroll_hash now cid h p caps expires st = (Inl e, st') \<Longrightarrow> authority_run sha256 capacity now hs st'"
| run_authenticate: "authority_run sha256 capacity t hs st \<Longrightarrow> t \<le> now \<Longrightarrow>
    authenticate sha256 cid bearer now st = Inr handle \<Longrightarrow> authority_run sha256 capacity now (handle # hs) st"
| run_revoke: "authority_run sha256 capacity t hs st \<Longrightarrow> authority_run sha256 capacity t hs (authority_revoke p st)"

text \<open>A handle is dead, or the record it was made from is still in the store.\<close>

definition tracked :: "authority_store \<Rightarrow> time \<Rightarrow> capability_handle \<Rightarrow> bool" where
  "tracked st t h \<longleftrightarrow> ch_revoked h < length (au_cells st) \<and>
     (is_invalid_at st h t \<or> (\<exists>r \<in> set (au_records st). handle_of_record r = h))"

definition authority_inv :: "nat \<Rightarrow> authority_store \<Rightarrow> bool" where
  "authority_inv capacity st \<longleftrightarrow> au_capacity st = capacity \<and> length (au_records st) \<le> capacity \<and>
     (\<forall>r \<in> set (au_records st). ar_revoked r < length (au_cells st)) \<and> distinct (map ar_revoked (au_records st))"

lemma enroll_cases:
  assumes "enroll_hash now cid h p caps expires st = (r, st')"
  obtains (expired) "r = Inl (authentication_error cid)" "st' = st" "expires \<le> now"
  | (full) live where "r = Inl (authority_exhausted_error cid)" "st' = st\<lparr>au_records := live\<rparr>"
      "live = filter (\<lambda>r. now < ar_expires_at r \<and> \<not> cell_load (au_cells st) (ar_revoked r)) (au_records st)"
  | (enrolled) live rec where "r = Inr (handle_of_record rec)" "now < expires" "length live < au_capacity st"
      "rec = \<lparr>ar_token_hash = h, ar_principal_id = p, ar_capabilities = capset_new caps, ar_expires_at = expires,
              ar_revoked = length (au_cells st)\<rparr>"
      "st' = st\<lparr>au_records := live @ [rec], au_cells := au_cells st @ [False]\<rparr>"
      "live = filter (\<lambda>r. now < ar_expires_at r \<and> \<not> cell_load (au_cells st) (ar_revoked r)) (au_records st)"
  using assms by (auto simp: enroll_hash_def Let_def not_le split: if_splits)

lemma is_invalid_mono: "is_invalid_at st h t \<Longrightarrow> t \<le> now \<Longrightarrow> is_invalid_at st h now"
  by (auto simp: is_invalid_at_def)

text \<open>Dropping dead records and adding cells keeps every handle tracked.\<close>

lemma tracked_retain:
  assumes "tracked st t h" "t \<le> now"
    "set (filter (\<lambda>r. now < ar_expires_at r \<and> \<not> cell_load (au_cells st) (ar_revoked r)) (au_records st)) \<subseteq> set (au_records st')"
    "au_cells st' = au_cells st \<or> au_cells st' = au_cells st @ [False]"
  shows "tracked st' now h"
proof -
  have cells: "cell_load (au_cells st') c \<longleftrightarrow> cell_load (au_cells st) c" for c
    using assms(4) by (auto simp: cell_load_append)
  have "is_invalid_at st' h now" if "is_invalid_at st h t"
    using is_invalid_mono [OF that assms(2)] by (simp add: is_invalid_at_def cells)
  moreover have "is_invalid_at st' h now \<or> r \<in> set (au_records st')"
    if "r \<in> set (au_records st)" "handle_of_record r = h" for r
    using that assms(3) by (auto simp: is_invalid_at_def cells handle_of_record_def)
  moreover have "ch_revoked h < length (au_cells st')" using assms(1,4) by (auto simp: tracked_def)
  ultimately show ?thesis using assms(1) by (auto simp: tracked_def)
qed

lemma authority_run_tracked:
  assumes "authority_run sha256 capacity t hs st"
  shows "authority_inv capacity st \<and> (\<forall>h \<in> set hs. tracked st t h)"
  using assms
proof (induction rule: authority_run.induct)
  case (run_new now)
  then show ?case by (simp add: authority_inv_def authority_with_capacity_def)
next
  case (run_enroll t hs st now cid h p caps expires handle st')
  from run_enroll.hyps(3) show ?case
  proof (cases rule: enroll_cases)
    case (enrolled live rec)
    have "tracked st' now x" if "x \<in> set hs" for x
      by (rule tracked_retain [OF _ run_enroll.hyps(2)]) (use run_enroll.IH that enrolled in auto)
    moreover have "tracked st' now handle" using enrolled by (auto simp: tracked_def handle_of_record_def)
    moreover have "distinct (map ar_revoked live)"
      using run_enroll.IH enrolled(6) by (simp add: authority_inv_def distinct_map_filter)
    ultimately show ?thesis using run_enroll.IH enrolled by (fastforce simp: authority_inv_def less_Suc_eq)
  qed simp_all
next
  case (run_refused t hs st now cid h p caps expires e st')
  from run_refused.hyps(3) show ?case
  proof (cases rule: enroll_cases)
    case expired
    have "tracked st' now x" if "x \<in> set hs" for x
      by (rule tracked_retain [OF _ run_refused.hyps(2)]) (use run_refused.IH that expired in auto)
    with run_refused.IH expired show ?thesis by simp
  next
    case (full live)
    have "tracked st' now x" if "x \<in> set hs" for x
      by (rule tracked_retain [OF _ run_refused.hyps(2)]) (use run_refused.IH that full in auto)
    moreover have "length live \<le> capacity"
      using run_refused.IH full(3) by (simp add: authority_inv_def) (metis (no_types, lifting) le_trans length_filter_le)
    ultimately show ?thesis using run_refused.IH full by (auto simp: authority_inv_def distinct_map_filter)
  qed simp_all
next
  case (run_authenticate t hs st now cid bearer handle)
  have "tracked st now x" if "x \<in> set hs" for x
    by (rule tracked_retain [OF _ run_authenticate.hyps(2)]) (use run_authenticate.IH that in auto)
  moreover obtain r where "r \<in> set (au_records st)" "handle = handle_of_record r"
    using authenticate_record [OF run_authenticate.hyps(3)] by blast
  moreover have "ar_revoked r < length (au_cells st)" using run_authenticate.IH calculation(2) by (simp add: authority_inv_def)
  ultimately show ?case using run_authenticate.IH by (auto simp: tracked_def handle_of_record_def)
next
  case (run_revoke t hs st p)
  then show ?case
    by (auto simp: tracked_def authority_inv_def authority_revoke_def is_invalid_at_def cell_load_store_flags)
qed

section \<open>Properties\<close>

text \<open>C35. Revoking a principal ends every handle it holds: each handle the store has ever handed out
  for that principal, by enrolment or authentication, is invalid at once and stays invalid, and the
  handles of other principals are as valid as before. The store never exceeds its capacity.\<close>

theorem revoke_reaches_handles:
  assumes "authority_run sha256 capacity t hs st" "h \<in> set hs" "t \<le> now"
  shows "length (au_records st) \<le> capacity \<and>
         (if ch_principal_id h = p then is_invalid_at (authority_revoke p st) h now
          else is_invalid_at (authority_revoke p st) h now = is_invalid_at st h now)"
proof -
  note inv = authority_run_tracked [OF assms(1)]
  then have tr: "tracked st t h" using assms(2) by blast
  show ?thesis
  proof (cases "ch_principal_id h = p")
    case True
    have "is_invalid_at (authority_revoke p st) h now"
    proof (cases "is_invalid_at st h t")
      case True
      from is_invalid_mono [OF this assms(3)] show ?thesis
        by (auto simp: is_invalid_at_def authority_revoke_def cell_load_store_flags)
    next
      case False
      with tr True show ?thesis
        by (force simp: tracked_def is_invalid_at_def authority_revoke_def cell_load_store_flags handle_of_record_def)
    qed
    with True inv show ?thesis by (simp add: authority_inv_def)
  next
    case False
    have "ch_revoked h \<noteq> ar_revoked r" if "\<not> is_invalid_at st h t" "r \<in> set (au_records st)" "ar_principal_id r = p" for r
    proof
      assume eq: "ch_revoked h = ar_revoked r"
      from tr that(1) obtain r' where r': "r' \<in> set (au_records st)" "handle_of_record r' = h" by (auto simp: tracked_def)
      then have "ar_revoked r' = ar_revoked r" using eq by (auto simp: handle_of_record_def)
      then have "r' = r" using inv r'(1) that(2) by (auto simp: authority_inv_def distinct_map inj_on_def)
      with r'(2) that(3) False show False by (auto simp: handle_of_record_def)
    qed
    then have "is_invalid_at (authority_revoke p st) h now = is_invalid_at st h now"
      using is_invalid_mono [OF _ assms(3)]
      by (cases "is_invalid_at st h t") (force simp: is_invalid_at_def authority_revoke_def cell_load_store_flags)+
    with False inv show ?thesis by (simp add: authority_inv_def)
  qed
qed

text \<open>The toy digest and encoding of the examples.\<close>

definition demo_sha :: "string \<Rightarrow> digest" where
  "demo_sha s = map (\<lambda>c. word_of_nat (of_char c)) s"

definition demo_encode :: "bytes \<Rightarrow> string" where
  "demo_encode bs = map (\<lambda>b. char_of (unat b)) bs"

definition demo_authority :: "capability_handle \<times> authority_store" where
  "demo_authority =
     (case enroll_hash 5 1 (demo_sha ''tok'') (PrincipalId 7) [JobRead] 20 (authority_with_capacity 2) of
        (Inr h, st) \<Rightarrow> (h, st)
      | (Inl _, st) \<Rightarrow> (handle_of_record \<lparr>ar_token_hash = [], ar_principal_id = PrincipalId 0, ar_capabilities = {}, ar_expires_at = 0, ar_revoked = 0\<rparr>, st))"

lemma demo_authority_eval:
  "enroll_hash 5 1 (demo_sha ''tok'') (PrincipalId 7) [JobRead] 20 (authority_with_capacity 2)
     = (Inr (fst demo_authority), snd demo_authority)"
  "ch_principal_id (fst demo_authority) = PrincipalId 7"
  by (simp_all add: demo_authority_def enroll_hash_def authority_with_capacity_def handle_of_record_def Let_def)

theorem revoke_reaches_handles_witness:
  "is_invalid_at (authority_revoke (PrincipalId 7) (snd demo_authority)) (fst demo_authority) 9"
proof -
  have "authority_run demo_sha 2 5 [fst demo_authority] (snd demo_authority)"
    by (rule run_enroll [OF run_new [of _ _ 5] _ demo_authority_eval(1)]) simp
  from revoke_reaches_handles [OF this, of "fst demo_authority" 9 "PrincipalId 7"] demo_authority_eval(2)
  show ?thesis by simp
qed

text \<open>C36. A bearer is accepted exactly when it is of admissible length and the first record enrolled
  under its digest is neither revoked nor expired, and the handle carries that record's principal,
  capabilities and expiry.\<close>

theorem authenticate_exact:
  "authenticate sha256 cid bearer now st = Inr h \<longleftrightarrow>
     length bearer \<le> 4096 \<and>
     (\<exists>xs r ys. au_records st = xs @ r # ys \<and> sha256 bearer \<notin> ar_token_hash ` set xs \<and>
        ar_token_hash r = sha256 bearer \<and> \<not> cell_load (au_cells st) (ar_revoked r) \<and> now < ar_expires_at r \<and>
        h = handle_of_record r)"
proof -
  have eq: "(\<forall>x \<in> set xs. ar_token_hash x \<noteq> d) \<longleftrightarrow> d \<notin> ar_token_hash ` set xs" for xs :: "authority_record list" and d by auto
  have find: "find (\<lambda>r. ar_token_hash r = d) rs = Some r \<longleftrightarrow>
      (\<exists>xs ys. rs = xs @ r # ys \<and> d \<notin> ar_token_hash ` set xs \<and> ar_token_hash r = d)" for d rs and r :: authority_record
    unfolding find_first eq ..
  have "authenticate sha256 cid bearer now st = Inr h \<longleftrightarrow> length bearer \<le> 4096 \<and>
      (\<exists>r. find (\<lambda>r. ar_token_hash r = sha256 bearer) (au_records st) = Some r \<and>
         \<not> cell_load (au_cells st) (ar_revoked r) \<and> now < ar_expires_at r \<and> h = handle_of_record r)"
    by (cases "length bearer \<le> 4096")
       (auto simp: authenticate_def Let_def first_match_find not_le split: option.splits if_splits)
  then show ?thesis unfolding find by blast
qed

text \<open>A token that was issued authenticates, until it expires, with the principal and capabilities
  it was issued for, provided no older record has the same digest.\<close>

theorem issue_authenticates:
  assumes "authority_issue sha256 encode now cid token who caps expires st = (Inr bearer, st')"
    "\<forall>r \<in> set (au_records st). ar_token_hash r \<noteq> sha256 bearer" "length bearer \<le> 4096" "later < expires"
  shows "\<exists>h. authenticate sha256 cid' bearer later st' = Inr h \<and> ch_principal_id h = who \<and>
             ch_capabilities h = set caps \<and> ch_expires_at h = expires \<and> is_valid_at st' h later"
proof -
  from assms(1) obtain h0 where "enroll_hash now cid (sha256 bearer) who caps expires st = (Inr h0, st')"
    by (auto simp: authority_issue_def Let_def split: option.splits prod.splits sum.splits)
  then obtain live rec where e: "st' = st\<lparr>au_records := live @ [rec], au_cells := au_cells st @ [False]\<rparr>"
    "live = filter (\<lambda>r. now < ar_expires_at r \<and> \<not> cell_load (au_cells st) (ar_revoked r)) (au_records st)"
    "rec = \<lparr>ar_token_hash = sha256 bearer, ar_principal_id = who, ar_capabilities = capset_new caps,
            ar_expires_at = expires, ar_revoked = length (au_cells st)\<rparr>"
    by (cases rule: enroll_cases) auto
  have "find (\<lambda>r. ar_token_hash r = sha256 bearer) live = None" using assms(2) e(2) by (auto simp: find_None_iff)
  then have "find (\<lambda>r. ar_token_hash r = sha256 bearer) (live @ [rec]) = Some rec"
    using e(3) by (induction live) (auto split: if_splits)
  moreover have "\<not> cell_load (au_cells st @ [False]) (length (au_cells st))" by (simp add: cell_load_def nth_append)
  ultimately show ?thesis using assms(3,4) e(1,3)
    by (simp add: authenticate_def Let_def first_match_find handle_of_record_def capset_new_def is_valid_at_def is_invalid_at_def)
qed

theorem issue_authenticates_witness:
  "\<exists>bearer st' h. authority_issue demo_sha demo_encode 5 1 (Some [116, 111, 107]) (PrincipalId 7) [JobRead] 20
       (authority_with_capacity 2) = (Inr bearer, st') \<and>
     authenticate demo_sha 2 bearer 6 st' = Inr h \<and> ch_principal_id h = PrincipalId 7"
proof -
  let ?i = "authority_issue demo_sha demo_encode 5 1 (Some [116, 111, 107]) (PrincipalId 7) [JobRead] 20 (authority_with_capacity 2)"
  have i: "?i = (Inr (demo_encode [116, 111, 107]), snd ?i)"
    by (simp add: authority_issue_def enroll_hash_def authority_with_capacity_def Let_def)
  have "length (demo_encode [116, 111, 107]) \<le> 4096" by (simp add: demo_encode_def)
  from issue_authenticates [OF i _ this, of 6 2] i show ?thesis by (auto simp: authority_with_capacity_def)
qed

text \<open>C37. An operation is authorized exactly when the deadline lies ahead, the credential is live, the
  request speaks for the credential's principal, and both the credential and the request carry
  every capability the operation requires; the first failing check decides the error.\<close>

theorem authorize_exact:
  "(authorize st now h ctx op = Inr () \<longleftrightarrow>
      now < rc_deadline ctx \<and> is_valid_at st h now \<and> rc_principal_id ctx = ch_principal_id h \<and>
      set (operation_required op) \<subseteq> ch_capabilities h \<inter> rc_capabilities ctx) \<and>
   (\<forall>e. authorize st now h ctx op = Inl e \<longrightarrow> \<not> ie_retryable e \<and> ie_correlation_id e = rc_correlation_id ctx \<and>
      ie_code e = (if rc_deadline ctx \<le> now then IeDeadlineExceeded
                   else if is_invalid_at st h now \<or> rc_principal_id ctx \<noteq> ch_principal_id h then IeAuthenticationFailed
                   else IeMissingCapability))"
proof -
  have err: "require_all h ctx cs = Inl e \<Longrightarrow> \<not> ie_retryable e \<and> ie_correlation_id e = rc_correlation_id ctx \<and> ie_code e = IeMissingCapability"
    for cs e by (induction cs) (auto simp: require_capability_def guard_error_def split: if_splits)
  have "authorize st now h ctx op = Inr () \<longleftrightarrow>
      now < rc_deadline ctx \<and> is_valid_at st h now \<and> rc_principal_id ctx = ch_principal_id h \<and>
      set (operation_required op) \<subseteq> ch_capabilities h \<inter> rc_capabilities ctx"
    using require_all_iff [of h ctx "operation_required op"]
    by (auto simp: authorize_def guard_validate_def validate_at_def is_valid_at_def capset_contains_def split: sum.splits if_splits)
  moreover have "\<not> ie_retryable e \<and> ie_correlation_id e = rc_correlation_id ctx \<and>
      ie_code e = (if rc_deadline ctx \<le> now then IeDeadlineExceeded
                   else if is_invalid_at st h now \<or> rc_principal_id ctx \<noteq> ch_principal_id h then IeAuthenticationFailed
                   else IeMissingCapability)" if "authorize st now h ctx op = Inl e" for e
    using that err by (auto simp: authorize_def guard_validate_def validate_at_def guard_error_def split: sum.splits if_splits)
  ultimately show ?thesis by blast
qed

theorem authorize_exact_witness:
  "authorize (snd demo_authority) 9 (fst demo_authority) (handle_context 3 12 None (fst demo_authority)) ReadJob = Inr ()"
proof -
  let ?h = "fst demo_authority" and ?st = "snd demo_authority"
  have "is_valid_at ?st ?h 9" "ch_capabilities ?h = {JobRead}"
    by (simp_all add: demo_authority_def enroll_hash_def authority_with_capacity_def handle_of_record_def Let_def
        capset_new_def is_valid_at_def is_invalid_at_def cell_load_def)
  then show ?thesis using authorize_exact [of ?st 9 ?h "handle_context 3 12 None ?h" ReadJob]
    by (simp add: handle_context_def)
qed

end
