(* ===== verification/Canonical_Json.thy ===== *)
theory Canonical_Json
  imports Jobs Authority "HOL-Library.List_Lexorder" "HOL-Library.Char_ord" "HOL-Library.Finite_Map"
begin

text \<open>
  The identity of an idempotent request (\<open>canonicalize\<close>, \<open>canonical_sha256\<close> and
  \<open>command_identity_sha256\<close> of \<open>interface-core/src/idempotency.rs\<close>). Objects keep their insertion
  order, the representation of \<open>serde_json\<close> under \<open>preserve_order\<close>. The serializer and the digest
  are parameters.
\<close>

section \<open>Canonical form\<close>

text \<open>Collecting pairs into an object: a later pair with an existing key replaces the value in place.\<close>

definition object_collect :: "(string \<times> json) list \<Rightarrow> (string \<times> json) list" where
  "object_collect kvs = foldl (\<lambda>m (k, v). AList.update k v m) [] kvs"

lemma object_member_size: "(k, v) \<in> set kvs \<Longrightarrow> size v < Suc (size_list (size_prod (\<lambda>_. 0) size) kvs)"
  by (induction kvs) auto

function canonicalize :: "json \<Rightarrow> json" where
  "canonicalize (JObject kvs) =
     JObject (object_collect (sort_key fst (map (\<lambda>kv. (fst kv, canonicalize (snd kv))) kvs)))"
| "canonicalize (JArray items) = JArray (map canonicalize items)"
| "canonicalize JNull = JNull"
| "canonicalize (JBool b) = JBool b"
| "canonicalize (JInt i) = JInt i"
| "canonicalize (JFloat f) = JFloat f"
| "canonicalize (JString s) = JString s"
  by pat_completeness auto

termination
  by (relation "measure size") (auto dest: object_member_size intro: le_imp_less_Suc size_list_estimation')

definition canonicalization_error :: "uuid \<Rightarrow> interface_error" where
  "canonicalization_error cid =
     \<lparr>ie_code = IeInvalidRequest, ie_layer = LayerInterface, ie_message = ''request cannot be canonicalized'',
      ie_correlation_id = cid, ie_command_id = None, ie_retryable = False, ie_retry_after_ms = None,
      ie_reconciliation_required = False, ie_required_capability = None\<rparr>"

text \<open>The serializer \<open>serde_json::to_vec\<close>, which may fail, and SHA-256.\<close>

record hasher =
  to_vec :: "json \<Rightarrow> bytes option"
  sha_digest :: "bytes \<Rightarrow> digest"

text \<open>\<open>value\<close> is the result of \<open>serde_json::to_value\<close> on the caller's type.\<close>

definition canonical_sha256 :: "hasher \<Rightarrow> uuid \<Rightarrow> json option \<Rightarrow> interface_error + digest" where
  "canonical_sha256 H cid value =
     (case value of
        None \<Rightarrow> Inl (canonicalization_error cid)
      | Some v \<Rightarrow>
          (case to_vec H (canonicalize v) of
             None \<Rightarrow> Inl (canonicalization_error cid)
           | Some bs \<Rightarrow> Inr (sha_digest H bs)))"

definition command_identity_sha256 ::
  "hasher \<Rightarrow> uuid \<Rightarrow> nat \<Rightarrow> json option \<Rightarrow> json option \<Rightarrow> json option \<Rightarrow> bool \<Rightarrow> interface_error + digest" where
  "command_identity_sha256 H cid schema session page command consent =
     (case (session, page, command) of
        (Some s, Some p, Some c) \<Rightarrow>
          canonical_sha256 H cid
            (Some (JObject [(''schemaVersion'', JInt (int schema)), (''sessionId'', s), (''pageId'', p),
                            (''command'', c), (''consent'', JBool consent)]))
      | _ \<Rightarrow> Inl (canonicalization_error cid))"

section \<open>The value a document denotes\<close>

text \<open>An object denotes a finite map from its keys: the order of the members is not part of it.\<close>

datatype json_value =
    VNull | VBool bool | VInt int | VFloat u64 | VString string | VArray "json_value list"
  | VObject "(string, json_value) fmap"

function meaning :: "json \<Rightarrow> json_value" where
  "meaning (JObject kvs) = VObject (fmap_of_list (map (\<lambda>kv. (fst kv, meaning (snd kv))) kvs))"
| "meaning (JArray items) = VArray (map meaning items)"
| "meaning JNull = VNull"
| "meaning (JBool b) = VBool b"
| "meaning (JInt i) = VInt i"
| "meaning (JFloat f) = VFloat f"
| "meaning (JString s) = VString s"
  by pat_completeness auto

termination
  by (relation "measure size") (auto dest: object_member_size intro: le_imp_less_Suc size_list_estimation')

text \<open>A document in memory: the members of every object have distinct keys.\<close>

function unique_keys :: "json \<Rightarrow> bool" where
  "unique_keys (JObject kvs) \<longleftrightarrow> distinct (map fst kvs) \<and> list_all (\<lambda>kv. unique_keys (snd kv)) kvs"
| "unique_keys (JArray items) \<longleftrightarrow> list_all unique_keys items"
| "unique_keys JNull \<longleftrightarrow> True"
| "unique_keys (JBool b) \<longleftrightarrow> True"
| "unique_keys (JInt i) \<longleftrightarrow> True"
| "unique_keys (JFloat f) \<longleftrightarrow> True"
| "unique_keys (JString s) \<longleftrightarrow> True"
  by pat_completeness auto

termination
  by (relation "measure size") (auto dest: object_member_size intro: le_imp_less_Suc size_list_estimation')

lemma map_of_map_snd: "map_of (map (\<lambda>kv. (fst kv, f (snd kv))) kvs) k = map_option f (map_of kvs k)"
  by (induction kvs) auto

lemma object_collect_distinct: "distinct (map fst kvs) \<Longrightarrow> object_collect kvs = kvs"
proof -
  have "foldl (\<lambda>m (k, v). AList.update k v m) acc kvs = acc @ kvs"
    if "distinct (map fst (acc @ kvs))" for acc
    using that
  proof (induction kvs arbitrary: acc)
    case (Cons kv kvs)
    have "AList.update (fst kv) (snd kv) acc = acc @ [kv]"
      using Cons.prems by (induction acc) auto
    with Cons.IH [of "acc @ [kv]"] Cons.prems show ?case by (simp add: case_prod_beta)
  qed simp
  then show "distinct (map fst kvs) \<Longrightarrow> ?thesis" by (simp add: object_collect_def)
qed

lemma distinct_sort_key: "distinct (map fst kvs) \<Longrightarrow> distinct (map fst (sort_key fst kvs))"
  by (metis distinct_sort mset_map mset_eq_imp_distinct_iff mset_sort)

lemma map_of_sort_key: "distinct (map fst kvs) \<Longrightarrow> map_of (sort_key fst kvs) = map_of kvs"
  by (rule map_of_inject_set [THEN iffD2]) (auto simp: distinct_sort_key)

text \<open>Two sorted member lists that are the same map are the same list.\<close>

lemma sorted_members_unique:
  assumes "sorted (map fst xs)" "sorted (map fst ys)" "distinct (map fst xs)" "distinct (map fst ys)"
    "map_of xs = map_of ys"
  shows "xs = ys"
proof -
  have "set xs = set ys" using assms(3-5) by (simp add: map_of_inject_set)
  then have "map fst xs = map fst ys"
    using assms(1-4) by (intro sorted_distinct_set_unique) auto
  moreover have "snd (xs ! i) = snd (ys ! i)" if "i < length xs" for i
  proof -
    have "length xs = length ys" using calculation map_eq_imp_length_eq by blast
    moreover have "fst (xs ! i) = fst (ys ! i)" using \<open>map fst xs = map fst ys\<close> that calculation by (metis nth_map)
    ultimately show ?thesis using that assms(3-5) by (metis map_of_is_SomeI nth_mem option.inject prod.collapse)
  qed
  ultimately show ?thesis by (metis list_eq_iff_nth_eq map_eq_imp_length_eq nth_map prod.expand)
qed

section \<open>Canonical forms represent values\<close>

definition canonical_members :: "(string \<times> json) list \<Rightarrow> (string \<times> json) list" where
  "canonical_members kvs = sort_key fst (map (\<lambda>kv. (fst kv, canonicalize (snd kv))) kvs)"

lemma canonical_members:
  assumes "distinct (map fst kvs)"
  shows "canonicalize (JObject kvs) = JObject (canonical_members kvs)"
    and "sorted (map fst (canonical_members kvs))" "distinct (map fst (canonical_members kvs))"
    and "map_of (canonical_members kvs) k = map_option canonicalize (map_of kvs k)"
proof -
  have d: "distinct (map fst (map (\<lambda>kv. (fst kv, canonicalize (snd kv))) kvs))"
    using assms by (simp add: comp_def)
  show "canonicalize (JObject kvs) = JObject (canonical_members kvs)"
    using distinct_sort_key [OF d] by (simp add: canonical_members_def object_collect_distinct)
  show "sorted (map fst (canonical_members kvs))" by (simp add: canonical_members_def)
  show "distinct (map fst (canonical_members kvs))"
    using distinct_sort_key [OF d] by (simp add: canonical_members_def)
  show "map_of (canonical_members kvs) k = map_option canonicalize (map_of kvs k)"
    unfolding canonical_members_def map_of_sort_key [OF d] by (rule map_of_map_snd)
qed

lemma fmap_of_list_eq_iff: "fmap_of_list xs = fmap_of_list ys \<longleftrightarrow> map_of xs = map_of ys"
  by (metis fmap_ext fmlookup_of_list)

lemma meaning_object_eq:
  "meaning (JObject xs) = meaning (JObject ys) \<longleftrightarrow> (\<forall>k. map_option meaning (map_of xs k) = map_option meaning (map_of ys k))"
  by (simp add: fmap_of_list_eq_iff fun_eq_iff map_of_map_snd)

lemma meaning_canonicalize: "unique_keys v \<Longrightarrow> meaning (canonicalize v) = meaning v"
proof (induction v rule: canonicalize.induct)
  case (1 kvs)
  then have d: "distinct (map fst kvs)" by simp
  have "map_option (\<lambda>v. meaning (canonicalize v)) (map_of kvs k) = map_option meaning (map_of kvs k)" for k
  proof (cases "map_of kvs k")
    case (Some v)
    then have "(k, v) \<in> set kvs" by (rule map_of_SomeD)
    with 1 Some show ?thesis by (auto simp: list_all_iff)
  qed simp
  then show ?case
    unfolding canonical_members(1) [OF d] meaning_object_eq canonical_members(4) [OF d]
    by (simp add: option.map_comp comp_def)
next
  case (2 items)
  then show ?case by (auto simp: list_all_iff)
qed auto

lemma canonicalize_meaning:
  "unique_keys a \<Longrightarrow> unique_keys c \<Longrightarrow> meaning a = meaning c \<Longrightarrow> canonicalize a = canonicalize c"
proof (induction a arbitrary: c rule: canonicalize.induct)
  case (1 kvs)
  then obtain ls where c: "c = JObject ls" by (cases c rule: meaning.cases) auto
  have d: "distinct (map fst kvs)" "distinct (map fst ls)" using 1 c by auto
  have m: "map_option meaning (map_of kvs k) = map_option meaning (map_of ls k)" for k
    using 1 c by (simp only: meaning_object_eq)
  have "map_option canonicalize (map_of kvs k) = map_option canonicalize (map_of ls k)" for k
  proof (cases "map_of kvs k")
    case None
    then show ?thesis using m [of k] by simp
  next
    case (Some v)
    then obtain w where w: "map_of ls k = Some w" "meaning v = meaning w" using m [of k] by (cases "map_of ls k") auto
    have kv: "(k, v) \<in> set kvs" "(k, w) \<in> set ls" using Some w(1) by (auto dest: map_of_SomeD)
    have u: "unique_keys v" "unique_keys w" using 1(2,3) c kv by (auto simp: list_all_iff)
    have "canonicalize v = canonicalize w" using 1(1) [OF kv(1), of w] u w(2) by simp
    with w(1) Some show ?thesis by simp
  qed
  then have "map_of (canonical_members kvs) = map_of (canonical_members ls)"
    using canonical_members(4) [OF d(1)] canonical_members(4) [OF d(2)] by auto
  then have "canonical_members kvs = canonical_members ls"
    using canonical_members(2,3) [OF d(1)] canonical_members(2,3) [OF d(2)] by (intro sorted_members_unique) auto
  then show ?case using c canonical_members(1) [OF d(1)] canonical_members(1) [OF d(2)] by simp
next
  case (2 items)
  then obtain ls where c: "c = JArray ls" by (cases c rule: meaning.cases) auto
  then have eq: "map meaning items = map meaning ls" using 2 by simp
  then have len: "length items = length ls" by (rule map_eq_imp_length_eq)
  have "canonicalize (items ! i) = canonicalize (ls ! i)" if "i < length items" for i
    using 2 c that len eq by (auto simp: list_all_iff) (metis nth_map nth_mem)
  then have "map canonicalize items = map canonicalize ls" using len by (simp add: list_eq_iff_nth_eq)
  then show ?case using c by simp
qed (case_tac c rule: meaning.cases; simp)+

section \<open>Properties\<close>



end
