(* ===== verification/Idempotency.thy ===== *)
theory Idempotency
  imports Canonical_Json
begin

text \<open>
  The idempotency store (\<open>interface-core/src/idempotency.rs\<close>): reservations of request keys per
  principal, retained outcomes, expiry, eviction, and the writes to the durable ledger. What the store
  calls is a parameter: the trait \<open>RetainedOutcome\<close> is the record \<open>outcome_ops\<close> and the ledger of
  \<open>idempotency/durable.rs\<close> the record \<open>ledger_ops\<close>, whose operations the theory \<open>Idempotency_Ledger\<close>
  provides. One definition is one critical section under the store's lock; the tasks that run between
  two sections are the interleavings of \<open>Idempotency_Run\<close>.
\<close>

section \<open>Retained outcomes\<close>

record 'o outcome_ops =
  releases_reservation :: "'o \<Rightarrow> bool"
  safety_relevant :: "'o \<Rightarrow> bool"
  uncertain :: "'o \<Rightarrow> bool"
  durable_value :: "'o \<Rightarrow> json option"

datatype error_code =
    EcInvalidRequest | EcNotFound | EcDeadlineExceeded | EcBrowserLaunchFailed | EcBrowserCommandFailed
  | EcVerificationFailed | EcJournalFailed | EcResourceExhausted | EcPolicyDenied | EcInternal
  | EcTargetNotFound | EcTargetAmbiguous | EcFrameNotFound | EcShadowRootUnavailable | EcTargetDetached
  | EcTargetObscured | EcTargetOutOfBounds | EcWaitConditionTimedOut | EcScreenshotCaptureFailed
  | EcNetworkPolicyDenied | EcHttpResponseTooLarge | EcHttpTransferFailed | EcHttpStateConflict
  | EcHttpEquivalenceUnproven | EcIntentCompileFailed | EcIntentActionMismatch | EcObstructionSuspected
  | EcVisionAssistDenied | EcVisionAssistFailed | EcExpectedStatePreSatisfied | EcBoundaryAlreadyExecuted
  | EcVerificationCodeRequired

record command_error =
  ce_code :: error_code
  ce_message :: string
  ce_layer :: error_layer
  ce_retryable :: bool

text \<open>The evidence of an outcome is an opaque payload of type \<open>'e\<close>.\<close>

datatype 'e command_outcome =
    CoCompleted uuid "'e list"
  | CoRetryableFailure uuid command_error
  | CoNeedsReconciliation uuid command_error "'e list"
  | CoPolicyDenied uuid command_error
  | CoResourceExhausted uuid command_error u64
  | CoRestarted uuid uuid uuid string "'e list"
  | CoFailed uuid command_error "'e list"

fun outcome_releases :: "'e command_outcome \<Rightarrow> bool" where
  "outcome_releases (CoRetryableFailure _ _) = True"
| "outcome_releases (CoResourceExhausted _ _ _) = True"
| "outcome_releases (CoPolicyDenied _ _) = True"
| "outcome_releases (CoFailed _ err _) = ce_retryable err"
| "outcome_releases _ = False"

fun outcome_command_id :: "'e command_outcome \<Rightarrow> uuid" where
  "outcome_command_id (CoCompleted i _) = i"
| "outcome_command_id (CoRetryableFailure i _) = i"
| "outcome_command_id (CoNeedsReconciliation i _ _) = i"
| "outcome_command_id (CoPolicyDenied i _) = i"
| "outcome_command_id (CoResourceExhausted i _ _) = i"
| "outcome_command_id (CoRestarted i _ _ _ _) = i"
| "outcome_command_id (CoFailed i _ _) = i"

fun is_completed :: "'e command_outcome \<Rightarrow> bool" where
  "is_completed (CoCompleted _ _) = True"
| "is_completed _ = False"

fun is_needs_reconciliation :: "'e command_outcome \<Rightarrow> bool" where
  "is_needs_reconciliation (CoNeedsReconciliation _ _ _) = True"
| "is_needs_reconciliation _ = False"

text \<open>\<open>uuid_text\<close> prints a command id.\<close>

definition command_outcome_ops :: "(uuid \<Rightarrow> string) \<Rightarrow> 'e command_outcome outcome_ops" where
  "command_outcome_ops uuid_text =
     \<lparr>releases_reservation = outcome_releases, safety_relevant = (\<lambda>oc. \<not> is_completed oc),
      uncertain = is_needs_reconciliation,
      durable_value = (\<lambda>oc. Some (JString (uuid_text (outcome_command_id oc))))\<rparr>"

text \<open>Session states and workflow checkpoints are opaque; \<open>to_value\<close> serializes the outcome.\<close>

datatype ('s, 'c) session_checkpoint_outcome = ScSession 's | ScCheckpoint 'c

definition session_checkpoint_ops ::
  "(('s, 'c) session_checkpoint_outcome \<Rightarrow> json option) \<Rightarrow> ('s, 'c) session_checkpoint_outcome outcome_ops" where
  "session_checkpoint_ops to_value =
     \<lparr>releases_reservation = (\<lambda>_. False), safety_relevant = (\<lambda>_. False), uncertain = (\<lambda>_. False),
      durable_value = to_value\<rparr>"

section \<open>Errors\<close>

definition conflict_error :: "uuid \<Rightarrow> interface_error" where
  "conflict_error cid =
     \<lparr>ie_code = IeIdempotencyConflict, ie_layer = LayerInterface,
      ie_message = ''idempotency key conflicts with a retained request'',
      ie_correlation_id = cid, ie_command_id = None, ie_retryable = False, ie_retry_after_ms = None,
      ie_reconciliation_required = False, ie_required_capability = None\<rparr>"

definition unresolved_error :: "uuid \<Rightarrow> interface_error" where
  "unresolved_error cid =
     \<lparr>ie_code = IeIdempotencyConflict, ie_layer = LayerInterface,
      ie_message = ''idempotency outcome is unresolved; inspect the authoritative operation before retrying'',
      ie_correlation_id = cid, ie_command_id = None, ie_retryable = False, ie_retry_after_ms = None,
      ie_reconciliation_required = True, ie_required_capability = None\<rparr>"

definition persistence_error :: "uuid \<Rightarrow> interface_error" where
  "persistence_error cid =
     \<lparr>ie_code = IeInternal, ie_layer = LayerInterface,
      ie_message = ''idempotency state could not be durably recorded'',
      ie_correlation_id = cid, ie_command_id = None, ie_retryable = False, ie_retry_after_ms = None,
      ie_reconciliation_required = True, ie_required_capability = None\<rparr>"

definition deadline_error :: "uuid \<Rightarrow> interface_error" where
  "deadline_error cid =
     \<lparr>ie_code = IeDeadlineExceeded, ie_layer = LayerInterface,
      ie_message = ''request deadline exceeded while awaiting idempotent result'',
      ie_correlation_id = cid, ie_command_id = None, ie_retryable = False, ie_retry_after_ms = None,
      ie_reconciliation_required = False, ie_required_capability = None\<rparr>"

definition idempotency_exhausted_error :: "uuid \<Rightarrow> interface_error" where
  "idempotency_exhausted_error cid =
     \<lparr>ie_code = IeResourceExhausted, ie_layer = LayerInterface,
      ie_message = ''idempotency capacity exhausted'',
      ie_correlation_id = cid, ie_command_id = None, ie_retryable = True, ie_retry_after_ms = Some 1000,
      ie_reconciliation_required = False, ie_required_capability = None\<rparr>"

section \<open>Entries and stores\<close>

text \<open>A watch channel is an index into the channels of the state, which hold the last update sent.\<close>

datatype 'o reservation_update = UpPending | UpReplay 'o | UpReleased | UpUnresolved

datatype 'o entry_state = EReserved u64 nat | ERetained 'o bool | EUnresolved

record 'o entry =
  en_key :: idempotency_key
  en_operation :: interface_operation
  en_sha :: digest
  en_state :: "'o entry_state"
  en_expires :: "time option"
  en_last_used :: u64

datatype durable_state = DReserved | DUnresolved | DRetained json

record durable_entry =
  de_principal :: principal_id
  de_key :: idempotency_key
  de_operation :: interface_operation
  de_sha :: digest
  de_expires :: "time option"
  de_last_used :: u64
  de_state :: durable_state

type_synonym ledger_key = "principal_id \<times> idempotency_key"

definition de_id :: "durable_entry \<Rightarrow> ledger_key" where
  "de_id de = (de_principal de, de_key de)"

text \<open>The dirty keys are a hash set: a list without repetitions.\<close>

record 'o store_state =
  ss_entries :: "(principal_id \<times> 'o entry list) list"
  ss_sequence :: u64
  ss_dirty :: "ledger_key list"
  ss_channels :: "'o reservation_update list"

definition default_state :: "'o store_state" where
  "default_state = \<lparr>ss_entries = [], ss_sequence = 0, ss_dirty = [], ss_channels = []\<rparr>"

text \<open>The error kinds of \<open>std::io\<close> the code distinguishes.\<close>

datatype ledger_error = LeInvalidData | LeWouldBlock | LeOther

text \<open>The ledger: \<open>'d\<close> is the disk and \<open>'w\<close> an open writer on it. Opening reports entries, or the reason
  they cannot be trusted.\<close>

record ('w, 'd) ledger_ops =
  lw_open :: "bool \<Rightarrow> time \<Rightarrow> 'd \<Rightarrow> (ledger_error \<times> 'd) + ('w \<times> (string + durable_entry list))"
  lw_needs_checkpoint :: "'w \<Rightarrow> bool"
  lw_checkpoint :: "durable_entry list \<Rightarrow> 'w \<Rightarrow> (ledger_error + unit) \<times> 'w"
  lw_append :: "durable_entry list \<Rightarrow> ledger_key list \<Rightarrow> 'w \<Rightarrow> (ledger_error + unit) \<times> 'w"
  lw_disk :: "'w \<Rightarrow> 'd"

record ('o, 'w, 'd) idem_env =
  ev_outcome :: "'o outcome_ops"
  ev_ledger :: "('w, 'd) ledger_ops"
  ev_value_len :: "json \<Rightarrow> nat option"
  ev_resolve :: "json \<Rightarrow> 'o option"

record ('o, 'w) idempotency_store =
  id_per_principal_capacity :: nat
  id_global_capacity :: nat
  id_ttl :: int
  id_state :: "'o store_state"
  id_durable :: "'w option"
  id_failed :: bool
  id_integrity_issue :: "string option"

definition with_global_capacity :: "nat \<Rightarrow> nat \<Rightarrow> int \<Rightarrow> ('o, 'w) idempotency_store" where
  "with_global_capacity per_principal global ttl =
     \<lparr>id_per_principal_capacity = per_principal, id_global_capacity = global, id_ttl = ttl,
      id_state = default_state, id_durable = None, id_failed = False, id_integrity_issue = None\<rparr>"

definition sat_mul :: "nat \<Rightarrow> nat \<Rightarrow> nat" where
  "sat_mul a b = (if u64_max < a * b then u64_max else a * b)"

definition idempotency_new :: "nat \<Rightarrow> int \<Rightarrow> ('o, 'w) idempotency_store" where
  "idempotency_new per_principal ttl = with_global_capacity per_principal (sat_mul per_principal 64) ttl"

text \<open>Fifteen minutes, in seconds.\<close>

definition idempotency_default :: "('o, 'w) idempotency_store" where
  "idempotency_default = with_global_capacity 256 4096 900"

definition integrity_issue :: "('o, 'w) idempotency_store \<Rightarrow> string option" where
  "integrity_issue st =
     (case id_integrity_issue st of
        Some issue \<Rightarrow> Some issue
      | None \<Rightarrow> if id_durable st \<noteq> None \<and> id_failed st then Some ''ledgerWriteFailed'' else None)"

definition ensure_writable :: "uuid \<Rightarrow> ('o, 'w) idempotency_store \<Rightarrow> interface_error + unit" where
  "ensure_writable cid st =
     (if integrity_issue st \<noteq> None
      then Inl ((unresolved_error cid)\<lparr>ie_message := ''durable idempotency history requires repair before mutation''\<rparr>)
      else Inr ())"

section \<open>Expiry and eviction\<close>

definition remove_empty_buckets :: "'o store_state \<Rightarrow> 'o store_state" where
  "remove_empty_buckets s = s\<lparr>ss_entries := filter (\<lambda>b. snd b \<noteq> []) (ss_entries s)\<rparr>"

definition unexpired :: "time \<Rightarrow> 'o entry \<Rightarrow> bool" where
  "unexpired now e = (case en_expires e of None \<Rightarrow> True | Some t \<Rightarrow> now < t)"

definition expired_keys :: "time \<Rightarrow> (principal_id \<times> 'o entry list) list \<Rightarrow> ledger_key list" where
  "expired_keys now bs =
     concat (map (\<lambda>b. map (\<lambda>e. (fst b, en_key e)) (filter (\<lambda>e. \<not> unexpired now e) (snd b))) bs)"

definition cleanup_expired :: "time \<Rightarrow> 'o store_state \<Rightarrow> 'o store_state" where
  "cleanup_expired now s =
     remove_empty_buckets
       (s\<lparr>ss_entries := map (\<lambda>b. (fst b, filter (unexpired now) (snd b))) (ss_entries s),
          ss_dirty := fold List.insert (expired_keys now (ss_entries s)) (ss_dirty s)\<rparr>)"

fun entry_is_evictable :: "'o entry_state \<Rightarrow> bool" where
  "entry_is_evictable (ERetained _ safety) = (\<not> safety)"
| "entry_is_evictable _ = False"

definition entry_count :: "'o store_state \<Rightarrow> nat" where
  "entry_count s = sum_list (map (\<lambda>b. length (snd b)) (ss_entries s))"

text \<open>\<open>Iterator::min_by_key\<close>: the first element with the least key.\<close>

fun min_by_key :: "('a \<Rightarrow> 'k :: linorder) \<Rightarrow> 'a list \<Rightarrow> 'a option" where
  "min_by_key f [] = None"
| "min_by_key f (x # xs) =
     (case min_by_key f xs of None \<Rightarrow> Some x | Some y \<Rightarrow> if f x \<le> f y then Some x else Some y)"

definition evictable_indices :: "'o entry list \<Rightarrow> (nat \<times> 'o entry) list" where
  "evictable_indices es = filter (\<lambda>ie. entry_is_evictable (en_state (snd ie))) (enumerate 0 es)"

definition remove_oldest_evictable :: "'o entry list \<Rightarrow> (idempotency_key \<times> 'o entry list) option" where
  "remove_oldest_evictable es =
     map_option (\<lambda>ie. (en_key (es ! fst ie), remove_nth (fst ie) es))
       (min_by_key (\<lambda>ie. en_last_used (snd ie)) (evictable_indices es))"

lemma min_by_key_mem: "min_by_key f xs = Some x \<Longrightarrow> x \<in> set xs"
  by (induction xs arbitrary: x) (auto split: option.splits if_splits)

lemma evictable_indices_mem:
  "(i, e) \<in> set (evictable_indices es) \<longleftrightarrow> i < length es \<and> es ! i = e \<and> entry_is_evictable (en_state e)"
  by (auto simp: evictable_indices_def in_set_enumerate_eq)

lemma remove_oldest_evictable_SomeE:
  assumes "remove_oldest_evictable es = Some (k, es')"
  obtains i where "i < length es" "entry_is_evictable (en_state (es ! i))" "k = en_key (es ! i)" "es' = remove_nth i es"
  using assms by (auto simp: remove_oldest_evictable_def evictable_indices_mem dest!: min_by_key_mem)

text \<open>The loop of \<open>make_principal_room\<close> on the bucket it borrowed.\<close>

function evict_bucket ::
  "nat \<Rightarrow> principal_id \<Rightarrow> 'o entry list \<Rightarrow> ledger_key list \<Rightarrow> 'o entry list \<times> ledger_key list" where
  "evict_bucket capacity p es dirty =
     (if length es < capacity then (es, dirty)
      else case remove_oldest_evictable es of
             None \<Rightarrow> (es, dirty)
           | Some (k, es') \<Rightarrow> evict_bucket capacity p es' (List.insert (p, k) dirty))"
  by pat_completeness auto
termination
  by (relation "measure (\<lambda>(capacity, p, es, dirty). length es)") (auto elim!: remove_oldest_evictable_SomeE)

declare evict_bucket.simps [simp del]

definition make_principal_room :: "principal_id \<Rightarrow> nat \<Rightarrow> 'o store_state \<Rightarrow> 'o store_state" where
  "make_principal_room p capacity s =
     (case map_of (ss_entries s) p of
        None \<Rightarrow> s
      | Some es \<Rightarrow>
          (let (es', dirty) = evict_bucket capacity p es (ss_dirty s)
           in remove_empty_buckets (s\<lparr>ss_entries := AList.update p es' (ss_entries s), ss_dirty := dirty\<rparr>)))"

definition global_candidates :: "'o store_state \<Rightarrow> (u64 \<times> principal_id \<times> nat) list" where
  "global_candidates s =
     concat (map (\<lambda>b. map (\<lambda>ie. (en_last_used (snd ie), fst b, fst ie)) (evictable_indices (snd b))) (ss_entries s))"

definition evict_at :: "principal_id \<Rightarrow> nat \<Rightarrow> 'o store_state \<Rightarrow> 'o store_state" where
  "evict_at p i s =
     remove_empty_buckets
       (case map_of (ss_entries s) p of
          None \<Rightarrow> s
        | Some es \<Rightarrow> s\<lparr>ss_entries := AList.update p (remove_nth i es) (ss_entries s),
                        ss_dirty := List.insert (p, en_key (es ! i)) (ss_dirty s)\<rparr>)"

text \<open>The loop of \<open>make_global_room\<close> removes one entry per iteration, so the number of entries is fuel
  enough for it: \<open>evict_global_exit\<close> shows that it ends by its own condition.\<close>

fun evict_global :: "nat \<Rightarrow> nat \<Rightarrow> 'o store_state \<Rightarrow> 'o store_state" where
  "evict_global 0 capacity s = s"
| "evict_global (Suc fuel) capacity s =
     (if entry_count s < capacity then s
      else case min_by_key fst (global_candidates s) of
             None \<Rightarrow> s
           | Some (_, p, i) \<Rightarrow> evict_global fuel capacity (evict_at p i s))"

definition make_global_room :: "nat \<Rightarrow> 'o store_state \<Rightarrow> 'o store_state" where
  "make_global_room capacity s = evict_global (entry_count s) capacity s"

section \<open>Writing to the ledger\<close>

fun durable_entry_state ::
  "('o, 'w, 'd) idem_env \<Rightarrow> 'o entry_state \<Rightarrow> ledger_error + durable_state" where
  "durable_entry_state Env (EReserved _ _) = Inr DReserved"
| "durable_entry_state Env EUnresolved = Inr DUnresolved"
| "durable_entry_state Env (ERetained outcome _) =
     (case durable_value (ev_outcome Env) outcome of
        None \<Rightarrow> Inl LeOther
      | Some v \<Rightarrow>
          (case ev_value_len Env v of
             None \<Rightarrow> Inl LeOther
           | Some n \<Rightarrow> if 64 * 1024 < n then Inl LeOther else Inr (DRetained v)))"

definition durable_entry_of ::
  "('o, 'w, 'd) idem_env \<Rightarrow> principal_id \<Rightarrow> 'o entry \<Rightarrow> ledger_error + durable_entry" where
  "durable_entry_of Env p e =
     (case durable_entry_state Env (en_state e) of
        Inl err \<Rightarrow> Inl err
      | Inr state \<Rightarrow>
          Inr \<lparr>de_principal = p, de_key = en_key e, de_operation = en_operation e, de_sha = en_sha e,
               de_expires = en_expires e, de_last_used = en_last_used e, de_state = state\<rparr>)"

text \<open>\<open>collect\<close> into a \<open>Result\<close>: the first error wins.\<close>

fun collect_results :: "('e + 'a) list \<Rightarrow> 'e + 'a list" where
  "collect_results [] = Inr []"
| "collect_results (r # rs) =
     (case r of
        Inl e \<Rightarrow> Inl e
      | Inr x \<Rightarrow> (case collect_results rs of Inl e \<Rightarrow> Inl e | Inr xs \<Rightarrow> Inr (x # xs)))"

definition snapshot_entries ::
  "('o, 'w, 'd) idem_env \<Rightarrow> 'o store_state \<Rightarrow> ledger_error + durable_entry list" where
  "snapshot_entries Env s =
     collect_results (concat (map (\<lambda>b. map (durable_entry_of Env (fst b)) (snd b)) (ss_entries s)))"

text \<open>The loop over the dirty keys: an entry in the store is an update, a missing one a removal.\<close>

fun dirty_changes ::
  "('o, 'w, 'd) idem_env \<Rightarrow> 'o store_state \<Rightarrow> ledger_key list \<Rightarrow> ledger_error + durable_entry list \<times> ledger_key list" where
  "dirty_changes Env s [] = Inr ([], [])"
| "dirty_changes Env s ((p, k) # pks) =
     (case Option.bind (map_of (ss_entries s) p) (find (\<lambda>e. en_key e = k)) of
        Some e \<Rightarrow>
          (case durable_entry_of Env p e of
             Inl err \<Rightarrow> Inl err
           | Inr de \<Rightarrow> map_sum id (\<lambda>(us, rs). (de # us, rs)) (dirty_changes Env s pks))
      | None \<Rightarrow> map_sum id (\<lambda>(us, rs). (us, (p, k) # rs)) (dirty_changes Env s pks))"

text \<open>The write to perform: none, or a call on the writer.\<close>

definition pending_write ::
  "('o, 'w, 'd) idem_env \<Rightarrow> 'o store_state \<Rightarrow> 'w \<Rightarrow>
   ledger_error + ('w \<Rightarrow> (ledger_error + unit) \<times> 'w) option" where
  "pending_write Env s w =
     (let L = ev_ledger Env
      in if lw_needs_checkpoint L w
         then map_sum id (\<lambda>es. Some (lw_checkpoint L es)) (snapshot_entries Env s)
         else (case dirty_changes Env s (ss_dirty s) of
                 Inl err \<Rightarrow> Inl err
               | Inr (us, rs) \<Rightarrow> if us = [] \<and> rs = [] then Inr None else Inr (Some (lw_append L us rs))))"

definition clear_dirty :: "('o, 'w) idempotency_store \<Rightarrow> ('o, 'w) idempotency_store" where
  "clear_dirty st = st\<lparr>id_state := (id_state st)\<lparr>ss_dirty := []\<rparr>\<rparr>"

definition persist_locked ::
  "('o, 'w, 'd) idem_env \<Rightarrow> ('o, 'w) idempotency_store \<Rightarrow> (ledger_error + unit) \<times> ('o, 'w) idempotency_store" where
  "persist_locked Env st =
     (if integrity_issue st \<noteq> None then (Inl LeOther, st)
      else case id_durable st of
             None \<Rightarrow> (Inr (), clear_dirty st)
           | Some w \<Rightarrow>
               (case pending_write Env (id_state st) w of
                  Inl err \<Rightarrow> (Inl err, st)
                | Inr None \<Rightarrow> (Inr (), st)
                | Inr (Some write) \<Rightarrow>
                    (case write w of
                       (Inr _, w') \<Rightarrow> (Inr (), clear_dirty (st\<lparr>id_durable := Some w'\<rparr>))
                     | (Inl err, w') \<Rightarrow> (Inl err, st\<lparr>id_durable := Some w', id_failed := True\<rparr>))))"

section \<open>Reserving a key\<close>

record idem_request =
  rq_principal :: principal_id
  rq_key :: idempotency_key
  rq_operation :: interface_operation
  rq_sha :: digest
  rq_deadline :: time
  rq_correlation_id :: uuid

record idem_permit =
  pm_principal :: principal_id
  pm_key :: idempotency_key
  pm_operation :: interface_operation
  pm_sha :: digest
  pm_generation :: u64
  pm_correlation_id :: uuid
  pm_durable :: bool

datatype 'o idem_reservation = Acquired idem_permit | Replay 'o

datatype 'o lookup_result = LkReturn "interface_error + 'o" | LkWait nat | LkVacant

definition bucket_of :: "'o store_state \<Rightarrow> principal_id \<Rightarrow> 'o entry list" where
  "bucket_of s p = (case map_of (ss_entries s) p of None \<Rightarrow> [] | Some es \<Rightarrow> es)"

definition set_bucket :: "principal_id \<Rightarrow> 'o entry list \<Rightarrow> 'o store_state \<Rightarrow> 'o store_state" where
  "set_bucket p es s = s\<lparr>ss_entries := AList.update p es (ss_entries s)\<rparr>"

definition mark_dirty :: "ledger_key \<Rightarrow> 'o store_state \<Rightarrow> 'o store_state" where
  "mark_dirty pk s = s\<lparr>ss_dirty := List.insert pk (ss_dirty s)\<rparr>"

definition send_replace :: "nat \<Rightarrow> 'o reservation_update \<Rightarrow> 'o store_state \<Rightarrow> 'o store_state" where
  "send_replace ch up s = s\<lparr>ss_channels := (ss_channels s)[ch := up]\<rparr>"

fun state_uncertain :: "'o outcome_ops \<Rightarrow> 'o entry_state \<Rightarrow> bool" where
  "state_uncertain Ops EUnresolved = True"
| "state_uncertain Ops (ERetained outcome _) = uncertain Ops outcome"
| "state_uncertain Ops (EReserved _ _) = False"

fun lookup_answer :: "uuid \<Rightarrow> 'o entry_state \<Rightarrow> 'o lookup_result" where
  "lookup_answer cid (EReserved _ ch) = LkWait ch"
| "lookup_answer cid (ERetained outcome _) = LkReturn (Inr outcome)"
| "lookup_answer cid EUnresolved = LkReturn (Inl (unresolved_error cid))"

text \<open>The first section of \<open>reserve\<close>. The entry found moves to the end of its bucket.\<close>

definition reserve_lookup ::
  "'o outcome_ops \<Rightarrow> idem_request \<Rightarrow> time \<Rightarrow> 'o store_state \<Rightarrow> 'o lookup_result \<times> 'o store_state" where
  "reserve_lookup Ops rq now s0 =
     (let s1 = cleanup_expired now s0;
          s = s1\<lparr>ss_sequence := ss_sequence s1 + 1\<rparr>;
          p = rq_principal rq; k = rq_key rq; cid = rq_correlation_id rq; es = bucket_of s p
      in case position (\<lambda>e. en_key e = k) es of
           None \<Rightarrow> (LkVacant, s)
         | Some i \<Rightarrow>
             (let e = es ! i; rest = remove_nth i es
              in if en_operation e \<noteq> rq_operation rq \<or> en_sha e \<noteq> rq_sha rq
                 then (LkReturn (Inl (if state_uncertain Ops (en_state e) then unresolved_error cid
                                      else conflict_error cid)),
                       set_bucket p (rest @ [e]) s)
                 else (lookup_answer cid (en_state e),
                       mark_dirty (p, k) (set_bucket p (rest @ [e\<lparr>en_last_used := ss_sequence s\<rparr>]) s))))"

text \<open>Replacing the state of the entry under a key, where there is one.\<close>

definition unresolve_key :: "principal_id \<Rightarrow> idempotency_key \<Rightarrow> 'o store_state \<Rightarrow> 'o store_state" where
  "unresolve_key p k s =
     (case map_of (ss_entries s) p of
        None \<Rightarrow> s
      | Some es \<Rightarrow> set_bucket p (update_first (\<lambda>e. en_key e = k) (\<lambda>e. e\<lparr>en_state := EUnresolved\<rparr>) es) s)"

text \<open>The entry a reservation creates, with a new channel.\<close>

definition insert_reserved :: "idem_request \<Rightarrow> 'o store_state \<Rightarrow> 'o store_state" where
  "insert_reserved rq s =
     (let generation = ss_sequence s + 1; p = rq_principal rq; k = rq_key rq
      in mark_dirty (p, k)
           (set_bucket p
              (bucket_of s p @
                 [\<lparr>en_key = k, en_operation = rq_operation rq, en_sha = rq_sha rq,
                   en_state = EReserved generation (length (ss_channels s)), en_expires = None,
                   en_last_used = generation\<rparr>])
              (s\<lparr>ss_sequence := generation, ss_channels := ss_channels s @ [UpPending]\<rparr>)))"

text \<open>The second section: \<open>None\<close> when the key was taken meanwhile.\<close>

definition make_room :: "principal_id \<Rightarrow> time \<Rightarrow> ('o, 'w) idempotency_store \<Rightarrow> 'o store_state" where
  "make_room p now st =
     make_global_room (id_global_capacity st)
       (make_principal_room p (id_per_principal_capacity st) (cleanup_expired now (id_state st)))"

definition no_room :: "principal_id \<Rightarrow> ('o, 'w) idempotency_store \<Rightarrow> 'o store_state \<Rightarrow> bool" where
  "no_room p st s \<longleftrightarrow>
     id_per_principal_capacity st = 0 \<or> id_global_capacity st = 0 \<or>
     id_per_principal_capacity st \<le> length (bucket_of s p) \<or> id_global_capacity st \<le> entry_count s"

definition reserve_acquire ::
  "('o, 'w, 'd) idem_env \<Rightarrow> idem_request \<Rightarrow> time \<Rightarrow> ('o, 'w) idempotency_store \<Rightarrow>
   (interface_error + idem_permit option) \<times> ('o, 'w) idempotency_store" where
  "reserve_acquire Env rq now st =
     (let p = rq_principal rq; k = rq_key rq; cid = rq_correlation_id rq
      in case ensure_writable cid st of
           Inl err \<Rightarrow> (Inl err, st)
         | Inr _ \<Rightarrow>
             if k \<in> en_key ` set (bucket_of (cleanup_expired now (id_state st)) p)
             then (Inr None, st\<lparr>id_state := cleanup_expired now (id_state st)\<rparr>)
             else (let s = make_room p now st
                   in if no_room p st s then (Inl (idempotency_exhausted_error cid), st\<lparr>id_state := s\<rparr>)
                      else (case persist_locked Env (st\<lparr>id_state := insert_reserved rq s\<rparr>) of
                              (Inl _, st') \<Rightarrow>
                                (Inl (persistence_error cid), st'\<lparr>id_state := unresolve_key p k (id_state st')\<rparr>)
                            | (Inr _, st') \<Rightarrow>
                                (Inr (Some \<lparr>pm_principal = p, pm_key = k, pm_operation = rq_operation rq,
                                            pm_sha = rq_sha rq, pm_generation = ss_sequence s + 1,
                                            pm_correlation_id = cid, pm_durable = (id_durable st \<noteq> None)\<rparr>),
                                 st'))))"

text \<open>The loop of \<open>reserve\<close> as a program counter. A step runs one section, or ends a wait: \<open>clock\<close> is the
  time the wait starts, \<open>woken\<close> tells whether the channel changed before the timeout, and \<open>clock'\<close> is
  the time after it.\<close>

datatype 'o reserve_pc =
    RpStart time | RpLookup time | RpWait nat | RpAcquire time | RpDone "interface_error + 'o idem_reservation"

fun reserve_wait ::
  "idem_request \<Rightarrow> nat \<Rightarrow> time \<Rightarrow> bool \<Rightarrow> time \<Rightarrow> 'o store_state \<Rightarrow> 'o reserve_pc" where
  "reserve_wait rq ch clock woken clock' s =
     (if rq_deadline rq < clock \<or> \<not> woken then RpDone (Inl (deadline_error (rq_correlation_id rq)))
      else case ss_channels s ! ch of
             UpReplay outcome \<Rightarrow> RpDone (Inr (Replay outcome))
           | UpUnresolved \<Rightarrow> RpDone (Inl (unresolved_error (rq_correlation_id rq)))
           | UpReleased \<Rightarrow> RpLookup clock'
           | UpPending \<Rightarrow> RpLookup clock')"

definition lookup_next :: "time \<Rightarrow> 'o lookup_result \<Rightarrow> 'o reserve_pc" where
  "lookup_next now r =
     (case r of
        LkReturn (Inl err) \<Rightarrow> RpDone (Inl err)
      | LkReturn (Inr outcome) \<Rightarrow> RpDone (Inr (Replay outcome))
      | LkWait ch \<Rightarrow> RpWait ch
      | LkVacant \<Rightarrow> RpAcquire now)"

fun reserve_step ::
  "('o, 'w, 'd) idem_env \<Rightarrow> idem_request \<Rightarrow> time \<times> bool \<times> time \<Rightarrow> 'o reserve_pc \<Rightarrow> ('o, 'w) idempotency_store \<Rightarrow>
   'o reserve_pc \<times> ('o, 'w) idempotency_store" where
  "reserve_step Env rq w (RpStart now) st =
     (case ensure_writable (rq_correlation_id rq) st of
        Inl err \<Rightarrow> (RpDone (Inl err), st) | Inr _ \<Rightarrow> (RpLookup now, st))"
| "reserve_step Env rq w (RpLookup now) st =
     (let (r, s) = reserve_lookup (ev_outcome Env) rq now (id_state st) in (lookup_next now r, st\<lparr>id_state := s\<rparr>))"
| "reserve_step Env rq (clock, woken, clock') (RpWait ch) st = (reserve_wait rq ch clock woken clock' (id_state st), st)"
| "reserve_step Env rq w (RpAcquire now) st =
     (case reserve_acquire Env rq now st of
        (Inl err, st') \<Rightarrow> (RpDone (Inl err), st')
      | (Inr None, st') \<Rightarrow> (RpLookup now, st')
      | (Inr (Some permit), st') \<Rightarrow> (RpDone (Inr (Acquired permit)), st'))"
| "reserve_step Env rq w (RpDone r) st = (RpDone r, st)"

section \<open>Giving a permit back\<close>

definition permit_matches :: "idem_permit \<Rightarrow> 'o entry \<Rightarrow> bool" where
  "permit_matches pm e \<longleftrightarrow>
     en_key e = pm_key pm \<and> en_operation e = pm_operation pm \<and> en_sha e = pm_sha pm \<and>
     (case en_state e of EReserved g _ \<Rightarrow> g = pm_generation pm | _ \<Rightarrow> False)"

fun state_channel :: "'o entry_state \<Rightarrow> nat option" where
  "state_channel (EReserved _ ch) = Some ch"
| "state_channel _ = None"

definition abandon_entry :: "idem_permit \<Rightarrow> 'o store_state \<Rightarrow> 'o store_state" where
  "abandon_entry pm s =
     (let p = pm_principal pm; es = bucket_of s p
      in case position (permit_matches pm) es of
           None \<Rightarrow> remove_empty_buckets s
         | Some i \<Rightarrow>
             (let s1 = remove_empty_buckets (set_bucket p (remove_nth i es) s)
              in case state_channel (en_state (es ! i)) of
                   None \<Rightarrow> s1
                 | Some ch \<Rightarrow> send_replace ch UpReleased (mark_dirty (p, pm_key pm) s1)))"

definition unresolve_entry :: "idem_permit \<Rightarrow> 'o store_state \<Rightarrow> 'o store_state" where
  "unresolve_entry pm s =
     (let p = pm_principal pm; es = bucket_of s p
      in case position (permit_matches pm) es of
           None \<Rightarrow> s
         | Some i \<Rightarrow>
             (case state_channel (en_state (es ! i)) of
                None \<Rightarrow> s
              | Some ch \<Rightarrow>
                  send_replace ch UpUnresolved
                    (mark_dirty (p, pm_key pm)
                       (set_bucket p (es[i := (es ! i)\<lparr>en_state := EUnresolved\<rparr>]) s))))"

text \<open>The destructor of an armed permit.\<close>

definition drop_permit :: "idem_permit \<Rightarrow> ('o, 'w) idempotency_store \<Rightarrow> ('o, 'w) idempotency_store" where
  "drop_permit pm st =
     st\<lparr>id_state := (if pm_durable pm then unresolve_entry pm (id_state st) else abandon_entry pm (id_state st))\<rparr>"

definition unresolved_for :: "idem_permit \<Rightarrow> 'o entry" where
  "unresolved_for pm =
     \<lparr>en_key = pm_key pm, en_operation = pm_operation pm, en_sha = pm_sha pm, en_state = EUnresolved,
      en_expires = None, en_last_used = pm_generation pm\<rparr>"

text \<open>The state \<open>finish_inner\<close> writes: the entry retained, or gone when the outcome releases it.\<close>

definition finish_state ::
  "'o outcome_ops \<Rightarrow> idem_permit \<Rightarrow> 'o \<Rightarrow> time \<Rightarrow> 'o entry \<Rightarrow> 'o entry list \<Rightarrow> 'o store_state \<Rightarrow> 'o store_state" where
  "finish_state Ops pm outcome expiry e rest s =
     (let p = pm_principal pm;
          s1 = (if releases_reservation Ops outcome then set_bucket p rest s
                else (let safety = safety_relevant Ops outcome; sq = ss_sequence s + 1
                      in set_bucket p
                           (rest @ [e\<lparr>en_last_used := sq, en_expires := (if safety then None else Some expiry),
                                     en_state := ERetained outcome safety\<rparr>])
                           (s\<lparr>ss_sequence := sq\<rparr>)))
      in remove_empty_buckets (mark_dirty (p, pm_key pm) s1))"

definition finish_failed :: "idem_permit \<Rightarrow> 'o store_state \<Rightarrow> 'o store_state" where
  "finish_failed pm s =
     (let p = pm_principal pm; es = bucket_of s p
      in set_bucket p
           (case position (\<lambda>e. en_key e = pm_key pm) es of
              Some i \<Rightarrow> es[i := (es ! i)\<lparr>en_state := EUnresolved, en_expires := None\<rparr>]
            | None \<Rightarrow> es @ [unresolved_for pm]) s)"

definition finish_update :: "'o outcome_ops \<Rightarrow> 'o \<Rightarrow> 'o reservation_update" where
  "finish_update Ops outcome = (if releases_reservation Ops outcome then UpReleased else UpReplay outcome)"

definition idem_finish ::
  "('o, 'w, 'd) idem_env \<Rightarrow> idem_permit \<Rightarrow> 'o \<Rightarrow> time \<Rightarrow> ('o, 'w) idempotency_store \<Rightarrow>
   (interface_error + unit) \<times> ('o, 'w) idempotency_store" where
  "idem_finish Env pm outcome now st =
     (let cid = pm_correlation_id pm; s = id_state st; p = pm_principal pm; es = bucket_of s p
      in case ensure_writable cid st of
           Inl err \<Rightarrow> (Inl err, drop_permit pm st)
         | Inr _ \<Rightarrow>
             (case position (\<lambda>e. en_key e = pm_key pm) es of
                None \<Rightarrow> (Inl (conflict_error cid), st)
              | Some i \<Rightarrow>
                  (let e = es ! i; rest = remove_nth i es
                   in if \<not> permit_matches pm e
                      then (Inl (conflict_error cid), st\<lparr>id_state := set_bucket p (rest @ [e]) s\<rparr>)
                      else case state_channel (en_state e) of
                             None \<Rightarrow> (Inl (conflict_error cid), st)
                           | Some ch \<Rightarrow>
                               (case persist_locked Env
                                       (st\<lparr>id_state := finish_state (ev_outcome Env) pm outcome (now + id_ttl st) e rest s\<rparr>) of
                                  (Inl _, st') \<Rightarrow>
                                    (Inl (persistence_error cid),
                                     st'\<lparr>id_state := send_replace ch UpUnresolved (finish_failed pm (id_state st'))\<rparr>)
                                | (Inr _, st') \<Rightarrow>
                                    (Inr (),
                                     st'\<lparr>id_state := send_replace ch (finish_update (ev_outcome Env) outcome) (id_state st')\<rparr>)))))"

definition idem_abandon ::
  "('o, 'w, 'd) idem_env \<Rightarrow> idem_permit \<Rightarrow> ('o, 'w) idempotency_store \<Rightarrow> ('o, 'w) idempotency_store" where
  "idem_abandon Env pm st =
     (case persist_locked Env (st\<lparr>id_state := abandon_entry pm (id_state st)\<rparr>) of
        (Inr _, st') \<Rightarrow> st'
      | (Inl _, st') \<Rightarrow>
          (let p = pm_principal pm; s = id_state st'
           in st'\<lparr>id_state := set_bucket p (bucket_of s p @ [unresolved_for pm]) s\<rparr>))"

section \<open>Opening a durable store\<close>

definition restored_state :: "('o, 'w, 'd) idem_env \<Rightarrow> durable_state \<Rightarrow> 'o entry_state" where
  "restored_state Env ds =
     (case ds of
        DReserved \<Rightarrow> EUnresolved
      | DUnresolved \<Rightarrow> EUnresolved
      | DRetained v \<Rightarrow>
          (case ev_resolve Env v of
             Some outcome \<Rightarrow> ERetained outcome (safety_relevant (ev_outcome Env) outcome)
           | None \<Rightarrow> EUnresolved))"

fun never_expires :: "'o entry_state \<Rightarrow> bool" where
  "never_expires EUnresolved = True"
| "never_expires (ERetained _ safety) = safety"
| "never_expires (EReserved _ _) = False"

text \<open>One iteration of the restore loop; the flag is \<open>protect_unknown\<close>.\<close>

definition restore_entry ::
  "('o, 'w, 'd) idem_env \<Rightarrow> time \<Rightarrow> durable_entry \<Rightarrow> 'o store_state \<times> bool \<Rightarrow> 'o store_state \<times> bool" where
  "restore_entry Env now de = (\<lambda>(s, protect).
     if (case de_expires de of None \<Rightarrow> False | Some t \<Rightarrow> t \<le> now) then (mark_dirty (de_id de) s, protect)
     else (let state = restored_state Env (de_state de);
               stale = never_expires state \<and> de_expires de \<noteq> None;
               p = de_principal de;
               s1 = (if stale then mark_dirty (de_id de) s else s);
               e = \<lparr>en_key = de_key de, en_operation = de_operation de, en_sha = de_sha de, en_state = state,
                    en_expires = (if never_expires state then None else de_expires de),
                    en_last_used = de_last_used de\<rparr>;
               s2 = set_bucket p (bucket_of s1 p @ [e]) s1
           in (s2\<lparr>ss_sequence := max (ss_sequence s2) (de_last_used de)\<rparr>, protect \<or> stale)))"

definition open_durable ::
  "('o, 'w, 'd) idem_env \<Rightarrow> bool \<Rightarrow> time \<Rightarrow> time \<Rightarrow> 'd \<Rightarrow> (ledger_error \<times> 'd) + ('o, 'w) idempotency_store" where
  "open_durable Env held open_now now d =
     (case lw_open (ev_ledger Env) held open_now d of
        Inl err \<Rightarrow> Inl err
      | Inr (w, Inl issue) \<Rightarrow>
          Inr (idempotency_default\<lparr>id_durable := Some w, id_integrity_issue := Some issue\<rparr>)
      | Inr (w, Inr entries) \<Rightarrow>
          (let (s, protect) = fold (restore_entry Env now) entries (default_state, False);
               st = idempotency_default\<lparr>id_durable := Some w, id_state := s\<rparr>
           in if protect
              then (case persist_locked Env st of
                      (Inr _, st') \<Rightarrow> Inr st'
                    | (Inl _, st') \<Rightarrow> Inr (st'\<lparr>id_integrity_issue := Some ''ledgerWriteFailed''\<rparr>))
              else Inr st))"

section \<open>What the store relies on\<close>

type_synonym ledger_map = "ledger_key \<Rightarrow> durable_entry option"

text \<open>The maps a ledger may hold: no more entries than the default capacities, each under its own key,
  reservations without an expiry and outcomes within the durable bound.\<close>

definition entry_ok :: "(json \<Rightarrow> nat option) \<Rightarrow> durable_entry \<Rightarrow> bool" where
  "entry_ok value_len de =
     (case de_state de of
        DRetained v \<Rightarrow> (case value_len v of None \<Rightarrow> False | Some n \<Rightarrow> n \<le> 64 * 1024)
      | _ \<Rightarrow> de_expires de = None)"

definition admissible :: "(json \<Rightarrow> nat option) \<Rightarrow> ledger_map \<Rightarrow> bool" where
  "admissible value_len m \<longleftrightarrow>
     finite (dom m) \<and> card (dom m) \<le> 4096 \<and> (\<forall>p. card {k. (p, k) \<in> dom m} \<le> 256) \<and>
     (\<forall>pk de. m pk = Some de \<longrightarrow> de_id de = pk \<and> entry_ok value_len de)"

definition entries_map :: "durable_entry list \<Rightarrow> ledger_map" where
  "entries_map des = map_of (map (\<lambda>de. (de_id de, de)) des)"

definition changed_map :: "durable_entry list \<Rightarrow> ledger_key list \<Rightarrow> ledger_map \<Rightarrow> ledger_map" where
  "changed_map us rs m = (\<lambda>pk. if pk \<in> set rs then None else m pk) ++ entries_map us"

text \<open>A change the ledger accepts: no key twice, and only present keys are removed.\<close>

definition proper_change :: "durable_entry list \<Rightarrow> ledger_key list \<Rightarrow> ledger_map \<Rightarrow> bool" where
  "proper_change us rs m \<longleftrightarrow> distinct (map de_id us @ rs) \<and> set rs \<subseteq> dom m"

lemma admissible_entry: "admissible value_len m \<Longrightarrow> m pk = Some de \<Longrightarrow> de_id de = pk \<and> entry_ok value_len de"
  unfolding admissible_def by blast

lemma entries_map_Some: "distinct (map de_id des) \<Longrightarrow> entries_map des pk = Some de \<longleftrightarrow> de \<in> set des \<and> de_id de = pk"
  by (auto simp: entries_map_def comp_def)

lemma entries_map_None: "entries_map des pk = None \<longleftrightarrow> pk \<notin> de_id ` set des"
  by (auto simp: entries_map_def map_of_eq_None_iff image_image)

text \<open>\<open>stored d (Some m)\<close>: whoever opens the ledger on disk \<open>d\<close> reads the map \<open>m\<close>; \<open>stored d None\<close>: the ledger
  is refused. \<open>ok w m\<close>: the writer \<open>w\<close> agrees with a disk that holds \<open>m\<close>. A call that fails leaves the
  old map, the new map or, for an append, a ledger that is refused.\<close>

locale change_log =
  fixes L :: "('w, 'd) ledger_ops"
    and value_len :: "json \<Rightarrow> nat option"
    and ok :: "'w \<Rightarrow> ledger_map \<Rightarrow> bool"
    and stored :: "'d \<Rightarrow> ledger_map option \<Rightarrow> bool"
  assumes ok_stored: "ok w m \<Longrightarrow> stored (lw_disk L w) (Some m)"
    and ok_admissible: "ok w m \<Longrightarrow> admissible value_len m"
    and checkpoint_ok:
      "ok w m \<Longrightarrow> distinct (map de_id des) \<Longrightarrow> admissible value_len (entries_map des) \<Longrightarrow>
       lw_checkpoint L des w = (Inr u, w') \<Longrightarrow> ok w' (entries_map des)"
    and checkpoint_failed:
      "ok w m \<Longrightarrow> distinct (map de_id des) \<Longrightarrow> admissible value_len (entries_map des) \<Longrightarrow>
       lw_checkpoint L des w = (Inl e, w') \<Longrightarrow>
       stored (lw_disk L w') (Some m) \<or> stored (lw_disk L w') (Some (entries_map des))"
    and append_ok:
      "ok w m \<Longrightarrow> \<not> lw_needs_checkpoint L w \<Longrightarrow> proper_change us rs m \<Longrightarrow>
       admissible value_len (changed_map us rs m) \<Longrightarrow>
       lw_append L us rs w = (Inr u, w') \<Longrightarrow> ok w' (changed_map us rs m)"
    and append_failed:
      "ok w m \<Longrightarrow> \<not> lw_needs_checkpoint L w \<Longrightarrow> proper_change us rs m \<Longrightarrow>
       admissible value_len (changed_map us rs m) \<Longrightarrow>
       lw_append L us rs w = (Inl e, w') \<Longrightarrow>
       stored (lw_disk L w') None \<or> stored (lw_disk L w') (Some m) \<or>
       stored (lw_disk L w') (Some (changed_map us rs m))"
    and open_stored:
      "stored d (Some m) \<Longrightarrow> lw_open L held now d = Inr (w, r) \<Longrightarrow>
       \<exists>des. r = Inr des \<and> distinct (map de_id des) \<and> entries_map des = m \<and> ok w m"
    and open_refused:
      "stored d None \<Longrightarrow> lw_open L held now d = Inr (w, r) \<Longrightarrow>
       (\<exists>issue. r = Inl issue) \<and> stored (lw_disk L w) None"
    and open_failed: "stored d i \<Longrightarrow> lw_open L held now d = Inl (e, d') \<Longrightarrow> stored d' i"

end
