(* ===== verification/Idempotency_State.thy ===== *)
theory Idempotency_State
  imports Idempotency
begin

text \<open>
  The state of the idempotency store seen through its keys: the entry under a key, the expiry and the
  eviction of entries as steps that only remove disposable ones, capacities and coherence, and the
  effect of each critical section on the key it works on.
\<close>

section \<open>Entries by key\<close>

definition view :: "'o store_state \<Rightarrow> ledger_key \<Rightarrow> 'o entry option" where
  "view s pk = find (\<lambda>e. en_key e = snd pk) (bucket_of s (fst pk))"

definition wf_state :: "'o store_state \<Rightarrow> bool" where
  "wf_state s \<longleftrightarrow> distinct (map fst (ss_entries s)) \<and> (\<forall>p. distinct (map en_key (bucket_of s p)))"

lemma find_key: "find (\<lambda>e. en_key e = k) es = map_of (map (\<lambda>e. (en_key e, e)) es) k"
  by (induction es) auto

lemma find_key_Some:
  "distinct (map en_key es) \<Longrightarrow> find (\<lambda>e. en_key e = k) es = Some e \<longleftrightarrow> e \<in> set es \<and> en_key e = k"
  unfolding find_key by (auto simp: comp_def)

lemma find_key_None: "find (\<lambda>e. en_key e = k) es = None \<longleftrightarrow> k \<notin> en_key ` set es"
  by (auto simp: find_None_iff)

lemma find_key_append:
  "find (\<lambda>e. en_key e = k) (xs @ ys) = (case find (\<lambda>e. en_key e = k) xs of None \<Rightarrow> find (\<lambda>e. en_key e = k) ys | r \<Rightarrow> r)"
  by (induction xs) auto

lemma remove_nth_split:
  assumes "i < length es"
  shows "\<exists>xs ys. es = xs @ es ! i # ys \<and> remove_nth i es = xs @ ys"
  using assms id_take_nth_drop [OF assms] by (auto simp: remove_nth_def)

lemma find_remove_nth:
  assumes "distinct (map en_key es)" "i < length es"
  shows "find (\<lambda>e. en_key e = k) (remove_nth i es) = (if k = en_key (es ! i) then None else find (\<lambda>e. en_key e = k) es)"
proof -
  from remove_nth_split [OF assms(2)] obtain xs ys where s: "es = xs @ es ! i # ys" "remove_nth i es = xs @ ys" by blast
  have "en_key (es ! i) \<notin> en_key ` set (xs @ ys)"
    using assms(1) by (subst (asm) s(1)) auto
  then have "find (\<lambda>e. en_key e = en_key (es ! i)) (xs @ ys) = None" by (simp only: find_key_None) simp
  moreover have "find (\<lambda>e. en_key e = k) es = find (\<lambda>e. en_key e = k) (xs @ ys)" if "k \<noteq> en_key (es ! i)"
    using that by (subst s(1)) (simp add: find_key_append split: option.splits)
  ultimately show ?thesis using s(2) by simp
qed

lemma distinct_remove_nth: "distinct (map en_key es) \<Longrightarrow> distinct (map en_key (remove_nth i es))"
proof (cases "i < length es")
  case True
  from remove_nth_split [OF True] obtain xs ys where s: "es = xs @ es ! i # ys" "remove_nth i es = xs @ ys" by blast
  show "distinct (map en_key es) \<Longrightarrow> ?thesis" unfolding s(2) by (subst (asm) s(1)) auto
qed (simp add: remove_nth_def)

lemma position_key:
  assumes "position (\<lambda>e. en_key e = k) es = Some i"
  shows "i < length es" "en_key (es ! i) = k" "find (\<lambda>e. en_key e = k) es = Some (es ! i)"
proof -
  from position_SomeD [OF assms] show "i < length es" "en_key (es ! i) = k" by auto
  from assms show "find (\<lambda>e. en_key e = k) es = Some (es ! i)"
    by (induction es arbitrary: i) (auto split: if_splits)
qed

lemma position_key_None: "position (\<lambda>e. en_key e = k) es = None \<longleftrightarrow> find (\<lambda>e. en_key e = k) es = None"
  by (auto simp: position_None_iff find_None_iff)

section \<open>Buckets\<close>

lemma bucket_set_bucket [simp]: "bucket_of (set_bucket p es s) q = (if q = p then es else bucket_of s q)"
  by (simp add: bucket_of_def set_bucket_def hmap_simps)

lemma bucket_frame [simp]:
  "bucket_of (mark_dirty pk s) = bucket_of s" "bucket_of (send_replace ch up s) = bucket_of s"
  "bucket_of (s\<lparr>ss_sequence := n\<rparr>) = bucket_of s" "bucket_of (s\<lparr>ss_dirty := dd\<rparr>) = bucket_of s"
  "bucket_of (s\<lparr>ss_channels := cs\<rparr>) = bucket_of s"
  by (auto simp: bucket_of_def mark_dirty_def send_replace_def fun_eq_iff)

lemma map_of_filter_values:
  "distinct (map fst m) \<Longrightarrow> map_of (filter (\<lambda>b. P (snd b)) m) k = (case map_of m k of Some v \<Rightarrow> if P v then Some v else None | None \<Rightarrow> None)"
  by (induction m) (auto split: option.splits simp: map_of_eq_None_iff)

lemma bucket_remove_empty [simp]:
  "distinct (map fst (ss_entries s)) \<Longrightarrow> bucket_of (remove_empty_buckets s) p = bucket_of s p"
  using map_of_filter_values [of "ss_entries s" "\<lambda>v. v \<noteq> []" p]
  by (auto simp: bucket_of_def remove_empty_buckets_def split: option.splits)

lemma keys_frame [simp]:
  "distinct (map fst (ss_entries s)) \<Longrightarrow> distinct (map fst (ss_entries (remove_empty_buckets s)))"
  "distinct (map fst (ss_entries s)) \<Longrightarrow> distinct (map fst (ss_entries (set_bucket p es s)))"
  "ss_entries (mark_dirty pk s) = ss_entries s" "ss_entries (send_replace ch up s) = ss_entries s"
  by (simp_all add: remove_empty_buckets_def set_bucket_def mark_dirty_def send_replace_def distinct_map_filter distinct_update)

lemma other_frame [simp]:
  "ss_dirty (set_bucket p es s) = ss_dirty s" "ss_channels (set_bucket p es s) = ss_channels s"
  "ss_dirty (remove_empty_buckets s) = ss_dirty s" "ss_channels (remove_empty_buckets s) = ss_channels s"
  "ss_dirty (send_replace ch up s) = ss_dirty s" "ss_channels (mark_dirty pk s) = ss_channels s"
  "ss_dirty (mark_dirty pk s) = List.insert pk (ss_dirty s)" "ss_channels (send_replace ch up s) = (ss_channels s)[ch := up]"
  "ss_sequence (set_bucket p es s) = ss_sequence s"
  by (simp_all add: set_bucket_def remove_empty_buckets_def mark_dirty_def send_replace_def)

lemma entry_count_sum:
  assumes "distinct (map fst (ss_entries s))" "finite P" "fst ` set (ss_entries s) \<subseteq> P"
  shows "entry_count s = (\<Sum>p \<in> P. length (bucket_of s p))"
proof -
  have b: "bucket_of s (fst x) = snd x" if "x \<in> set (ss_entries s)" for x
    using assms(1) that by (cases x) (simp add: bucket_of_def)
  have "entry_count s = (\<Sum>x \<in> set (ss_entries s). length (snd x))"
    using assms(1) by (simp add: entry_count_def sum_list_distinct_conv_sum_set distinct_map)
  also have "\<dots> = (\<Sum>p \<in> fst ` set (ss_entries s). length (bucket_of s p))"
    using assms(1) b by (subst sum.reindex) (auto simp: distinct_map)
  also have "\<dots> = (\<Sum>p \<in> P. length (bucket_of s p))"
  proof (rule sum.mono_neutral_left [OF assms(2,3)], rule ballI)
    fix p
    assume "p \<in> P - fst ` set (ss_entries s)"
    then have "map_of (ss_entries s) p = None" by (simp add: map_of_eq_None_iff)
    then show "length (bucket_of s p) = 0" by (simp add: bucket_of_def)
  qed
  finally show ?thesis .
qed

lemma entry_count_mono:
  assumes "distinct (map fst (ss_entries s))" "distinct (map fst (ss_entries s'))" "\<And>p. length (bucket_of s' p) \<le> length (bucket_of s p)"
  shows "entry_count s' \<le> entry_count s"
proof -
  let ?P = "fst ` set (ss_entries s) \<union> fst ` set (ss_entries s')"
  have "entry_count s' = (\<Sum>p \<in> ?P. length (bucket_of s' p))" by (rule entry_count_sum [OF assms(2)]) auto
  also have "\<dots> \<le> (\<Sum>p \<in> ?P. length (bucket_of s p))" by (rule sum_mono) (rule assms(3))
  also have "\<dots> = entry_count s" by (rule entry_count_sum [OF assms(1), symmetric]) auto
  finally show ?thesis .
qed

lemma entry_count_set_bucket:
  assumes "distinct (map fst (ss_entries s))"
  shows "entry_count (set_bucket p es s) + length (bucket_of s p) = entry_count s + length es"
proof -
  let ?P = "insert p (fst ` set (ss_entries s))"
  have d: "distinct (map fst (ss_entries (set_bucket p es s)))" using assms by simp
  have sub: "fst ` set (ss_entries (set_bucket p es s)) \<subseteq> ?P"
    using set_update_subset [of p es "ss_entries s"] by (force simp: set_bucket_def)
  have "entry_count (set_bucket p es s) = (\<Sum>q \<in> ?P. length (bucket_of (set_bucket p es s) q))"
    by (rule entry_count_sum [OF d _ sub]) simp
  moreover have "entry_count s = (\<Sum>q \<in> ?P. length (bucket_of s q))" by (rule entry_count_sum [OF assms]) auto
  ultimately show ?thesis by (simp add: sum.insert_remove)
qed

lemma entry_count_frame [simp]:
  "entry_count (mark_dirty pk s) = entry_count s" "entry_count (send_replace ch up s) = entry_count s"
  "entry_count (s\<lparr>ss_sequence := n\<rparr>) = entry_count s" "entry_count (s\<lparr>ss_channels := cs\<rparr>) = entry_count s"
  "entry_count (s\<lparr>ss_dirty := dd\<rparr>) = entry_count s"
  by (simp_all add: entry_count_def mark_dirty_def send_replace_def)

lemma entry_count_remove_empty [simp]: "entry_count (remove_empty_buckets s) = entry_count s"
proof -
  have "sum_list (map (\<lambda>b. length (snd b)) (filter (\<lambda>b. snd b \<noteq> []) bs)) = sum_list (map (\<lambda>b. length (snd b)) bs)" for bs :: "(principal_id \<times> 'a entry list) list"
    by (induction bs) auto
  then show ?thesis by (simp add: entry_count_def remove_empty_buckets_def)
qed

section \<open>Dropping entries\<close>

definition disposable :: "'o entry \<Rightarrow> bool" where
  "disposable e \<longleftrightarrow> entry_is_evictable (en_state e) \<or> en_expires e \<noteq> None"

text \<open>The state \<open>s'\<close> is \<open>s\<close> without some disposable entries, each of which is marked.\<close>

definition shrinks :: "'o store_state \<Rightarrow> 'o store_state \<Rightarrow> bool" where
  "shrinks s s' \<longleftrightarrow>
     wf_state s' \<and> ss_channels s' = ss_channels s \<and> distinct (ss_dirty s') \<and> set (ss_dirty s) \<subseteq> set (ss_dirty s') \<and>
     (\<forall>p. length (bucket_of s' p) \<le> length (bucket_of s p)) \<and>
     (\<forall>pk. view s' pk = view s pk \<or>
        view s' pk = None \<and> pk \<in> set (ss_dirty s') \<and> (\<exists>e. view s pk = Some e \<and> disposable e)) \<and>
     (\<forall>pk \<in> set (ss_dirty s') - set (ss_dirty s). view s pk \<noteq> None)"

lemma shrinksD:
  assumes "shrinks s s'"
  shows "wf_state s'" "ss_channels s' = ss_channels s" "distinct (ss_dirty s')" "set (ss_dirty s) \<subseteq> set (ss_dirty s')"
    "length (bucket_of s' p) \<le> length (bucket_of s p)"
    "view s' pk = view s pk \<or> view s' pk = None \<and> pk \<in> set (ss_dirty s') \<and> (\<exists>e. view s pk = Some e \<and> disposable e)"
    "pk \<in> set (ss_dirty s') \<Longrightarrow> pk \<notin> set (ss_dirty s) \<Longrightarrow> view s pk \<noteq> None"
  using assms unfolding shrinks_def by blast+

lemma shrinks_refl: "wf_state s \<Longrightarrow> distinct (ss_dirty s) \<Longrightarrow> shrinks s s"
  unfolding shrinks_def by blast

lemma shrinks_trans:
  assumes "shrinks s s1" "shrinks s1 s2"
  shows "shrinks s s2"
proof -
  note 1 = shrinksD [OF assms(1)] and 2 = shrinksD [OF assms(2)]
  have "view s2 pk = view s pk \<or> view s2 pk = None \<and> pk \<in> set (ss_dirty s2) \<and> (\<exists>e. view s pk = Some e \<and> disposable e)" for pk
    using 1(6) [of pk] 2(6) [of pk] 2(4) by (metis subsetD)
  moreover have "view s pk \<noteq> None" if "pk \<in> set (ss_dirty s2)" "pk \<notin> set (ss_dirty s)" for pk
    using 1(6,7) [of pk] 2(7) [of pk] that by (cases "pk \<in> set (ss_dirty s1)") auto
  moreover have "length (bucket_of s2 p) \<le> length (bucket_of s p)" for p using 1(5) [of p] 2(5) [of p] by simp
  moreover have "ss_channels s2 = ss_channels s" "set (ss_dirty s) \<subseteq> set (ss_dirty s2)" using 1(2,4) 2(2,4) by auto
  ultimately show ?thesis using 2(1,3) unfolding shrinks_def by blast
qed

lemma view_Some: "wf_state s \<Longrightarrow> view s pk = Some e \<longleftrightarrow> e \<in> set (bucket_of s (fst pk)) \<and> en_key e = snd pk"
  by (simp add: view_def wf_state_def find_key_Some)

lemma view_None: "view s pk = None \<longleftrightarrow> snd pk \<notin> en_key ` set (bucket_of s (fst pk))"
  by (simp add: view_def find_key_None)

lemma shrinksI:
  assumes "wf_state s" "wf_state s'" "ss_channels s' = ss_channels s" "distinct (ss_dirty s')" "set (ss_dirty s) \<subseteq> set (ss_dirty s')"
    and sub: "\<And>p. set (bucket_of s' p) \<subseteq> set (bucket_of s p)"
    and gone: "\<And>p e. e \<in> set (bucket_of s p) \<Longrightarrow> e \<notin> set (bucket_of s' p) \<Longrightarrow> disposable e \<and> (p, en_key e) \<in> set (ss_dirty s')"
    and new: "\<And>pk. pk \<in> set (ss_dirty s') \<Longrightarrow> pk \<notin> set (ss_dirty s) \<Longrightarrow> snd pk \<in> en_key ` set (bucket_of s (fst pk))"
  shows "shrinks s s'"
proof -
  have len: "length (bucket_of s' p) \<le> length (bucket_of s p)" for p
  proof -
    have "distinct (bucket_of s p)" "distinct (bucket_of s' p)" using assms(1,2) by (auto simp: wf_state_def distinct_map)
    then show ?thesis using sub [of p] by (metis card_mono distinct_card List.finite_set)
  qed
  have "view s' pk = view s pk \<or> view s' pk = None \<and> pk \<in> set (ss_dirty s') \<and> (\<exists>e. view s pk = Some e \<and> disposable e)" for pk
  proof (cases "view s pk")
    case None
    then have "view s' pk = None" using sub by (auto simp: view_None)
    then show ?thesis using None by simp
  next
    case (Some e)
    then have e: "e \<in> set (bucket_of s (fst pk))" "en_key e = snd pk" using assms(1) by (auto simp: view_Some)
    show ?thesis
    proof (cases "e \<in> set (bucket_of s' (fst pk))")
      case True
      then have "view s' pk = Some e" using e assms(2) by (simp add: view_Some)
      then show ?thesis using Some by simp
    next
      case False
      have "view s' pk = None"
      proof (rule ccontr)
        assume "view s' pk \<noteq> None"
        then obtain e' where e': "view s' pk = Some e'" by auto
        then have "e' \<in> set (bucket_of s' (fst pk))" using assms(2) by (simp add: view_Some)
        moreover have "view s pk = Some e'" using e' sub assms(1,2) by (auto simp: view_Some)
        ultimately show False using Some False by simp
      qed
      then show ?thesis using Some e gone [OF e(1) False] by auto
    qed
  qed
  then show ?thesis using assms(2-5) len new unfolding shrinks_def view_None by blast
qed

lemma distinct_fold_insert: "distinct ys \<Longrightarrow> distinct (fold List.insert xs ys)"
  by (induction xs arbitrary: ys) auto

lemma set_fold_insert: "set (fold List.insert xs ys) = set xs \<union> set ys"
  by (induction xs arbitrary: ys) auto

lemma bucket_cleanup:
  assumes "distinct (map fst (ss_entries s))"
  shows "bucket_of (cleanup_expired now s) p = filter (unexpired now) (bucket_of s p)"
    and "distinct (map fst (ss_entries (cleanup_expired now s)))"
proof -
  let ?s = "s\<lparr>ss_entries := map (\<lambda>b. (fst b, filter (unexpired now) (snd b))) (ss_entries s),
          ss_dirty := fold List.insert (expired_keys now (ss_entries s)) (ss_dirty s)\<rparr>"
  have d: "distinct (map fst (ss_entries ?s))" using assms by (simp add: comp_def)
  have "bucket_of ?s p = filter (unexpired now) (bucket_of s p)"
    by (simp add: bucket_of_def map_of_map_snd split: option.splits)
  then show "bucket_of (cleanup_expired now s) p = filter (unexpired now) (bucket_of s p)"
    using bucket_remove_empty [OF d] by (simp add: cleanup_expired_def)
  show "distinct (map fst (ss_entries (cleanup_expired now s)))"
    unfolding cleanup_expired_def by (rule keys_frame(1) [OF d])
qed

lemma expired_keys_mem:
  assumes "distinct (map fst (ss_entries s))"
  shows "pk \<in> set (expired_keys now (ss_entries s)) \<longleftrightarrow> (\<exists>e \<in> set (bucket_of s (fst pk)). en_key e = snd pk \<and> \<not> unexpired now e)"
proof -
  have b: "snd b = bucket_of s (fst b)" if "b \<in> set (ss_entries s)" for b
    using that map_of_is_SomeI [OF assms, of "fst b" "snd b"] by (simp add: bucket_of_def)
  have e: "\<exists>b \<in> set (ss_entries s). fst b = p \<and> e \<in> set (snd b)" if "e \<in> set (bucket_of s p)" for p e
  proof (cases "map_of (ss_entries s) p")
    case (Some es)
    then have "(p, es) \<in> set (ss_entries s)" "e \<in> set es" using that by (auto simp: bucket_of_def dest: map_of_SomeD)
    then show ?thesis by force
  qed (use that in \<open>simp add: bucket_of_def\<close>)
  have "pk \<in> set (expired_keys now (ss_entries s)) \<longleftrightarrow>
      (\<exists>b \<in> set (ss_entries s). \<exists>e \<in> set (snd b). pk = (fst b, en_key e) \<and> \<not> unexpired now e)"
    by (auto simp: expired_keys_def)
  also have "\<dots> \<longleftrightarrow> (\<exists>e \<in> set (bucket_of s (fst pk)). en_key e = snd pk \<and> \<not> unexpired now e)"
    using b e by (metis fst_conv prod.collapse snd_conv)
  finally show ?thesis .
qed

lemma shrinks_cleanup:
  assumes "wf_state s" "distinct (ss_dirty s)"
  shows "shrinks s (cleanup_expired now s)"
proof -
  have d: "distinct (map fst (ss_entries s))" using assms(1) by (simp add: wf_state_def)
  note b = bucket_cleanup [OF d, of now]
  have dirty: "set (ss_dirty (cleanup_expired now s)) = set (expired_keys now (ss_entries s)) \<union> set (ss_dirty s)"
    by (simp add: cleanup_expired_def set_fold_insert)
  show ?thesis
  proof (rule shrinksI [OF assms(1)])
    show "wf_state (cleanup_expired now s)" using b assms(1) by (simp add: wf_state_def distinct_map_filter)
    show "distinct (ss_dirty (cleanup_expired now s))" using assms(2) by (simp add: cleanup_expired_def distinct_fold_insert)
    show "snd pk \<in> en_key ` set (bucket_of s (fst pk))"
      if "pk \<in> set (ss_dirty (cleanup_expired now s))" "pk \<notin> set (ss_dirty s)" for pk
      using that expired_keys_mem [OF d, of pk now] by (auto simp: dirty intro: rev_image_eqI)
    show "disposable e \<and> (p, en_key e) \<in> set (ss_dirty (cleanup_expired now s))"
      if "e \<in> set (bucket_of s p)" "e \<notin> set (bucket_of (cleanup_expired now s) p)" for p e
      using that expired_keys_mem [OF d, of "(p, en_key e)" now] b(1) [of p]
      by (auto simp: dirty disposable_def unexpired_def split: option.splits)
  qed (auto simp: dirty b(1), simp add: cleanup_expired_def remove_empty_buckets_def)
qed

text \<open>Removing one evictable entry from a bucket.\<close>

lemma shrinks_remove:
  assumes wf: "wf_state s" and d: "distinct (ss_dirty s)"
    and i: "i < length (bucket_of s p)" "entry_is_evictable (en_state (bucket_of s p ! i))"
  shows "shrinks s (remove_empty_buckets
           (mark_dirty (p, en_key (bucket_of s p ! i)) (set_bucket p (remove_nth i (bucket_of s p)) s)))" (is "shrinks s ?s'")
proof -
  let ?es = "bucket_of s p"
  have keys: "distinct (map fst (ss_entries s))" using wf by (simp add: wf_state_def)
  have b: "bucket_of ?s' q = (if q = p then remove_nth i ?es else bucket_of s q)" for q using keys by simp
  show ?thesis
  proof (rule shrinksI [OF wf])
    show "wf_state ?s'" using wf b keys by (simp add: wf_state_def distinct_remove_nth)
    show "set (bucket_of ?s' q) \<subseteq> set (bucket_of s q)" for q using b [of q] set_remove_nth_subset [of i ?es] by auto
    show "disposable e \<and> (q, en_key e) \<in> set (ss_dirty ?s')" if "e \<in> set (bucket_of s q)" "e \<notin> set (bucket_of ?s' q)" for q e
    proof -
      have q: "q = p" using that b by (auto split: if_splits)
      from remove_nth_split [OF i(1)] obtain xs ys where "?es = xs @ ?es ! i # ys" "remove_nth i ?es = xs @ ys" by blast
      then have "e = ?es ! i" using that b q by (metis Un_iff in_set_conv_decomp set_append set_ConsD)
      then show ?thesis using i(2) q by (simp add: disposable_def)
    qed
    show "snd pk \<in> en_key ` set (bucket_of s (fst pk))" if "pk \<in> set (ss_dirty ?s')" "pk \<notin> set (ss_dirty s)" for pk
      using that i(1) by auto
  qed (use d in auto)
qed

lemma remove_empty_twice: "remove_empty_buckets (remove_empty_buckets s) = remove_empty_buckets s"
  by (simp add: remove_empty_buckets_def)

lemma shrinks_evict_bucket:
  assumes "wf_state s" "distinct (ss_dirty s)" "evict_bucket capacity p (bucket_of s p) (ss_dirty s) = (es', dirty')"
  shows "shrinks s (remove_empty_buckets ((set_bucket p es' s)\<lparr>ss_dirty := dirty'\<rparr>))"
proof -
  have "shrinks s (remove_empty_buckets ((set_bucket p es' s)\<lparr>ss_dirty := dirty'\<rparr>))"
    if "evict_bucket capacity p es dd = (es', dirty')" "shrinks s s1" "bucket_of s1 p = es" "ss_dirty s1 = dd"
      "\<And>q. q \<noteq> p \<Longrightarrow> bucket_of s1 q = bucket_of s q" for es dd s1
    using that
  proof (induction capacity p es dd arbitrary: s1 rule: evict_bucket.induct)
    case (1 capacity p es dd)
    show ?case
    proof (cases "length es < capacity \<or> remove_oldest_evictable es = None")
      case True
      then have r: "es' = es" "dirty' = dd" using "1.prems"(1) by (auto simp: evict_bucket.simps [of capacity p es dd] split: if_splits)
      note D = shrinksD [OF "1.prems"(2)]
      let ?s' = "remove_empty_buckets ((set_bucket p es' s)\<lparr>ss_dirty := dirty'\<rparr>)"
      have b: "bucket_of ?s' q = bucket_of s1 q" for q using assms(1) r "1.prems"(3,5) by (simp add: wf_state_def)
      have v: "view ?s' = view s1" by (simp add: view_def fun_eq_iff b)
      have "wf_state ?s'" using D(1) b assms(1) by (simp add: wf_state_def)
      then show ?thesis using D "1.prems"(4) r b v unfolding shrinks_def by (simp add: remove_empty_buckets_def set_bucket_def)
    next
      case False
      then obtain k es1 where rm: "remove_oldest_evictable es = Some (k, es1)" by auto
      from rm obtain i where i: "i < length es" "entry_is_evictable (en_state (es ! i))" "k = en_key (es ! i)" "es1 = remove_nth i es"
        by (rule remove_oldest_evictable_SomeE)
      have "evict_bucket capacity p es1 (List.insert (p, k) dd) = (es', dirty')"
        using "1.prems"(1) False rm by (simp add: evict_bucket.simps [of capacity p es dd])
      moreover have "shrinks s1 (remove_empty_buckets (mark_dirty (p, k) (set_bucket p es1 s1)))"
        using shrinks_remove [of s1 i p] shrinksD(1,3) [OF "1.prems"(2)] i "1.prems"(3) by simp
      ultimately show ?thesis
        using "1.IH" [OF _ rm refl, of "remove_empty_buckets (mark_dirty (p, k) (set_bucket p es1 s1))"] False
          shrinks_trans [OF "1.prems"(2)] "1.prems"(3-5) shrinksD(1) [OF "1.prems"(2)]
        by (simp add: wf_state_def)
    qed
  qed
  from this [OF assms(3) shrinks_refl [OF assms(1,2)] refl refl] show ?thesis by simp
qed

lemma shrinks_principal_room:
  assumes "wf_state s" "distinct (ss_dirty s)"
  shows "shrinks s (make_principal_room p capacity s)"
proof (cases "map_of (ss_entries s) p")
  case None
  then show ?thesis using shrinks_refl [OF assms] by (simp add: make_principal_room_def)
next
  case (Some es)
  obtain es' dirty' where e: "evict_bucket capacity p es (ss_dirty s) = (es', dirty')" by fastforce
  have "bucket_of s p = es" using Some by (simp add: bucket_of_def)
  then show ?thesis using shrinks_evict_bucket [OF assms, of capacity p es' dirty'] e Some
    by (simp add: make_principal_room_def set_bucket_def)
qed

lemma global_candidates_mem:
  assumes "wf_state s" "(u, p, i) \<in> set (global_candidates s)"
  shows "map_of (ss_entries s) p = Some (bucket_of s p)" "i < length (bucket_of s p)" "entry_is_evictable (en_state (bucket_of s p ! i))"
proof -
  from assms(2) obtain es where es: "(p, es) \<in> set (ss_entries s)" "i < length es" "entry_is_evictable (en_state (es ! i))"
    by (auto simp: global_candidates_def evictable_indices_mem)
  then have "map_of (ss_entries s) p = Some es" using assms(1) by (simp add: wf_state_def)
  with es show "map_of (ss_entries s) p = Some (bucket_of s p)" "i < length (bucket_of s p)" "entry_is_evictable (en_state (bucket_of s p ! i))"
    by (simp_all add: bucket_of_def)
qed

lemma evict_at_shrinks:
  assumes "wf_state s" "distinct (ss_dirty s)" "(u, p, i) \<in> set (global_candidates s)"
  shows "shrinks s (evict_at p i s)" "entry_count (evict_at p i s) < entry_count s"
proof -
  note c = global_candidates_mem [OF assms(1,3)]
  have e: "evict_at p i s = remove_empty_buckets (mark_dirty (p, en_key (bucket_of s p ! i)) (set_bucket p (remove_nth i (bucket_of s p)) s))"
    using c(1) by (simp add: evict_at_def mark_dirty_def set_bucket_def)
  show "shrinks s (evict_at p i s)" unfolding e by (rule shrinks_remove [OF assms(1,2) c(2,3)])
  have "distinct (map fst (ss_entries s))" using assms(1) by (simp add: wf_state_def)
  from entry_count_set_bucket [OF this, of p "remove_nth i (bucket_of s p)"] c(2)
  show "entry_count (evict_at p i s) < entry_count s" unfolding e by simp
qed

lemma shrinks_evict_global:
  "wf_state s \<Longrightarrow> distinct (ss_dirty s) \<Longrightarrow> shrinks s (evict_global fuel capacity s)"
proof (induction fuel arbitrary: s)
  case (Suc fuel)
  show ?case
  proof (cases "entry_count s < capacity \<or> min_by_key fst (global_candidates s) = None")
    case True
    then show ?thesis using shrinks_refl [OF Suc.prems] by auto
  next
    case False
    then obtain u p i where c: "min_by_key fst (global_candidates s) = Some (u, p, i)" by auto
    have s: "shrinks s (evict_at p i s)" by (rule evict_at_shrinks [OF Suc.prems min_by_key_mem [OF c]])
    from shrinks_trans [OF s Suc.IH [OF shrinksD(1,3) [OF s]]] False c show ?thesis by simp
  qed
qed (simp add: shrinks_refl)

text \<open>The fuel is enough: the loop ends by its own condition.\<close>

lemma evict_global_exit:
  "wf_state s \<Longrightarrow> distinct (ss_dirty s) \<Longrightarrow> entry_count s \<le> fuel \<Longrightarrow>
   entry_count (evict_global fuel capacity s) < capacity \<or> global_candidates (evict_global fuel capacity s) = []"
proof (induction fuel arbitrary: s)
  case 0
  have "global_candidates s = []"
  proof (rule ccontr)
    assume "global_candidates s \<noteq> []"
    then obtain c where "c \<in> set (global_candidates s)" by (cases "global_candidates s") auto
    then obtain u p i where "(u, p, i) \<in> set (global_candidates s)" by (metis prod_cases3)
    from evict_at_shrinks(2) [OF 0(1,2) this] 0(3) show False by simp
  qed
  then show ?case by simp
next
  case (Suc fuel)
  show ?case
  proof (cases "min_by_key fst (global_candidates s)")
    case None
    then have "global_candidates s = []" by (cases "global_candidates s") (auto split: option.splits if_splits)
    then show ?thesis using None by simp
  next
    case (Some c)
    then obtain u p i where c: "min_by_key fst (global_candidates s) = Some (u, p, i)" by (cases c) auto
    note e = evict_at_shrinks [OF Suc.prems(1,2) min_by_key_mem [OF c]]
    from Suc.IH [OF shrinksD(1,3) [OF e(1)]] e(2) Suc.prems(3) c show ?thesis by simp
  qed
qed

section \<open>Capacities and coherence, by key\<close>

lemma view_dom: "pk \<in> dom (view s) \<longleftrightarrow> snd pk \<in> en_key ` set (bucket_of s (fst pk))"
  using view_None [of s pk] by (simp add: domIff)

lemma bucket_known: "e \<in> set (bucket_of s p) \<Longrightarrow> p \<in> fst ` set (ss_entries s)"
  using map_of_eq_None_iff [of "ss_entries s" p] by (auto simp: bucket_of_def split: option.splits)

lemma finite_principal: "finite (dom v) \<Longrightarrow> finite {k. (p, k) \<in> dom v}"
  by (rule finite_subset [of _ "snd ` dom v"]) force+

lemma view_Sigma: "dom (view s) = Sigma (fst ` set (ss_entries s)) (\<lambda>p. en_key ` set (bucket_of s p))"
proof
  show "dom (view s) \<subseteq> Sigma (fst ` set (ss_entries s)) (\<lambda>p. en_key ` set (bucket_of s p))"
  proof
    fix pk
    assume "pk \<in> dom (view s)"
    then have k: "snd pk \<in> en_key ` set (bucket_of s (fst pk))" by (simp only: view_dom)
    then have "fst pk \<in> fst ` set (ss_entries s)" using bucket_known by blast
    with k show "pk \<in> Sigma (fst ` set (ss_entries s)) (\<lambda>p. en_key ` set (bucket_of s p))" by (metis SigmaI prod.collapse)
  qed
  show "Sigma (fst ` set (ss_entries s)) (\<lambda>p. en_key ` set (bucket_of s p)) \<subseteq> dom (view s)"
    by (rule subsetI, simp only: view_dom) auto
qed

lemma finite_view: "finite (dom (view s))"
  unfolding view_Sigma by (intro finite_SigmaI) auto

lemma length_bucket_view:
  assumes "wf_state s"
  shows "length (bucket_of s p) = card {k. (p, k) \<in> dom (view s)}"
proof -
  have "length (bucket_of s p) = card (en_key ` set (bucket_of s p))"
    using assms distinct_card [of "map en_key (bucket_of s p)"] by (simp add: wf_state_def)
  also have "en_key ` set (bucket_of s p) = {k. (p, k) \<in> dom (view s)}" by (simp only: view_dom fst_conv snd_conv) simp
  finally show ?thesis .
qed

lemma entry_count_view:
  assumes wf: "wf_state s"
  shows "entry_count s = card (dom (view s))"
proof -
  let ?P = "fst ` set (ss_entries s)"
  have "entry_count s = (\<Sum>p \<in> ?P. length (bucket_of s p))" by (rule entry_count_sum) (use wf in \<open>auto simp: wf_state_def\<close>)
  also have "\<dots> = (\<Sum>p \<in> ?P. card (en_key ` set (bucket_of s p)))"
    using wf distinct_card [of "map en_key (bucket_of s p)" for p] by (simp add: wf_state_def)
  also have "\<dots> = card (dom (view s))" unfolding view_Sigma by (rule card_SigmaI [symmetric]) auto
  finally show ?thesis .
qed

text \<open>Only a retained outcome that is not safety relevant expires, and a reservation has a channel.\<close>

definition coherent :: "nat \<Rightarrow> 'o entry \<Rightarrow> bool" where
  "coherent n e \<longleftrightarrow>
     (entry_is_evictable (en_state e) \<or> en_expires e = None) \<and>
     (\<forall>ch. state_channel (en_state e) = Some ch \<longrightarrow> ch < n)"

definition view_ok :: "nat \<Rightarrow> nat \<Rightarrow> nat \<Rightarrow> (ledger_key \<Rightarrow> 'o entry option) \<Rightarrow> bool" where
  "view_ok a g n v \<longleftrightarrow>
     finite (dom v) \<and> (\<forall>p. card {k. (p, k) \<in> dom v} \<le> a) \<and> card (dom v) \<le> g \<and>
     (\<forall>pk e. v pk = Some e \<longrightarrow> en_key e = snd pk \<and> coherent n e)"

definition state_ok :: "nat \<Rightarrow> nat \<Rightarrow> 'o store_state \<Rightarrow> bool" where
  "state_ok a g s \<longleftrightarrow> wf_state s \<and> distinct (ss_dirty s) \<and> view_ok a g (length (ss_channels s)) (view s)"

lemma coherent_disposable: "coherent n e \<Longrightarrow> disposable e \<longleftrightarrow> entry_is_evictable (en_state e)"
  by (auto simp: coherent_def disposable_def)

lemma view_ok_entry: "view_ok a g n v \<Longrightarrow> v pk = Some e \<Longrightarrow> en_key e = snd pk \<and> coherent n e"
  unfolding view_ok_def by blast

lemma view_ok_dom:
  assumes "view_ok a g n v" "dom v' \<subseteq> dom v" "\<And>pk e. v' pk = Some e \<Longrightarrow> en_key e = snd pk \<and> coherent n e"
  shows "view_ok a g n v'"
proof -
  have fin: "finite (dom v)" "finite {k. (p, k) \<in> dom v}" for p
    using assms(1) finite_principal [of v p] by (simp_all add: view_ok_def)
  have "card {k. (p, k) \<in> dom v'} \<le> a" for p
  proof -
    have "card {k. (p, k) \<in> dom v'} \<le> card {k. (p, k) \<in> dom v}" by (rule card_mono [OF fin(2)]) (use assms(2) in auto)
    also have "\<dots> \<le> a" using assms(1) by (simp add: view_ok_def)
    finally show ?thesis .
  qed
  moreover have "card (dom v') \<le> card (dom v)" by (rule card_mono [OF fin(1) assms(2)])
  then have "card (dom v') \<le> g" using assms(1) by (simp add: view_ok_def)
  ultimately show ?thesis using finite_subset [OF assms(2) fin(1)] assms(3) unfolding view_ok_def by blast
qed

lemma view_ok_sub:
  assumes "view_ok a g n v" "\<And>pk. v' pk = v pk \<or> v' pk = None"
  shows "view_ok a g n v'"
proof (rule view_ok_dom [OF assms(1)])
  show "dom v' \<subseteq> dom v"
  proof
    fix pk
    assume "pk \<in> dom v'"
    then show "pk \<in> dom v" using assms(2) [of pk] by auto
  qed
  show "en_key e = snd pk \<and> coherent n e" if "v' pk = Some e" for pk e
    using that assms(2) [of pk] view_ok_entry [OF assms(1), of pk e] by auto
qed

lemma view_ok_replace:
  assumes "view_ok a g n v" "v pk \<noteq> None" "en_key e = snd pk" "coherent n e"
  shows "view_ok a g n (v(pk \<mapsto> e))"
proof (rule view_ok_dom [OF assms(1)])
  show "dom (v(pk \<mapsto> e)) \<subseteq> dom v" using assms(2) by auto
  show "en_key e' = snd pk' \<and> coherent n e'" if "(v(pk \<mapsto> e)) pk' = Some e'" for pk' e'
    using that assms(3,4) view_ok_entry [OF assms(1), of pk' e'] by (auto split: if_splits)
qed

lemma view_ok_insert:
  assumes "view_ok a g n v" "v pk = None" "en_key e = snd pk" "coherent n e"
    "card {k. (fst pk, k) \<in> dom v} < a" "card (dom v) < g"
  shows "view_ok a g n (v(pk \<mapsto> e))"
proof -
  have fin: "finite (dom v)" "finite {k. (p, k) \<in> dom v}" for p
    using assms(1) finite_principal [of v p] by (simp_all add: view_ok_def)
  have "{k. (p, k) \<in> dom (v(pk \<mapsto> e))} = (if p = fst pk then insert (snd pk) {k. (p, k) \<in> dom v} else {k. (p, k) \<in> dom v})" for p
    by (cases pk) auto
  then have "card {k. (p, k) \<in> dom (v(pk \<mapsto> e))} \<le> a" for p
    using assms(1,5) fin(2) [of p] card_insert_le_m1 [of a] by (auto simp: view_ok_def card_insert_if)
  moreover have "card (dom (v(pk \<mapsto> e))) \<le> g" using assms(2,6) fin(1) by (simp add: card_insert_if)
  moreover have "en_key e' = snd pk' \<and> coherent n e'" if "(v(pk \<mapsto> e)) pk' = Some e'" for pk' e'
    using that assms(3,4) view_ok_entry [OF assms(1), of pk' e'] by (auto split: if_splits)
  ultimately show ?thesis using fin(1) unfolding view_ok_def by simp
qed

lemma coherent_mono: "coherent n e \<Longrightarrow> n \<le> n' \<Longrightarrow> coherent n' e"
  by (auto simp: coherent_def)

lemma view_ok_mono: "view_ok a g n v \<Longrightarrow> n \<le> n' \<Longrightarrow> view_ok a g n' v"
  unfolding view_ok_def using coherent_mono by blast

lemma state_ok_shrinks: "state_ok a g s \<Longrightarrow> shrinks s s' \<Longrightarrow> state_ok a g s'"
  unfolding state_ok_def using shrinksD [of s s'] by (metis view_ok_sub)

section \<open>Changing one entry\<close>

lemma view_set_bucket: "view (set_bucket p es s) pk = (if fst pk = p then find (\<lambda>e. en_key e = snd pk) es else view s pk)"
  by (simp add: view_def)

lemma view_frame [simp]:
  "view (mark_dirty pk s) = view s" "view (send_replace ch up s) = view s"
  "view (s\<lparr>ss_sequence := n\<rparr>) = view s" "view (s\<lparr>ss_channels := cs\<rparr>) = view s" "view (s\<lparr>ss_dirty := dd\<rparr>) = view s"
  by (simp_all add: view_def fun_eq_iff)

lemma wf_frame [simp]:
  "wf_state (mark_dirty pk s) = wf_state s" "wf_state (send_replace ch up s) = wf_state s"
  "wf_state (s\<lparr>ss_sequence := n\<rparr>) = wf_state s" "wf_state (s\<lparr>ss_channels := cs\<rparr>) = wf_state s" "wf_state (s\<lparr>ss_dirty := dd\<rparr>) = wf_state s"
  by (simp_all add: wf_state_def)

lemma wf_remove_empty: "wf_state s \<Longrightarrow> wf_state (remove_empty_buckets s)" and view_remove_empty: "wf_state s \<Longrightarrow> view (remove_empty_buckets s) = view s"
  by (simp_all add: wf_state_def view_def fun_eq_iff)

lemma wf_set_bucket: "wf_state s \<Longrightarrow> distinct (map en_key es) \<Longrightarrow> wf_state (set_bucket p es s)"
  by (simp add: wf_state_def)

text \<open>The entry at an index is replaced, moved to the end or removed; a new one is appended.\<close>

lemma bucket_effects:
  assumes "wf_state s" "i < length (bucket_of s p)" "k = en_key (bucket_of s p ! i)" "en_key e = k"
  shows "wf_state (set_bucket p (remove_nth i (bucket_of s p) @ [e]) s)"
    "view (set_bucket p (remove_nth i (bucket_of s p) @ [e]) s) = (view s)((p, k) \<mapsto> e)"
    "wf_state (set_bucket p ((bucket_of s p)[i := e]) s)"
    "view (set_bucket p ((bucket_of s p)[i := e]) s) = (view s)((p, k) \<mapsto> e)"
    "wf_state (set_bucket p (remove_nth i (bucket_of s p)) s)"
    "view (set_bucket p (remove_nth i (bucket_of s p)) s) = (view s)((p, k) := None)"
proof -
  let ?es = "bucket_of s p"
  have d: "distinct (map en_key ?es)" using assms(1) by (simp add: wf_state_def)
  note rm = find_remove_nth [OF d assms(2)]
  have "find (\<lambda>e. en_key e = k) (remove_nth i ?es) = None" using rm [of k] assms(3) by simp
  then have new: "k \<notin> en_key ` set (remove_nth i ?es)" by (simp only: find_key_None) simp
  have "distinct (map en_key (remove_nth i ?es @ [e]))" using distinct_remove_nth [OF d] new assms(4) by auto
  then show "wf_state (set_bucket p (remove_nth i ?es @ [e]) s)" by (rule wf_set_bucket [OF assms(1)])
  show "view (set_bucket p (remove_nth i ?es @ [e]) s) = (view s)((p, k) \<mapsto> e)"
    using assms(3,4) by (auto simp: fun_eq_iff view_set_bucket find_key_append rm view_def split: option.splits)
  show "wf_state (set_bucket p (remove_nth i ?es) s)" by (rule wf_set_bucket [OF assms(1) distinct_remove_nth [OF d]])
  show "view (set_bucket p (remove_nth i ?es) s) = (view s)((p, k) := None)"
    using assms(3) by (auto simp: fun_eq_iff view_set_bucket rm view_def)
  have km: "map en_key (?es[i := e]) = map en_key ?es"
    using assms(2-4) by (simp add: map_update) (metis list_update_id nth_map)
  have du: "distinct (map en_key (?es[i := e]))" using d km by (simp only:)
  show "wf_state (set_bucket p (?es[i := e]) s)" by (rule wf_set_bucket [OF assms(1) du])
  have "find (\<lambda>e. en_key e = k') (?es[i := e]) = (if k' = k then Some e else find (\<lambda>e. en_key e = k') ?es)" for k'
  proof (cases "k' = k")
    case True
    have "e \<in> set (?es[i := e])" using assms(2) by (simp add: set_update_memI)
    then show ?thesis using True assms(4) du by (simp add: find_key_Some)
  next
    case False
    have "find (\<lambda>e. en_key e = k') (?es[i := e]) = Some x \<longleftrightarrow> find (\<lambda>e. en_key e = k') ?es = Some x" for x
      unfolding find_key_Some [OF d] find_key_Some [OF du]
      using False assms(2-4) by (auto simp: in_set_conv_nth nth_list_update split: if_splits)
    then show ?thesis using False by (metis not_Some_eq)
  qed
  then show "view (set_bucket p (?es[i := e]) s) = (view s)((p, k) \<mapsto> e)"
    by (auto simp: fun_eq_iff view_set_bucket view_def)
qed

lemma append_effects:
  assumes "wf_state s" "view s (p, en_key e) = None"
  shows "wf_state (set_bucket p (bucket_of s p @ [e]) s)"
    "view (set_bucket p (bucket_of s p @ [e]) s) = (view s)((p, en_key e) \<mapsto> e)"
proof -
  have "en_key e \<notin> en_key ` set (bucket_of s p)" using assms(2) by (simp add: view_None)
  then have "distinct (map en_key (bucket_of s p @ [e]))" using assms(1) by (auto simp: wf_state_def)
  then show "wf_state (set_bucket p (bucket_of s p @ [e]) s)" by (rule wf_set_bucket [OF assms(1)])
  show "view (set_bucket p (bucket_of s p @ [e]) s) = (view s)((p, en_key e) \<mapsto> e)"
    using assms(2) by (auto simp: fun_eq_iff view_set_bucket find_key_append view_def split: option.splits)
qed

text \<open>The index of an entry, by its key and by its permit.\<close>

lemma view_position:
  assumes "view s (p, k) = Some e"
  obtains i where "position (\<lambda>e. en_key e = k) (bucket_of s p) = Some i" "i < length (bucket_of s p)" "bucket_of s p ! i = e" "en_key e = k"
proof -
  have "find (\<lambda>e. en_key e = k) (bucket_of s p) = Some e" using assms by (simp add: view_def)
  then obtain i where i: "position (\<lambda>e. en_key e = k) (bucket_of s p) = Some i"
    using position_key_None [of k "bucket_of s p"] by (cases "position (\<lambda>e. en_key e = k) (bucket_of s p)") auto
  from position_key [OF i] \<open>find _ _ = Some e\<close> show thesis using that [OF i] by simp
qed

lemma permit_position:
  assumes "wf_state s" "view s (p, pm_key pm) = Some e" "permit_matches pm e"
  obtains i where "position (permit_matches pm) (bucket_of s p) = Some i" "i < length (bucket_of s p)" "bucket_of s p ! i = e"
proof -
  have e: "e \<in> set (bucket_of s p)" using assms(1,2) by (simp add: view_Some)
  obtain i where i: "position (permit_matches pm) (bucket_of s p) = Some i"
    using e assms(3) position_None_iff [of "permit_matches pm" "bucket_of s p"]
    by (cases "position (permit_matches pm) (bucket_of s p)") auto
  have l: "i < length (bucket_of s p)" "permit_matches pm (bucket_of s p ! i)" using position_SomeD [OF i] by auto
  then have "view s (p, pm_key pm) = Some (bucket_of s p ! i)" using assms(1) by (auto simp: view_Some permit_matches_def)
  then show thesis using that [OF i l(1)] assms(2) by simp
qed

lemma permit_channel: "permit_matches pm e \<Longrightarrow> \<exists>ch. en_state e = EReserved (pm_generation pm) ch"
  by (auto simp: permit_matches_def split: entry_state.splits)

section \<open>The sections of the store\<close>

lemma lookup_effect:
  assumes "wf_state s" "distinct (ss_dirty s)" "reserve_lookup Ops rq now s = (r, s')"
    "pk = (rq_principal rq, rq_key rq)"
  obtains (vacant) s1 where "shrinks s s1" "view s1 pk = None" "r = LkVacant"
      "wf_state s'" "view s' = view s1" "ss_dirty s' = ss_dirty s1" "ss_channels s' = ss_channels s1"
  | (mismatch) s1 e where "shrinks s s1" "view s1 pk = Some e" "en_operation e \<noteq> rq_operation rq \<or> en_sha e \<noteq> rq_sha rq"
      "r = LkReturn (Inl (if state_uncertain Ops (en_state e) then unresolved_error (rq_correlation_id rq) else conflict_error (rq_correlation_id rq)))"
      "wf_state s'" "view s' = view s1" "ss_dirty s' = ss_dirty s1" "ss_channels s' = ss_channels s1"
  | (found) s1 e n where "shrinks s s1" "view s1 pk = Some e" "en_operation e = rq_operation rq" "en_sha e = rq_sha rq"
      "r = lookup_answer (rq_correlation_id rq) (en_state e)" "wf_state s'" "view s' = (view s1)(pk \<mapsto> e\<lparr>en_last_used := n\<rparr>)"
      "ss_dirty s' = List.insert pk (ss_dirty s1)" "ss_channels s' = ss_channels s1"
proof -
  let ?p = "rq_principal rq" and ?k = "rq_key rq" and ?c = "cleanup_expired now s"
  let ?s = "?c\<lparr>ss_sequence := ss_sequence ?c + 1\<rparr>"
  have sh: "shrinks s ?c" by (rule shrinks_cleanup [OF assms(1,2)])
  have wf: "wf_state ?s" using shrinksD(1) [OF sh] by simp
  show thesis
  proof (cases "view ?c pk")
    case None
    then have pos: "position (\<lambda>e. en_key e = ?k) (bucket_of ?s ?p) = None" using assms(4) by (simp add: view_def position_key_None)
    then have "r = LkVacant" "s' = ?s" using assms(3) by (auto simp: reserve_lookup_def Let_def)
    then show thesis using vacant [OF sh None] shrinksD(1) [OF sh] by simp
  next
    case (Some e)
    then have "view ?s (?p, ?k) = Some e" using assms(4) by simp
    then obtain i where i: "position (\<lambda>e. en_key e = ?k) (bucket_of ?s ?p) = Some i" "i < length (bucket_of ?s ?p)"
      "bucket_of ?s ?p ! i = e" "en_key e = ?k" by (rule view_position)
    show thesis
    proof (cases "en_operation e \<noteq> rq_operation rq \<or> en_sha e \<noteq> rq_sha rq")
      case True
      then have r: "r = LkReturn (Inl (if state_uncertain Ops (en_state e) then unresolved_error (rq_correlation_id rq) else conflict_error (rq_correlation_id rq)))"
        "s' = set_bucket ?p (remove_nth i (bucket_of ?s ?p) @ [e]) ?s"
        using assms(3) i by (auto simp: reserve_lookup_def Let_def)
      have "(view ?c)(pk \<mapsto> e) = view ?c" using Some by (simp add: fun_upd_idem)
      then show thesis using mismatch [OF sh Some True r(1)] r(2) bucket_effects(1,2) [OF wf i(2), of ?k e] i(3,4) assms(4) by simp
    next
      case False
      let ?e = "e\<lparr>en_last_used := ss_sequence ?s\<rparr>"
      have r: "r = lookup_answer (rq_correlation_id rq) (en_state e)"
        "s' = mark_dirty (?p, ?k) (set_bucket ?p (remove_nth i (bucket_of ?s ?p) @ [?e]) ?s)"
        using assms(3) i False by (auto simp: reserve_lookup_def Let_def)
      show thesis using found [OF sh Some _ _ r(1)] False r(2) bucket_effects(1,2) [OF wf i(2), of ?k ?e] i(3,4) assms(4) by simp
    qed
  qed
qed

end
