(* ===== verification/Idempotency_Sync.thy ===== *)
theory Idempotency_Sync
  imports Idempotency_State
begin

text \<open>
  The idempotency store against the map its ledger holds: which keys must be marked dirty, what a
  write writes, what stays bound to a key across restarts (its pin), and the outcomes of
  \<open>persist_locked\<close> over any ledger that keeps the contract \<open>change_log\<close>.
\<close>

section \<open>The store and the map its ledger holds\<close>

text \<open>A key that is not marked dirty is in both or in neither; a key the ledger does not know is marked only
  while an entry that can neither expire nor be evicted is there to be written.\<close>

definition synced :: "'o store_state \<Rightarrow> ledger_map \<Rightarrow> bool" where
  "synced s m \<longleftrightarrow>
     (\<forall>pk. (m pk \<noteq> None \<longrightarrow> pk \<notin> set (ss_dirty s) \<longrightarrow> view s pk \<noteq> None) \<and>
           (m pk = None \<longrightarrow>
              (if pk \<in> set (ss_dirty s) then \<exists>e. view s pk = Some e \<and> \<not> disposable e else view s pk = None)))"

text \<open>The map after a write: the entry of the store, or for a key not marked what was there.\<close>

definition recorded :: "('o, 'w, 'd) idem_env \<Rightarrow> 'o store_state \<Rightarrow> ledger_map \<Rightarrow> ledger_map \<Rightarrow> bool" where
  "recorded Env s m m' \<longleftrightarrow>
     (\<forall>pk. pk \<notin> set (ss_dirty s) \<and> m' pk = m pk \<or> view s pk = None \<and> m' pk = None \<or>
           (\<exists>e de. view s pk = Some e \<and> durable_entry_of Env (fst pk) e = Inr de \<and> m' pk = Some de))"

lemma syncedD:
  assumes "synced s m"
  shows "m pk \<noteq> None \<Longrightarrow> pk \<notin> set (ss_dirty s) \<Longrightarrow> view s pk \<noteq> None"
    "m pk = None \<Longrightarrow> pk \<in> set (ss_dirty s) \<Longrightarrow> \<exists>e. view s pk = Some e \<and> \<not> disposable e"
    "m pk = None \<Longrightarrow> pk \<notin> set (ss_dirty s) \<Longrightarrow> view s pk = None"
  using assms unfolding synced_def by (blast, metis, metis)

lemma syncedI:
  assumes "\<And>pk. m pk \<noteq> None \<Longrightarrow> pk \<notin> set (ss_dirty s) \<Longrightarrow> view s pk \<noteq> None"
    "\<And>pk. m pk = None \<Longrightarrow> pk \<in> set (ss_dirty s) \<Longrightarrow> \<exists>e. view s pk = Some e \<and> \<not> disposable e"
    "\<And>pk. m pk = None \<Longrightarrow> pk \<notin> set (ss_dirty s) \<Longrightarrow> view s pk = None"
  shows "synced s m"
  unfolding synced_def by (simp add: assms)

lemma recordedE:
  assumes "recorded Env s m m'"
  obtains "pk \<notin> set (ss_dirty s)" "m' pk = m pk" | "view s pk = None" "m' pk = None"
  | e de where "view s pk = Some e" "durable_entry_of Env (fst pk) e = Inr de" "m' pk = Some de"
proof -
  have "pk \<notin> set (ss_dirty s) \<and> m' pk = m pk \<or> view s pk = None \<and> m' pk = None \<or>
    (\<exists>e de. view s pk = Some e \<and> durable_entry_of Env (fst pk) e = Inr de \<and> m' pk = Some de)"
    using assms unfolding recorded_def by (rule spec)
  then show thesis using that by blast
qed

lemma synced_shrinks:
  assumes "synced s m" "shrinks s s'"
  shows "synced s' m"
proof (rule syncedI)
  fix pk
  show "view s' pk \<noteq> None" if "m pk \<noteq> None" "pk \<notin> set (ss_dirty s')"
    using that syncedD(1) [OF assms(1), of pk] shrinksD(4) [OF assms(2)] shrinksD(6) [OF assms(2), of pk] by auto
  show "\<exists>e. view s' pk = Some e \<and> \<not> disposable e" if a: "m pk = None" "pk \<in> set (ss_dirty s')"
  proof (cases "pk \<in> set (ss_dirty s)")
    case True
    then show ?thesis using syncedD(2) [OF assms(1) a(1)] shrinksD(6) [OF assms(2), of pk] by force
  next
    case False
    then show ?thesis using syncedD(3) [OF assms(1) a(1)] shrinksD(7) [OF assms(2) a(2)] by simp
  qed
  show "view s' pk = None" if a: "m pk = None" "pk \<notin> set (ss_dirty s')"
    using a syncedD(3) [OF assms(1) a(1)] shrinksD(4) [OF assms(2)] shrinksD(6) [OF assms(2), of pk] by auto
qed

text \<open>Changing one key that is then marked: removing it needs the ledger to know it.\<close>

lemma synced_update:
  assumes "synced s m" "view s' = (view s)(pk := eo)" "set (ss_dirty s') = insert pk (set (ss_dirty s))"
    "m pk \<noteq> None \<or> (\<exists>e. eo = Some e \<and> \<not> disposable e)"
  shows "synced s' m"
proof (rule syncedI)
  fix qk
  show "view s' qk \<noteq> None" if "m qk \<noteq> None" "qk \<notin> set (ss_dirty s')"
    using that syncedD(1) [OF assms(1), of qk] assms(2,3) by auto
  show "\<exists>e. view s' qk = Some e \<and> \<not> disposable e" if "m qk = None" "qk \<in> set (ss_dirty s')"
    using that syncedD(2) [OF assms(1), of qk] assms(2-4) by (cases "qk = pk") auto
  show "view s' qk = None" if "m qk = None" "qk \<notin> set (ss_dirty s')"
    using that syncedD(3) [OF assms(1), of qk] assms(2,3) by auto
qed

lemma synced_recorded:
  assumes "synced s m" "recorded Env s m m'"
  shows "synced (s\<lparr>ss_dirty := []\<rparr>) m'"
proof (rule syncedI)
  fix pk
  show "view (s\<lparr>ss_dirty := []\<rparr>) pk \<noteq> None" if "m' pk \<noteq> None"
    by (rule recordedE [OF assms(2), of pk]) (use syncedD(1) [OF assms(1), of pk] that in auto)
  show "view (s\<lparr>ss_dirty := []\<rparr>) pk = None" if "m' pk = None"
    by (rule recordedE [OF assms(2), of pk]) (use syncedD(3) [OF assms(1), of pk] that in auto)
qed simp

text \<open>What an entry becomes on disk.\<close>

lemma durable_entry_Inr:
  assumes "durable_entry_of Env p e = Inr de"
  shows "de_id de = (p, en_key e)" "de_operation de = en_operation e" "de_sha de = en_sha e" "de_expires de = en_expires e"
    "durable_entry_state Env (en_state e) = Inr (de_state de)"
  using assms by (auto simp: durable_entry_of_def de_id_def split: sum.splits)

lemma durable_entry_ok:
  assumes "durable_entry_of Env p e = Inr de" "coherent n e"
  shows "entry_ok (ev_value_len Env) de"
  using durable_entry_Inr(4,5) [OF assms(1)] assms(2)
  by (cases "en_state e"; cases "de_state de") (auto simp: entry_ok_def coherent_def split: option.splits if_splits)

lemma recorded_admissible:
  assumes "state_ok 256 4096 s" "synced s m" "admissible (ev_value_len Env) m" "recorded Env s m m'"
  shows "admissible (ev_value_len Env) m'"
proof -
  have v: "view_ok 256 4096 (length (ss_channels s)) (view s)" using assms(1) by (simp add: state_ok_def)
  have "view s pk = None \<longleftrightarrow> m' pk = None" for pk
    using syncedD(1,3) [OF synced_recorded [OF assms(2,4)], of pk] by (cases "m' pk") auto
  then have d: "dom m' = dom (view s)" unfolding dom_def by (simp only:)
  have "de_id de = pk \<and> entry_ok (ev_value_len Env) de" if m': "m' pk = Some de" for pk de
  proof (rule recordedE [OF assms(4), of pk])
    assume "m' pk = m pk"
    then show ?thesis using m' admissible_entry [OF assms(3), of pk de] by simp
  next
    fix e de'
    assume a: "view s pk = Some e" "durable_entry_of Env (fst pk) e = Inr de'" "m' pk = Some de'"
    then have "en_key e = snd pk" "coherent (length (ss_channels s)) e" using view_ok_entry [OF v] by blast+
    then show ?thesis using a m' durable_entry_Inr(1) [OF a(2)] durable_entry_ok [OF a(2)] by simp
  qed (use m' in simp)
  then show ?thesis using v unfolding admissible_def view_ok_def d by blast
qed

section \<open>What a write writes\<close>

lemma collect_results_Inr: "collect_results rs = Inr xs \<longleftrightarrow> rs = map Inr xs"
proof (induction rs arbitrary: xs)
  case (Cons r rs)
  show ?case
  proof (cases xs)
    case (Cons y ys)
    then show ?thesis using Cons.IH [of ys] by (cases r; cases "collect_results rs") auto
  qed (auto split: sum.splits)
qed auto

lemma find_bind_view: "Option.bind (map_of (ss_entries s) p) (find (\<lambda>e. en_key e = k)) = view s (p, k)"
  by (simp add: view_def bucket_of_def split: option.splits)

lemma dirty_changes_Inr:
  "dirty_changes Env s pks = Inr (us, rs) \<Longrightarrow> distinct pks \<Longrightarrow>
   set rs = {pk \<in> set pks. view s pk = None} \<and> de_id ` set us = {pk \<in> set pks. view s pk \<noteq> None} \<and>
   distinct (map de_id us @ rs) \<and>
   (\<forall>de \<in> set us. \<exists>e. view s (de_id de) = Some e \<and> durable_entry_of Env (fst (de_id de)) e = Inr de)"
proof (induction pks arbitrary: us rs)
  case (Cons pk pks)
  obtain p k where pk: "pk = (p, k)" by force
  show ?case
  proof (cases "view s pk")
    case None
    then obtain rs' where r: "dirty_changes Env s pks = Inr (us, rs')" "rs = pk # rs'"
      using Cons.prems(1) by (auto simp: pk find_bind_view map_sum_def split: sum.splits)
    note IH = Cons.IH [OF r(1)]
    have d: "distinct pks" "pk \<notin> set pks" using Cons.prems(2) by auto
    show ?thesis using IH [OF d(1)] d None unfolding r(2) by auto
  next
    case (Some e)
    then obtain de us' where r: "dirty_changes Env s pks = Inr (us', rs)" "us = de # us'" "durable_entry_of Env p e = Inr de"
      using Cons.prems(1) by (auto simp: pk find_bind_view map_sum_def split: sum.splits)
    have "en_key e = k" using Some position_key(2) view_position [of s p k e] by (metis pk)
    then have id: "de_id de = pk" using durable_entry_Inr(1) [OF r(3)] pk by simp
    have d: "distinct pks" "pk \<notin> set pks" using Cons.prems(2) by auto
    show ?thesis using Cons.IH [OF r(1) d(1)] d Some id r(3) unfolding r(2) by (auto simp: pk)
  qed
qed simp

lemma append_recorded:
  assumes "dirty_changes Env s (ss_dirty s) = Inr (us, rs)" "distinct (ss_dirty s)" "synced s m"
  shows "proper_change us rs m" "recorded Env s m (changed_map us rs m)"
proof -
  have rs: "set rs = {pk \<in> set (ss_dirty s). view s pk = None}"
    and us: "de_id ` set us = {pk \<in> set (ss_dirty s). view s pk \<noteq> None}"
    and d: "distinct (map de_id us @ rs)"
    and im: "\<And>de. de \<in> set us \<Longrightarrow> \<exists>e. view s (de_id de) = Some e \<and> durable_entry_of Env (fst (de_id de)) e = Inr de"
    using dirty_changes_Inr [OF assms(1,2)] by auto
  have "set rs \<subseteq> dom m"
  proof
    fix pk
    assume "pk \<in> set rs"
    then show "pk \<in> dom m" using rs syncedD(2) [OF assms(3), of pk] by force
  qed
  with d show "proper_change us rs m" by (simp add: proper_change_def)
  have du: "distinct (map de_id us)" using d by simp
  show "recorded Env s m (changed_map us rs m)" unfolding recorded_def
  proof
    fix pk
    show "pk \<notin> set (ss_dirty s) \<and> changed_map us rs m pk = m pk \<or> view s pk = None \<and> changed_map us rs m pk = None \<or>
      (\<exists>e de. view s pk = Some e \<and> durable_entry_of Env (fst pk) e = Inr de \<and> changed_map us rs m pk = Some de)"
    proof (cases "entries_map us pk")
      case None
      then have "pk \<notin> de_id ` set us" by (simp only: entries_map_None) simp
      then show ?thesis using None rs us by (auto simp: changed_map_def map_add_def)
    next
      case (Some de)
      then have "de \<in> set us" "de_id de = pk" using entries_map_Some [OF du] by auto
      then show ?thesis using Some im [of de] by (auto simp: changed_map_def)
    qed
  qed
qed

lemma mapped_durable:
  "map (\<lambda>pe. durable_entry_of Env (fst pe) (snd pe)) pes = map Inr des \<Longrightarrow>
   map de_id des = map (\<lambda>pe. (fst pe, en_key (snd pe))) pes \<and>
   (\<forall>de \<in> set des. \<exists>pe \<in> set pes. durable_entry_of Env (fst pe) (snd pe) = Inr de)"
proof (induction pes arbitrary: des)
  case (Cons pe pes)
  then obtain de des' where d: "des = de # des'" "durable_entry_of Env (fst pe) (snd pe) = Inr de"
    "map (\<lambda>pe. durable_entry_of Env (fst pe) (snd pe)) pes = map Inr des'" by (cases des) auto
  from Cons.IH [OF d(3)] d(1,2) durable_entry_Inr(1) [OF d(2)] show ?case by auto
qed simp

definition all_pairs :: "'o store_state \<Rightarrow> (principal_id \<times> 'o entry) list" where
  "all_pairs s = concat (map (\<lambda>b. map (Pair (fst b)) (snd b)) (ss_entries s))"

lemma all_pairs_mem:
  assumes "wf_state s"
  shows "(p, e) \<in> set (all_pairs s) \<longleftrightarrow> e \<in> set (bucket_of s p)"
proof -
  have d: "distinct (map fst (ss_entries s))" using assms by (simp add: wf_state_def)
  have "(p, e) \<in> set (all_pairs s) \<longleftrightarrow> (\<exists>es. map_of (ss_entries s) p = Some es \<and> e \<in> set es)"
    by (auto simp: all_pairs_def map_of_eq_Some_iff [OF d]) force
  then show ?thesis by (auto simp: bucket_of_def split: option.splits)
qed

lemma all_pairs_distinct:
  assumes "wf_state s"
  shows "distinct (map (\<lambda>pe. (fst pe, en_key (snd pe))) (all_pairs s))"
proof -
  have d: "distinct (map fst (ss_entries s))" using assms by (simp add: wf_state_def)
  have b: "distinct (map en_key es)" if "(p, es) \<in> set (ss_entries s)" for p es
  proof -
    have "bucket_of s p = es" using map_of_eq_Some_iff [OF d, of p es] that by (simp add: bucket_of_def)
    then show ?thesis using assms by (auto simp: wf_state_def)
  qed
  have "distinct (map (\<lambda>pe. (fst pe, en_key (snd pe))) (concat (map (\<lambda>b. map (Pair (fst b)) (snd b)) bs)))"
    if "distinct (map fst bs)" "\<And>p es. (p, es) \<in> set bs \<Longrightarrow> distinct (map en_key es)" for bs :: "(principal_id \<times> 'a entry list) list"
    using that
  proof (induction bs)
    case (Cons a bs)
    have "distinct (map en_key (snd a))" using Cons.prems(2) [of "fst a" "snd a"] by simp
    then have "distinct (map (\<lambda>e. (fst a, en_key e)) (snd a))" by (simp add: distinct_map inj_on_def)
    moreover have "distinct (map (\<lambda>pe. (fst pe, en_key (snd pe))) (concat (map (\<lambda>b. map (Pair (fst b)) (snd b)) bs)))"
    proof (rule Cons.IH)
      show "distinct (map fst bs)" using Cons.prems(1) by simp
      show "distinct (map en_key es)" if "(p, es) \<in> set bs" for p es using Cons.prems(2) [of p es] that by simp
    qed
    moreover have "fst a \<notin> fst ` set bs" using Cons.prems(1) by simp
    then have "set (map (\<lambda>e. (fst a, en_key e)) (snd a)) \<inter>
      set (map (\<lambda>pe. (fst pe, en_key (snd pe))) (concat (map (\<lambda>b. map (Pair (fst b)) (snd b)) bs))) = {}" by (auto simp: image_iff)
    ultimately show ?case by (simp add: comp_def)
  qed simp
  then show ?thesis unfolding all_pairs_def using d b by blast
qed

lemma snapshot_recorded:
  assumes "snapshot_entries Env s = Inr des" "wf_state s"
  shows "distinct (map de_id des)" "recorded Env s m (entries_map des)"
proof -
  have "map (\<lambda>pe. durable_entry_of Env (fst pe) (snd pe)) (all_pairs s) = map Inr des"
    using assms(1) by (simp add: snapshot_entries_def collect_results_Inr all_pairs_def map_concat comp_def)
  then have k: "map de_id des = map (\<lambda>pe. (fst pe, en_key (snd pe))) (all_pairs s)"
    and i: "\<And>de. de \<in> set des \<Longrightarrow> \<exists>pe \<in> set (all_pairs s). durable_entry_of Env (fst pe) (snd pe) = Inr de"
    using mapped_durable by blast+
  show d: "distinct (map de_id des)" unfolding k by (rule all_pairs_distinct [OF assms(2)])
  have ks: "de_id ` set des = (\<lambda>pe. (fst pe, en_key (snd pe))) ` set (all_pairs s)"
    using arg_cong [OF k, of set] by simp
  show "recorded Env s m (entries_map des)" unfolding recorded_def
  proof (rule allI, rule disjI2)
    fix pk
    show "view s pk = None \<and> entries_map des pk = None \<or>
      (\<exists>e de. view s pk = Some e \<and> durable_entry_of Env (fst pk) e = Inr de \<and> entries_map des pk = Some de)"
    proof (cases "entries_map des pk")
      case None
      then have "pk \<notin> de_id ` set des" by (simp only: entries_map_None) simp
      then have no: "pk \<noteq> (fst pe, en_key (snd pe))" if "pe \<in> set (all_pairs s)" for pe unfolding ks using that by blast
      have "snd pk \<notin> en_key ` set (bucket_of s (fst pk))"
      proof
        assume "snd pk \<in> en_key ` set (bucket_of s (fst pk))"
        then obtain e where "e \<in> set (bucket_of s (fst pk))" "snd pk = en_key e" by blast
        then show False using no [of "(fst pk, e)"] all_pairs_mem [OF assms(2), of "fst pk" e] by (simp add: prod_eq_iff)
      qed
      then show ?thesis using None view_None [of s pk] by simp
    next
      case (Some de)
      then have de: "de \<in> set des" "de_id de = pk" using entries_map_Some [OF d] by auto
      from i [OF de(1)] obtain p e where e: "(p, e) \<in> set (all_pairs s)" "durable_entry_of Env p e = Inr de" by force
      have "pk = (p, en_key e)" using durable_entry_Inr(1) [OF e(2)] de(2) by simp
      moreover have "view s (p, en_key e) = Some e" using e(1) assms(2) by (simp add: view_Some all_pairs_mem)
      ultimately show ?thesis using Some e(2) by auto
    qed
  qed
qed

section \<open>Pins\<close>

text \<open>What a key is bound to for good: the permit that is out, an outcome nobody knows, or an outcome that
  must be replayed.\<close>

datatype 'o pin = PinOpen | PinUnresolved | PinRetained interface_operation digest 'o

fun entry_pinned :: "'o pin \<Rightarrow> 'o entry \<Rightarrow> bool" where
  "entry_pinned PinOpen e \<longleftrightarrow> state_channel (en_state e) \<noteq> None"
| "entry_pinned PinUnresolved e \<longleftrightarrow> en_state e = EUnresolved"
| "entry_pinned (PinRetained oper sha outcome) e \<longleftrightarrow>
     en_operation e = oper \<and> en_sha e = sha \<and> en_state e = ERetained outcome True"

fun de_pinned :: "('o, 'w, 'd) idem_env \<Rightarrow> 'o pin \<Rightarrow> durable_entry \<Rightarrow> bool" where
  "de_pinned Env PinOpen de \<longleftrightarrow> de_state de = DReserved \<or> de_state de = DUnresolved"
| "de_pinned Env PinUnresolved de \<longleftrightarrow> de_state de = DReserved \<or> de_state de = DUnresolved"
| "de_pinned Env (PinRetained oper sha outcome) de \<longleftrightarrow>
     de_operation de = oper \<and> de_sha de = sha \<and> de_expires de = None \<and>
     (\<exists>v. de_state de = DRetained v \<and> ev_resolve Env v = Some outcome)"

text \<open>An outcome can be pinned when it is safety relevant and the resolver finds it again.\<close>

fun pin_stable :: "('o, 'w, 'd) idem_env \<Rightarrow> 'o pin \<Rightarrow> bool" where
  "pin_stable Env (PinRetained _ _ outcome) \<longleftrightarrow>
     safety_relevant (ev_outcome Env) outcome \<and>
     (\<forall>v. durable_value (ev_outcome Env) outcome = Some v \<longrightarrow> ev_resolve Env v = Some outcome)"
| "pin_stable Env _ \<longleftrightarrow> True"

definition mem_pins :: "(ledger_key \<Rightarrow> 'o entry option) \<Rightarrow> (ledger_key \<times> 'o pin) set \<Rightarrow> bool" where
  "mem_pins v P \<longleftrightarrow> (\<forall>(pk, pin) \<in> P. \<exists>e. v pk = Some e \<and> entry_pinned pin e)"

definition disk_pins :: "('o, 'w, 'd) idem_env \<Rightarrow> ledger_map \<Rightarrow> (ledger_key \<times> 'o pin) set \<Rightarrow> bool" where
  "disk_pins Env m P \<longleftrightarrow> (\<forall>(pk, pin) \<in> P. \<exists>de. m pk = Some de \<and> de_pinned Env pin de)"

lemma mem_pinsD: "mem_pins v P \<Longrightarrow> (pk, pin) \<in> P \<Longrightarrow> \<exists>e. v pk = Some e \<and> entry_pinned pin e"
  by (auto simp: mem_pins_def)

lemma disk_pinsD: "disk_pins Env m P \<Longrightarrow> (pk, pin) \<in> P \<Longrightarrow> \<exists>de. m pk = Some de \<and> de_pinned Env pin de"
  by (auto simp: disk_pins_def)

lemma pinned_solid: "entry_pinned pin e \<Longrightarrow> coherent n e \<Longrightarrow> \<not> disposable e"
  by (cases pin; cases "en_state e") (auto simp: coherent_disposable)

lemma pinned_last_used [simp]: "entry_pinned pin (e\<lparr>en_last_used := n\<rparr>) = entry_pinned pin e"
  by (cases pin) auto

lemma coherent_last_used [simp]: "coherent n (e\<lparr>en_last_used := u\<rparr>) = coherent n e"
  by (simp add: coherent_def)

lemma durable_pinned:
  assumes "durable_entry_of Env p e = Inr de" "entry_pinned pin e" "coherent n e" "pin_stable Env pin"
  shows "de_pinned Env pin de"
  using durable_entry_Inr(2-5) [OF assms(1)] assms(2-4)
  by (cases pin; cases "en_state e"; cases "de_state de") (auto simp: coherent_def split: option.splits if_splits)

lemma state_ok_entry: "state_ok a g s \<Longrightarrow> view s pk = Some e \<Longrightarrow> en_key e = snd pk \<and> coherent (length (ss_channels s)) e"
  unfolding state_ok_def using view_ok_entry by blast

lemma mem_pins_shrinks:
  assumes "state_ok a g s" "mem_pins (view s) P" "shrinks s s'"
  shows "mem_pins (view s') P"
  unfolding mem_pins_def
proof clarify
  fix p k pin
  assume "((p, k), pin) \<in> P"
  then obtain e where e: "view s (p, k) = Some e" "entry_pinned pin e" using mem_pinsD [OF assms(2)] by blast
  have "\<not> disposable e" using state_ok_entry [OF assms(1) e(1)] pinned_solid [OF e(2)] by blast
  then show "\<exists>e. view s' (p, k) = Some e \<and> entry_pinned pin e" using shrinksD(6) [OF assms(3), of "(p, k)"] e by auto
qed

lemma recorded_pins:
  assumes "state_ok a g s" "recorded Env s m m'" "mem_pins (view s) P" "\<forall>(pk, pin) \<in> P. pin_stable Env pin"
    "disk_pins Env m {(pk, pin) \<in> P. pk \<notin> set (ss_dirty s)}"
  shows "disk_pins Env m' P"
  unfolding disk_pins_def
proof clarify
  fix p k pin
  assume P: "((p, k), pin) \<in> P"
  then obtain e where e: "view s (p, k) = Some e" "entry_pinned pin e" using mem_pinsD [OF assms(3)] by blast
  show "\<exists>de. m' (p, k) = Some de \<and> de_pinned Env pin de"
  proof (rule recordedE [OF assms(2), of "(p, k)"])
    assume "(p, k) \<notin> set (ss_dirty s)" "m' (p, k) = m (p, k)"
    then show ?thesis using disk_pinsD [OF assms(5)] P by auto
  next
    fix e' de
    assume a: "view s (p, k) = Some e'" "durable_entry_of Env (fst (p, k)) e' = Inr de" "m' (p, k) = Some de"
    have "coherent (length (ss_channels s)) e" using state_ok_entry [OF assms(1) e(1)] by blast
    then show ?thesis using a e durable_pinned [OF a(2)] assms(4) P by auto
  qed (use e in simp)
qed

section \<open>Persisting\<close>

text \<open>What a store keeps with its ledger: \<open>P\<close> are the pins its entries respect and \<open>Q\<close> those of the map on
  disk. Once a write failed or the ledger was refused nothing is written any more, and only the disk
  counts.\<close>

definition ledger_side ::
  "('o, 'w, 'd) idem_env \<Rightarrow> ('w \<Rightarrow> ledger_map \<Rightarrow> bool) \<Rightarrow> ('d \<Rightarrow> ledger_map option \<Rightarrow> bool) \<Rightarrow>
   (ledger_key \<times> 'o pin) set \<Rightarrow> (ledger_key \<times> 'o pin) set \<Rightarrow> ('o, 'w) idempotency_store \<Rightarrow> bool" where
  "ledger_side Env ok stored P Q st \<longleftrightarrow>
     (case id_durable st of
        None \<Rightarrow> P = {} \<and> id_integrity_issue st = None
      | Some w \<Rightarrow>
          id_per_principal_capacity st = 256 \<and> id_global_capacity st = 4096 \<and>
          (if integrity_issue st = None
           then \<exists>m. ok w m \<and> synced (id_state st) m \<and> mem_pins (view (id_state st)) P \<and> disk_pins Env m Q
           else \<exists>i. stored (lw_disk (ev_ledger Env) w) i \<and> (\<forall>m. i = Some m \<longrightarrow> disk_pins Env m Q)))"

lemma integrity_frame [simp]: "integrity_issue (st\<lparr>id_state := s\<rparr>) = integrity_issue st"
  by (auto simp: integrity_issue_def split: option.splits)

lemma clear_dirty_simps [simp]:
  "id_state (clear_dirty st) = (id_state st)\<lparr>ss_dirty := []\<rparr>" "id_durable (clear_dirty st) = id_durable st"
  "id_per_principal_capacity (clear_dirty st) = id_per_principal_capacity st"
  "id_global_capacity (clear_dirty st) = id_global_capacity st" "integrity_issue (clear_dirty st) = integrity_issue st"
  "id_integrity_issue (clear_dirty st) = id_integrity_issue st"
  by (simp_all only: clear_dirty_def integrity_frame) simp_all

lemma integrity_writer: "id_durable st \<noteq> None \<Longrightarrow> integrity_issue (st\<lparr>id_durable := Some w\<rparr>) = integrity_issue st"
  by (auto simp: integrity_issue_def split: option.splits)

lemma disk_pins_mono: "disk_pins Env m Q \<Longrightarrow> R \<subseteq> Q \<Longrightarrow> disk_pins Env m R"
  by (auto simp: disk_pins_def)

lemma mem_pins_mono: "mem_pins v Q \<Longrightarrow> R \<subseteq> Q \<Longrightarrow> mem_pins v R"
  by (auto simp: mem_pins_def)

lemma ledger_side_state:
  assumes "ledger_side Env ok stored P Q st" "id_durable st = None \<longrightarrow> P' = {}"
    "\<And>m. synced (id_state st) m \<Longrightarrow> mem_pins (view (id_state st)) P \<Longrightarrow> disk_pins Env m Q \<Longrightarrow>
       synced s' m \<and> mem_pins (view s') P'"
    "\<And>m. disk_pins Env m Q \<Longrightarrow> disk_pins Env m Q'"
  shows "ledger_side Env ok stored P' Q' (st\<lparr>id_state := s'\<rparr>)"
proof (cases "id_durable st")
  case None
  then show ?thesis using assms(1,2) by (simp add: ledger_side_def)
next
  case (Some w)
  show ?thesis
  proof (cases "integrity_issue st")
    case None
    with Some assms(1) obtain m where "ok w m" "synced (id_state st) m" "mem_pins (view (id_state st)) P" "disk_pins Env m Q"
      by (auto simp: ledger_side_def)
    with assms(3) [of m] assms(4) [of m] have "\<exists>m. ok w m \<and> synced s' m \<and> mem_pins (view s') P' \<and> disk_pins Env m Q'" by blast
    with Some None assms(1) show ?thesis by (simp add: ledger_side_def)
  next
    case (Some i)
    with \<open>id_durable st = Some w\<close> assms(1) obtain j where j: "stored (lw_disk (ev_ledger Env) w) j" "\<And>m. j = Some m \<Longrightarrow> disk_pins Env m Q"
      by (auto simp: ledger_side_def)
    have "\<exists>j. stored (lw_disk (ev_ledger Env) w) j \<and> (\<forall>m. j = Some m \<longrightarrow> disk_pins Env m Q')" using j assms(4) by blast
    with Some \<open>id_durable st = Some w\<close> assms(1) show ?thesis by (simp add: ledger_side_def)
  qed
qed

lemma no_changes: "dirty_changes Env s pks = Inr ([], []) \<Longrightarrow> pks = []"
  by (cases pks) (auto simp: map_sum_def split: prod.splits option.splits sum.splits)

lemma pending_append:
  assumes "\<not> lw_needs_checkpoint (ev_ledger Env) w" "pending_write Env s w = Inr ow"
  obtains us rs where "dirty_changes Env s (ss_dirty s) = Inr (us, rs)"
    "ow = (if us = [] \<and> rs = [] then None else Some (lw_append (ev_ledger Env) us rs))"
  using assms by (auto simp: pending_write_def split: sum.splits prod.splits if_splits)

lemma pending_checkpoint:
  assumes "lw_needs_checkpoint (ev_ledger Env) w" "pending_write Env s w = Inr ow"
  obtains des where "snapshot_entries Env s = Inr des" "ow = Some (lw_checkpoint (ev_ledger Env) des)"
  using assms by (cases "snapshot_entries Env s") (auto simp: pending_write_def)

lemma persist_write:
  assumes "integrity_issue st = None" "id_durable st = Some w" "pending_write Env (id_state st) w = Inr (Some wr)"
    "persist_locked Env st = (r, st')"
  obtains u w' where "wr w = (Inr u, w')" "r = Inr ()" "st' = clear_dirty (st\<lparr>id_durable := Some w'\<rparr>)"
  | e w' where "wr w = (Inl e, w')" "r = Inl e" "st' = st\<lparr>id_durable := Some w', id_failed := True\<rparr>"
  using assms by (cases "wr w"; cases "fst (wr w)") (auto simp: persist_locked_def)

text \<open>The store over any ledger that keeps the contract.\<close>

locale durable_store = change_log "ev_ledger Env" "ev_value_len Env" ok stored
  for Env :: "('o, 'w, 'd) idem_env" and ok :: "'w \<Rightarrow> ledger_map \<Rightarrow> bool" and stored :: "'d \<Rightarrow> ledger_map option \<Rightarrow> bool"
begin

lemma store_persist_cases:
  assumes "integrity_issue st = None" "id_durable st = Some w" "ok w m" "state_ok 256 4096 (id_state st)"
    "synced (id_state st) m" "persist_locked Env st = (r, st')"
  obtains (written) w' m' where "r = Inr ()" "st' = clear_dirty (st\<lparr>id_durable := Some w'\<rparr>)" "ok w' m'"
      "recorded Env (id_state st) m m'"
  | (refused) e where "r = Inl e" "st' = st"
  | (failed) e w' i where "r = Inl e" "st' = st\<lparr>id_durable := Some w', id_failed := True\<rparr>"
      "stored (lw_disk (ev_ledger Env) w') i" "i = None \<or> i = Some m \<or> (\<exists>m'. i = Some m' \<and> recorded Env (id_state st) m m')"
proof -
  let ?s = "id_state st"
  have s: "wf_state ?s" "distinct (ss_dirty ?s)" using assms(4) by (auto simp: state_ok_def)
  note adm = recorded_admissible [OF assms(4,5) ok_admissible [OF assms(3)]]
  show thesis
  proof (cases "pending_write Env ?s w")
    case (Inl e)
    then show thesis using refused [of e] assms(1,2,6) by (simp add: persist_locked_def)
  next
    case (Inr ow)
    show thesis
    proof (cases "lw_needs_checkpoint (ev_ledger Env) w")
      case True
      then obtain des where des: "snapshot_entries Env ?s = Inr des" "ow = Some (lw_checkpoint (ev_ledger Env) des)"
        using pending_checkpoint [OF True Inr] by blast
      note rec = snapshot_recorded [OF des(1) s(1)]
      show thesis using persist_write [OF assms(1,2) Inr [unfolded des(2)] assms(6)]
      proof cases
        case 1
        then show thesis using written [OF _ _ checkpoint_ok [OF assms(3) rec(1) adm [OF rec(2)] 1(1)] rec(2)] by simp
      next
        case 2
        then show thesis using failed [OF 2(2,3)] checkpoint_failed [OF assms(3) rec(1) adm [OF rec(2)] 2(1)] rec(2) by blast
      qed
    next
      case False
      then obtain us rs where ch: "dirty_changes Env ?s (ss_dirty ?s) = Inr (us, rs)"
        "ow = (if us = [] \<and> rs = [] then None else Some (lw_append (ev_ledger Env) us rs))"
        using pending_append [OF False Inr] by blast
      note rec = append_recorded [OF ch(1) s(2) assms(5)]
      show thesis
      proof (cases "us = [] \<and> rs = []")
        case True
        then have d: "ss_dirty ?s = []" using no_changes ch(1) by blast
        have "st' = st" "r = Inr ()" using assms(1,2,6) Inr ch(2) True by (auto simp: persist_locked_def)
        moreover have "clear_dirty (st\<lparr>id_durable := Some w\<rparr>) = st" using d assms(2) by (simp add: clear_dirty_def)
        moreover have "recorded Env ?s m m" using d by (simp add: recorded_def)
        ultimately show thesis using written [of w m] assms(3) by simp
      next
        case change: False
        then have wr: "pending_write Env ?s w = Inr (Some (lw_append (ev_ledger Env) us rs))" using Inr ch(2) by simp
        show thesis using persist_write [OF assms(1,2) wr assms(6)]
        proof cases
          case 1
          then show thesis using written [OF _ _ append_ok [OF assms(3) False rec(1) adm [OF rec(2)] 1(1)] rec(2)] by simp
        next
          case 2
          then show thesis using failed [OF 2(2,3)] append_failed [OF assms(3) False rec(1) adm [OF rec(2)] 2(1)] rec(2) by blast
        qed
      qed
    qed
  qed
qed

end

lemma persist_frame:
  assumes "persist_locked Env st = (r, st')"
  shows "id_per_principal_capacity st' = id_per_principal_capacity st" "id_global_capacity st' = id_global_capacity st"
    "id_durable st' = None \<longleftrightarrow> id_durable st = None" "id_ttl st' = id_ttl st"
    "integrity_issue st = None \<or> integrity_issue st' \<noteq> None"
    "id_state st' = id_state st \<or> id_state st' = (id_state st)\<lparr>ss_dirty := []\<rparr>"
  using assms
  by (auto simp: persist_locked_def clear_dirty_def split: if_splits option.splits sum.splits prod.splits)

context durable_store
begin

lemma persist_side:
  assumes "ledger_side Env ok stored P R st" "integrity_issue st = None"
    "state_ok (id_per_principal_capacity st) (id_global_capacity st) (id_state st)" "persist_locked Env st = (r, st')"
    "mem_pins (view (id_state st)) Q" "\<forall>(pk, pin) \<in> Q. pin_stable Env pin" "P' \<subseteq> Q" "R \<subseteq> Q" "id_durable st = None \<longrightarrow> P' = {}"
    "Q \<subseteq> R \<union> {(pk, pin). pk \<in> set (ss_dirty (id_state st))}"
  shows "r = Inr () \<and> id_state st' = (id_state st)\<lparr>ss_dirty := []\<rparr> \<and> ledger_side Env ok stored P' Q st' \<or>
    (\<exists>e. r = Inl e) \<and> id_state st' = id_state st \<and> ledger_side Env ok stored P R st'"
proof (cases "id_durable st")
  case None
  then have "r = Inr ()" "st' = clear_dirty st" using assms(2,4) by (auto simp: persist_locked_def)
  then show ?thesis using None assms(1,9) by (simp add: ledger_side_def)
next
  case (Some w)
  let ?s = "id_state st"
  have cap: "id_per_principal_capacity st = 256" "id_global_capacity st = 4096"
    using assms(1) Some by (auto simp: ledger_side_def)
  obtain m where m: "ok w m" "synced ?s m" "mem_pins (view ?s) P" "disk_pins Env m R"
    using assms(1,2) Some by (auto simp: ledger_side_def)
  have s: "state_ok 256 4096 ?s" using assms(3) cap by simp
  have "disk_pins Env m {(pk, pin) \<in> Q. pk \<notin> set (ss_dirty ?s)}" by (rule disk_pins_mono [OF m(4)]) (use assms(10) in auto)
  note pins = recorded_pins [OF s _ assms(5,6) this]
  show ?thesis using assms(2) Some m(1) s m(2) assms(4)
  proof (cases rule: store_persist_cases)
    case (written w' m')
    have "synced (?s\<lparr>ss_dirty := []\<rparr>) m'" "disk_pins Env m' Q" using synced_recorded [OF m(2) written(4)] pins [OF written(4)] by auto
    moreover have "mem_pins (view ?s) P'" by (rule mem_pins_mono [OF assms(5,7)])
    ultimately show ?thesis using written(1-3) cap Some assms(2) by (auto simp: ledger_side_def integrity_writer)
  next
    case (refused e)
    then show ?thesis using assms(1) by simp
  next
    case (failed e w' i)
    have "disk_pins Env m' R" if "i = Some m'" for m'
      using that failed(4) m(4) pins disk_pins_mono [OF _ assms(8)] by blast
    moreover have "integrity_issue st' \<noteq> None" using failed(2) by (auto simp: integrity_issue_def split: option.splits)
    ultimately show ?thesis using failed(1-3) cap by (auto simp: ledger_side_def)
  qed
qed

end

end
