(* ===== verification/Idempotency_Invariant.thy ===== *)
theory Idempotency_Invariant
  imports Idempotency_Sync
begin

text \<open>
  The invariant of the idempotency store and its preservation by every operation: permits that are
  out are the reservations of the store, callers wait only on such reservations, retained outcomes
  were finished, and the ledger agrees with the pins.
\<close>

section \<open>Permits, waiters and outcomes\<close>

type_synonym command_ref = "ledger_key \<times> interface_operation \<times> digest"

definition pm_id :: "idem_permit \<Rightarrow> ledger_key" where
  "pm_id pm = (pm_principal pm, pm_key pm)"

definition pm_ref :: "idem_permit \<Rightarrow> command_ref" where
  "pm_ref pm = (pm_id pm, pm_operation pm, pm_sha pm)"

definition rq_id :: "idem_request \<Rightarrow> ledger_key" where
  "rq_id rq = (rq_principal rq, rq_key rq)"

definition rq_ref :: "idem_request \<Rightarrow> command_ref" where
  "rq_ref rq = (rq_id rq, rq_operation rq, rq_sha rq)"

definition entry_ref :: "ledger_key \<Rightarrow> 'o entry \<Rightarrow> command_ref" where
  "entry_ref pk e = (pk, en_operation e, en_sha e)"

text \<open>The permits that are out are the reservations of the store, one for each key, each with its own channel.\<close>

definition live_ok :: "idem_permit set \<Rightarrow> 'o store_state \<Rightarrow> bool" where
  "live_ok live s \<longleftrightarrow>
     inj_on pm_id live \<and>
     (\<forall>pm \<in> live. \<exists>e. view s (pm_id pm) = Some e \<and> permit_matches pm e) \<and>
     (\<forall>pk e ch. view s pk = Some e \<longrightarrow> state_channel (en_state e) = Some ch \<longrightarrow>
        (\<exists>pm \<in> live. pm_id pm = pk) \<and> ss_channels s ! ch = UpPending \<and>
        (\<forall>pk' e'. view s pk' = Some e' \<longrightarrow> state_channel (en_state e') = Some ch \<longrightarrow> pk' = pk))"

text \<open>A caller waits on the channel of a reservation for its own command; \<open>H\<close> holds the outcomes finished.\<close>

definition waiting_ok :: "(nat \<times> command_ref) set \<Rightarrow> (command_ref \<times> 'o) set \<Rightarrow> 'o store_state \<Rightarrow> bool" where
  "waiting_ok W H s \<longleftrightarrow>
     (\<forall>(ch, ref) \<in> W. ch < length (ss_channels s) \<and>
        (ss_channels s ! ch = UpPending \<longrightarrow>
           (\<exists>e. view s (fst ref) = Some e \<and> state_channel (en_state e) = Some ch \<and> entry_ref (fst ref) e = ref)) \<and>
        (\<forall>outcome. ss_channels s ! ch = UpReplay outcome \<longrightarrow> (ref, outcome) \<in> H))"

definition retained_ok :: "(command_ref \<times> 'o) set \<Rightarrow> 'o store_state \<Rightarrow> bool" where
  "retained_ok H s \<longleftrightarrow>
     (\<forall>pk e outcome safety. view s pk = Some e \<longrightarrow> en_state e = ERetained outcome safety \<longrightarrow> (entry_ref pk e, outcome) \<in> H)"

definition mem_ok ::
  "nat \<Rightarrow> nat \<Rightarrow> idem_permit set \<Rightarrow> (nat \<times> command_ref) set \<Rightarrow> (command_ref \<times> 'o) set \<Rightarrow> 'o store_state \<Rightarrow> bool" where
  "mem_ok a g live W H s \<longleftrightarrow> state_ok a g s \<and> live_ok live s \<and> waiting_ok W H s \<and> retained_ok H s"

lemma live_okD:
  assumes "live_ok live s"
  shows "inj_on pm_id live" "pm \<in> live \<Longrightarrow> \<exists>e. view s (pm_id pm) = Some e \<and> permit_matches pm e"
    "view s pk = Some e \<Longrightarrow> state_channel (en_state e) = Some ch \<Longrightarrow> \<exists>pm \<in> live. pm_id pm = pk"
    "view s pk = Some e \<Longrightarrow> state_channel (en_state e) = Some ch \<Longrightarrow> ss_channels s ! ch = UpPending"
    "view s pk = Some e \<Longrightarrow> state_channel (en_state e) = Some ch \<Longrightarrow> view s pk' = Some e' \<Longrightarrow>
     state_channel (en_state e') = Some ch \<Longrightarrow> pk' = pk"
  using assms unfolding live_ok_def by (blast, blast, blast, blast, blast)

lemma waiting_okD:
  assumes "waiting_ok W H s" "(ch, ref) \<in> W"
  shows "ch < length (ss_channels s)"
    "ss_channels s ! ch = UpPending \<Longrightarrow>
     \<exists>e. view s (fst ref) = Some e \<and> state_channel (en_state e) = Some ch \<and> entry_ref (fst ref) e = ref"
    "ss_channels s ! ch = UpReplay outcome \<Longrightarrow> (ref, outcome) \<in> H"
  using assms unfolding waiting_ok_def by auto

lemma waiting_okI:
  assumes "\<And>ch ref. (ch, ref) \<in> W \<Longrightarrow> ch < length (ss_channels s)"
    "\<And>ch ref. (ch, ref) \<in> W \<Longrightarrow> ss_channels s ! ch = UpPending \<Longrightarrow>
     \<exists>e. view s (fst ref) = Some e \<and> state_channel (en_state e) = Some ch \<and> entry_ref (fst ref) e = ref"
    "\<And>ch ref outcome. (ch, ref) \<in> W \<Longrightarrow> ss_channels s ! ch = UpReplay outcome \<Longrightarrow> (ref, outcome) \<in> H"
  shows "waiting_ok W H s"
  unfolding waiting_ok_def using assms by fastforce

lemma retained_okD: "retained_ok H s \<Longrightarrow> view s pk = Some e \<Longrightarrow> en_state e = ERetained outcome safety \<Longrightarrow> (entry_ref pk e, outcome) \<in> H"
  unfolding retained_ok_def by blast

lemma mem_okD:
  assumes "mem_ok a g live W H s"
  shows "state_ok a g s" "live_ok live s" "waiting_ok W H s" "retained_ok H s" "wf_state s" "distinct (ss_dirty s)"
  using assms by (auto simp: mem_ok_def state_ok_def)

lemma permit_state: "permit_matches pm e \<Longrightarrow> state_channel (en_state e) \<noteq> None"
  by (auto simp: permit_matches_def split: entry_state.splits)

lemma permit_ref: "permit_matches pm e \<Longrightarrow> entry_ref (pm_id pm) e = pm_ref pm"
  by (simp add: permit_matches_def entry_ref_def pm_ref_def)

lemma permit_last_used [simp]: "permit_matches pm (e\<lparr>en_last_used := n\<rparr>) = permit_matches pm e"
  by (simp add: permit_matches_def)

lemma entry_ref_last_used [simp]: "entry_ref pk (e\<lparr>en_last_used := n\<rparr>) = entry_ref pk e"
  by (simp add: entry_ref_def)

text \<open>Entries that hold no reservation may go, and any entry may be used.\<close>

definition settles :: "(ledger_key \<Rightarrow> 'o entry option) \<Rightarrow> (ledger_key \<Rightarrow> 'o entry option) \<Rightarrow> bool" where
  "settles v v' \<longleftrightarrow>
     (\<forall>pk. v' pk = v pk \<or> (\<exists>e n. v pk = Some e \<and> v' pk = Some (e\<lparr>en_last_used := n\<rparr>)) \<or>
           v' pk = None \<and> (\<exists>e. v pk = Some e \<and> state_channel (en_state e) = None))"

lemma settlesD:
  assumes "settles v v'"
  shows "v' pk = Some e' \<Longrightarrow> \<exists>e n. v pk = Some e \<and> e' = e\<lparr>en_last_used := n\<rparr>"
    "v pk = Some e \<Longrightarrow> state_channel (en_state e) \<noteq> None \<Longrightarrow> \<exists>n. v' pk = Some (e\<lparr>en_last_used := n\<rparr>)"
proof -
  have c: "v' pk = v pk \<or> (\<exists>e n. v pk = Some e \<and> v' pk = Some (e\<lparr>en_last_used := n\<rparr>)) \<or>
           v' pk = None \<and> (\<exists>e. v pk = Some e \<and> state_channel (en_state e) = None)"
    using assms unfolding settles_def by (rule spec)
  have same: "\<exists>n. e = e\<lparr>en_last_used := n\<rparr>" for e :: "'a entry" by (rule exI [of _ "en_last_used e"]) simp
  show "\<exists>e n. v pk = Some e \<and> e' = e\<lparr>en_last_used := n\<rparr>" if "v' pk = Some e'" using c that same [of e'] by force
  show "\<exists>n. v' pk = Some (e\<lparr>en_last_used := n\<rparr>)" if "v pk = Some e" "state_channel (en_state e) \<noteq> None"
    using c that same [of e] by force
qed

lemma mem_settles:
  assumes m: "mem_ok a g live W H s" and s': "wf_state s'" "distinct (ss_dirty s')" "ss_channels s' = ss_channels s"
    and v: "settles (view s) (view s')"
  shows "mem_ok a g live W H s'"
proof -
  note D = mem_okD [OF m] and old = settlesD(1) [OF v] and new = settlesD(2) [OF v]
  have "view_ok a g (length (ss_channels s)) (view s')"
  proof (rule view_ok_dom)
    show "view_ok a g (length (ss_channels s)) (view s)" using D(1) by (simp add: state_ok_def)
    show "dom (view s') \<subseteq> dom (view s)" using old by blast
    show "en_key e' = snd pk \<and> coherent (length (ss_channels s)) e'" if "view s' pk = Some e'" for pk e'
      using old [OF that] state_ok_entry [OF D(1), of pk] by auto
  qed
  then have "state_ok a g s'" using s' by (simp add: state_ok_def)
  moreover have "live_ok live s'" unfolding live_ok_def
  proof (intro conjI ballI allI impI)
    show "inj_on pm_id live" by (rule live_okD(1) [OF D(2)])
    show "\<exists>e. view s' (pm_id pm) = Some e \<and> permit_matches pm e" if "pm \<in> live" for pm
      using live_okD(2) [OF D(2) that] new [of "pm_id pm"] permit_state by fastforce
    fix pk e ch
    assume a: "view s' pk = Some e" "state_channel (en_state e) = Some ch"
    then obtain e0 where e0: "view s pk = Some e0" "state_channel (en_state e0) = Some ch" using old [OF a(1)] by auto
    show "\<exists>pm \<in> live. pm_id pm = pk" by (rule live_okD(3) [OF D(2) e0])
    show "ss_channels s' ! ch = UpPending" using live_okD(4) [OF D(2) e0] s'(3) by simp
    show "pk' = pk" if b: "view s' pk' = Some e'" "state_channel (en_state e') = Some ch" for pk' e'
      using old [OF b(1)] b(2) live_okD(5) [OF D(2) e0, of pk'] by auto
  qed
  moreover have "waiting_ok W H s'"
  proof (rule waiting_okI)
    fix ch ref
    assume w: "(ch, ref) \<in> W"
    show "ch < length (ss_channels s')" using waiting_okD(1) [OF D(3) w] s'(3) by simp
    show "(ref, outcome) \<in> H" if "ss_channels s' ! ch = UpReplay outcome" for outcome
      using waiting_okD(3) [OF D(3) w] s'(3) that by simp
    show "\<exists>e. view s' (fst ref) = Some e \<and> state_channel (en_state e) = Some ch \<and> entry_ref (fst ref) e = ref"
      if "ss_channels s' ! ch = UpPending"
      using waiting_okD(2) [OF D(3) w] s'(3) that new [of "fst ref"] by fastforce
  qed
  moreover have "retained_ok H s'" unfolding retained_ok_def
    using old retained_okD [OF D(4)] by fastforce
  ultimately show ?thesis by (simp add: mem_ok_def)
qed

lemma settles_refl: "settles v v"
  by (simp add: settles_def)

lemma mem_clear: "mem_ok a g live W H s \<Longrightarrow> mem_ok a g live W H (s\<lparr>ss_dirty := []\<rparr>)"
  by (rule mem_settles) (auto simp: settles_refl dest: mem_okD(5))

lemma shrinks_settles: "state_ok a g s \<Longrightarrow> shrinks s s' \<Longrightarrow> settles (view s) (view s')"
  unfolding settles_def
proof (rule allI)
  fix pk
  assume a: "state_ok a g s" "shrinks s s'"
  have "state_channel (en_state e) = None" if "view s pk = Some e" "disposable e" for e
    using that(2) state_ok_entry [OF a(1) that(1)] coherent_disposable [of "length (ss_channels s)" e] by (cases "en_state e") auto
  then show "view s' pk = view s pk \<or> (\<exists>e n. view s pk = Some e \<and> view s' pk = Some (e\<lparr>en_last_used := n\<rparr>)) \<or>
      view s' pk = None \<and> (\<exists>e. view s pk = Some e \<and> state_channel (en_state e) = None)"
    using shrinksD(6) [OF a(2), of pk] by blast
qed

lemma mem_shrinks: "mem_ok a g live W H s \<Longrightarrow> shrinks s s' \<Longrightarrow> mem_ok a g live W H s'"
  using mem_settles [of a g live W H s s'] shrinksD(1-3) [of s s'] shrinks_settles mem_okD(1) by blast

lemma settles_touch: "v pk = Some e \<Longrightarrow> settles v (v(pk \<mapsto> e\<lparr>en_last_used := n\<rparr>))"
  by (auto simp: settles_def)

text \<open>A permit is given back: its entry changes and its channel is told.\<close>

lemma settle_live:
  assumes l: "live_ok live s" and pm: "pm \<in> live" "view s (pm_id pm) = Some e" "state_channel (en_state e) = Some ch"
    and s': "ss_channels s' = (ss_channels s)[ch := up]" "view s' = (view s)(pm_id pm := eo)"
    and eo: "\<And>e'. eo = Some e' \<Longrightarrow> state_channel (en_state e') = None"
  shows "live_ok (live - {pm}) s'"
  unfolding live_ok_def
proof (intro conjI ballI allI impI)
  have other: "view s' pk = view s pk" if "pk \<noteq> pm_id pm" for pk using s'(2) that by simp
  show "inj_on pm_id (live - {pm})" by (rule inj_on_subset [OF live_okD(1) [OF l]]) auto
  show "\<exists>e. view s' (pm_id qm) = Some e \<and> permit_matches qm e" if "qm \<in> live - {pm}" for qm
  proof -
    have "pm_id qm \<noteq> pm_id pm" using that pm(1) inj_onD [OF live_okD(1) [OF l], of qm pm] by auto
    then show ?thesis using live_okD(2) [OF l, of qm] that other by simp
  qed
  fix pk e1 c
  assume a: "view s' pk = Some e1" "state_channel (en_state e1) = Some c"
  then have ne: "pk \<noteq> pm_id pm" using s'(2) eo by auto
  then have e1: "view s pk = Some e1" using a other by simp
  have "c \<noteq> ch" using live_okD(5) [OF l pm(2,3) e1] a(2) ne by auto
  then show "ss_channels s' ! c = UpPending" using live_okD(4) [OF l e1 a(2)] s'(1) by simp
  obtain qm where "qm \<in> live" "pm_id qm = pk" using live_okD(3) [OF l e1 a(2)] by blast
  then show "\<exists>qm \<in> live - {pm}. pm_id qm = pk" using ne by blast
  show "pk' = pk" if b: "view s' pk' = Some e'" "state_channel (en_state e') = Some c" for pk' e'
  proof -
    have "pk' \<noteq> pm_id pm" using b s'(2) eo by auto
    then show ?thesis using live_okD(5) [OF l e1 a(2), of pk' e'] b other by simp
  qed
qed

lemma settle_waiting:
  assumes l: "live_ok live s" and w: "waiting_ok W H s" and pm: "view s (pm_id pm) = Some e" "state_channel (en_state e) = Some ch"
    and s': "ss_channels s' = (ss_channels s)[ch := up]" "up \<noteq> UpPending" "view s' = (view s)(pm_id pm := eo)"
    and ch: "ch < length (ss_channels s)"
    and H: "H \<subseteq> H'" "\<And>outcome. up = UpReplay outcome \<Longrightarrow> (entry_ref (pm_id pm) e, outcome) \<in> H'"
  shows "waiting_ok W H' s'"
proof (rule waiting_okI)
  fix c ref
  assume cw: "(c, ref) \<in> W"
  note wD = waiting_okD [OF w cw]
  show "c < length (ss_channels s')" using wD(1) s'(1) by simp
  show "\<exists>e. view s' (fst ref) = Some e \<and> state_channel (en_state e) = Some c \<and> entry_ref (fst ref) e = ref"
    if p: "ss_channels s' ! c = UpPending"
  proof -
    have c: "c \<noteq> ch" using p s'(1,2) ch by auto
    then obtain e1 where e1: "view s (fst ref) = Some e1" "state_channel (en_state e1) = Some c" "entry_ref (fst ref) e1 = ref"
      using wD(2) p s'(1) by auto
    have "fst ref \<noteq> pm_id pm" using e1 pm c by auto
    then show ?thesis using e1 s'(3) by simp
  qed
  show "(ref, outcome) \<in> H'" if r: "ss_channels s' ! c = UpReplay outcome" for outcome
  proof (cases "c = ch")
    case False
    then show ?thesis using wD(3) [of outcome] r s'(1) H(1) by auto
  next
    case True
    obtain e1 where e1: "view s (fst ref) = Some e1" "state_channel (en_state e1) = Some ch" "entry_ref (fst ref) e1 = ref"
      using wD(2) live_okD(4) [OF l pm] True by auto
    have "fst ref = pm_id pm" by (rule live_okD(5) [OF l pm e1(1,2)])
    then show ?thesis using H(2) r True s'(1) ch e1 pm(1) by auto
  qed
qed

lemma mem_settle:
  assumes m: "mem_ok a g live W H s" and pm: "pm \<in> live" "view s (pm_id pm) = Some e" "state_channel (en_state e) = Some ch"
    and s': "wf_state s'" "distinct (ss_dirty s')" "ss_channels s' = (ss_channels s)[ch := up]" "up \<noteq> UpPending"
    and v: "view s' = (view s)(pm_id pm := eo)"
    and eo: "\<And>e'. eo = Some e' \<Longrightarrow> en_key e' = pm_key pm \<and> coherent (length (ss_channels s)) e' \<and> state_channel (en_state e') = None"
    and H: "H \<subseteq> H'" "\<And>e' outcome sf. eo = Some e' \<Longrightarrow> en_state e' = ERetained outcome sf \<Longrightarrow> (entry_ref (pm_id pm) e', outcome) \<in> H'"
      "\<And>outcome. up = UpReplay outcome \<Longrightarrow> (entry_ref (pm_id pm) e, outcome) \<in> H'"
  shows "mem_ok a g (live - {pm}) W H' s'"
proof -
  note D = mem_okD [OF m]
  have ch: "ch < length (ss_channels s)" using state_ok_entry [OF D(1) pm(2)] pm(3) by (auto simp: coherent_def)
  have "view_ok a g (length (ss_channels s)) (view s')" unfolding v
  proof (rule view_ok_dom)
    show "view_ok a g (length (ss_channels s)) (view s)" using D(1) by (simp add: state_ok_def)
    show "dom ((view s)(pm_id pm := eo)) \<subseteq> dom (view s)" using pm(2) by (auto split: if_splits)
    show "en_key e' = snd pk \<and> coherent (length (ss_channels s)) e'" if "((view s)(pm_id pm := eo)) pk = Some e'" for pk e'
      using that eo [of e'] state_ok_entry [OF D(1), of pk e'] by (auto simp: pm_id_def split: if_splits)
  qed
  then have "state_ok a g s'" using s' by (simp add: state_ok_def)
  moreover have "live_ok (live - {pm}) s'" by (rule settle_live [OF D(2) pm s'(3) v]) (use eo in blast)
  moreover have "waiting_ok W H' s'" by (rule settle_waiting [OF D(2,3) pm(2,3) s'(3,4) v ch H(1,3)])
  moreover have "retained_ok H' s'" unfolding retained_ok_def
  proof (intro allI impI)
    fix pk e1 outcome sf
    assume a: "view s' pk = Some e1" "en_state e1 = ERetained outcome sf"
    show "(entry_ref pk e1, outcome) \<in> H'"
      using a v H(1,2) retained_okD [OF D(4), of pk e1] by (cases "pk = pm_id pm") auto
  qed
  ultimately show ?thesis by (simp add: mem_ok_def)
qed

text \<open>A new entry with a new channel.\<close>

lemma mem_insert:
  assumes m: "mem_ok a g live W H s" and free: "view s pk = None"
    and room: "card {k. (fst pk, k) \<in> dom (view s)} < a" "card (dom (view s)) < g"
    and s': "wf_state s'" "distinct (ss_dirty s')" "ss_channels s' = ss_channels s @ [UpPending]" "view s' = (view s)(pk \<mapsto> e)"
    and e: "en_key e = snd pk" "en_expires e = None"
    and c: "en_state e = EUnresolved \<and> live' = live \<or>
       state_channel (en_state e) = Some (length (ss_channels s)) \<and> live' = insert pm live \<and> pm_id pm = pk \<and> permit_matches pm e"
  shows "mem_ok a g live' W H s'"
proof -
  note D = mem_okD [OF m]
  let ?n = "length (ss_channels s)"
  have co: "coherent (Suc ?n) e" using e(2) c by (auto simp: coherent_def)
  have lt: "ch < ?n" if "view s qk = Some f" "state_channel (en_state f) = Some ch" for qk f ch
    using state_ok_entry [OF D(1) that(1)] that(2) by (auto simp: coherent_def)
  have "view_ok a g (Suc ?n) (view s')" unfolding s'(4)
    by (rule view_ok_insert [OF view_ok_mono free e(1) co room]) (use D(1) in \<open>auto simp: state_ok_def\<close>)
  then have "state_ok a g s'" using s' by (simp add: state_ok_def)
  moreover have "live_ok live' s'" unfolding live_ok_def
  proof (intro conjI ballI allI impI)
    have fresh: "pm_id qm \<noteq> pk" if "qm \<in> live" for qm using live_okD(2) [OF D(2) that] free by auto
    then have "pk \<notin> pm_id ` live" by blast
    then show "inj_on pm_id live'" using live_okD(1) [OF D(2)] c by (auto simp: inj_on_insert)
    show "\<exists>e. view s' (pm_id qm) = Some e \<and> permit_matches qm e" if "qm \<in> live'" for qm
      using live_okD(2) [OF D(2), of qm] fresh [of qm] that c s'(4) by auto
    fix qk f ch
    assume a: "view s' qk = Some f" "state_channel (en_state f) = Some ch"
    show "\<exists>qm \<in> live'. pm_id qm = qk"
      using a c s'(4) live_okD(3) [OF D(2), of qk f ch] by (cases "qk = pk") auto
    show "ss_channels s' ! ch = UpPending"
      using a c s'(3,4) live_okD(4) [OF D(2), of qk f ch] lt [of qk f ch] by (cases "qk = pk") (auto simp: nth_append)
    show "qk' = qk" if "view s' qk' = Some f'" "state_channel (en_state f') = Some ch" for qk' f'
      using that a c s'(4) lt [of qk f ch] lt [of qk' f' ch] live_okD(5) [OF D(2), of qk f ch qk' f']
      by (cases "qk = pk"; cases "qk' = pk") auto
  qed
  moreover have "waiting_ok W H s'"
  proof (rule waiting_okI)
    fix ch ref
    assume w: "(ch, ref) \<in> W"
    note wD = waiting_okD [OF D(3) w]
    have nth: "ss_channels s' ! ch = ss_channels s ! ch" using wD(1) s'(3) by (simp add: nth_append)
    show "ch < length (ss_channels s')" using wD(1) s'(3) by simp
    show "(ref, outcome) \<in> H" if "ss_channels s' ! ch = UpReplay outcome" for outcome using wD(3) that nth by simp
    show "\<exists>e. view s' (fst ref) = Some e \<and> state_channel (en_state e) = Some ch \<and> entry_ref (fst ref) e = ref"
      if pend: "ss_channels s' ! ch = UpPending"
    proof -
      obtain f where f: "view s (fst ref) = Some f" "state_channel (en_state f) = Some ch" "entry_ref (fst ref) f = ref"
        using wD(2) pend nth by auto
      then have "fst ref \<noteq> pk" using free by auto
      then show ?thesis using f s'(4) by simp
    qed
  qed
  moreover have "retained_ok H s'" unfolding retained_ok_def
  proof (intro allI impI)
    fix qk f outcome sf
    assume "view s' qk = Some f" "en_state f = ERetained outcome sf"
    then show "(entry_ref qk f, outcome) \<in> H" using c s'(4) retained_okD [OF D(4), of qk f] by (cases "qk = pk") auto
  qed
  ultimately show ?thesis by (simp add: mem_ok_def)
qed

text \<open>One more caller waits on the channel of the reservation it found.\<close>

lemma mem_wait:
  assumes "mem_ok a g live W H s" "view s pk = Some e" "state_channel (en_state e) = Some ch" "entry_ref pk e = ref"
  shows "mem_ok a g live (insert (ch, ref) W) H s"
proof -
  note D = mem_okD [OF assms(1)]
  have pk: "fst ref = pk" using assms(4) by (auto simp: entry_ref_def)
  have "ch < length (ss_channels s)" using state_ok_entry [OF D(1) assms(2)] assms(3) by (auto simp: coherent_def)
  then have "waiting_ok (insert (ch, ref) W) H s"
    using D(3) assms(2-4) pk live_okD(4) [OF D(2) assms(2,3)] by (simp add: waiting_ok_def)
  then show ?thesis using D by (simp add: mem_ok_def)
qed

lemma mem_waits: "mem_ok a g live W H s \<Longrightarrow> V \<subseteq> W \<Longrightarrow> mem_ok a g live V H s"
  unfolding mem_ok_def waiting_ok_def by blast

section \<open>The effect of each operation on its key\<close>

definition reserved_for :: "idem_request \<Rightarrow> 'o store_state \<Rightarrow> 'o entry" where
  "reserved_for rq s =
     \<lparr>en_key = rq_key rq, en_operation = rq_operation rq, en_sha = rq_sha rq,
      en_state = EReserved (ss_sequence s + 1) (length (ss_channels s)), en_expires = None,
      en_last_used = ss_sequence s + 1\<rparr>"

lemma insert_reserved_effect:
  assumes "wf_state s" "view s (rq_id rq) = None"
  shows "wf_state (insert_reserved rq s)" "view (insert_reserved rq s) = (view s)(rq_id rq \<mapsto> reserved_for rq s)"
    "ss_dirty (insert_reserved rq s) = List.insert (rq_id rq) (ss_dirty s)"
    "ss_channels (insert_reserved rq s) = ss_channels s @ [UpPending]"
proof -
  let ?s = "s\<lparr>ss_sequence := ss_sequence s + 1, ss_channels := ss_channels s @ [UpPending]\<rparr>"
  have eq: "insert_reserved rq s =
    mark_dirty (rq_id rq) (set_bucket (rq_principal rq) (bucket_of ?s (rq_principal rq) @ [reserved_for rq s]) ?s)"
    by (simp add: insert_reserved_def reserved_for_def rq_id_def Let_def)
  have a: "wf_state ?s" "view ?s (rq_principal rq, en_key (reserved_for rq s)) = None"
    using assms by (simp_all add: rq_id_def reserved_for_def)
  note app = append_effects [OF a]
  show "wf_state (insert_reserved rq s)" unfolding eq using app(1) by simp
  show "view (insert_reserved rq s) = (view s)(rq_id rq \<mapsto> reserved_for rq s)"
    unfolding eq using app(2) by (simp add: rq_id_def reserved_for_def)
  show "ss_dirty (insert_reserved rq s) = List.insert (rq_id rq) (ss_dirty s)" "ss_channels (insert_reserved rq s) = ss_channels s @ [UpPending]"
    unfolding eq by simp_all
qed

lemma unresolve_key_effect:
  assumes "wf_state s" "view s (p, k) = Some e"
  shows "wf_state (unresolve_key p k s)" "view (unresolve_key p k s) = (view s)((p, k) \<mapsto> e\<lparr>en_state := EUnresolved\<rparr>)"
    "ss_dirty (unresolve_key p k s) = ss_dirty s" "ss_channels (unresolve_key p k s) = ss_channels s"
proof -
  obtain i where i: "position (\<lambda>e. en_key e = k) (bucket_of s p) = Some i" "i < length (bucket_of s p)" "bucket_of s p ! i = e" "en_key e = k"
    using view_position [OF assms(2)] by blast
  have "map_of (ss_entries s) p = Some (bucket_of s p)" using i(2) by (auto simp: bucket_of_def split: option.splits)
  then have eq: "unresolve_key p k s = set_bucket p ((bucket_of s p)[i := e\<lparr>en_state := EUnresolved\<rparr>]) s"
    using update_first_position [OF i(1)] i(3) by (simp add: unresolve_key_def)
  note b = bucket_effects(3,4) [OF assms(1) i(2), of k "e\<lparr>en_state := EUnresolved\<rparr>"]
  show "wf_state (unresolve_key p k s)" "view (unresolve_key p k s) = (view s)((p, k) \<mapsto> e\<lparr>en_state := EUnresolved\<rparr>)"
    unfolding eq using b i(3,4) by simp_all
  show "ss_dirty (unresolve_key p k s) = ss_dirty s" "ss_channels (unresolve_key p k s) = ss_channels s" unfolding eq by simp_all
qed

lemma abandon_entry_effect:
  assumes "wf_state s" "view s (pm_id pm) = Some e" "permit_matches pm e" "state_channel (en_state e) = Some ch"
  shows "wf_state (abandon_entry pm s)" "view (abandon_entry pm s) = (view s)(pm_id pm := None)"
    "ss_dirty (abandon_entry pm s) = List.insert (pm_id pm) (ss_dirty s)"
    "ss_channels (abandon_entry pm s) = (ss_channels s)[ch := UpReleased]"
proof -
  let ?p = "pm_principal pm"
  obtain i where i: "position (permit_matches pm) (bucket_of s ?p) = Some i" "i < length (bucket_of s ?p)" "bucket_of s ?p ! i = e"
    using permit_position [OF assms(1) assms(2)[unfolded pm_id_def] assms(3)] by blast
  have k: "en_key e = pm_key pm" using assms(3) by (simp add: permit_matches_def)
  have eq: "abandon_entry pm s = send_replace ch UpReleased (mark_dirty (pm_id pm)
      (remove_empty_buckets (set_bucket ?p (remove_nth i (bucket_of s ?p)) s)))"
    using i assms(4) by (simp add: abandon_entry_def Let_def pm_id_def)
  note b = bucket_effects(5,6) [OF assms(1) i(2), of "pm_key pm" e]
  have "wf_state (set_bucket ?p (remove_nth i (bucket_of s ?p)) s)" using b i(3) k by simp
  then show "wf_state (abandon_entry pm s)" "view (abandon_entry pm s) = (view s)(pm_id pm := None)"
    unfolding eq using b i(3) k by (simp_all add: wf_remove_empty view_remove_empty pm_id_def)
  show "ss_dirty (abandon_entry pm s) = List.insert (pm_id pm) (ss_dirty s)"
    "ss_channels (abandon_entry pm s) = (ss_channels s)[ch := UpReleased]" unfolding eq by simp_all
qed

lemma unresolve_entry_effect:
  assumes "wf_state s" "view s (pm_id pm) = Some e" "permit_matches pm e" "state_channel (en_state e) = Some ch"
  shows "wf_state (unresolve_entry pm s)" "view (unresolve_entry pm s) = (view s)(pm_id pm \<mapsto> e\<lparr>en_state := EUnresolved\<rparr>)"
    "ss_dirty (unresolve_entry pm s) = List.insert (pm_id pm) (ss_dirty s)"
    "ss_channels (unresolve_entry pm s) = (ss_channels s)[ch := UpUnresolved]"
proof -
  let ?p = "pm_principal pm"
  obtain i where i: "position (permit_matches pm) (bucket_of s ?p) = Some i" "i < length (bucket_of s ?p)" "bucket_of s ?p ! i = e"
    using permit_position [OF assms(1) assms(2)[unfolded pm_id_def] assms(3)] by blast
  have k: "en_key e = pm_key pm" using assms(3) by (simp add: permit_matches_def)
  have eq: "unresolve_entry pm s = send_replace ch UpUnresolved (mark_dirty (pm_id pm)
      (set_bucket ?p ((bucket_of s ?p)[i := e\<lparr>en_state := EUnresolved\<rparr>]) s))"
    using i assms(4) by (simp add: unresolve_entry_def Let_def pm_id_def)
  note b = bucket_effects(3,4) [OF assms(1) i(2), of "pm_key pm" "e\<lparr>en_state := EUnresolved\<rparr>"]
  show "wf_state (unresolve_entry pm s)" "view (unresolve_entry pm s) = (view s)(pm_id pm \<mapsto> e\<lparr>en_state := EUnresolved\<rparr>)"
    unfolding eq using b i(3) k by (simp_all add: pm_id_def)
  show "ss_dirty (unresolve_entry pm s) = List.insert (pm_id pm) (ss_dirty s)"
    "ss_channels (unresolve_entry pm s) = (ss_channels s)[ch := UpUnresolved]" unfolding eq by simp_all
qed

definition retained_for :: "'o outcome_ops \<Rightarrow> 'o \<Rightarrow> time \<Rightarrow> 'o entry \<Rightarrow> 'o store_state \<Rightarrow> 'o entry option" where
  "retained_for Ops outcome expiry e s =
     (if releases_reservation Ops outcome then None
      else Some (e\<lparr>en_last_used := ss_sequence s + 1,
                   en_expires := (if safety_relevant Ops outcome then None else Some expiry),
                   en_state := ERetained outcome (safety_relevant Ops outcome)\<rparr>))"

lemma finish_state_effect:
  assumes "wf_state s" "i < length (bucket_of s (pm_principal pm))" "bucket_of s (pm_principal pm) ! i = e" "en_key e = pm_key pm"
    and s'_def: "s' = finish_state Ops pm outcome expiry e (remove_nth i (bucket_of s (pm_principal pm))) s"
  shows "wf_state s'" "view s' = (view s)(pm_id pm := retained_for Ops outcome expiry e s)"
    "ss_dirty s' = List.insert (pm_id pm) (ss_dirty s)" "ss_channels s' = ss_channels s"
proof -
  let ?p = "pm_principal pm" and ?rest = "remove_nth i (bucket_of s (pm_principal pm))"
  let ?t = "s\<lparr>ss_sequence := ss_sequence s + 1\<rparr>"
  obtain s1 where s1: "s' = remove_empty_buckets (mark_dirty (pm_id pm) s1)" "wf_state s1"
    "view s1 = (view s)(pm_id pm := retained_for Ops outcome expiry e s)" "ss_dirty s1 = ss_dirty s" "ss_channels s1 = ss_channels s"
  proof (cases "releases_reservation Ops outcome")
    case True
    then show thesis using that [of "set_bucket ?p ?rest s"] bucket_effects(5,6) [OF assms(1,2), of "pm_key pm" e] assms(3,4)
      unfolding s'_def by (simp add: finish_state_def Let_def retained_for_def pm_id_def)
  next
    case False
    let ?e = "the (retained_for Ops outcome expiry e s)"
    have "retained_for Ops outcome expiry e s = Some ?e" "en_key ?e = pm_key pm" using False assms(4) by (simp_all add: retained_for_def)
    then show thesis using False that [of "set_bucket ?p (?rest @ [?e]) ?t"]
        bucket_effects(1,2) [of ?t i ?p "pm_key pm" ?e] assms(1-4)
      unfolding s'_def by (simp add: finish_state_def Let_def retained_for_def pm_id_def)
  qed
  then show "wf_state s'" "view s' = (view s)(pm_id pm := retained_for Ops outcome expiry e s)"
    "ss_dirty s' = List.insert (pm_id pm) (ss_dirty s)" "ss_channels s' = ss_channels s"
    by (simp_all add: wf_remove_empty view_remove_empty)
qed

lemma finish_failed_effect:
  assumes "wf_state s"
  shows "wf_state (finish_failed pm s)" "ss_dirty (finish_failed pm s) = ss_dirty s" "ss_channels (finish_failed pm s) = ss_channels s"
    "\<exists>e. view (finish_failed pm s) = (view s)(pm_id pm \<mapsto> e) \<and> en_key e = pm_key pm \<and> en_state e = EUnresolved \<and> en_expires e = None"
proof -
  let ?p = "pm_principal pm"
  have "wf_state (finish_failed pm s) \<and>
    (\<exists>e. view (finish_failed pm s) = (view s)(pm_id pm \<mapsto> e) \<and> en_key e = pm_key pm \<and> en_state e = EUnresolved \<and> en_expires e = None)"
  proof (cases "view s (pm_id pm)")
    case None
    then have "view s (?p, en_key (unresolved_for pm)) = None" by (simp add: pm_id_def unresolved_for_def)
    note app = append_effects [OF assms this]
    have "position (\<lambda>e. en_key e = pm_key pm) (bucket_of s ?p) = None" using None by (simp add: position_key_None view_def pm_id_def)
    then have "finish_failed pm s = set_bucket ?p (bucket_of s ?p @ [unresolved_for pm]) s" by (simp add: finish_failed_def Let_def)
    then show ?thesis using app by (auto simp: unresolved_for_def pm_id_def intro!: exI [of _ "unresolved_for pm"])
  next
    case (Some e)
    obtain i where i: "position (\<lambda>e. en_key e = pm_key pm) (bucket_of s ?p) = Some i" "i < length (bucket_of s ?p)" "bucket_of s ?p ! i = e" "en_key e = pm_key pm"
      using view_position [OF Some [unfolded pm_id_def]] by blast
    let ?e = "e\<lparr>en_state := EUnresolved, en_expires := None\<rparr>"
    have "finish_failed pm s = set_bucket ?p ((bucket_of s ?p)[i := ?e]) s" using i by (simp add: finish_failed_def Let_def)
    then show ?thesis using bucket_effects(3,4) [OF assms i(2), of "pm_key pm" ?e] i(3,4)
      by (auto simp: pm_id_def intro!: exI [of _ ?e])
  qed
  then show "wf_state (finish_failed pm s)"
    "\<exists>e. view (finish_failed pm s) = (view s)(pm_id pm \<mapsto> e) \<and> en_key e = pm_key pm \<and> en_state e = EUnresolved \<and> en_expires e = None" by blast+
  show "ss_dirty (finish_failed pm s) = ss_dirty s" "ss_channels (finish_failed pm s) = ss_channels s" by (simp_all add: finish_failed_def Let_def)
qed

section \<open>The invariant of a store\<close>

definition open_pins :: "idem_permit set \<Rightarrow> (ledger_key \<times> 'o pin) set" where
  "open_pins live = (\<lambda>pm. (pm_id pm, PinOpen)) ` live"

definition pins_ok :: "('o, 'w, 'd) idem_env \<Rightarrow> (ledger_key \<times> 'o pin) set \<Rightarrow> bool" where
  "pins_ok Env P \<longleftrightarrow> (\<forall>(pk, pin) \<in> P. pin \<noteq> PinOpen \<and> pin_stable Env pin)"

definition store_ok ::
  "('o, 'w, 'd) idem_env \<Rightarrow> ('w \<Rightarrow> ledger_map \<Rightarrow> bool) \<Rightarrow> ('d \<Rightarrow> ledger_map option \<Rightarrow> bool) \<Rightarrow> idem_permit set \<Rightarrow>
   (ledger_key \<times> 'o pin) set \<Rightarrow> (nat \<times> command_ref) set \<Rightarrow> (command_ref \<times> 'o) set \<Rightarrow> ('o, 'w) idempotency_store \<Rightarrow> bool" where
  "store_ok Env ok stored live P W H st \<longleftrightarrow>
     mem_ok (id_per_principal_capacity st) (id_global_capacity st) live W H (id_state st) \<and> pins_ok Env P \<and>
     (\<forall>pm \<in> live. pm_durable pm \<longleftrightarrow> id_durable st \<noteq> None) \<and>
     ledger_side Env ok stored P (P \<union> open_pins live) st"

lemma live_mem_pins: "live_ok live s \<Longrightarrow> mem_pins (view s) (open_pins live)"
  using live_okD(2) [of live s] permit_state by (fastforce simp: mem_pins_def open_pins_def)

lemma mem_pins_un: "mem_pins v (P \<union> Q) \<longleftrightarrow> mem_pins v P \<and> mem_pins v Q"
  by (simp add: mem_pins_def ball_Un)

lemma disk_pins_un: "disk_pins Env m (P \<union> Q) \<longleftrightarrow> disk_pins Env m P \<and> disk_pins Env m Q"
  by (simp add: disk_pins_def ball_Un)

lemma open_pins_known: "disk_pins Env m (open_pins live) \<Longrightarrow> pm \<in> live \<Longrightarrow> m (pm_id pm) \<noteq> None"
  by (auto simp: disk_pins_def open_pins_def)

lemma open_pins_stable: "pins_ok Env P \<Longrightarrow> \<forall>(pk, pin) \<in> P \<union> open_pins live. pin_stable Env pin"
  by (auto simp: pins_ok_def open_pins_def)

lemma pin_elsewhere:
  assumes "mem_pins v P" "pins_ok Env P" "v pk = None \<or> (\<exists>e. v pk = Some e \<and> state_channel (en_state e) \<noteq> None)"
  shows "(pk, pin) \<notin> P"
proof
  assume p: "(pk, pin) \<in> P"
  then obtain e where e: "v pk = Some e" "entry_pinned pin e" using mem_pinsD [OF assms(1)] by blast
  have "pin \<noteq> PinOpen" using assms(2) p by (auto simp: pins_ok_def)
  then show False using e assms(3) by (cases pin) auto
qed

lemma mem_pins_update: "mem_pins v P \<Longrightarrow> (\<And>pin. (pk, pin) \<notin> P) \<Longrightarrow> mem_pins (v(pk := eo)) P"
  by (auto simp: mem_pins_def)

lemma mem_pins_touch:
  assumes "mem_pins v P" "v pk = Some e"
  shows "mem_pins (v(pk \<mapsto> e\<lparr>en_last_used := n\<rparr>)) P"
  unfolding mem_pins_def
proof clarify
  fix p k pin
  assume P: "((p, k), pin) \<in> P"
  show "\<exists>e'. (v(pk \<mapsto> e\<lparr>en_last_used := n\<rparr>)) (p, k) = Some e' \<and> entry_pinned pin e'"
    using mem_pinsD [OF assms(1) P] assms(2) by (cases "(p, k) = pk") auto
qed

lemma synced_same: "view s' = view s \<Longrightarrow> set (ss_dirty s') = set (ss_dirty s) \<Longrightarrow> synced s' m = synced s m"
  by (simp add: synced_def)

lemma synced_touch:
  assumes "synced s m" "view s pk = Some e" "view s' = (view s)(pk \<mapsto> e\<lparr>en_last_used := n\<rparr>)" "set (ss_dirty s') = insert pk (set (ss_dirty s))"
  shows "synced s' m"
proof (rule synced_update [OF assms(1,3,4)])
  have "disposable (e\<lparr>en_last_used := n\<rparr>) = disposable e" by (simp add: disposable_def)
  then show "m pk \<noteq> None \<or> (\<exists>e'. Some (e\<lparr>en_last_used := n\<rparr>) = Some e' \<and> \<not> disposable e')"
    using syncedD(2,3) [OF assms(1), of pk] assms(2) by auto
qed

lemma store_okD:
  assumes "store_ok Env ok stored live P W H st"
  shows "mem_ok (id_per_principal_capacity st) (id_global_capacity st) live W H (id_state st)" "pins_ok Env P"
    "pm \<in> live \<Longrightarrow> pm_durable pm \<longleftrightarrow> id_durable st \<noteq> None" "ledger_side Env ok stored P (P \<union> open_pins live) st"
  using assms by (auto simp: store_ok_def)

text \<open>A change of the state alone: the entries settle, and what changes is marked.\<close>

lemma store_state:
  assumes st: "store_ok Env ok stored live P W H st"
    and s': "mem_ok (id_per_principal_capacity st) (id_global_capacity st) live W' H s'"
    and l: "\<And>m. synced (id_state st) m \<Longrightarrow> mem_pins (view (id_state st)) P \<Longrightarrow> synced s' m \<and> mem_pins (view s') P"
  shows "store_ok Env ok stored live P W' H (st\<lparr>id_state := s'\<rparr>)"
proof -
  have "ledger_side Env ok stored P (P \<union> open_pins live) (st\<lparr>id_state := s'\<rparr>)"
    by (rule ledger_side_state [OF store_okD(4) [OF st]])
      (use l store_okD(4) [OF st] in \<open>auto simp: ledger_side_def split: option.splits\<close>)
  then show ?thesis using s' store_okD(2,3) [OF st] by (simp add: store_ok_def)
qed

lemma store_shrinks:
  assumes st: "store_ok Env ok stored live P W H st" and sh: "shrinks (id_state st) s'"
  shows "store_ok Env ok stored live P W H (st\<lparr>id_state := s'\<rparr>)"
proof (rule store_state [OF st mem_shrinks [OF store_okD(1) [OF st] sh]])
  fix m
  assume "synced (id_state st) m" "mem_pins (view (id_state st)) P"
  then show "synced s' m \<and> mem_pins (view s') P"
    using synced_shrinks [OF _ sh] mem_pins_shrinks [OF mem_okD(1) [OF store_okD(1) [OF st]] _ sh] by blast
qed

lemma store_lookup:
  assumes st: "store_ok Env ok stored live P W H st" and r: "reserve_lookup (ev_outcome Env) rq now (id_state st) = (r, s')"
  shows "store_ok Env ok stored live P (case r of LkWait ch \<Rightarrow> insert (ch, rq_ref rq) W | _ \<Rightarrow> W) H (st\<lparr>id_state := s'\<rparr>)"
proof -
  note M = mem_okD [OF store_okD(1) [OF st]]
  have pk: "rq_id rq = (rq_principal rq, rq_key rq)" by (simp add: rq_id_def)
  note S = store_shrinks [OF st]
  show ?thesis using M(5,6) r pk
  proof (cases rule: lookup_effect)
    case (vacant s1)
    have s1: "store_ok Env ok stored live P W H (st\<lparr>id_state := s1\<rparr>)" by (rule S [OF vacant(1)])
    have "mem_ok (id_per_principal_capacity st) (id_global_capacity st) live W H s'"
      using mem_settles [OF store_okD(1) [OF s1], of s'] vacant(4-7) shrinksD(3) [OF vacant(1)] by (simp add: settles_refl)
    then show ?thesis using store_state [OF s1, of W s'] vacant(3-7) synced_same [of s' s1] by simp
  next
    case (mismatch s1 e)
    have s1: "store_ok Env ok stored live P W H (st\<lparr>id_state := s1\<rparr>)" by (rule S [OF mismatch(1)])
    have "mem_ok (id_per_principal_capacity st) (id_global_capacity st) live W H s'"
      using mem_settles [OF store_okD(1) [OF s1], of s'] mismatch(5-8) shrinksD(3) [OF mismatch(1)] by (simp add: settles_refl)
    then show ?thesis using store_state [OF s1, of W s'] mismatch(4-8) synced_same [of s' s1] by simp
  next
    case (found s1 e n)
    have s1: "store_ok Env ok stored live P W H (st\<lparr>id_state := s1\<rparr>)" by (rule S [OF found(1)])
    have s': "mem_ok (id_per_principal_capacity st) (id_global_capacity st) live W H s'"
      using mem_settles [OF store_okD(1) [OF s1], of s'] found(6-9) shrinksD(3) [OF found(1)] settles_touch [of "view s1", OF found(2)] by simp
    have s'': "store_ok Env ok stored live P W' H (st\<lparr>id_state := s'\<rparr>)"
      if "mem_ok (id_per_principal_capacity st) (id_global_capacity st) live W' H s'" for W'
      using store_state [OF s1, of W' s'] that mem_pins_touch [of "view s1", OF _ found(2)] found(7,8) synced_touch [OF _ found(2) found(7)] by simp
    show ?thesis
    proof (cases "state_channel (en_state e)")
      case None
      then show ?thesis using s'' [OF s'] found(5) by (cases "en_state e") auto
    next
      case (Some ch)
      have "entry_ref (rq_id rq) (e\<lparr>en_last_used := n\<rparr>) = rq_ref rq" using found(3,4) by (simp add: entry_ref_def rq_ref_def)
      then have "mem_ok (id_per_principal_capacity st) (id_global_capacity st) live (insert (ch, rq_ref rq) W) H s'"
        using mem_wait [OF s', of "rq_id rq" "e\<lparr>en_last_used := n\<rparr>" ch] found(7) Some by simp
      then show ?thesis using s'' found(5) Some by (cases "en_state e") auto
    qed
  qed
qed

section \<open>Every operation keeps the invariant\<close>

lemma side_mem_pins: "ledger_side Env ok stored P Q st \<Longrightarrow> integrity_issue st = None \<Longrightarrow> mem_pins (view (id_state st)) P"
  by (auto simp: ledger_side_def mem_pins_def split: option.splits)

lemma side_memory: "ledger_side Env ok stored P Q st \<Longrightarrow> id_durable st = None \<longrightarrow> P = {}"
  by (auto simp: ledger_side_def)

lemma side_same:
  assumes "ledger_side Env ok stored P Q st" "view s' = view (id_state st)" "set (ss_dirty s') = set (ss_dirty (id_state st))"
  shows "ledger_side Env ok stored P Q (st\<lparr>id_state := s'\<rparr>)"
  by (rule ledger_side_state [OF assms(1)])
    (use assms synced_same [OF assms(2,3)] in \<open>auto simp: ledger_side_def split: option.splits\<close>)

lemma side_update:
  assumes "ledger_side Env ok stored P Q st" "view s' = (view (id_state st))(pk := eo)"
    "set (ss_dirty s') = insert pk (set (ss_dirty (id_state st)))"
    "\<And>m. disk_pins Env m Q \<Longrightarrow> m pk \<noteq> None \<or> (\<exists>e. eo = Some e \<and> \<not> disposable e)"
    "mem_pins (view (id_state st)) P \<Longrightarrow> mem_pins (view s') P'" "id_durable st = None \<longrightarrow> P' = {}"
    "\<And>m. disk_pins Env m Q \<Longrightarrow> disk_pins Env m Q'"
  shows "ledger_side Env ok stored P' Q' (st\<lparr>id_state := s'\<rparr>)"
  by (rule ledger_side_state [OF assms(1,6) _ assms(7)]) (use synced_update [OF _ assms(2,3)] assms(4,5) in blast)+

lemma state_ok_send [simp]: "state_ok a g (send_replace ch up s) = state_ok a g s"
  by (simp add: state_ok_def)

lemma state_ok_clear: "state_ok a g s \<Longrightarrow> state_ok a g (s\<lparr>ss_dirty := []\<rparr>)"
  by (simp add: state_ok_def)

lemma unresolved_solid: "en_state e = EUnresolved \<Longrightarrow> en_expires e = None \<Longrightarrow> \<not> disposable e \<and> coherent n e"
  by (simp add: disposable_def coherent_def)

lemma live_entry:
  assumes "store_ok Env ok stored live P W H st" "pm \<in> live"
  obtains e ch where "view (id_state st) (pm_id pm) = Some e" "permit_matches pm e" "state_channel (en_state e) = Some ch"
    "en_expires e = None" "en_key e = pm_key pm"
proof -
  note M = mem_okD [OF store_okD(1) [OF assms(1)]]
  obtain e where e: "view (id_state st) (pm_id pm) = Some e" "permit_matches pm e" using live_okD(2) [OF M(2) assms(2)] by blast
  then obtain ch where ch: "state_channel (en_state e) = Some ch" using permit_state by blast
  then have "en_expires e = None" using state_ok_entry [OF M(1) e(1)] by (cases "en_state e") (auto simp: coherent_def)
  then show thesis using that [OF e ch] e(2) by (simp add: permit_matches_def)
qed

lemma open_pins_remove: "disk_pins Env m (P \<union> open_pins live) \<Longrightarrow> disk_pins Env m (P \<union> open_pins (live - {pm}))"
  by (rule disk_pins_mono) (auto simp: open_pins_def)

lemma open_pins_keep:
  "pm \<in> live \<Longrightarrow> disk_pins Env m (P \<union> open_pins live) \<Longrightarrow> disk_pins Env m (insert (pm_id pm, PinUnresolved) P \<union> open_pins (live - {pm}))"
proof -
  assume a: "pm \<in> live" "disk_pins Env m (P \<union> open_pins live)"
  have "\<exists>de. m (pm_id pm) = Some de \<and> de_pinned Env PinOpen de"
    by (rule disk_pinsD [OF a(2)]) (use a(1) in \<open>auto simp: open_pins_def\<close>)
  then have "disk_pins Env m {(pm_id pm, PinUnresolved)}" by (simp add: disk_pins_def)
  then show ?thesis using open_pins_remove [OF a(2), of pm] disk_pins_un [of Env m "{(pm_id pm, PinUnresolved)}"] by simp
qed

lemma store_drop:
  assumes st: "store_ok Env ok stored live P W H st" and pm: "pm \<in> live"
  shows "store_ok Env ok stored (live - {pm}) (if pm_durable pm then insert (pm_id pm, PinUnresolved) P else P) W H (drop_permit pm st)"
proof -
  note M = mem_okD [OF store_okD(1) [OF st]]
  obtain e ch where e: "view (id_state st) (pm_id pm) = Some e" "permit_matches pm e" "state_channel (en_state e) = Some ch"
    "en_expires e = None" "en_key e = pm_key pm" by (rule live_entry [OF st pm])
  note settle = mem_settle [OF store_okD(1) [OF st] pm e(1,3)]
  have dur: "pm_durable pm \<longleftrightarrow> id_durable st \<noteq> None" by (rule store_okD(3) [OF st pm])
  have known: "m (pm_id pm) \<noteq> None" if "disk_pins Env m (P \<union> open_pins live)" for m
    using that open_pins_known [OF _ pm] by (auto simp: disk_pins_un)
  show ?thesis
  proof (cases "pm_durable pm")
    case True
    note eff = unresolve_entry_effect [OF M(5) e(1-3)]
    let ?s = "unresolve_entry pm (id_state st)"
    have mem: "mem_ok (id_per_principal_capacity st) (id_global_capacity st) (live - {pm}) W H ?s"
      by (rule settle [OF eff(1) _ eff(4) _ eff(2)]) (use eff(3) M(6) e(4,5) in \<open>auto simp: coherent_def\<close>)
    have pins: "mem_pins (view ?s) (insert (pm_id pm, PinUnresolved) P)" if "mem_pins (view (id_state st)) P"
    proof -
      have "mem_pins (view ?s) P" unfolding eff(2)
        by (rule mem_pins_update [OF that]) (rule pin_elsewhere [OF that store_okD(2) [OF st]], use e in auto)
      then show ?thesis using eff(2) by (simp add: mem_pins_def)
    qed
    have "ledger_side Env ok stored (insert (pm_id pm, PinUnresolved) P) (insert (pm_id pm, PinUnresolved) P \<union> open_pins (live - {pm}))
        (st\<lparr>id_state := ?s\<rparr>)"
      by (rule side_update [OF store_okD(4) [OF st] eff(2)])
        (use eff(3) known pins dur True open_pins_keep [OF pm] in auto)
    then show ?thesis using True mem store_okD(2,3) [OF st] by (simp add: store_ok_def drop_permit_def pins_ok_def)
  next
    case False
    note eff = abandon_entry_effect [OF M(5) e(1-3)]
    let ?s = "abandon_entry pm (id_state st)"
    have mem: "mem_ok (id_per_principal_capacity st) (id_global_capacity st) (live - {pm}) W H ?s"
      by (rule settle [OF eff(1) _ eff(4) _ eff(2)]) (use eff(3) M(6) in auto)
    have "ledger_side Env ok stored P (P \<union> open_pins (live - {pm})) (st\<lparr>id_state := ?s\<rparr>)"
      using store_okD(4) [OF st] dur False by (simp add: ledger_side_def)
    then show ?thesis using False mem store_okD(2,3) [OF st] by (simp add: store_ok_def drop_permit_def)
  qed
qed

context durable_store
begin

lemma store_abandon:
  assumes st: "store_ok Env ok stored live P W H st" and pm: "pm \<in> live"
  shows "store_ok Env ok stored (live - {pm}) P W H (idem_abandon Env pm st)"
proof -
  note M = mem_okD [OF store_okD(1) [OF st]]
  obtain e ch where e: "view (id_state st) (pm_id pm) = Some e" "permit_matches pm e" "state_channel (en_state e) = Some ch"
    by (rule live_entry [OF st pm])
  note settle = mem_settle [OF store_okD(1) [OF st] pm e(1,3)]
  note eff = abandon_entry_effect [OF M(5) e(1-3)]
  let ?s = "abandon_entry pm (id_state st)" and ?R = "P \<union> open_pins (live - {pm})"
  let ?st = "st\<lparr>id_state := ?s\<rparr>"
  have mem: "mem_ok (id_per_principal_capacity st) (id_global_capacity st) (live - {pm}) W H ?s"
    by (rule settle [OF eff(1) _ eff(4) _ eff(2)]) (use eff(3) M(6) in auto)
  have known: "m (pm_id pm) \<noteq> None" if "disk_pins Env m (P \<union> open_pins live)" for m
    using that open_pins_known [OF _ pm] by (auto simp: disk_pins_un)
  have pins: "mem_pins (view ?s) P" if "mem_pins (view (id_state st)) P" unfolding eff(2)
    by (rule mem_pins_update [OF that]) (rule pin_elsewhere [OF that store_okD(2) [OF st]], use e in auto)
  have side: "ledger_side Env ok stored P ?R ?st"
    by (rule side_update [OF store_okD(4) [OF st] eff(2)])
      (use eff(3) known pins open_pins_remove store_okD(4) [OF st] in \<open>auto simp: ledger_side_def\<close>)
  obtain r st' where p: "persist_locked Env ?st = (r, st')" by force
  have "r = Inr () \<and> id_state st' = ?s\<lparr>ss_dirty := []\<rparr> \<and> ledger_side Env ok stored P ?R st' \<or>
    (\<exists>e. r = Inl e) \<and> id_state st' = ?s \<and> ledger_side Env ok stored P ?R st'"
  proof (cases "integrity_issue st")
    case None
    have "mem_pins (view ?s) ?R" using pins side_mem_pins [OF store_okD(4) [OF st] None] live_mem_pins [OF mem_okD(2) [OF mem]]
      by (simp add: mem_pins_un)
    then show ?thesis using persist_side [OF side _ _ p, of ?R P] None mem_okD(1) [OF mem] open_pins_stable [OF store_okD(2) [OF st]]
        side_memory [OF store_okD(4) [OF st]] by simp
  next
    case (Some i)
    then show ?thesis using p side by (auto simp: persist_locked_def)
  qed
  then show ?thesis
  proof
    assume a: "r = Inr () \<and> id_state st' = ?s\<lparr>ss_dirty := []\<rparr> \<and> ledger_side Env ok stored P ?R st'"
    have "mem_ok (id_per_principal_capacity st) (id_global_capacity st) (live - {pm}) W H (?s\<lparr>ss_dirty := []\<rparr>)"
      by (rule mem_clear [OF mem])
    then show ?thesis using a p persist_frame [OF p] store_okD(2,3) [OF st] by (simp add: idem_abandon_def store_ok_def)
  next
    assume a: "(\<exists>e. r = Inl e) \<and> id_state st' = ?s \<and> ledger_side Env ok stored P ?R st'"
    let ?u = "unresolved_for pm :: 'o entry" and ?p = "pm_principal pm"
    let ?t = "set_bucket ?p (bucket_of ?s ?p @ [?u]) ?s"
    have k: "(?p, en_key ?u) = pm_id pm" by (simp add: pm_id_def unresolved_for_def)
    have "view ?s (?p, en_key ?u) = None" unfolding k eff(2) by simp
    note app = append_effects [OF eff(1) this, unfolded k eff(2) fun_upd_upd]
    have u: "en_key ?u = pm_key pm" "en_state ?u = EUnresolved" "en_expires ?u = None" by (simp_all add: unresolved_for_def)
    have t: "mem_ok (id_per_principal_capacity st) (id_global_capacity st) (live - {pm}) W H ?t"
      by (rule settle [OF app(1) _ _ _ app(2)]) (use eff(3,4) M(6) u in \<open>auto simp: coherent_def\<close>)
    have "ledger_side Env ok stored P ?R (st'\<lparr>id_state := ?t\<rparr>)"
    proof (rule side_update [where pk = "pm_id pm" and eo = "Some ?u"])
      show "ledger_side Env ok stored P ?R st'" using a by blast
      show "view ?t = (view (id_state st'))(pm_id pm \<mapsto> ?u)" using a app(2) eff(2) by simp
      show "set (ss_dirty ?t) = insert (pm_id pm) (set (ss_dirty (id_state st')))" using a eff(3) by simp
      show "mem_pins (view ?t) P" if "mem_pins (view (id_state st')) P"
        unfolding app(2) using that a eff(2) pin_elsewhere [OF _ store_okD(2) [OF st], of "view ?s" "pm_id pm"]
          mem_pins_update [of "view ?s" P "pm_id pm" "Some ?u"] by simp
    qed (use a u unresolved_solid in \<open>auto simp: ledger_side_def\<close>)
    then show ?thesis using a p t persist_frame [OF p] store_okD(2,3) [OF st]
      by (auto simp: idem_abandon_def store_ok_def Let_def)
  qed
qed

end

definition kept_pins :: "('o, 'w, 'd) idem_env \<Rightarrow> idem_permit \<Rightarrow> 'o \<Rightarrow> (ledger_key \<times> 'o pin) set" where
  "kept_pins Env pm outcome =
     (let pin = PinRetained (pm_operation pm) (pm_sha pm) outcome
      in if pm_durable pm \<and> \<not> releases_reservation (ev_outcome Env) outcome \<and> pin_stable Env pin then {(pm_id pm, pin)} else {})"

lemma finish_unfold:
  assumes "integrity_issue st = None" "position (\<lambda>e. en_key e = pm_key pm) (bucket_of (id_state st) (pm_principal pm)) = Some i"
    "bucket_of (id_state st) (pm_principal pm) ! i = e" "permit_matches pm e" "state_channel (en_state e) = Some ch"
    "persist_locked Env (st\<lparr>id_state := finish_state (ev_outcome Env) pm outcome (now + id_ttl st) e
       (remove_nth i (bucket_of (id_state st) (pm_principal pm))) (id_state st)\<rparr>) = (r, st')"
  shows "idem_finish Env pm outcome now st =
    (case r of
       Inl _ \<Rightarrow> (Inl (persistence_error (pm_correlation_id pm)),
                st'\<lparr>id_state := send_replace ch UpUnresolved (finish_failed pm (id_state st'))\<rparr>)
     | Inr _ \<Rightarrow> (Inr (), st'\<lparr>id_state := send_replace ch (finish_update (ev_outcome Env) outcome) (id_state st')\<rparr>))"
  using assms by (simp add: idem_finish_def ensure_writable_def Let_def split: sum.splits)

lemma make_room_shrinks:
  assumes "wf_state (id_state st)" "distinct (ss_dirty (id_state st))"
  shows "shrinks (cleanup_expired now (id_state st)) (make_room p now st)" "shrinks (id_state st) (make_room p now st)"
proof -
  note c = shrinks_cleanup [OF assms, of now]
  note a = shrinks_principal_room [OF shrinksD(1,3) [OF c], of p "id_per_principal_capacity st"]
  note b = shrinks_evict_global [OF shrinksD(1,3) [OF a]]
  show "shrinks (cleanup_expired now (id_state st)) (make_room p now st)"
    unfolding make_room_def make_global_room_def by (rule shrinks_trans [OF a b])
  then show "shrinks (id_state st) (make_room p now st)" by (rule shrinks_trans [OF c])
qed

text \<open>The state \<open>finish\<close> persists, for the entry \<open>e\<close> of a permit that is out.\<close>

lemma finish_prepared:
  assumes st: "store_ok Env ok stored live P W H st" and pm: "pm \<in> live" and int: "integrity_issue st = None"
    and e: "view (id_state st) (pm_id pm) = Some e" "permit_matches pm e" "state_channel (en_state e) = Some ch" "en_key e = pm_key pm"
    and v: "view s1 = (view (id_state st))(pm_id pm := eo)" "wf_state s1" "ss_dirty s1 = List.insert (pm_id pm) (ss_dirty (id_state st))"
      "ss_channels s1 = ss_channels (id_state st)"
    and eo: "eo = retained_for (ev_outcome Env) outcome expiry e (id_state st)"
  shows "view t = view s1 \<Longrightarrow> wf_state t \<Longrightarrow> distinct (ss_dirty t) \<Longrightarrow> ss_channels t = ss_channels (id_state st) \<Longrightarrow>
      mem_ok (id_per_principal_capacity st) (id_global_capacity st) (live - {pm}) W (insert (pm_ref pm, outcome) H)
        (send_replace ch (finish_update (ev_outcome Env) outcome) t)"
    "state_ok (id_per_principal_capacity st) (id_global_capacity st) s1"
    "mem_pins (view s1) ((P \<union> kept_pins Env pm outcome) \<union> open_pins (live - {pm}))"
    "mem_pins ((view (id_state st))(pm_id pm := x)) P"
    "ledger_side Env ok stored P (P \<union> open_pins (live - {pm})) (st\<lparr>id_state := s1\<rparr>)"
proof -
  let ?s = "id_state st" and ?up = "finish_update (ev_outcome Env) outcome"
  note M = mem_okD [OF store_okD(1) [OF st]]
  have key: "en_key e' = pm_key pm \<and> coherent (length (ss_channels ?s)) e' \<and> state_channel (en_state e') = None \<and>
      entry_ref (pm_id pm) e' = pm_ref pm" if "eo = Some e'" for e'
    using that e permit_ref [OF e(2)] by (auto simp: eo retained_for_def coherent_def entry_ref_def split: if_splits)
  have out: "o' = outcome" if "eo = Some e'" "en_state e' = ERetained o' sf" for e' o' sf
    using that by (auto simp: eo retained_for_def split: if_splits)
  have up: "?up \<noteq> UpPending" "\<And>o'. ?up = UpReplay o' \<Longrightarrow> (entry_ref (pm_id pm) e, o') \<in> insert (pm_ref pm, outcome) H"
    using permit_ref [OF e(2)] by (auto simp: finish_update_def split: if_splits)
  show mem: "mem_ok (id_per_principal_capacity st) (id_global_capacity st) (live - {pm}) W (insert (pm_ref pm, outcome) H) (send_replace ch ?up t)"
    if "view t = view s1" "wf_state t" "distinct (ss_dirty t)" "ss_channels t = ss_channels ?s" for t
    by (rule mem_settle [OF store_okD(1) [OF st] pm e(1,3), of _ ?up eo]) (use that v(1) up key out in auto)
  note mem1 = mem [of s1, OF refl v(2) _ v(4)]
  show "state_ok (id_per_principal_capacity st) (id_global_capacity st) s1" using mem_okD(1) [OF mem1] v(3) M(6) by simp
  have pins0: "mem_pins (view ?s) P" by (rule side_mem_pins [OF store_okD(4) [OF st] int])
  show pinsP: "mem_pins ((view ?s)(pm_id pm := x)) P" for x
    by (rule mem_pins_update [OF pins0]) (use pin_elsewhere [OF pins0 store_okD(2) [OF st], of "pm_id pm"] e in auto)
  have "mem_pins (view s1) (kept_pins Env pm outcome)"
    using e(2) by (auto simp: kept_pins_def mem_pins_def v(1) eo retained_for_def permit_matches_def Let_def)
  moreover have "mem_pins (view s1) (open_pins (live - {pm}))" using live_mem_pins [OF mem_okD(2) [OF mem1]] v(3) M(6) by simp
  ultimately show "mem_pins (view s1) ((P \<union> kept_pins Env pm outcome) \<union> open_pins (live - {pm}))" using pinsP v(1) by (simp add: mem_pins_un)
  have known: "m (pm_id pm) \<noteq> None" if "disk_pins Env m (P \<union> open_pins live)" for m
    using that open_pins_known [OF _ pm] by (auto simp: disk_pins_un)
  show "ledger_side Env ok stored P (P \<union> open_pins (live - {pm})) (st\<lparr>id_state := s1\<rparr>)"
    by (rule side_update [OF store_okD(4) [OF st] v(1) _ _ _ side_memory [OF store_okD(4) [OF st]] open_pins_remove])
      (use v(1,3) known pinsP in auto)
qed

lemma kept_pins_ok: "pins_ok Env P \<Longrightarrow> pins_ok Env (P \<union> kept_pins Env pm outcome)"
  by (auto simp: pins_ok_def kept_pins_def Let_def split: if_splits)

lemma kept_pins_id: "kept_pins Env pm outcome \<subseteq> {(pk, pin). pk = pm_id pm}" "\<not> pm_durable pm \<Longrightarrow> kept_pins Env pm outcome = {}"
  by (auto simp: kept_pins_def Let_def)

text \<open>When the write fails, the entry becomes unresolved.\<close>

lemma store_finish_failed:
  assumes st: "store_ok Env ok stored live P W H st" and pm: "pm \<in> live"
    and e: "view (id_state st) (pm_id pm) = Some e" "state_channel (en_state e) = Some ch"
    and v: "view s1 = (view (id_state st))(pm_id pm := eo)" "wf_state s1" "ss_dirty s1 = List.insert (pm_id pm) (ss_dirty (id_state st))"
      "ss_channels s1 = ss_channels (id_state st)"
    and pins: "\<And>x. mem_pins ((view (id_state st))(pm_id pm := x)) P"
    and st1: "id_state st1 = s1" "ledger_side Env ok stored P (P \<union> open_pins (live - {pm})) st1"
      "id_per_principal_capacity st1 = id_per_principal_capacity st" "id_global_capacity st1 = id_global_capacity st"
      "id_durable st1 = None \<longleftrightarrow> id_durable st = None"
  shows "store_ok Env ok stored (live - {pm}) P W H (st1\<lparr>id_state := send_replace ch UpUnresolved (finish_failed pm s1)\<rparr>)"
proof -
  let ?t = "send_replace ch UpUnresolved (finish_failed pm s1)"
  note ff = finish_failed_effect [OF v(2), of pm] and M = mem_okD [OF store_okD(1) [OF st]]
  obtain u where u: "view (finish_failed pm s1) = (view s1)(pm_id pm \<mapsto> u)" "en_key u = pm_key pm" "en_state u = EUnresolved" "en_expires u = None"
    using ff(4) by blast
  have t: "view ?t = (view (id_state st))(pm_id pm \<mapsto> u)" using u(1) v(1) by simp
  have "mem_ok (id_per_principal_capacity st) (id_global_capacity st) (live - {pm}) W H ?t"
    by (rule mem_settle [OF store_okD(1) [OF st] pm e _ _ _ _ t]) (use ff v M(6) u unresolved_solid [OF u(3,4)] in auto)
  moreover have "ledger_side Env ok stored P (P \<union> open_pins (live - {pm})) (st1\<lparr>id_state := ?t\<rparr>)"
    by (rule side_update [OF st1(2) _ _ _ _ side_memory [OF st1(2)], where pk = "pm_id pm" and eo = "Some u"])
      (use st1(1) u v(1,3) ff(2) pins unresolved_solid [OF u(3,4)] in auto)
  ultimately show ?thesis using st1 store_okD(2,3) [OF st] by (simp add: store_ok_def)
qed

context durable_store
begin

lemma store_finish:
  assumes st: "store_ok Env ok stored live P W H st" and pm: "pm \<in> live" and int: "integrity_issue st = None"
    and fin: "idem_finish Env pm outcome now st = (r, st')"
  shows "r = Inr () \<and> store_ok Env ok stored (live - {pm}) (P \<union> kept_pins Env pm outcome) W (insert (pm_ref pm, outcome) H) st' \<or>
    (\<exists>err. r = Inl err) \<and> store_ok Env ok stored (live - {pm}) P W H st'"
proof -
  note M = mem_okD [OF store_okD(1) [OF st]]
  let ?s = "id_state st" and ?p = "pm_principal pm"
  obtain e ch where e: "view ?s (pm_id pm) = Some e" "permit_matches pm e" "state_channel (en_state e) = Some ch"
    "en_expires e = None" "en_key e = pm_key pm" by (rule live_entry [OF st pm])
  obtain i where i: "position (\<lambda>e. en_key e = pm_key pm) (bucket_of ?s ?p) = Some i" "i < length (bucket_of ?s ?p)" "bucket_of ?s ?p ! i = e"
    using view_position [OF e(1) [unfolded pm_id_def]] by blast
  define s1 where "s1 = finish_state (ev_outcome Env) pm outcome (now + id_ttl st) e (remove_nth i (bucket_of ?s ?p)) ?s"
  note eff = finish_state_effect [OF M(5) i(2,3) e(5) s1_def]
  note prep = finish_prepared [OF st pm int e(1-3,5) eff(2,1,3,4) refl]
  let ?live = "live - {pm}" and ?P = "P \<union> kept_pins Env pm outcome"
  obtain r1 st1 where p: "persist_locked Env (st\<lparr>id_state := s1\<rparr>) = (r1, st1)" by force
  note fr = persist_frame [OF p] and F = finish_unfold [OF int i(1,3) e(2,3) p [unfolded s1_def]]
  have mem: "id_durable st = None \<longrightarrow> ?P = {}"
    using side_memory [OF store_okD(4) [OF st]] kept_pins_id(2) [of pm Env outcome] store_okD(3) [OF st pm] by auto
  have sub: "?P \<union> open_pins ?live \<subseteq> (P \<union> open_pins ?live) \<union> {(pk, pin). pk \<in> set (ss_dirty s1)}"
    using kept_pins_id(1) [of Env pm outcome] eff(3) by auto
  have "r1 = Inr () \<and> id_state st1 = s1\<lparr>ss_dirty := []\<rparr> \<and> ledger_side Env ok stored ?P (?P \<union> open_pins ?live) st1 \<or>
    (\<exists>e. r1 = Inl e) \<and> id_state st1 = s1 \<and> ledger_side Env ok stored P (P \<union> open_pins ?live) st1"
    using persist_side [OF prep(5) _ _ p, of "?P \<union> open_pins ?live" ?P] int prep(2,3) sub mem
      open_pins_stable [OF kept_pins_ok [OF store_okD(2) [OF st]]] by auto
  then show ?thesis
  proof
    assume a: "r1 = Inr () \<and> id_state st1 = s1\<lparr>ss_dirty := []\<rparr> \<and> ledger_side Env ok stored ?P (?P \<union> open_pins ?live) st1"
    let ?t = "send_replace ch (finish_update (ev_outcome Env) outcome) (id_state st1)"
    have "ledger_side Env ok stored ?P (?P \<union> open_pins ?live) (st1\<lparr>id_state := ?t\<rparr>)" by (rule side_same) (use a in auto)
    then show ?thesis using a F fin fr store_okD(3) [OF st] kept_pins_ok [OF store_okD(2) [OF st]] prep(1) [of "id_state st1"] eff
      by (simp add: store_ok_def)
  next
    assume a: "(\<exists>e. r1 = Inl e) \<and> id_state st1 = s1 \<and> ledger_side Env ok stored P (P \<union> open_pins ?live) st1"
    then show ?thesis using store_finish_failed [OF st pm e(1,3) eff(2,1,3,4) prep(4)] F fin fr by auto
  qed
qed

end

lemma ensure_writable_Inr: "ensure_writable cid st = Inr u \<longleftrightarrow> integrity_issue st = None"
  by (simp add: ensure_writable_def)

lemma room_cards:
  assumes "wf_state s" "\<not> no_room p st s"
  shows "card {k. (p, k) \<in> dom (view s)} < id_per_principal_capacity st" "card (dom (view s)) < id_global_capacity st"
  using assms length_bucket_view [OF assms(1), of p] entry_count_view [OF assms(1)] by (auto simp: no_room_def)

text \<open>The cases of the second section of \<open>reserve\<close>.\<close>

definition permit_for :: "idem_request \<Rightarrow> 'o store_state \<Rightarrow> bool \<Rightarrow> idem_permit" where
  "permit_for rq s durable =
     \<lparr>pm_principal = rq_principal rq, pm_key = rq_key rq, pm_operation = rq_operation rq, pm_sha = rq_sha rq,
      pm_generation = ss_sequence s + 1, pm_correlation_id = rq_correlation_id rq, pm_durable = durable\<rparr>"

lemma acquire_cases:
  assumes "reserve_acquire Env rq now st = (r, st')" "wf_state (id_state st)" "distinct (ss_dirty (id_state st))"
  obtains (unwritable) err where "r = Inl err" "st' = st"
  | (shrunk) s where "r = Inr None \<or> (\<exists>err. r = Inl err)" "shrinks (id_state st) s" "st' = st\<lparr>id_state := s\<rparr>"
  | (stored_entry) s st1 where "integrity_issue st = None" "shrinks (id_state st) s" "view s (rq_id rq) = None" "\<not> no_room (rq_principal rq) st s"
      "persist_locked Env (st\<lparr>id_state := insert_reserved rq s\<rparr>) = (Inr (), st1)" "st' = st1"
      "r = Inr (Some (permit_for rq s (id_durable st \<noteq> None)))"
  | (failed) s st1 e where "integrity_issue st = None" "shrinks (id_state st) s" "view s (rq_id rq) = None" "\<not> no_room (rq_principal rq) st s"
      "persist_locked Env (st\<lparr>id_state := insert_reserved rq s\<rparr>) = (Inl e, st1)"
      "st' = st1\<lparr>id_state := unresolve_key (rq_principal rq) (rq_key rq) (id_state st1)\<rparr>"
      "r = Inl (persistence_error (rq_correlation_id rq))"
proof -
  let ?c = "cleanup_expired now (id_state st)" and ?p = "rq_principal rq"
  let ?s = "make_room ?p now st"
  note c = shrinks_cleanup [OF assms(2,3), of now] and m = make_room_shrinks [OF assms(2,3), where p = ?p and now = now]
  show thesis
  proof (cases "integrity_issue st = None")
    case False
    then show thesis using unwritable assms(1) by (auto simp: reserve_acquire_def ensure_writable_def Let_def)
  next
    case int: True
    show thesis
    proof (cases "rq_key rq \<in> en_key ` set (bucket_of ?c ?p)")
      case True
      then have "r = Inr None" "st' = st\<lparr>id_state := ?c\<rparr>" using int assms(1) by (auto simp: reserve_acquire_def ensure_writable_def Let_def)
      then show thesis using shrunk [OF _ c] by simp
    next
      case free: False
      have "view ?c (rq_id rq) = None" unfolding view_None using free by (simp add: rq_id_def)
      then have v: "view ?s (rq_id rq) = None" using shrinksD(6) [OF m(1), of "rq_id rq"] by auto
      show thesis
      proof (cases "no_room ?p st ?s")
        case True
        then have "r = Inl (idempotency_exhausted_error (rq_correlation_id rq))" "st' = st\<lparr>id_state := ?s\<rparr>"
          using int free assms(1) by (auto simp: reserve_acquire_def ensure_writable_def Let_def)
        then show thesis using shrunk [OF _ m(2)] by simp
      next
        case room: False
        obtain r1 st1 where p: "persist_locked Env (st\<lparr>id_state := insert_reserved rq ?s\<rparr>) = (r1, st1)" by force
        show thesis
        proof (cases r1)
          case (Inl e)
          then show thesis using failed [OF int m(2) v room p [unfolded Inl]] p int free room assms(1)
            by (simp add: reserve_acquire_def ensure_writable_def Let_def)
        next
          case (Inr u)
          then show thesis using stored_entry [OF int m(2) v room] p int free room assms(1)
            by (simp add: reserve_acquire_def ensure_writable_def Let_def permit_for_def)
        qed
      qed
    qed
  qed
qed

lemma permit_for_simps [simp]:
  "pm_id (permit_for rq s d) = rq_id rq" "pm_ref (permit_for rq s d) = rq_ref rq" "pm_durable (permit_for rq s d) = d"
  "permit_matches (permit_for rq s d) (reserved_for rq s)"
  by (simp_all add: permit_for_def pm_id_def pm_ref_def rq_id_def rq_ref_def permit_matches_def reserved_for_def)

lemma reserved_for_simps [simp]:
  "en_key (reserved_for rq s) = snd (rq_id rq)" "en_expires (reserved_for rq s) = None"
  "state_channel (en_state (reserved_for rq s)) = Some (length (ss_channels s))" "\<not> disposable (reserved_for rq s)"
  by (simp_all add: reserved_for_def rq_id_def disposable_def)

lemma reserve_prepared:
  assumes st: "store_ok Env ok stored live P W H st" and int: "integrity_issue st = None" and sh: "shrinks (id_state st) s"
    and free: "view s (rq_id rq) = None" and nr: "\<not> no_room (rq_principal rq) st s"
  defines "pm \<equiv> permit_for rq s (id_durable st \<noteq> None)"
  shows "view t = view (insert_reserved rq s) \<Longrightarrow> wf_state t \<Longrightarrow> distinct (ss_dirty t) \<Longrightarrow> ss_channels t = ss_channels s @ [UpPending] \<Longrightarrow>
      mem_ok (id_per_principal_capacity st) (id_global_capacity st) (insert pm live) W H t"
    "state_ok (id_per_principal_capacity st) (id_global_capacity st) (insert_reserved rq s)"
    "(rq_id rq, pin) \<notin> P" "qm \<in> live \<Longrightarrow> pm_id qm \<noteq> rq_id rq"
    "mem_pins (view (insert_reserved rq s)) (P \<union> open_pins (insert pm live))" "mem_pins ((view s)(rq_id rq := x)) P"
    "ledger_side Env ok stored P (P \<union> open_pins live) (st\<lparr>id_state := insert_reserved rq s\<rparr>)"
proof -
  let ?s1 = "insert_reserved rq s" and ?pk = "rq_id rq"
  note st0 = store_shrinks [OF st sh] and S = shrinksD [OF sh]
  have m0: "mem_ok (id_per_principal_capacity st) (id_global_capacity st) live W H s" using store_okD(1) [OF st0] by simp
  note eff = insert_reserved_effect [OF S(1) free] and room = room_cards [OF S(1) nr]
  show m1: "mem_ok (id_per_principal_capacity st) (id_global_capacity st) (insert pm live) W H t"
    if "view t = view ?s1" "wf_state t" "distinct (ss_dirty t)" "ss_channels t = ss_channels s @ [UpPending]" for t
    by (rule mem_insert [OF m0 free _ room(2), where e = "reserved_for rq s" and pm = pm])
      (use that eff room in \<open>auto simp: rq_id_def pm_def\<close>)
  show "state_ok (id_per_principal_capacity st) (id_global_capacity st) ?s1" using mem_okD(1) [OF m1 [of ?s1]] eff S(3) by simp
  have pins0: "mem_pins (view s) P" using side_mem_pins [OF store_okD(4) [OF st0]] int by simp
  show fr: "(?pk, pin) \<notin> P" for pin by (rule pin_elsewhere [OF pins0 store_okD(2) [OF st]]) (use free in simp)
  show pins1: "mem_pins ((view s)(?pk := x)) P" for x by (rule mem_pins_update [OF pins0 fr])
  show "pm_id qm \<noteq> ?pk" if "qm \<in> live" using live_okD(2) [OF mem_okD(2) [OF m0] that] free by auto
  show "mem_pins (view ?s1) (P \<union> open_pins (insert pm live))"
    using live_mem_pins [OF mem_okD(2) [OF m1 [of ?s1]]] eff S(3) pins1 by (simp add: mem_pins_un)
  show "ledger_side Env ok stored P (P \<union> open_pins live) (st\<lparr>id_state := ?s1\<rparr>)"
    using side_update [OF store_okD(4) [OF st0], of ?s1 ?pk "Some (reserved_for rq s)" P "P \<union> open_pins live"] eff(2,3) pins1
      side_memory [OF store_okD(4) [OF st]] by simp
qed

context durable_store
begin

lemma store_granted:
  assumes st: "store_ok Env ok stored live P W H st" and int: "integrity_issue st = None" and sh: "shrinks (id_state st) s"
    and free: "view s (rq_id rq) = None" and nr: "\<not> no_room (rq_principal rq) st s"
    and p: "persist_locked Env (st\<lparr>id_state := insert_reserved rq s\<rparr>) = (Inr u, st')"
  defines "pm \<equiv> permit_for rq s (id_durable st \<noteq> None)"
  shows "store_ok Env ok stored (insert pm live) P W H st'"
proof -
  let ?s1 = "insert_reserved rq s" and ?live = "insert pm live"
  note prep = reserve_prepared [OF st int sh free nr, folded pm_def]
  note eff = insert_reserved_effect [OF shrinksD(1) [OF sh] free]
  have sub: "P \<union> open_pins ?live \<subseteq> (P \<union> open_pins live) \<union> {(pk, pin). pk \<in> set (ss_dirty ?s1)}"
    using eff(3) by (auto simp: open_pins_def pm_def)
  have "id_state st' = ?s1\<lparr>ss_dirty := []\<rparr> \<and> ledger_side Env ok stored P (P \<union> open_pins ?live) st'"
    using persist_side [OF prep(7) _ _ p, of "P \<union> open_pins ?live" P] int prep(2,5) sub
      open_pins_stable [OF store_okD(2) [OF st]] side_memory [OF store_okD(4) [OF st]] by (auto simp: open_pins_def)
  moreover have "mem_ok (id_per_principal_capacity st) (id_global_capacity st) ?live W H (?s1\<lparr>ss_dirty := []\<rparr>)"
    by (rule prep(1)) (use eff in auto)
  ultimately show ?thesis using persist_frame [OF p] store_okD(2,3) [OF st] by (simp add: store_ok_def pm_def)
qed

lemma store_not_granted:
  assumes st: "store_ok Env ok stored live P W H st" and int: "integrity_issue st = None" and sh: "shrinks (id_state st) s"
    and free: "view s (rq_id rq) = None" and nr: "\<not> no_room (rq_principal rq) st s"
    and p: "persist_locked Env (st\<lparr>id_state := insert_reserved rq s\<rparr>) = (Inl e, st')"
  shows "store_ok Env ok stored live P W H (st'\<lparr>id_state := unresolve_key (rq_principal rq) (rq_key rq) (id_state st')\<rparr>)"
proof -
  let ?s1 = "insert_reserved rq s" and ?pk = "rq_id rq" and ?u = "(reserved_for rq s)\<lparr>en_state := EUnresolved\<rparr>"
  let ?t = "unresolve_key (rq_principal rq) (rq_key rq) ?s1"
  note prep = reserve_prepared [OF st int sh free nr] and S = shrinksD [OF sh]
  note eff = insert_reserved_effect [OF S(1) free] and room = room_cards [OF S(1) nr]
  have "view ?s1 (rq_principal rq, rq_key rq) = Some (reserved_for rq s)" using eff(2) by (simp add: rq_id_def)
  note unr = unresolve_key_effect [OF eff(1) this]
  have v: "view ?t = (view s)(?pk \<mapsto> ?u)" using unr(2) eff(2) by (simp add: rq_id_def)
  have u: "\<not> disposable ?u" using unresolved_solid [of ?u] by simp
  have m0: "mem_ok (id_per_principal_capacity st) (id_global_capacity st) live W H s"
    using store_okD(1) [OF store_shrinks [OF st sh]] by simp
  have m1: "mem_ok (id_per_principal_capacity st) (id_global_capacity st) live W H ?t"
    by (rule mem_insert [OF m0 free _ room(2), where e = ?u]) (use v unr eff room S(3) in \<open>auto simp: rq_id_def\<close>)
  have "mem_pins (view ?s1) (P \<union> open_pins live)" by (rule mem_pins_mono [OF prep(5)]) (auto simp: open_pins_def)
  then have p1: "id_state st' = ?s1" "ledger_side Env ok stored P (P \<union> open_pins live) st'"
    using persist_side [OF prep(7) _ _ p, of "P \<union> open_pins live" P] int prep(2)
      open_pins_stable [OF store_okD(2) [OF st]] side_memory [OF store_okD(4) [OF st]] by auto
  have "ledger_side Env ok stored P (P \<union> open_pins live) (st'\<lparr>id_state := ?t\<rparr>)"
    by (rule side_update [OF p1(2) _ _ _ _ side_memory [OF p1(2)], where pk = ?pk and eo = "Some ?u"])
      (use p1(1) v eff(2,3) unr(3) prep(6) u in auto)
  then show ?thesis using m1 p1(1) persist_frame [OF p] store_okD(2,3) [OF st] by (simp add: store_ok_def)
qed

lemma store_acquire:
  assumes st: "store_ok Env ok stored live P W H st" and acq: "reserve_acquire Env rq now st = (r, st')"
  shows "(r = Inr None \<or> (\<exists>err. r = Inl err)) \<and> store_ok Env ok stored live P W H st' \<or>
    (\<exists>pm. r = Inr (Some pm) \<and> pm_ref pm = rq_ref rq \<and> pm_id pm \<notin> pm_id ` live \<and> pm_id pm \<notin> fst ` P \<and>
          store_ok Env ok stored (insert pm live) P W H st')"
  using acq mem_okD(5,6) [OF store_okD(1) [OF st]]
proof (cases rule: acquire_cases)
  case (unwritable err)
  then show ?thesis using st by simp
next
  case (shrunk s)
  then show ?thesis using store_shrinks [OF st shrunk(2)] by auto
next
  case a: (stored_entry s st1)
  have "rq_id rq \<notin> pm_id ` live" using reserve_prepared(4) [OF st a(1-4)] by fastforce
  moreover have "rq_id rq \<notin> fst ` P" using reserve_prepared(3) [OF st a(1-4)] by force
  ultimately show ?thesis using store_granted [OF st a(1-5)] a(6,7) by simp
next
  case a: (failed s st1 e)
  then show ?thesis using store_not_granted [OF st a(1-5)] by simp
qed

end

section \<open>Opening a store\<close>

definition has_lapsed :: "time \<Rightarrow> durable_entry \<Rightarrow> bool" where
  "has_lapsed now de \<longleftrightarrow> (case de_expires de of None \<Rightarrow> False | Some t \<Rightarrow> t \<le> now)"

definition restored_entry :: "('o, 'w, 'd) idem_env \<Rightarrow> durable_entry \<Rightarrow> 'o entry" where
  "restored_entry Env de =
     (let state = restored_state Env (de_state de)
      in \<lparr>en_key = de_key de, en_operation = de_operation de, en_sha = de_sha de, en_state = state,
          en_expires = (if never_expires state then None else de_expires de), en_last_used = de_last_used de\<rparr>)"

definition restored_view :: "('o, 'w, 'd) idem_env \<Rightarrow> time \<Rightarrow> ledger_map \<Rightarrow> ledger_key \<Rightarrow> 'o entry option" where
  "restored_view Env now m pk =
     (case m pk of None \<Rightarrow> None | Some de \<Rightarrow> if has_lapsed now de then None else Some (restored_entry Env de))"

lemma restore_entry_effect:
  assumes "restore_entry Env now de (s, protect) = (s', protect')" "wf_state s" "view s (de_id de) = None"
  shows "wf_state s'" "view s' = (view s)(de_id de := (if has_lapsed now de then None else Some (restored_entry Env de)))"
    "ss_dirty s' = ss_dirty s \<or> ss_dirty s' = List.insert (de_id de) (ss_dirty s)"
    "has_lapsed now de \<Longrightarrow> ss_dirty s' = List.insert (de_id de) (ss_dirty s)" "ss_channels s' = ss_channels s"
proof -
  let ?p = "de_principal de" and ?e = "restored_entry Env de"
  have "wf_state s' \<and> view s' = (view s)(de_id de := (if has_lapsed now de then None else Some ?e)) \<and>
    (ss_dirty s' = ss_dirty s \<or> ss_dirty s' = List.insert (de_id de) (ss_dirty s)) \<and>
    (has_lapsed now de \<longrightarrow> ss_dirty s' = List.insert (de_id de) (ss_dirty s)) \<and> ss_channels s' = ss_channels s"
  proof (cases "has_lapsed now de")
    case True
    then have "s' = mark_dirty (de_id de) s" using assms(1) by (simp add: restore_entry_def has_lapsed_def)
    then show ?thesis using True assms(2,3) by (simp add: fun_upd_idem)
  next
    case False
    have k: "(?p, en_key ?e) = de_id de" by (simp add: de_id_def restored_entry_def Let_def)
    define s1 where "s1 = (if never_expires (restored_state Env (de_state de)) \<and> de_expires de \<noteq> None then mark_dirty (de_id de) s else s)"
    obtain n where s1: "s' = (set_bucket ?p (bucket_of s1 ?p @ [?e]) s1)\<lparr>ss_sequence := n\<rparr>"
      using assms(1) False unfolding restore_entry_def has_lapsed_def restored_entry_def Let_def prod.case s1_def by auto
    have "wf_state s1" "view s1 = view s" "ss_channels s1 = ss_channels s" using assms(2) by (auto simp: s1_def)
    moreover have "ss_dirty s1 = ss_dirty s \<or> ss_dirty s1 = List.insert (de_id de) (ss_dirty s)" by (simp add: s1_def)
    ultimately show ?thesis using append_effects [of s1 ?p ?e, unfolded k] assms(3) False by (simp add: s1)
  qed
  then show "wf_state s'" "view s' = (view s)(de_id de := (if has_lapsed now de then None else Some (restored_entry Env de)))"
    "ss_dirty s' = ss_dirty s \<or> ss_dirty s' = List.insert (de_id de) (ss_dirty s)"
    "has_lapsed now de \<Longrightarrow> ss_dirty s' = List.insert (de_id de) (ss_dirty s)" "ss_channels s' = ss_channels s" by blast+
qed

lemma restore_effect:
  assumes "fold (restore_entry Env now) des (s, protect) = (s', protect')" "distinct (map de_id des)" "wf_state s"
    "\<And>de. de \<in> set des \<Longrightarrow> view s (de_id de) = None" "distinct (ss_dirty s)"
  shows "wf_state s' \<and> view s' = view s ++ restored_view Env now (entries_map des) \<and> distinct (ss_dirty s') \<and>
    set (ss_dirty s') \<subseteq> set (ss_dirty s) \<union> de_id ` set des \<and> set (ss_dirty s) \<subseteq> set (ss_dirty s') \<and>
    (\<forall>de \<in> set des. has_lapsed now de \<longrightarrow> de_id de \<in> set (ss_dirty s')) \<and> ss_channels s' = ss_channels s"
  using assms
proof (induction des arbitrary: s protect)
  case Nil
  then show ?case by (auto simp: entries_map_def restored_view_def map_add_def fun_eq_iff)
next
  case (Cons de des)
  obtain s1 p1 where s1: "restore_entry Env now de (s, protect) = (s1, p1)" by force
  note eff = restore_entry_effect [OF s1 Cons.prems(3) Cons.prems(4) [of de]]
  have "de_id de \<notin> de_id ` set des" using Cons.prems(2) by simp
  then have new: "de_id de' \<noteq> de_id de" if "de' \<in> set des" for de' using that by (metis image_eqI)
  have IH: "wf_state s' \<and> view s' = view s1 ++ restored_view Env now (entries_map des) \<and> distinct (ss_dirty s') \<and>
    set (ss_dirty s') \<subseteq> set (ss_dirty s1) \<union> de_id ` set des \<and> set (ss_dirty s1) \<subseteq> set (ss_dirty s') \<and>
    (\<forall>de \<in> set des. has_lapsed now de \<longrightarrow> de_id de \<in> set (ss_dirty s')) \<and> ss_channels s' = ss_channels s1"
  proof (rule Cons.IH)
    show "fold (restore_entry Env now) des (s1, p1) = (s', protect')" using Cons.prems(1) s1 by simp
    show "view s1 (de_id de') = None" if "de' \<in> set des" for de' using eff(2) new [OF that] Cons.prems(4) [of de'] that by simp
    show "distinct (ss_dirty s1)" using eff(3) Cons.prems(5) by auto
  qed (use Cons.prems(2) eff(1) in auto)
  have none: "entries_map des (de_id de) = None" unfolding entries_map_None by fact
  have m: "entries_map (de # des) = (entries_map des)(de_id de \<mapsto> de)" by (simp add: entries_map_def)
  have "view s' pk = (view s ++ restored_view Env now (entries_map (de # des))) pk" for pk
    using conjunct1 [OF conjunct2 [OF IH]] eff(2) none Cons.prems(4) [of de]
    by (simp add: m map_add_def restored_view_def split: option.split)
  then have "view s' = view s ++ restored_view Env now (entries_map (de # des))" by blast
  then show ?case using IH eff(3-5) by (cases "has_lapsed now de") auto
qed

lemma default_effect: "wf_state default_state" "view default_state = Map.empty" "ss_dirty default_state = []" "ss_channels default_state = []"
  by (auto simp: wf_state_def default_state_def bucket_of_def view_def fun_eq_iff)

lemma restored_channel [simp]: "state_channel (restored_state Env ds) = None"
  by (auto simp: restored_state_def split: durable_state.splits option.splits)

lemma restored_pinned:
  assumes "de_pinned Env pin de" "entry_ok value_len de" "pin_stable Env pin" "pin \<noteq> PinOpen"
  shows "\<not> has_lapsed now de" "entry_pinned pin (restored_entry Env de)"
  using assms by (cases pin; auto simp: entry_ok_def has_lapsed_def restored_entry_def restored_state_def Let_def)+

definition retained_of :: "'o store_state \<Rightarrow> (command_ref \<times> 'o) set" where
  "retained_of s = {(entry_ref pk e, outcome) | pk e outcome. view s pk = Some e \<and> (\<exists>sf. en_state e = ERetained outcome sf)}"

lemma retained_of_dirty [simp]: "retained_of (s\<lparr>ss_dirty := dd\<rparr>) = retained_of s"
  by (simp add: retained_of_def)

lemma restored_state_ok:
  assumes "fold (restore_entry Env now) des (default_state, False) = (s, protect)" "distinct (map de_id des)"
    "admissible (ev_value_len Env) (entries_map des)" "retained_of s \<subseteq> H"
  shows "mem_ok 256 4096 {} {} H s" "synced s (entries_map des)"
    "pins_ok Env P \<Longrightarrow> disk_pins Env (entries_map des) P \<Longrightarrow> mem_pins (view s) P"
proof -
  let ?m = "entries_map des"
  have d: "view default_state (de_id de) = (None :: 'a entry option)" "distinct (ss_dirty (default_state :: 'a store_state))" for de
    by (simp_all add: default_effect)
  have eff: "wf_state s" "view s = restored_view Env now ?m" "distinct (ss_dirty s)" "set (ss_dirty s) \<subseteq> de_id ` set des"
    "\<And>de. de \<in> set des \<Longrightarrow> has_lapsed now de \<Longrightarrow> de_id de \<in> set (ss_dirty s)" "ss_channels s = []"
    using restore_effect [OF assms(1,2) default_effect(1) d] by (simp_all add: default_effect)
  have entry: "\<exists>de. ?m pk = Some de \<and> de_id de = pk \<and> e = restored_entry Env de" if "view s pk = Some e" for pk e
    using that eff(2) admissible_entry [OF assms(3), of pk] by (auto simp: restored_view_def split: option.splits if_splits)
  have "coherent 0 (restored_entry Env de)" for de
    by (auto simp: coherent_def restored_entry_def restored_state_def Let_def split: durable_state.splits option.splits)
  then have ent: "en_key e = snd pk \<and> coherent 0 e \<and> state_channel (en_state e) = None" if "view s pk = Some e" for pk e
    using entry [OF that] by (auto simp: restored_entry_def de_id_def Let_def)
  have m: "view_ok 256 4096 0 (\<lambda>pk. map_option (restored_entry Env) (?m pk))"
  proof -
    have d: "dom (\<lambda>pk. map_option (restored_entry Env) (?m pk)) = dom ?m" by (auto simp: dom_def)
    have "en_key e = snd pk \<and> coherent 0 e" if "map_option (restored_entry Env) (?m pk) = Some e" for pk e
      using that admissible_entry [OF assms(3), of pk] \<open>\<And>de. coherent 0 (restored_entry Env de)\<close>
      by (auto simp: restored_entry_def de_id_def Let_def)
    then show ?thesis using assms(3) unfolding view_ok_def d admissible_def by blast
  qed
  have "view_ok 256 4096 0 (view s)"
    by (rule view_ok_sub [OF m]) (auto simp: eff(2) restored_view_def split: option.splits)
  then have "state_ok 256 4096 s" using eff by (simp add: state_ok_def)
  moreover have "live_ok {} s" using ent by (auto simp: live_ok_def)
  moreover have "retained_ok H s" using assms(4) unfolding retained_ok_def retained_of_def by blast
  ultimately show "mem_ok 256 4096 {} {} H s" by (simp add: mem_ok_def waiting_ok_def)
  show "synced s ?m"
  proof (rule syncedI)
    fix pk
    show "view s pk \<noteq> None" if a: "?m pk \<noteq> None" "pk \<notin> set (ss_dirty s)"
    proof -
      from a(1) obtain de where "?m pk = Some de" by blast
      moreover from this have "de \<in> set des" "de_id de = pk" using entries_map_Some [OF assms(2)] by auto
      ultimately show ?thesis using a(2) eff(2) eff(5) [of de] by (auto simp: restored_view_def)
    qed
    show "\<exists>e. view s pk = Some e \<and> \<not> disposable e" if "?m pk = None" "pk \<in> set (ss_dirty s)"
      using that eff(4) entries_map_None [of des pk] by auto
    show "view s pk = None" if "?m pk = None" using that eff(2) by (simp add: restored_view_def)
  qed
  show "mem_pins (view s) P" if P: "pins_ok Env P" "disk_pins Env ?m P" unfolding mem_pins_def
  proof clarify
    fix p k pin
    assume "((p, k), pin) \<in> P"
    then obtain de where de: "?m (p, k) = Some de" "de_pinned Env pin de" "pin_stable Env pin" "pin \<noteq> PinOpen"
      using disk_pinsD [OF P(2)] P(1) by (force simp: pins_ok_def)
    then show "\<exists>e. view s (p, k) = Some e \<and> entry_pinned pin e"
      using restored_pinned [OF de(2) _ de(3,4)] admissible_entry [OF assms(3) de(1)] eff(2) by (auto simp: restored_view_def)
  qed
qed

lemma side_refuse:
  assumes "ledger_side Env ok stored P Q st" "id_durable st \<noteq> None" "\<And>w m. ok w m \<Longrightarrow> stored (lw_disk (ev_ledger Env) w) (Some m)"
  shows "ledger_side Env ok stored P Q (st\<lparr>id_integrity_issue := Some issue\<rparr>)"
proof -
  obtain w where w: "id_durable st = Some w" using assms(2) by blast
  have "\<exists>i. stored (lw_disk (ev_ledger Env) w) i \<and> (\<forall>m. i = Some m \<longrightarrow> disk_pins Env m Q)"
    using assms(1) w assms(3) by (fastforce simp: ledger_side_def split: if_splits)
  then show ?thesis using assms(1) w by (auto simp: ledger_side_def integrity_issue_def)
qed

lemma default_store_simps [simp]:
  "id_per_principal_capacity idempotency_default = 256" "id_global_capacity idempotency_default = 4096"
  "id_failed idempotency_default = False" "id_integrity_issue idempotency_default = None" "id_state idempotency_default = default_state"
  by (simp_all add: idempotency_default_def with_global_capacity_def)

lemma default_mem_ok: "mem_ok a g {} {} H default_state"
  by (simp add: mem_ok_def state_ok_def view_ok_def live_ok_def waiting_ok_def retained_ok_def default_effect)

context durable_store
begin

lemma store_open:
  assumes "stored d i" "\<And>m. i = Some m \<Longrightarrow> disk_pins Env m P" "pins_ok Env P"
    "open_durable Env held t now d = Inr st" "retained_of (id_state st) \<subseteq> H"
  shows "store_ok Env ok stored {} P {} H st"
proof -
  obtain w r where o: "lw_open (ev_ledger Env) held t d = Inr (w, r)"
    using assms(4) by (auto simp: open_durable_def split: sum.splits)
  show ?thesis
  proof (cases i)
    case None
    then obtain issue where r: "r = Inl issue" "stored (lw_disk (ev_ledger Env) w) None" using open_refused [OF _ o] assms(1) by blast
    then have st: "st = idempotency_default\<lparr>id_durable := Some w, id_integrity_issue := Some issue\<rparr>"
      using assms(4) o by (simp add: open_durable_def)
    have "ledger_side Env ok stored P P st" using r(2) by (auto simp: st ledger_side_def integrity_issue_def)
    then show ?thesis using default_mem_ok assms(3) by (simp add: store_ok_def st open_pins_def)
  next
    case (Some m)
    then obtain des where des: "r = Inr des" "distinct (map de_id des)" "entries_map des = m" "ok w m" using open_stored [OF _ o] assms(1) by blast
    obtain s protect where f: "fold (restore_entry Env now) des (default_state, False) = (s, protect)" by force
    let ?st = "idempotency_default\<lparr>id_durable := Some w, id_state := s\<rparr>"
    have adm: "admissible (ev_value_len Env) (entries_map des)" using ok_admissible [OF des(4)] des(3) by simp
    note R = restored_state_ok [OF f des(2) adm]
    have int: "integrity_issue ?st = None" by (simp add: integrity_issue_def)
    have pins: "mem_pins (view s) P" using R(3) [OF subset_refl assms(3)] assms(2) [OF Some] des(3) by simp
    have side: "ledger_side Env ok stored P P ?st"
      using int des(4) R(2) [OF subset_refl] pins assms(2) [OF Some] by (auto simp: ledger_side_def des(3))
    show ?thesis
    proof (cases protect)
      case False
      then have st: "st = ?st" using assms(4) o f by (simp add: open_durable_def des(1))
      then show ?thesis using side R(1) [of H] assms(3,5) by (simp add: store_ok_def open_pins_def)
    next
      case True
      obtain r1 st1 where p: "persist_locked Env ?st = (r1, st1)" by force
      have "state_ok 256 4096 s" by (rule mem_okD(1) [OF R(1) [OF subset_refl]])
      then have c: "r1 = Inr () \<and> id_state st1 = s\<lparr>ss_dirty := []\<rparr> \<and> ledger_side Env ok stored P P st1 \<or>
        (\<exists>e. r1 = Inl e) \<and> id_state st1 = s \<and> ledger_side Env ok stored P P st1"
        using persist_side [OF side int _ p, of P P] pins open_pins_stable [OF assms(3), of "{}"] by (simp add: open_pins_def)
      have fr: "id_per_principal_capacity st1 = 256" "id_global_capacity st1 = 4096" "id_durable st1 \<noteq> None"
        using persist_frame [OF p] by simp_all
      have mem: "mem_ok 256 4096 {} {} H t" if "retained_of t \<subseteq> H" "t = s \<or> t = s\<lparr>ss_dirty := []\<rparr>" for t
      proof -
        have "mem_ok 256 4096 {} {} H s" by (rule R(1)) (use that in auto)
        then show ?thesis using that(2) mem_clear by auto
      qed
      from c show ?thesis
      proof
        assume a: "r1 = Inr () \<and> id_state st1 = s\<lparr>ss_dirty := []\<rparr> \<and> ledger_side Env ok stored P P st1"
        then have "st = st1" using assms(4) o f True p by (simp add: open_durable_def des(1))
        then show ?thesis using a mem [of "id_state st1"] assms(3,5) fr by (simp add: store_ok_def open_pins_def)
      next
        assume a: "(\<exists>e. r1 = Inl e) \<and> id_state st1 = s \<and> ledger_side Env ok stored P P st1"
        then have st: "st = st1\<lparr>id_integrity_issue := Some ''ledgerWriteFailed''\<rparr>"
          using assms(4) o f True p by (auto simp: open_durable_def des(1))
        have "ledger_side Env ok stored P P st" unfolding st by (rule side_refuse) (use a fr ok_stored in auto)
        then show ?thesis using a mem [of "id_state st1"] assms(3,5) fr by (simp add: store_ok_def open_pins_def st)
      qed
    qed
  qed
qed

lemma open_fails: "stored d i \<Longrightarrow> open_durable Env held t now d = Inl (e, d') \<Longrightarrow> stored d' i"
  using open_failed [of d i held t e d'] by (auto simp: open_durable_def Let_def split: sum.splits prod.splits if_splits)

end

end
