(* ===== verification/Idempotency_Ledger.thy ===== *)
theory Idempotency_Ledger
  imports Idempotency Ledger Disk
begin

text \<open>
  The durable log of the idempotency store (\<open>interface-core/src/idempotency/durable.rs\<close>): a header line
  with a checkpoint of all entries, followed by checksummed change records chained by digest, scanned
  by the shared ledger scanner; the checkpoint, the append, loading and validation, inspection and the
  conversion to the old snapshot format. \<open>serde_json\<close> is a parameter, gathered in a \<open>ledger_codec\<close>.
\<close>

section \<open>Records of the file\<close>

record durable_snapshot =
  sn_schema :: nat
  sn_entries :: "durable_entry list"

record ledger_header =
  lh_schema :: nat
  lh_entries :: "durable_entry list"
  lh_sha :: digest

record ledger_change =
  lc_sequence :: u64
  lc_previous_sha :: digest
  lc_updates :: "durable_entry list"
  lc_removes :: "ledger_key list"

record ledger_record =
  lr_schema :: nat
  lr_change :: ledger_change
  lr_sha :: digest

record ledger_codec =
  lk_enc_header :: "ledger_header \<Rightarrow> bytes option"
  lk_dec_header :: "bytes \<Rightarrow> ledger_header option"
  lk_enc_record :: "ledger_record \<Rightarrow> bytes option"
  lk_dec_record :: "bytes \<Rightarrow> ledger_record option"
  lk_enc_snapshot :: "durable_snapshot \<Rightarrow> bytes option"
  lk_dec_snapshot :: "bytes \<Rightarrow> durable_snapshot option"
  lk_snapshot_json :: "durable_snapshot \<Rightarrow> json option"
  lk_change_json :: "ledger_change \<Rightarrow> json option"
  lk_value_len :: "json \<Rightarrow> nat option"
  lk_hasher :: hasher

definition MAX_LINE_BYTES :: nat where
  "MAX_LINE_BYTES = (64 * 1024 + 2048) * 4096"

definition COMPACT_RECORDS :: u64 where
  "COMPACT_RECORDS = 4096"

definition COMPACT_BYTES :: nat where
  "COMPACT_BYTES = 16 * 1024 * 1024"

definition zero_sha :: digest where
  "zero_sha = replicate 32 0"

text \<open>A checksum is the canonical digest of the value; a failure of it is invalid data, whatever its
  correlation id.\<close>

definition checksum :: "ledger_codec \<Rightarrow> json option \<Rightarrow> ledger_error + digest" where
  "checksum C value =
     (case canonical_sha256 (lk_hasher C) 0 value of Inl _ \<Rightarrow> Inl LeInvalidData | Inr d \<Rightarrow> Inr d)"

section \<open>Validation\<close>

definition entry_fault :: "ledger_codec \<Rightarrow> durable_entry \<Rightarrow> string option" where
  "entry_fault C de =
     (case de_state de of
        DRetained v \<Rightarrow>
          (case lk_value_len C v of
             None \<Rightarrow> Some ''unreadableLedger''
           | Some n \<Rightarrow> if 64 * 1024 < n then Some ''ledgerCapacityExceeded'' else None)
      | _ \<Rightarrow> if de_expires de \<noteq> None then Some ''invalidLedgerState'' else None)"

definition de_expired :: "time \<Rightarrow> durable_entry \<Rightarrow> bool" where
  "de_expired now de = (case de_expires de of None \<Rightarrow> False | Some t \<Rightarrow> t \<le> now)"

fun validate_from ::
  "ledger_codec \<Rightarrow> time \<Rightarrow> durable_entry list \<Rightarrow> ledger_key list \<Rightarrow> (principal_id \<times> nat) list \<Rightarrow> string + unit" where
  "validate_from C now [] keys counts = Inr ()"
| "validate_from C now (de # des) keys counts =
     (case entry_fault C de of
        Some issue \<Rightarrow> Inl issue
      | None \<Rightarrow>
          if de_expired now de then validate_from C now des keys counts
          else if de_id de \<in> set keys then Inl ''duplicateLedgerKey''
          else (let n = (case map_of counts (de_principal de) of None \<Rightarrow> 0 | Some n \<Rightarrow> n) + 1
                in if 256 < n \<or> 4096 < Suc (length keys) then Inl ''ledgerCapacityExceeded''
                   else validate_from C now des (de_id de # keys) (AList.update (de_principal de) n counts)))"

definition ledger_validate :: "ledger_codec \<Rightarrow> time \<Rightarrow> durable_entry list \<Rightarrow> string + unit" where
  "ledger_validate C now des = validate_from C now des [] []"

section \<open>Decoding the log\<close>

datatype v2_prepared = VHeader "(ledger_key \<times> durable_entry) list" digest | VChange ledger_record

record v2_decoder =
  vd_header :: "ledger_header option"
  vd_entries :: "(ledger_key \<times> durable_entry) list"
  vd_sequence :: u64
  vd_sha :: digest
  vd_appended :: nat

definition v2_rejected :: "ledger_issue_kind \<Rightarrow> u64 option \<Rightarrow> v2_prepared prepared_record" where
  "v2_rejected kind sq = \<lparr>observation = Rejected sq kind, pr_record = None\<rparr>"

text \<open>Inserting the header's entries into a map; \<open>None\<close> when a key repeats.\<close>

fun header_entries ::
  "durable_entry list \<Rightarrow> (ledger_key \<times> durable_entry) list \<Rightarrow> (ledger_key \<times> durable_entry) list option" where
  "header_entries [] m = Some m"
| "header_entries (de # des) m =
     (if map_of m (de_id de) \<noteq> None then None else header_entries des (AList.update (de_id de) de m))"

definition decode_header ::
  "ledger_codec \<Rightarrow> time \<Rightarrow> ledger_header \<Rightarrow> io_error + v2_prepared prepared_record" where
  "decode_header C now h =
     (if lh_schema h \<noteq> 2 then Inr (v2_rejected SchemaIssue None)
      else case checksum C (lk_snapshot_json C \<lparr>sn_schema = 2, sn_entries = lh_entries h\<rparr>) of
             Inl _ \<Rightarrow> Inl DecoderFault
           | Inr expected \<Rightarrow>
               if lh_sha h \<noteq> expected then Inr (v2_rejected ChecksumIssue None)
               else (case ledger_validate C now (lh_entries h) of
                       Inl _ \<Rightarrow> Inr (v2_rejected InvalidState None)
                     | Inr _ \<Rightarrow>
                         (case header_entries (lh_entries h) [] of
                            None \<Rightarrow> Inr (v2_rejected InvalidState None)
                          | Some m \<Rightarrow>
                              Inr \<lparr>observation = Accepted None, pr_record = Some (VHeader m (lh_sha h))\<rparr>)))"

text \<open>The loops over removals and updates: the set of changed keys, and the size of the map after the
  change.\<close>

fun check_removes ::
  "(ledger_key \<times> durable_entry) list \<Rightarrow> ledger_key list \<Rightarrow> ledger_key list \<Rightarrow> ledger_key list option" where
  "check_removes m [] changed = Some changed"
| "check_removes m (k # ks) changed =
     (if k \<in> set changed \<or> map_of m k = None then None else check_removes m ks (k # changed))"

fun check_updates ::
  "(ledger_key \<times> durable_entry) list \<Rightarrow> durable_entry list \<Rightarrow> ledger_key list \<Rightarrow> nat \<Rightarrow> nat option" where
  "check_updates m [] changed n = Some n"
| "check_updates m (de # des) changed n =
     (if de_id de \<in> set changed then None
      else check_updates m des (de_id de # changed) (if map_of m (de_id de) = None then n + 1 else n))"

definition decode_change ::
  "ledger_codec \<Rightarrow> v2_decoder \<Rightarrow> jsonl_line \<Rightarrow> io_error + v2_prepared prepared_record" where
  "decode_change C d line =
     (case lk_dec_record C (ln_bytes line) of
        None \<Rightarrow> Inr (v2_rejected DecodeIssue None)
      | Some r \<Rightarrow>
          (let c = lr_change r; sq = Some (lc_sequence c); bad = Inr (v2_rejected InvalidState sq)
           in if lr_schema r \<noteq> 2 then Inr (v2_rejected SchemaIssue sq)
              else if lc_previous_sha c \<noteq> vd_sha d then Inr (v2_rejected ChecksumIssue sq)
              else case checksum C (lk_change_json C c) of
                     Inl _ \<Rightarrow> Inl DecoderFault
                   | Inr actual \<Rightarrow>
                       if actual \<noteq> lr_sha r then Inr (v2_rejected ChecksumIssue sq)
                       else (case check_removes (vd_entries d) (lc_removes c) [] of
                               None \<Rightarrow> bad
                             | Some changed \<Rightarrow>
                                 (case check_updates (vd_entries d) (lc_updates c) changed
                                         (length (vd_entries d) - length (lc_removes c)) of
                                    None \<Rightarrow> bad
                                  | Some n \<Rightarrow>
                                      if 4096 < n \<or> COMPACT_RECORDS \<le> vd_sequence d
                                         \<or> COMPACT_BYTES + MAX_LINE_BYTES < sat_add (vd_appended d) (length (ln_bytes line))
                                      then bad
                                      else Inr \<lparr>observation = Accepted sq, pr_record = Some (VChange r)\<rparr>))))"

definition v2_decode ::
  "ledger_codec \<Rightarrow> time \<Rightarrow> v2_decoder \<Rightarrow> jsonl_line \<Rightarrow> io_error + (v2_prepared prepared_record \<times> v2_decoder)" where
  "v2_decode C now d line =
     (case vd_header d of
        Some h \<Rightarrow> map_sum id (\<lambda>p. (p, d\<lparr>vd_header := None\<rparr>)) (decode_header C now h)
      | None \<Rightarrow> map_sum id (\<lambda>p. (p, d)) (decode_change C d line))"

definition apply_entries ::
  "durable_entry list \<Rightarrow> ledger_key list \<Rightarrow> (ledger_key \<times> durable_entry) list \<Rightarrow> (ledger_key \<times> durable_entry) list" where
  "apply_entries us rs m = fold (\<lambda>de. AList.update (de_id de) de) us (fold AList.delete rs m)"

definition v2_apply ::
  "v2_decoder \<Rightarrow> jsonl_line \<Rightarrow> v2_prepared prepared_record \<Rightarrow> sequence_verdict \<Rightarrow> io_error + (scan_control \<times> v2_decoder)" where
  "v2_apply d line prepared verdict =
     (if verdict = SeqInvalid then Inr (Stop, d)
      else case pr_record prepared of
             Some (VHeader m sha) \<Rightarrow> Inr (Continue, d\<lparr>vd_entries := m, vd_sha := sha\<rparr>)
           | Some (VChange r) \<Rightarrow>
               (let c = lr_change r
                in Inr (Continue, d\<lparr>vd_entries := apply_entries (lc_updates c) (lc_removes c) (vd_entries d),
                                    vd_sequence := lc_sequence c, vd_sha := lr_sha r,
                                    vd_appended := vd_appended d + length (ln_bytes line)\<rparr>))
           | None \<Rightarrow> Inl DecoderFault)"

definition v2_ledger :: "ledger_codec \<Rightarrow> time \<Rightarrow> (v2_decoder, v2_prepared) ledger_decoder" where
  "v2_ledger C now = \<lparr>ld_decode = v2_decode C now, ld_apply = v2_apply\<rparr>"

section \<open>Loading\<close>

record ledger_loaded =
  lo_health :: ledger_health
  lo_entries :: "durable_entry list"
  lo_format :: nat
  lo_sequence :: u64
  lo_sha :: digest
  lo_appended :: nat

definition v2_options :: scan_options where
  "v2_options = \<lparr>max_line_bytes = MAX_LINE_BYTES, seq_rule = Consecutive 1\<rparr>"

definition v2_start :: "ledger_header \<Rightarrow> v2_decoder" where
  "v2_start h = \<lparr>vd_header = Some h, vd_entries = [], vd_sequence = 0, vd_sha = zero_sha, vd_appended = 0\<rparr>"

definition load_v2 ::
  "ledger_codec \<Rightarrow> time \<Rightarrow> ledger_header \<Rightarrow> jsonl_read \<Rightarrow> reader \<Rightarrow> ledger_error + ledger_loaded" where
  "load_v2 C now h first rd =
     (case scan_jsonl_prefetched (v2_ledger C now) v2_options (v2_start h) first rd of
        Inl ReadFault \<Rightarrow> Inl LeOther
      | Inl DecoderFault \<Rightarrow> Inl LeInvalidData
      | Inr (health, d) \<Rightarrow>
          if first_issue health \<noteq> None then Inl LeInvalidData
          else Inr \<lparr>lo_health = health, lo_entries = map snd (vd_entries d), lo_format = 2,
                    lo_sequence = vd_sequence d, lo_sha = vd_sha d, lo_appended = vd_appended d\<rparr>)"

text \<open>The whole file as one snapshot: at most one byte more than the limit is read.\<close>

definition load_v1 :: "ledger_codec \<Rightarrow> bytes \<Rightarrow> reader \<Rightarrow> ledger_error + ledger_loaded" where
  "load_v1 C first_bytes rd =
     (let remaining = MAX_LINE_BYTES - length first_bytes;
          bytes = first_bytes @ take (remaining + 1) (rd_bytes rd)
      in if rd_fault rd \<and> length (rd_bytes rd) < remaining + 1 then Inl LeOther
         else if MAX_LINE_BYTES < length bytes then Inl LeInvalidData
         else (case lk_dec_snapshot C bytes of
                 None \<Rightarrow> Inl LeInvalidData
               | Some sn \<Rightarrow>
                   if sn_schema sn \<noteq> 1 then Inl LeInvalidData
                   else Inr \<lparr>lo_health = default_health\<lparr>lh_exists := True, bytes_observed := length bytes, decoded_records := 1\<rparr>,
                             lo_entries = sn_entries sn, lo_format = 1, lo_sequence = 0, lo_sha = zero_sha,
                             lo_appended = 0\<rparr>))"

definition load_reader :: "ledger_codec \<Rightarrow> time \<Rightarrow> reader \<Rightarrow> ledger_error + ledger_loaded" where
  "load_reader C now rd =
     (case read_jsonl_line MAX_LINE_BYTES rd of
        Inl _ \<Rightarrow> Inl LeOther
      | Inr (TooLong, _) \<Rightarrow> Inl LeInvalidData
      | Inr (first, rd') \<Rightarrow>
          (let bs = (case first of Complete b \<Rightarrow> b | Torn b \<Rightarrow> b | _ \<Rightarrow> [])
           in case lk_dec_header C bs of
                Some h \<Rightarrow> load_v2 C now h first rd'
              | None \<Rightarrow> load_v1 C bs rd'))"

definition ledger_io :: "disk \<Rightarrow> (ledger_error + unit) \<times> disk" where
  "ledger_io d = (case next_io d of (IoOk, d') \<Rightarrow> (Inr (), d') | (IoErr _, d') \<Rightarrow> (Inl LeOther, d'))"

definition ledger_load :: "ledger_codec \<Rightarrow> time \<Rightarrow> disk \<Rightarrow> (ledger_error + ledger_loaded option) \<times> disk" where
  "ledger_load C now d =
     and_then (ledger_io d)
       (\<lambda>_ d. case dk_file d of
                None \<Rightarrow> (Inr None, d)
              | Some bs \<Rightarrow>
                  (case next_io d of
                     (IoOk, d') \<Rightarrow> (map_sum id Some (load_reader C now \<lparr>rd_bytes = bs, rd_fault = False\<rparr>), d')
                   | (IoErr n, d') \<Rightarrow>
                       (map_sum id Some (load_reader C now \<lparr>rd_bytes = take n bs, rd_fault = True\<rparr>), d')))"

section \<open>The writer\<close>

record ledger_journal =
  jn_file :: "nat option"
  jn_format :: nat
  jn_sequence :: u64
  jn_sha :: digest
  jn_appended :: nat

record ledger_writer =
  wr_journal :: ledger_journal
  wr_disk :: disk

text \<open>The lock file: \<open>held\<close> tells whether another process holds its lock.\<close>

definition ledger_lock :: "bool \<Rightarrow> disk \<Rightarrow> (ledger_error + unit) \<times> disk" where
  "ledger_lock held d =
     and_then (ledger_io d) (\<lambda>_ d. and_then (ledger_io d) (\<lambda>_ d. if held then (Inl LeWouldBlock, d) else (Inr (), d)))"

text \<open>\<open>OpenOptions::new().append(true).open(path)\<close>.\<close>

definition ledger_open_append :: "disk \<Rightarrow> (ledger_error + nat) \<times> disk" where
  "ledger_open_append d =
     and_then (ledger_io d)
       (\<lambda>_ d. case dk_file d of None \<Rightarrow> (Inl LeOther, d) | Some _ \<Rightarrow> (Inr (dk_inode d), d))"

text \<open>The temporary file is created, written and synced before it is renamed over the path; then the
  directory is opened and synced.\<close>

definition ledger_replace :: "bytes \<Rightarrow> disk \<Rightarrow> (ledger_error + unit) \<times> disk" where
  "ledger_replace bs d =
     and_then (ledger_io d) (\<lambda>_ d.
     and_then (ledger_io d) (\<lambda>_ d.
     and_then (ledger_io d) (\<lambda>_ d.
     and_then (ledger_io d) (\<lambda>_ d.
       (let d = d\<lparr>dk_file := Some bs, dk_inode := dk_inode d + 1\<rparr>
        in and_then (ledger_io d) (\<lambda>_ d. ledger_io d))))))"

definition fresh_journal :: ledger_journal where
  "fresh_journal = \<lparr>jn_file = None, jn_format = 0, jn_sequence = 0, jn_sha = zero_sha, jn_appended = 0\<rparr>"

definition opened_journal ::
  "ledger_codec \<Rightarrow> time \<Rightarrow> ledger_loaded option \<Rightarrow> disk \<Rightarrow>
   (ledger_error + (ledger_journal \<times> (string + durable_entry list))) \<times> disk" where
  "opened_journal C now loaded d =
     (let j = (case loaded of
                 None \<Rightarrow> fresh_journal
               | Some l \<Rightarrow> \<lparr>jn_file = None, jn_format = lo_format l, jn_sequence = lo_sequence l, jn_sha = lo_sha l,
                           jn_appended = lo_appended l\<rparr>);
          entries = (case loaded of None \<Rightarrow> [] | Some l \<Rightarrow> lo_entries l);
          validation = map_sum id (\<lambda>_. entries) (ledger_validate C now entries)
      in if jn_format j = 2
         then and_then (ledger_open_append d) (\<lambda>f d. (Inr (j\<lparr>jn_file := Some f\<rparr>, validation), d))
         else (Inr (j, validation), d))"

definition persistence_open ::
  "ledger_codec \<Rightarrow> bool \<Rightarrow> time \<Rightarrow> disk \<Rightarrow>
   (ledger_error + (ledger_journal \<times> (string + durable_entry list))) \<times> disk" where
  "persistence_open C held now d =
     and_then (ledger_io d) (\<lambda>_ d.
     and_then (ledger_lock held d) (\<lambda>_ d.
       case ledger_load C now d of
         (Inr loaded, d) \<Rightarrow> opened_journal C now loaded d
       | (Inl LeInvalidData, d) \<Rightarrow> (Inr (fresh_journal, Inl ''unreadableLedger''), d)
       | (Inl err, d) \<Rightarrow> (Inl err, d)))"

definition needs_checkpoint :: "ledger_journal \<Rightarrow> bool" where
  "needs_checkpoint j \<longleftrightarrow> jn_format j \<noteq> 2 \<or> COMPACT_RECORDS \<le> jn_sequence j \<or> COMPACT_BYTES \<le> jn_appended j"

definition ledger_checkpoint ::
  "ledger_codec \<Rightarrow> durable_entry list \<Rightarrow> ledger_writer \<Rightarrow> (ledger_error + unit) \<times> ledger_writer" where
  "ledger_checkpoint C des w =
     (case checksum C (lk_snapshot_json C \<lparr>sn_schema = 2, sn_entries = des\<rparr>) of
        Inl err \<Rightarrow> (Inl err, w)
      | Inr sha \<Rightarrow>
          (case lk_enc_header C \<lparr>lh_schema = 2, lh_entries = des, lh_sha = sha\<rparr> of
             None \<Rightarrow> (Inl LeOther, w)
           | Some bs \<Rightarrow>
               (case and_then (ledger_replace (bs @ [newline]) (wr_disk w)) (\<lambda>_ d. ledger_open_append d) of
                  (Inl err, d) \<Rightarrow> (Inl err, w\<lparr>wr_disk := d\<rparr>)
                | (Inr f, d) \<Rightarrow>
                    (Inr (), \<lparr>wr_journal = \<lparr>jn_file = Some f, jn_format = 2, jn_sequence = 0, jn_sha = sha, jn_appended = 0\<rparr>,
                              wr_disk = d\<rparr>))))"

text \<open>Write, flush and sync the line; a failed write may have written a prefix of it.\<close>

definition ledger_write :: "nat \<Rightarrow> bytes \<Rightarrow> disk \<Rightarrow> (ledger_error + unit) \<times> disk" where
  "ledger_write f bs d =
     (case next_io d of
        (IoErr n, d) \<Rightarrow> (Inl LeOther, append_bytes f (take n bs) d)
      | (IoOk, d) \<Rightarrow> and_then (ledger_io (append_bytes f bs d)) (\<lambda>_ d. ledger_io d))"

definition ledger_append ::
  "ledger_codec \<Rightarrow> durable_entry list \<Rightarrow> ledger_key list \<Rightarrow> ledger_writer \<Rightarrow> (ledger_error + unit) \<times> ledger_writer" where
  "ledger_append C us rs w =
     (let j = wr_journal w
      in case checked_succ (jn_sequence j) of
           None \<Rightarrow> (Inl LeInvalidData, w)
         | Some sq \<Rightarrow>
             (let c = \<lparr>lc_sequence = sq, lc_previous_sha = jn_sha j, lc_updates = us, lc_removes = rs\<rparr>
              in case checksum C (lk_change_json C c) of
                   Inl err \<Rightarrow> (Inl err, w)
                 | Inr sha \<Rightarrow>
                     (case lk_enc_record C \<lparr>lr_schema = 2, lr_change = c, lr_sha = sha\<rparr> of
                        None \<Rightarrow> (Inl LeOther, w)
                      | Some body \<Rightarrow>
                          (let bs = body @ [newline]
                           in if MAX_LINE_BYTES < length bs then (Inl LeInvalidData, w)
                              else case jn_file j of
                                     None \<Rightarrow> (Inl LeInvalidData, w)
                                   | Some f \<Rightarrow>
                                       (case ledger_write f bs (wr_disk w) of
                                          (Inl err, d) \<Rightarrow> (Inl err, w\<lparr>wr_disk := d\<rparr>)
                                        | (Inr _, d) \<Rightarrow>
                                            (Inr (), \<lparr>wr_journal = j\<lparr>jn_sequence := jn_sequence j + 1, jn_sha := sha,
                                                                      jn_appended := jn_appended j + length bs\<rparr>,
                                                      wr_disk = d\<rparr>))))))"

text \<open>The ledger as the store sees it.\<close>

definition ledger_open ::
  "ledger_codec \<Rightarrow> bool \<Rightarrow> time \<Rightarrow> disk \<Rightarrow> (ledger_error \<times> disk) + (ledger_writer \<times> (string + durable_entry list))" where
  "ledger_open C held now d =
     (case persistence_open C held now d of
        (Inl err, d') \<Rightarrow> Inl (err, d')
      | (Inr (j, r), d') \<Rightarrow> Inr (\<lparr>wr_journal = j, wr_disk = d'\<rparr>, r))"

definition file_ledger :: "ledger_codec \<Rightarrow> (ledger_writer, disk) ledger_ops" where
  "file_ledger C =
     \<lparr>lw_open = ledger_open C, lw_needs_checkpoint = (\<lambda>w. needs_checkpoint (wr_journal w)),
      lw_checkpoint = ledger_checkpoint C, lw_append = ledger_append C, lw_disk = wr_disk\<rparr>"

definition ledger_env ::
  "ledger_codec \<Rightarrow> 'o outcome_ops \<Rightarrow> (json \<Rightarrow> 'o option) \<Rightarrow> ('o, ledger_writer, disk) idem_env" where
  "ledger_env C Ops resolve =
     \<lparr>ev_outcome = Ops, ev_ledger = file_ledger C, ev_value_len = lk_value_len C, ev_resolve = resolve\<rparr>"

section \<open>Inspection and downgrade\<close>

record idem_ledger_health =
  ih_exists :: bool
  ih_format :: "nat option"
  ih_entries :: nat
  ih_integrity_issue :: "string option"

definition default_ledger_health :: idem_ledger_health where
  "default_ledger_health = \<lparr>ih_exists = False, ih_format = None, ih_entries = 0, ih_integrity_issue = None\<rparr>"

text \<open>\<open>lock_exists\<close> tells whether there is a lock file to share.\<close>

definition inspect_idempotency_ledger ::
  "ledger_codec \<Rightarrow> bool \<Rightarrow> bool \<Rightarrow> time \<Rightarrow> disk \<Rightarrow> (ledger_error + idem_ledger_health) \<times> disk" where
  "inspect_idempotency_ledger C lock_exists held now d =
     and_then (and_then (ledger_io d) (\<lambda>_ d.
                 if \<not> lock_exists then (Inr (), d)
                 else and_then (ledger_io d) (\<lambda>_ d. if held then (Inl LeWouldBlock, d) else (Inr (), d))))
       (\<lambda>_ d. case ledger_load C now d of
                (Inr None, d) \<Rightarrow> (Inr default_ledger_health, d)
              | (Inr (Some l), d) \<Rightarrow>
                  (Inr \<lparr>ih_exists = lh_exists (lo_health l), ih_format = Some (lo_format l),
                        ih_entries = length (lo_entries l),
                        ih_integrity_issue = (case ledger_validate C now (lo_entries l) of Inl issue \<Rightarrow> Some issue | Inr _ \<Rightarrow> None)\<rparr>, d)
              | (Inl LeInvalidData, d) \<Rightarrow>
                  (Inr (default_ledger_health\<lparr>ih_exists := True, ih_integrity_issue := Some ''unreadableLedger''\<rparr>), d)
              | (Inl err, d) \<Rightarrow> (Inl err, d))"

definition downgrade_entry :: "durable_entry \<Rightarrow> durable_entry" where
  "downgrade_entry de =
     (case de_state de of
        DRetained _ \<Rightarrow> de
      | _ \<Rightarrow> de\<lparr>de_state := DUnresolved, de_expires := None\<rparr>)"

text \<open>The backup is a copy of the file; a failed copy leaves what was copied.\<close>

definition ledger_backup :: "disk \<Rightarrow> (ledger_error + unit) \<times> disk" where
  "ledger_backup d =
     and_then (ledger_io d) (\<lambda>_ d.
       case dk_file d of
         None \<Rightarrow> (Inl LeOther, d\<lparr>dk_archives := [] # dk_archives d\<rparr>)
       | Some bs \<Rightarrow>
           (case next_io d of
              (IoErr _, d) \<Rightarrow> (Inl LeOther, d\<lparr>dk_archives := [] # dk_archives d\<rparr>)
            | (IoOk, d) \<Rightarrow>
                (case next_io d of
                   (IoErr n, d) \<Rightarrow> (Inl LeOther, d\<lparr>dk_archives := take n bs # dk_archives d\<rparr>)
                 | (IoOk, d) \<Rightarrow>
                     and_then (ledger_io (d\<lparr>dk_archives := bs # dk_archives d\<rparr>)) (\<lambda>_ d.
                     and_then (ledger_io d) (\<lambda>_ d. ledger_io d)))))"

text \<open>The result tells whether the ledger was converted.\<close>

definition downgrade_idempotency_ledger ::
  "ledger_codec \<Rightarrow> bool \<Rightarrow> time \<Rightarrow> disk \<Rightarrow> (ledger_error + bool) \<times> disk" where
  "downgrade_idempotency_ledger C held now d =
     and_then (ledger_io d) (\<lambda>_ d.
       if dk_file d = None then (Inr False, d)
       else and_then (ledger_lock held d) (\<lambda>_ d.
            and_then (ledger_load C now d) (\<lambda>loaded d.
              case loaded of
                None \<Rightarrow> (Inr False, d)
              | Some l \<Rightarrow>
                  (case ledger_validate C now (lo_entries l) of
                     Inl _ \<Rightarrow> (Inl LeInvalidData, d)
                   | Inr _ \<Rightarrow>
                       if lo_format l = 1 then (Inr False, d)
                       else and_then (ledger_backup d) (\<lambda>_ d.
                              case lk_enc_snapshot C \<lparr>sn_schema = 1, sn_entries = map downgrade_entry (lo_entries l)\<rparr> of
                                None \<Rightarrow> (Inl LeOther, d)
                              | Some bs \<Rightarrow> and_then (ledger_replace bs d) (\<lambda>_ d. (Inr True, d)))))))"

end
