(* ===== verification/Idempotency_Log.thy ===== *)
theory Idempotency_Log
  imports Idempotency_Ledger
begin

text \<open>
  The log of \<open>Idempotency_Ledger\<close> keeps the contract \<open>change_log\<close> of the idempotency store: what the
  writer wrote is what the next reader loads, a torn append is refused, and a failed read is never
  mistaken for an empty or a damaged ledger.
\<close>

section \<open>Scanning\<close>

lemma v2_stop_issue: "scan_complete (v2_ledger C now) opts h d bs = Inr (Stop, h', d') \<Longrightarrow> first_issue h' \<noteq> None"
  by (auto simp: scan_complete_def v2_ledger_def v2_apply_def Let_def dest: observe_invalid_issue
      split: sum.splits prod.splits option.splits v2_prepared.splits if_splits)

lemma max_line_u64: "MAX_LINE_BYTES < u64_max"
  by (simp add: MAX_LINE_BYTES_def u64_max_def)

lemma load_v2_fault:
  assumes "rd_fault rd" "read_jsonl_line MAX_LINE_BYTES rd = Inr (first, rd')"
  shows "load_v2 C now hdr first rd' \<noteq> Inr l"
proof
  assume "load_v2 C now hdr first rd' = Inr l"
  then obtain h d where s: "scan (v2_ledger C now) v2_options (default_health\<lparr>lh_exists := True\<rparr>) (v2_start hdr) (Some first) rd' = Inr (h, d)"
    and none: "first_issue h = None"
    by (auto simp: load_v2_def scan_jsonl_prefetched_def split: sum.splits io_error.splits if_splits)
  have "scan (v2_ledger C now) v2_options (default_health\<lparr>lh_exists := True\<rparr>) (v2_start hdr) None rd = Inr (h, d)"
    using s assms(2) by (subst scan.simps, subst (asm) scan.simps) (simp add: v2_options_def)
  from scan_fault [OF v2_stop_issue _ assms(1) this] none max_line_u64 show False by (simp add: v2_options_def)
qed

lemma load_reader_fault: "rd_fault rd \<Longrightarrow> load_reader C now rd \<noteq> Inr l"
  using load_v2_fault [of rd] read_jsonl_line_fault [OF _ max_line_u64, of rd]
  by (auto simp: load_reader_def load_v1_def Let_def split: sum.splits prod.splits jsonl_read.splits option.splits if_splits)

section \<open>Validation accepts admissible maps\<close>

lemma entry_fault_ok: "entry_fault C de = None \<longleftrightarrow> entry_ok (lk_value_len C) de"
  by (auto simp: entry_fault_def entry_ok_def split: durable_state.splits option.splits)

definition count_of :: "(principal_id \<times> nat) list \<Rightarrow> principal_id \<Rightarrow> nat" where
  "count_of counts p = (case map_of counts p of None \<Rightarrow> 0 | Some n \<Rightarrow> n)"

lemma validate_from_ok:
  assumes "list_all (entry_ok (lk_value_len C)) des" "distinct (map de_id des @ keys)"
    "length keys + length des \<le> 4096"
    "\<And>p. count_of counts p + length (filter (\<lambda>de. de_principal de = p) des) \<le> 256"
  shows "validate_from C now des keys counts = Inr ()"
  using assms
proof (induction des arbitrary: keys counts)
  case (Cons de des)
  have ok: "entry_fault C de = None" using Cons.prems(1) by (simp add: entry_fault_ok)
  have le: "count_of counts p + length (filter (\<lambda>de. de_principal de = p) des) \<le> 256" for p
    using Cons.prems(4) [of p] by (auto split: if_splits)
  show ?case
  proof (cases "de_expired now de")
    case True
    then show ?thesis using ok Cons.IH [of keys counts] Cons.prems(1-3) le by simp
  next
    case False
    let ?c = "AList.update (de_principal de) (count_of counts (de_principal de) + 1) counts"
    have n: "count_of counts (de_principal de) + 1 \<le> 256" using Cons.prems(4) [of "de_principal de"] by simp
    have "count_of ?c p + length (filter (\<lambda>de. de_principal de = p) des) \<le> 256" for p
      using Cons.prems(4) [of p] by (auto simp: count_of_def hmap_simps split: if_splits)
    then have "validate_from C now des (de_id de # keys) ?c = Inr ()"
      using Cons.prems(1-3) by (intro Cons.IH) auto
    then show ?thesis using ok False n Cons.prems(2,3) by (simp add: count_of_def Let_def)
  qed
qed simp

lemma dom_entries_map: "dom (entries_map des) = de_id ` set des"
  by (simp add: entries_map_def dom_map_of_conv_image_fst image_image)

lemma card_ids: "distinct (map de_id des) \<Longrightarrow> card (de_id ` set des) = length des"
  using distinct_card [of "map de_id des"] by simp

lemma card_principal_ids:
  assumes "distinct (map de_id des)"
  shows "card {k. (p, k) \<in> de_id ` set des} = length (filter (\<lambda>de. de_principal de = p) des)"
proof -
  have "{k. (p, k) \<in> de_id ` set des} = de_key ` set (filter (\<lambda>de. de_principal de = p) des)"
    by (force simp: de_id_def)
  moreover have "distinct (map de_key (filter (\<lambda>de. de_principal de = p) des))"
    using assms by (induction des) (auto simp: de_id_def image_iff)
  ultimately show ?thesis using distinct_card by (metis length_map set_map)
qed

lemma validate_ok:
  assumes "distinct (map de_id des)" "admissible (lk_value_len C) (entries_map des)"
  shows "ledger_validate C now des = Inr ()"
  unfolding ledger_validate_def
proof (rule validate_from_ok)
  show "list_all (entry_ok (lk_value_len C)) des"
    unfolding list_all_iff
  proof
    fix de
    assume "de \<in> set des"
    then have "entries_map des (de_id de) = Some de" using assms(1) by (simp add: entries_map_Some)
    then show "entry_ok (lk_value_len C) de" using assms(2) unfolding admissible_def by blast
  qed
  show "length [] + length des \<le> 4096"
    using assms card_ids by (simp add: admissible_def dom_entries_map)
  show "count_of [] p + length (filter (\<lambda>de. de_principal de = p) des) \<le> 256" for p
  proof -
    have "card {k. (p, k) \<in> dom (entries_map des)} \<le> 256" using assms(2) by (simp add: admissible_def)
    then show ?thesis using card_principal_ids [OF assms(1), of p] by (simp add: count_of_def dom_entries_map)
  qed
qed (use assms in simp)

section \<open>Decoding accepts what the writer produces\<close>

lemma header_entries_ok:
  "distinct (map de_id des @ map fst m) \<Longrightarrow> header_entries des m = Some (m @ map (\<lambda>de. (de_id de, de)) des)"
proof (induction des arbitrary: m)
  case (Cons de des)
  have "map_of m (de_id de) = None" using Cons.prems by (auto simp: map_of_eq_None_iff)
  moreover have "AList.update (de_id de) de m = m @ [(de_id de, de)]"
    using Cons.prems by (induction m) auto
  ultimately show ?case using Cons.IH [of "m @ [(de_id de, de)]"] Cons.prems by auto
qed simp

lemma check_removes_ok:
  "distinct (rs @ changed) \<Longrightarrow> set rs \<subseteq> dom (map_of m) \<Longrightarrow> check_removes m rs changed = Some (rev rs @ changed)"
  by (induction rs arbitrary: changed) auto

lemma check_updates_ok:
  "distinct (map de_id us @ changed) \<Longrightarrow>
   check_updates m us changed n = Some (n + length (filter (\<lambda>de. map_of m (de_id de) = None) us))"
  by (induction us arbitrary: changed n) auto

lemma map_of_fold_delete: "map_of (fold AList.delete rs m) = (\<lambda>pk. if pk \<in> set rs then None else map_of m pk)"
  by (induction rs arbitrary: m) (auto simp: hmap_simps fun_eq_iff)

lemma map_of_fold_update:
  "distinct (map de_id us) \<Longrightarrow> map_of (fold (\<lambda>de. AList.update (de_id de) de) us m) = map_of m ++ entries_map us"
proof (induction us arbitrary: m)
  case (Cons de us)
  have "((map_of m)(de_id de \<mapsto> de) ++ entries_map us) = map_of m ++ entries_map (de # us)"
  proof
    fix pk
    show "((map_of m)(de_id de \<mapsto> de) ++ entries_map us) pk = (map_of m ++ entries_map (de # us)) pk"
    proof (cases "pk = de_id de")
      case True
      then have "entries_map us pk = None"
        using Cons.prems dom_entries_map [of us] by (metis (no_types, lifting) distinct.simps(2) domIff list.set_map list.simps(9))
      then show ?thesis using True by (simp add: entries_map_def map_add_def)
    qed (auto simp: entries_map_def map_add_def split: option.splits)
  qed
  then show ?case using Cons by (simp add: hmap_simps)
qed (simp add: entries_map_def)

lemma map_of_apply_entries:
  "distinct (map de_id us) \<Longrightarrow> map_of (apply_entries us rs m) = changed_map us rs (map_of m)"
  by (simp add: apply_entries_def map_of_fold_update map_of_fold_delete changed_map_def)

lemma distinct_apply_entries: "distinct (map fst m) \<Longrightarrow> distinct (map fst (apply_entries us rs m))"
proof -
  have del: "distinct (map fst m) \<Longrightarrow> distinct (map fst (fold AList.delete rs m))"
    by (induction rs arbitrary: m) (auto simp: distinct_delete)
  have upd: "distinct (map fst n) \<Longrightarrow> distinct (map fst (fold (\<lambda>de. AList.update (de_id de) de) us n))" for n
    by (induction us arbitrary: n) (auto simp: distinct_update)
  show "distinct (map fst m) \<Longrightarrow> ?thesis" unfolding apply_entries_def by (rule upd [OF del])
qed

lemma card_dom_alist: "distinct (map fst m) \<Longrightarrow> card (dom (map_of m)) = length m"
  by (metis dom_map_of_conv_image_fst distinct_card length_map list.set_map)

text \<open>The size the decoder computes is the size of the map after the change.\<close>

lemma change_size:
  assumes "distinct (map fst m)" "proper_change us rs (map_of m)"
  shows "length m - length rs + length (filter (\<lambda>de. map_of m (de_id de) = None) us)
           = card (dom (changed_map us rs (map_of m)))"
proof -
  let ?new = "de_id ` set (filter (\<lambda>de. map_of m (de_id de) = None) us)"
  have d: "distinct (map de_id us)" "distinct rs" "set rs \<subseteq> dom (map_of m)" "set rs \<inter> de_id ` set us = {}"
    using assms(2) by (auto simp: proper_change_def)
  have "dom (changed_map us rs (map_of m)) = (dom (map_of m) - set rs) \<union> de_id ` set us"
    by (auto simp: changed_map_def dom_entries_map split: if_splits)
  also have "\<dots> = (dom (map_of m) - set rs) \<union> ?new" using d(4) by (auto simp: domIff)
  finally have "card (dom (changed_map us rs (map_of m))) = card (dom (map_of m) - set rs) + card ?new"
    by (simp, intro card_Un_disjoint) (auto simp: finite_dom_map_of)
  moreover have "card (dom (map_of m) - set rs) = length m - length rs"
    using d(2,3) card_dom_alist [OF assms(1)] by (simp add: card_Diff_subset distinct_card)
  moreover have "card ?new = length (filter (\<lambda>de. map_of m (de_id de) = None) us)"
    using d(1) by (intro card_ids) (simp add: distinct_map_filter)
  ultimately show ?thesis by simp
qed

section \<open>Files\<close>

text \<open>What is relied on of the serializer: a value is written without a newline and read back, with the
  newline that ends its line; a snapshot does not parse as a header; and a checkpoint or a snapshot of
  an admissible map fits in a line.\<close>

definition faithful_codec :: "ledger_codec \<Rightarrow> bool" where
  "faithful_codec C \<longleftrightarrow>
     (\<forall>h bs. lk_enc_header C h = Some bs \<longrightarrow>
        newline \<notin> set bs \<and> lk_dec_header C (bs @ [newline]) = Some h \<and>
        (distinct (map de_id (lh_entries h)) \<and> admissible (lk_value_len C) (entries_map (lh_entries h)) \<longrightarrow>
         length bs < MAX_LINE_BYTES)) \<and>
     (\<forall>r bs. lk_enc_record C r = Some bs \<longrightarrow> newline \<notin> set bs \<and> lk_dec_record C (bs @ [newline]) = Some r) \<and>
     (\<forall>sn bs. lk_enc_snapshot C sn = Some bs \<longrightarrow>
        newline \<notin> set bs \<and> lk_dec_snapshot C bs = Some sn \<and> lk_dec_header C bs = None \<and>
        (distinct (map de_id (sn_entries sn)) \<and> admissible (lk_value_len C) (entries_map (sn_entries sn)) \<longrightarrow>
         length bs \<le> MAX_LINE_BYTES))"

text \<open>Health and decoder after the lines of a sound log.\<close>

definition sound_scan :: "ledger_health \<Rightarrow> v2_decoder \<Rightarrow> ledger_map \<Rightarrow> ledger_journal \<Rightarrow> bool" where
  "sound_scan h d m j \<longleftrightarrow>
     first_issue h = None \<and> lh_exists h \<and>
     last_accepted_sequence h = (if jn_sequence j = 0 then None else Some (jn_sequence j)) \<and>
     vd_header d = None \<and> distinct (map fst (vd_entries d)) \<and> map_of (vd_entries d) = m \<and>
     vd_sequence d = jn_sequence j \<and> vd_sha d = jn_sha j \<and> vd_appended d = jn_appended j"

definition scan_start :: ledger_health where
  "scan_start = default_health\<lparr>lh_exists := True\<rparr>"

text \<open>The file of a log that holds the map \<open>m\<close>: its header line, its record lines, and at every time a sound
  scan that ends in the state of the writer \<open>j\<close>.\<close>

definition log_file :: "ledger_codec \<Rightarrow> bytes \<Rightarrow> ledger_map \<Rightarrow> ledger_journal \<Rightarrow> bool" where
  "log_file C bs m j \<longleftrightarrow>
     (\<exists>hdr hl ls. bs = concat (hl # ls) \<and> lk_dec_header C hl = Some hdr \<and>
        list_all (\<lambda>l. is_line l \<and> length l \<le> MAX_LINE_BYTES) (hl # ls) \<and>
        (\<forall>now. \<exists>h d. scan_lines (v2_ledger C now) v2_options scan_start (v2_start hdr) (hl # ls) = Inr (Continue, h, d) \<and>
           sound_scan h d m j))"

lemma log_fileE:
  assumes "log_file C bs m j"
  shows "\<exists>hdr hl ls h d. bs = concat (hl # ls) \<and> lk_dec_header C hl = Some hdr \<and>
    list_all (\<lambda>l. is_line l \<and> length l \<le> MAX_LINE_BYTES) (hl # ls) \<and>
    scan_lines (v2_ledger C now) v2_options scan_start (v2_start hdr) (hl # ls) = Inr (Continue, h, d) \<and> sound_scan h d m j"
  using assms unfolding log_file_def by blast

lemma is_line_body: "newline \<notin> set bs \<Longrightarrow> is_line (bs @ [newline])"
  by (simp add: is_line_def ends_nl_def)

lemma load_reader_complete:
  assumes "is_line l" "length l \<le> MAX_LINE_BYTES" "lk_dec_header C l = Some hdr"
  shows "load_reader C now \<lparr>rd_bytes = l @ bs, rd_fault = f\<rparr> =
     (case scan (v2_ledger C now) v2_options scan_start (v2_start hdr) None \<lparr>rd_bytes = l @ bs, rd_fault = f\<rparr> of
        Inl ReadFault \<Rightarrow> Inl LeOther
      | Inl DecoderFault \<Rightarrow> Inl LeInvalidData
      | Inr (health, d) \<Rightarrow>
          if first_issue health \<noteq> None then Inl LeInvalidData
          else Inr \<lparr>lo_health = health, lo_entries = map snd (vd_entries d), lo_format = 2,
                    lo_sequence = vd_sequence d, lo_sha = vd_sha d, lo_appended = vd_appended d\<rparr>)"
proof -
  have "length l \<le> u64_max" using assms(2) max_line_u64 by simp
  then show ?thesis
    using assms read_jsonl_line_complete [OF assms(1,2), of bs f]
      scan_prefetched_complete [OF assms(1), of v2_options "v2_ledger C now" scan_start "v2_start hdr" bs f]
    by (simp add: load_reader_def load_v2_def scan_jsonl_prefetched_def scan_start_def v2_options_def)
qed

text \<open>Reading a log with a tail after its last newline.\<close>

lemma log_file_scan:
  assumes "log_file C bs m j" "newline \<notin> set t" "length t \<le> MAX_LINE_BYTES"
  obtains h d where "sound_scan h d m j"
    "load_reader C now \<lparr>rd_bytes = bs @ t, rd_fault = False\<rparr> =
       (if t = [] then Inr \<lparr>lo_health = h, lo_entries = map snd (vd_entries d), lo_format = 2,
                            lo_sequence = jn_sequence j, lo_sha = jn_sha j, lo_appended = jn_appended j\<rparr>
        else Inl LeInvalidData)"
proof -
  from log_fileE [OF assms(1), of now] obtain hdr hl ls h d where f: "bs = concat (hl # ls)" "lk_dec_header C hl = Some hdr"
    "list_all (\<lambda>l. is_line l \<and> length l \<le> MAX_LINE_BYTES) (hl # ls)"
    "scan_lines (v2_ledger C now) v2_options scan_start (v2_start hdr) (hl # ls) = Inr (Continue, h, d)" "sound_scan h d m j"
    by blast
  have u: "length l \<le> u64_max" if "length l \<le> MAX_LINE_BYTES" for l :: bytes using that max_line_u64 by simp
  have "list_all (\<lambda>l. is_line l \<and> length l \<le> max_line_bytes v2_options \<and> length l \<le> u64_max) (hl # ls)"
    using f(3) u by (auto simp: list_all_iff v2_options_def)
  from scan_eq_split [OF this assms(2), of "v2_ledger C now" scan_start "v2_start hdr"] assms(3) u
  have s: "scan (v2_ledger C now) v2_options scan_start (v2_start hdr) None \<lparr>rd_bytes = bs @ t, rd_fault = False\<rparr>
      = Inr (finish_tail h t, d)"
    using f(1,4) by (simp add: scan_split_def v2_options_def)
  have l: "is_line hl" "length hl \<le> MAX_LINE_BYTES" using f(3) by auto
  have i: "first_issue (finish_tail h t) = None \<longleftrightarrow> t = []" "finish_tail h [] = h"
    using f(5) by (auto simp: finish_tail_def record_issue_def sound_scan_def split: option.splits)
  have "load_reader C now \<lparr>rd_bytes = bs @ t, rd_fault = False\<rparr> =
       (if t = [] then Inr \<lparr>lo_health = h, lo_entries = map snd (vd_entries d), lo_format = 2,
                            lo_sequence = jn_sequence j, lo_sha = jn_sha j, lo_appended = jn_appended j\<rparr>
        else Inl LeInvalidData)"
    using load_reader_complete [OF l f(2), of now "concat ls @ t" False] s f(1,5) i
    by (cases "t = []") (simp_all add: sound_scan_def)
  with f(5) show thesis by (rule that)
qed

lemma log_file_torn:
  assumes "log_file C bs m j" "newline \<notin> set t" "length t \<le> MAX_LINE_BYTES" "t \<noteq> []"
  shows "load_reader C now \<lparr>rd_bytes = bs @ t, rd_fault = False\<rparr> = Inl LeInvalidData"
  by (rule log_file_scan [OF assms(1-3), of now]) (simp add: assms(4))

lemma log_file_load:
  assumes "log_file C bs m j"
  shows "\<exists>h d. sound_scan h d m j \<and> load_reader C now \<lparr>rd_bytes = bs, rd_fault = False\<rparr> =
     Inr \<lparr>lo_health = h, lo_entries = map snd (vd_entries d), lo_format = 2,
          lo_sequence = jn_sequence j, lo_sha = jn_sha j, lo_appended = jn_appended j\<rparr>"
proof -
  have "newline \<notin> set []" "length ([] :: bytes) \<le> MAX_LINE_BYTES" by simp_all
  from log_file_scan [OF assms this, of now] show ?thesis by (metis append_Nil2)
qed

section \<open>Checkpoints and appends extend the log\<close>

lemma observe_unsequenced:
  "\<exists>h'. observe rule n off (Accepted None) h = (Unsequenced, h') \<and> first_issue h' = first_issue h \<and>
        lh_exists h' = lh_exists h \<and> last_accepted_sequence h' = last_accepted_sequence h"
  by (simp add: observe_def Let_def sequence_valid_def)

lemma observe_sequenced:
  assumes "sequence_valid rule h (Some s)" "s \<noteq> - 1" "rule \<noteq> SeqNone"
  shows "\<exists>h'. observe rule n off (Accepted (Some s)) h = (SeqValid, h') \<and> first_issue h' = first_issue h \<and>
        lh_exists h' = lh_exists h \<and> last_accepted_sequence h' = Some s"
  using assms by (simp add: observe_def Let_def)

lemma enter_line_issue [simp]: "first_issue (enter_line h bs p) = first_issue h" "lh_exists (enter_line h bs p) = lh_exists h"
  by (simp_all add: enter_line_def Let_def)

text \<open>A line the decoder accepts and applies.\<close>

lemma scan_complete_accept:
  assumes "v2_decode C now d (line_at h l) = Inr (\<lparr>observation = Accepted sq, pr_record = Some r\<rparr>, d1)"
    and "\<And>h'. first_issue h' = first_issue h \<Longrightarrow> last_accepted_sequence h' = last_accepted_sequence h \<Longrightarrow>
           (case sq of None \<Rightarrow> True | Some s \<Rightarrow> sequence_valid (Consecutive 1) h' (Some s) \<and> s \<noteq> - 1)"
    and "\<And>v. v \<noteq> SeqInvalid \<Longrightarrow> v2_apply d1 (line_at h l) \<lparr>observation = Accepted sq, pr_record = Some r\<rparr> v = Inr (Continue, d2)"
  shows "\<exists>h'. scan_complete (v2_ledger C now) v2_options h d l = Inr (Continue, h', d2) \<and>
    first_issue h' = first_issue h \<and> lh_exists h' = lh_exists h \<and>
    last_accepted_sequence h' = (case sq of None \<Rightarrow> last_accepted_sequence h | Some s \<Rightarrow> Some s)"
proof -
  let ?p = "\<lparr>observation = Accepted sq, pr_record = Some r\<rparr>" and ?h = "enter_line h l \<lparr>observation = Accepted sq, pr_record = Some r\<rparr>"
  have "\<exists>v h'. v \<noteq> SeqInvalid \<and> observe (Consecutive 1) n off (Accepted sq) ?h = (v, h') \<and> first_issue h' = first_issue h \<and>
      lh_exists h' = lh_exists h \<and> last_accepted_sequence h' = (case sq of None \<Rightarrow> last_accepted_sequence h | Some s \<Rightarrow> Some s)" for n off
  proof (cases sq)
    case None
    then show ?thesis using observe_unsequenced [of "Consecutive 1" n off ?h] by fastforce
  next
    case (Some s)
    then have "sequence_valid (Consecutive 1) ?h (Some s)" "s \<noteq> - 1" using assms(2) [of ?h] by simp_all
    from observe_sequenced [OF this, of n off] Some show ?thesis by fastforce
  qed
  then obtain v h' where o: "v \<noteq> SeqInvalid"
    "observe (Consecutive 1) (ln_number (line_at h l)) (ln_offset (line_at h l)) (Accepted sq) ?h = (v, h')" "first_issue h' = first_issue h"
    "lh_exists h' = lh_exists h" "last_accepted_sequence h' = (case sq of None \<Rightarrow> last_accepted_sequence h | Some s \<Rightarrow> Some s)"
    by blast
  then have "scan_complete (v2_ledger C now) v2_options h d l = Inr (Continue, h', d2)"
    using assms(1,3) by (simp add: scan_complete_def v2_ledger_def v2_options_def Let_def)
  with o show ?thesis by blast
qed

lemma checkpoint_log:
  assumes "faithful_codec C" "distinct (map de_id des)" "admissible (lk_value_len C) (entries_map des)"
    "checksum C (lk_snapshot_json C \<lparr>sn_schema = 2, sn_entries = des\<rparr>) = Inr sha"
    "lk_enc_header C \<lparr>lh_schema = 2, lh_entries = des, lh_sha = sha\<rparr> = Some bs"
    "jn_sequence j = 0" "jn_sha j = sha" "jn_appended j = 0"
  shows "log_file C (bs @ [newline]) (entries_map des) j"
proof -
  let ?hdr = "\<lparr>lh_schema = 2, lh_entries = des, lh_sha = sha\<rparr>" and ?l = "bs @ [newline]"
  have c: "newline \<notin> set bs" "lk_dec_header C ?l = Some ?hdr" "length bs < MAX_LINE_BYTES"
    using assms(1-3,5) by (auto simp: faithful_codec_def)
  have dec: "v2_decode C now (v2_start ?hdr) (line_at scan_start ?l) =
      Inr (\<lparr>observation = Accepted None, pr_record = Some (VHeader (map (\<lambda>de. (de_id de, de)) des) sha)\<rparr>, (v2_start ?hdr)\<lparr>vd_header := None\<rparr>)" for now
    using assms(4) validate_ok [OF assms(2,3), of now] header_entries_ok [of des "[]"] assms(2)
    by (simp add: v2_decode_def v2_start_def decode_header_def)
  have "\<exists>h d. scan_lines (v2_ledger C now) v2_options scan_start (v2_start ?hdr) [?l] = Inr (Continue, h, d) \<and>
      sound_scan h d (entries_map des) j" for now
  proof -
    let ?d = "(v2_start ?hdr)\<lparr>vd_header := None, vd_entries := map (\<lambda>de. (de_id de, de)) des, vd_sha := sha\<rparr>"
    obtain h where h: "scan_complete (v2_ledger C now) v2_options scan_start (v2_start ?hdr) ?l = Inr (Continue, h, ?d)"
      "first_issue h = None" "lh_exists h" "last_accepted_sequence h = None"
      using scan_complete_accept [OF dec [of now], of ?d] by (auto simp: v2_apply_def scan_start_def default_health_def)
    have "sound_scan h ?d (entries_map des) j"
      using h assms(2,6-8) by (auto simp: sound_scan_def v2_start_def entries_map_def comp_def)
    with h(1) show ?thesis by auto
  qed
  moreover have "list_all (\<lambda>l. is_line l \<and> length l \<le> MAX_LINE_BYTES) [?l]" using c is_line_body by auto
  ultimately show ?thesis unfolding log_file_def
    using c(2) by (intro exI [of _ ?hdr] exI [of _ ?l] exI [of _ "[]"]) simp
qed

lemma small_sequence:
  assumes "\<not> COMPACT_RECORDS \<le> (s :: u64)"
  shows "s \<noteq> - 1" "s + 1 \<noteq> - 1" "s + 1 \<noteq> 0"
proof -
  have lt: "unat s < 4096" using assms by (simp add: COMPACT_RECORDS_def not_le word_less_nat_alt)
  have big: "unat (- 1 :: u64) = 18446744073709551615" by (simp add: unsigned_minus_1_eq_mask mask_eq_exp_minus_1)
  show m: "s \<noteq> - 1" using lt big by auto
  have u: "unat (s + 1) = Suc (unat s)" by (rule unat_succ [OF m])
  show "s + 1 \<noteq> - 1"
  proof
    assume "s + 1 = - 1"
    with u big have "Suc (unat s) = 18446744073709551615" by simp
    with lt show False by simp
  qed
  show "s + 1 \<noteq> 0"
  proof
    assume "s + 1 = 0"
    with u show False by simp
  qed
qed

text \<open>The line of a change, after a sound scan.\<close>

lemma append_scan:
  assumes "lk_dec_record C l = Some \<lparr>lr_schema = 2, lr_change = c, lr_sha = sha\<rparr>" "\<not> needs_checkpoint j" "proper_change us rs m"
    "admissible (lk_value_len C) (changed_map us rs m)"
    "c = \<lparr>lc_sequence = jn_sequence j + 1, lc_previous_sha = jn_sha j, lc_updates = us, lc_removes = rs\<rparr>"
    "checksum C (lk_change_json C c) = Inr sha" "length l \<le> MAX_LINE_BYTES"
    "j' = j\<lparr>jn_sequence := jn_sequence j + 1, jn_sha := sha, jn_appended := jn_appended j + length l\<rparr>"
    and s: "sound_scan h d m j"
  shows "\<exists>h' d'. scan_complete (v2_ledger C now) v2_options h d l = Inr (Continue, h', d') \<and> sound_scan h' d' (changed_map us rs m) j'"
proof -
  let ?r = "\<lparr>lr_schema = 2, lr_change = c, lr_sha = sha\<rparr>"
  let ?p = "\<lparr>observation = Accepted (Some (jn_sequence j + 1)), pr_record = Some (VChange ?r)\<rparr>"
  let ?d = "d\<lparr>vd_entries := apply_entries us rs (vd_entries d), vd_sequence := jn_sequence j + 1, vd_sha := sha,
              vd_appended := vd_appended d + length l\<rparr>"
  have nc: "\<not> COMPACT_RECORDS \<le> jn_sequence j" "jn_appended j < COMPACT_BYTES" using assms(2) by (auto simp: needs_checkpoint_def)
  have pc: "distinct (map de_id us)" "distinct (map de_id us @ rev rs)" "distinct rs" "set rs \<subseteq> dom m"
    using assms(3) by (auto simp: proper_change_def)
  have sd: "distinct (map fst (vd_entries d))" "map_of (vd_entries d) = m" "vd_sha d = jn_sha j" "vd_sequence d = jn_sequence j"
    "vd_appended d = jn_appended j" "vd_header d = None" using s by (auto simp: sound_scan_def)
  have size: "length (vd_entries d) - length rs + length (filter (\<lambda>de. map_of (vd_entries d) (de_id de) = None) us) \<le> 4096"
    using change_size [OF sd(1), of us rs] assms(3,4) sd(2) by (simp add: admissible_def)
  have room: "\<not> COMPACT_BYTES + MAX_LINE_BYTES < sat_add (vd_appended d) (length l)"
    using nc(2) assms(7) sd(5) by (simp add: sat_add_def COMPACT_BYTES_def MAX_LINE_BYTES_def)
  have dec: "v2_decode C now d (line_at h l) = Inr (?p, d)"
    using assms(1,5,6) sd size room nc(1) check_removes_ok [of rs "[]" "vd_entries d"] check_updates_ok [OF pc(2), of "vd_entries d"] pc
    by (simp add: v2_decode_def decode_change_def line_at_def Let_def)
  have app: "v2_apply d (line_at h l) ?p v = Inr (Continue, ?d)" if "v \<noteq> SeqInvalid" for v
    using that assms(5) by (simp add: v2_apply_def Let_def line_at_def)
  have seq: "sequence_valid (Consecutive 1) h' (Some (jn_sequence j + 1)) \<and> jn_sequence j + 1 \<noteq> - 1"
    if "last_accepted_sequence h' = last_accepted_sequence h" for h'
    using that s small_sequence [OF nc(1)] by (auto simp: sequence_valid_def sound_scan_def checked_succ_def)
  obtain h' where h': "scan_complete (v2_ledger C now) v2_options h d l = Inr (Continue, h', ?d)" "first_issue h' = first_issue h"
    "lh_exists h' = lh_exists h" "last_accepted_sequence h' = Some (jn_sequence j + 1)"
    using scan_complete_accept [OF dec _ app] seq by auto
  have "sound_scan h' ?d (changed_map us rs m) j'"
    using s h' sd small_sequence(3) [OF nc(1)] distinct_apply_entries [OF sd(1)] map_of_apply_entries [OF pc(1)] assms(8)
    by (simp add: sound_scan_def)
  with h'(1) show ?thesis by blast
qed

lemma append_log:
  assumes "faithful_codec C" "log_file C bs m j" "\<not> needs_checkpoint j" "proper_change us rs m"
    "admissible (lk_value_len C) (changed_map us rs m)"
    "c = \<lparr>lc_sequence = jn_sequence j + 1, lc_previous_sha = jn_sha j, lc_updates = us, lc_removes = rs\<rparr>"
    "checksum C (lk_change_json C c) = Inr sha"
    "lk_enc_record C \<lparr>lr_schema = 2, lr_change = c, lr_sha = sha\<rparr> = Some body"
    "l = body @ [newline]" "length l \<le> MAX_LINE_BYTES"
    "j' = j\<lparr>jn_sequence := jn_sequence j + 1, jn_sha := sha, jn_appended := jn_appended j + length l\<rparr>"
  shows "log_file C (bs @ l) (changed_map us rs m) j'"
proof -
  have cd: "newline \<notin> set body" "lk_dec_record C l = Some \<lparr>lr_schema = 2, lr_change = c, lr_sha = sha\<rparr>"
    using assms(1,8,9) by (auto simp: faithful_codec_def)
  note step = append_scan [OF cd(2) assms(3-7,10,11)]
  from assms(2) obtain hdr hl ls where f: "bs = concat (hl # ls)" "lk_dec_header C hl = Some hdr"
    "list_all (\<lambda>l. is_line l \<and> length l \<le> MAX_LINE_BYTES) (hl # ls)"
    "\<forall>now. \<exists>h d. scan_lines (v2_ledger C now) v2_options scan_start (v2_start hdr) (hl # ls) = Inr (Continue, h, d) \<and> sound_scan h d m j"
    unfolding log_file_def by blast
  have "\<exists>h d. scan_lines (v2_ledger C now) v2_options scan_start (v2_start hdr) (hl # (ls @ [l])) = Inr (Continue, h, d) \<and>
      sound_scan h d (changed_map us rs m) j'" for now
  proof -
    obtain h d where s: "scan_lines (v2_ledger C now) v2_options scan_start (v2_start hdr) (hl # ls) = Inr (Continue, h, d)" "sound_scan h d m j"
      using f(4) by blast
    from step [OF s(2), of now] obtain h' d' where
      "scan_complete (v2_ledger C now) v2_options h d l = Inr (Continue, h', d')" "sound_scan h' d' (changed_map us rs m) j'" by blast
    then show ?thesis using scan_lines_append [of "v2_ledger C now" v2_options scan_start "v2_start hdr" "hl # ls" "[l]"] s(1) by simp
  qed
  moreover have "list_all (\<lambda>l. is_line l \<and> length l \<le> MAX_LINE_BYTES) (hl # ls @ [l])"
    using f(3) cd(1) assms(9,10) is_line_body by auto
  moreover have "bs @ l = concat (hl # (ls @ [l]))" using f(1) by simp
  ultimately show ?thesis unfolding log_file_def using f(2) by blast
qed

section \<open>What a disk holds\<close>

text \<open>A snapshot of the old format.\<close>

definition snapshot_file :: "ledger_codec \<Rightarrow> bytes \<Rightarrow> ledger_map \<Rightarrow> bool" where
  "snapshot_file C bs m \<longleftrightarrow>
     (\<exists>des. newline \<notin> set bs \<and> length bs \<le> MAX_LINE_BYTES \<and> lk_dec_header C bs = None \<and>
        lk_dec_snapshot C bs = Some \<lparr>sn_schema = 1, sn_entries = des\<rparr> \<and>
        distinct (map de_id des) \<and> entries_map des = m)"

definition ledger_stored :: "ledger_codec \<Rightarrow> disk \<Rightarrow> ledger_map option \<Rightarrow> bool" where
  "ledger_stored C d i \<longleftrightarrow> faithful_codec C \<and>
     (case i of
        None \<Rightarrow> (\<exists>bs. dk_file d = Some bs \<and> (\<forall>now. load_reader C now \<lparr>rd_bytes = bs, rd_fault = False\<rparr> = Inl LeInvalidData))
      | Some m \<Rightarrow> admissible (lk_value_len C) m \<and>
          (case dk_file d of
             None \<Rightarrow> m = Map.empty
           | Some bs \<Rightarrow> (\<exists>j. jn_format j = 2 \<and> log_file C bs m j) \<or> snapshot_file C bs m))"

definition writer_ok :: "ledger_codec \<Rightarrow> ledger_writer \<Rightarrow> ledger_map \<Rightarrow> bool" where
  "writer_ok C w m \<longleftrightarrow> ledger_stored C (wr_disk w) (Some m) \<and>
     (jn_format (wr_journal w) = 2 \<longrightarrow>
        jn_file (wr_journal w) = Some (dk_inode (wr_disk w)) \<and>
        (\<exists>bs. dk_file (wr_disk w) = Some bs \<and> log_file C bs m (wr_journal w)))"

lemma ledger_stored_cong: "dk_file d' = dk_file d \<Longrightarrow> ledger_stored C d' i = ledger_stored C d i"
  by (simp only: ledger_stored_def)

lemma log_file_journal:
  "log_file C bs m j \<Longrightarrow> jn_sequence j' = jn_sequence j \<Longrightarrow> jn_sha j' = jn_sha j \<Longrightarrow> jn_appended j' = jn_appended j \<Longrightarrow> log_file C bs m j'"
  by (simp only: log_file_def sound_scan_def)

section \<open>The calls on the disk\<close>

lemma ledger_io_frame: "ledger_io d = (r, d') \<Longrightarrow> dk_file d' = dk_file d \<and> dk_inode d' = dk_inode d"
  by (auto simp: ledger_io_def next_io_def split: list.splits io_outcome.splits)

lemma ledger_lock_frame: "ledger_lock held d = (r, d') \<Longrightarrow> dk_file d' = dk_file d \<and> dk_inode d' = dk_inode d"
  by (auto simp: ledger_lock_def and_then_def split: prod.splits sum.splits if_splits dest!: ledger_io_frame)

lemma ledger_load_frame: "ledger_load C now d = (r, d') \<Longrightarrow> dk_file d' = dk_file d \<and> dk_inode d' = dk_inode d"
  by (auto simp: ledger_load_def and_then_def next_io_def split: prod.splits sum.splits option.splits list.splits io_outcome.splits
      dest!: ledger_io_frame)

lemma ledger_open_append_frame:
  "ledger_open_append d = (r, d') \<Longrightarrow> dk_file d' = dk_file d \<and> dk_inode d' = dk_inode d \<and> (\<forall>f. r = Inr f \<longrightarrow> f = dk_inode d)"
  by (auto simp: ledger_open_append_def and_then_def split: prod.splits sum.splits option.splits dest!: ledger_io_frame)

lemma ledger_replace_file:
  assumes "ledger_replace bs d = (r, d')"
  shows "dk_file d' = Some bs \<or> (\<exists>e. r = Inl e) \<and> dk_file d' = dk_file d"
  using assms
  by (auto simp: ledger_replace_def and_then_def Let_def split: prod.splits sum.splits dest!: ledger_io_frame)

lemma ledger_write_file:
  assumes "ledger_write f bs d = (r, d')" "dk_file d = Some old" "f = dk_inode d"
  shows "dk_inode d' = dk_inode d \<and> (dk_file d' = Some (old @ bs) \<or> (\<exists>e n. r = Inl e \<and> n < length bs \<and> dk_file d' = Some (old @ take n bs)))"
proof (cases "next_io d")
  case (Pair o1 d1)
  then have d1: "dk_file d1 = Some old" "dk_inode d1 = dk_inode d" using assms(2) next_io_file [of d] by auto
  show ?thesis
  proof (cases o1)
    case IoOk
    have "dk_file (append_bytes f bs d1) = Some (old @ bs)" using d1 assms(3) by (simp add: append_bytes_def)
    then show ?thesis using assms(1) Pair IoOk d1
      by (auto simp: ledger_write_def and_then_def split: prod.splits sum.splits dest!: ledger_io_frame)
  next
    case (IoErr n)
    then have "r = Inl LeOther" "d' = append_bytes f (take n bs) d1" using assms(1) Pair by (auto simp: ledger_write_def)
    then have "dk_file d' = Some (old @ take n bs)" "dk_inode d' = dk_inode d" using d1 assms(3) by (auto simp: append_bytes_def)
    then show ?thesis using \<open>r = Inl LeOther\<close> by (cases "n < length bs") auto
  qed
qed

section \<open>Writing\<close>

lemma stored_log:
  assumes "faithful_codec C" "admissible (lk_value_len C) m" "dk_file d = Some bs" "log_file C bs m j" "jn_format j = 2"
  shows "ledger_stored C d (Some m)"
proof -
  have "\<exists>j. jn_format j = 2 \<and> log_file C bs m j" using assms(4,5) by blast
  then show ?thesis using assms(1-3) by (simp add: ledger_stored_def)
qed

lemma checkpoint_result:
  assumes "writer_ok C w m" "distinct (map de_id des)" "admissible (lk_value_len C) (entries_map des)"
    "ledger_checkpoint C des w = (r, w')"
  shows "case r of Inr _ \<Rightarrow> writer_ok C w' (entries_map des)
         | Inl _ \<Rightarrow> ledger_stored C (wr_disk w') (Some m) \<or> ledger_stored C (wr_disk w') (Some (entries_map des))"
proof -
  have st: "ledger_stored C (wr_disk w) (Some m)" and C: "faithful_codec C"
    using assms(1) by (auto simp: writer_ok_def ledger_stored_def)
  show ?thesis
  proof (cases "\<exists>sha bs. checksum C (lk_snapshot_json C \<lparr>sn_schema = 2, sn_entries = des\<rparr>) = Inr sha \<and>
      lk_enc_header C \<lparr>lh_schema = 2, lh_entries = des, lh_sha = sha\<rparr> = Some bs")
    case False
    then have "w' = w \<and> (\<exists>e. r = Inl e)" using assms(4) by (auto simp: ledger_checkpoint_def split: sum.splits option.splits)
    then show ?thesis using st by auto
  next
    case True
    then obtain sha bs where e: "checksum C (lk_snapshot_json C \<lparr>sn_schema = 2, sn_entries = des\<rparr>) = Inr sha"
      "lk_enc_header C \<lparr>lh_schema = 2, lh_entries = des, lh_sha = sha\<rparr> = Some bs" by blast
    let ?j = "\<lambda>f. \<lparr>jn_file = f, jn_format = 2, jn_sequence = 0, jn_sha = sha, jn_appended = 0\<rparr>"
    have log: "log_file C (bs @ [newline]) (entries_map des) (?j f)" for f
      by (rule checkpoint_log [OF C assms(2,3) e]) simp_all
    have new: "ledger_stored C d (Some (entries_map des))" if "dk_file d = Some (bs @ [newline])" for d
      by (rule stored_log [OF C assms(3) that log [of None]]) simp
    obtain r1 d1 where r1: "ledger_replace (bs @ [newline]) (wr_disk w) = (r1, d1)" by fastforce
    from ledger_replace_file [OF r1] have f1: "dk_file d1 = Some (bs @ [newline]) \<or> (\<exists>e. r1 = Inl e) \<and> dk_file d1 = dk_file (wr_disk w)" .
    show ?thesis
    proof (cases r1)
      case (Inl err)
      then have "r = Inl err" "wr_disk w' = d1" using assms(4) e r1 by (auto simp: ledger_checkpoint_def)
      then show ?thesis using f1 new [of d1] st ledger_stored_cong [of d1 "wr_disk w" C] by auto
    next
      case (Inr u)
      then have d1: "dk_file d1 = Some (bs @ [newline])" using f1 by auto
      obtain r2 d2 where r2: "ledger_open_append d1 = (r2, d2)" by fastforce
      note fr = ledger_open_append_frame [OF r2]
      show ?thesis
      proof (cases r2)
        case (Inl err)
        then have "r = Inl err" "wr_disk w' = d2" using assms(4) e r1 Inr r2 by (auto simp: ledger_checkpoint_def)
        then show ?thesis using fr d1 new [of d2] by auto
      next
        case (Inr f)
        then have "r = Inr ()" "w' = \<lparr>wr_journal = ?j (Some f), wr_disk = d2\<rparr>"
          using assms(4) e r1 \<open>r1 = Inr u\<close> r2 by (auto simp: ledger_checkpoint_def)
        then show ?thesis using fr d1 new [of d2] log Inr by (simp add: writer_ok_def)
      qed
    qed
  qed
qed

text \<open>A change that cannot be encoded, or is longer than a line, leaves everything as it is.\<close>

lemma ledger_append_cases:
  assumes "ledger_append C us rs w = (r, w')" "jn_file (wr_journal w) = Some f" "jn_sequence (wr_journal w) \<noteq> - 1"
  obtains (refused) e where "w' = w" "r = Inl e"
  | (written) c sha body r1 d1 where
      "c = \<lparr>lc_sequence = jn_sequence (wr_journal w) + 1, lc_previous_sha = jn_sha (wr_journal w), lc_updates = us, lc_removes = rs\<rparr>"
      "checksum C (lk_change_json C c) = Inr sha"
      "lk_enc_record C \<lparr>lr_schema = 2, lr_change = c, lr_sha = sha\<rparr> = Some body"
      "length (body @ [newline]) \<le> MAX_LINE_BYTES"
      "ledger_write f (body @ [newline]) (wr_disk w) = (r1, d1)"
      "r = r1" "wr_disk w' = d1"
      "r1 = Inr () \<longrightarrow> wr_journal w' = (wr_journal w)\<lparr>jn_sequence := jn_sequence (wr_journal w) + 1, jn_sha := sha,
         jn_appended := jn_appended (wr_journal w) + length (body @ [newline])\<rparr>"
proof -
  let ?j = "wr_journal w"
  let ?c = "\<lparr>lc_sequence = jn_sequence ?j + 1, lc_previous_sha = jn_sha ?j, lc_updates = us, lc_removes = rs\<rparr>"
  have sq: "checked_succ (jn_sequence ?j) = Some (jn_sequence ?j + 1)" using assms(3) by (simp add: checked_succ_def)
  show thesis
  proof (cases "\<exists>sha body. checksum C (lk_change_json C ?c) = Inr sha \<and>
      lk_enc_record C \<lparr>lr_schema = 2, lr_change = ?c, lr_sha = sha\<rparr> = Some body \<and> length (body @ [newline]) \<le> MAX_LINE_BYTES")
    case False
    then have "w' = w \<and> (\<exists>e. r = Inl e)"
      using assms(1) sq by (auto simp: ledger_append_def Let_def split: sum.splits option.splits if_splits)
    then show thesis using refused by blast
  next
    case True
    then obtain sha body where e: "checksum C (lk_change_json C ?c) = Inr sha"
      "lk_enc_record C \<lparr>lr_schema = 2, lr_change = ?c, lr_sha = sha\<rparr> = Some body" "length (body @ [newline]) \<le> MAX_LINE_BYTES" by blast
    obtain r1 d1 where r1: "ledger_write f (body @ [newline]) (wr_disk w) = (r1, d1)" by fastforce
    have "r = r1 \<and> wr_disk w' = d1 \<and> (r1 = Inr () \<longrightarrow> wr_journal w' = ?j\<lparr>jn_sequence := jn_sequence ?j + 1, jn_sha := sha,
         jn_appended := jn_appended ?j + length (body @ [newline])\<rparr>)"
      using assms(1,2) sq e r1 by (cases r1) (auto simp: ledger_append_def Let_def)
    then show thesis using written [OF refl e r1] by blast
  qed
qed

lemma append_result:
  assumes ok: "writer_ok C w m" and nc: "\<not> needs_checkpoint (wr_journal w)" and pc: "proper_change us rs m"
    and adm: "admissible (lk_value_len C) (changed_map us rs m)" and app: "ledger_append C us rs w = (r, w')"
  shows "case r of Inr _ \<Rightarrow> writer_ok C w' (changed_map us rs m)
         | Inl _ \<Rightarrow> ledger_stored C (wr_disk w') None \<or> ledger_stored C (wr_disk w') (Some m) \<or>
                   ledger_stored C (wr_disk w') (Some (changed_map us rs m))"
proof -
  let ?j = "wr_journal w"
  have fmt: "jn_format ?j = 2" and sq: "jn_sequence ?j \<noteq> - 1" using nc small_sequence(1) by (auto simp: needs_checkpoint_def)
  obtain bs where w: "jn_file ?j = Some (dk_inode (wr_disk w))" "dk_file (wr_disk w) = Some bs" "log_file C bs m ?j"
    and st: "ledger_stored C (wr_disk w) (Some m)" and C: "faithful_codec C"
    using ok fmt by (auto simp: writer_ok_def ledger_stored_def)
  show ?thesis using app w(1) sq
  proof (cases rule: ledger_append_cases)
    case refused
    then show ?thesis using st by simp
  next
    case (written c sha body r1 d1)
    let ?l = "body @ [newline]"
    let ?j' = "?j\<lparr>jn_sequence := jn_sequence ?j + 1, jn_sha := sha, jn_appended := jn_appended ?j + length ?l\<rparr>"
    have log: "log_file C (bs @ ?l) (changed_map us rs m) ?j'"
      by (rule append_log [OF C w(3) nc pc adm written(1-3) refl written(4) refl])
    have new: "ledger_stored C d1 (Some (changed_map us rs m))" if "dk_file d1 = Some (bs @ ?l)"
      by (rule stored_log [OF C adm that log]) (simp add: fmt)
    have torn: "ledger_stored C d1 None \<or> ledger_stored C d1 (Some m)" if "n < length ?l" "dk_file d1 = Some (bs @ take n ?l)" for n
    proof (cases "n = 0")
      case True
      then show ?thesis using that st ledger_stored_cong [of d1 "wr_disk w" C] w(2) by simp
    next
      case False
      have nl: "newline \<notin> set (take n ?l)" using that(1) C written(3) by (auto simp: faithful_codec_def dest: in_set_takeD)
      have len: "length (take n ?l) \<le> MAX_LINE_BYTES" using written(4) by simp
      have "load_reader C now \<lparr>rd_bytes = bs @ take n ?l, rd_fault = False\<rparr> = Inl LeInvalidData" for now
        by (rule log_file_torn [OF w(3) nl len]) (use False in simp)
      then show ?thesis using that(2) C unfolding ledger_stored_def by simp
    qed
    show ?thesis
    proof (cases r)
      case (Inl e)
      then show ?thesis using ledger_write_file [OF written(5) w(2) refl] new torn written(6,7) by auto
    next
      case (Inr u)
      then have "dk_inode d1 = dk_inode (wr_disk w)" "dk_file d1 = Some (bs @ ?l)"
        using ledger_write_file [OF written(5) w(2) refl] written(6) by auto
      then show ?thesis using Inr written(6-8) new log w(1) by (simp add: writer_ok_def)
    qed
  qed
qed

section \<open>Opening\<close>

text \<open>A read that fails half-way through a sound file is an error, never an empty or a damaged ledger.\<close>

lemma read_faulty_tail:
  assumes "newline \<notin> set t" "length t \<le> MAX_LINE_BYTES"
  shows "load_reader C now \<lparr>rd_bytes = t, rd_fault = True\<rparr> = Inl LeOther"
proof -
  have "read_until (Suc MAX_LINE_BYTES) t = (t, [])" using assms read_until_no_newline by simp
  then have "read_jsonl_line MAX_LINE_BYTES \<lparr>rd_bytes = t, rd_fault = True\<rparr> = Inl ReadFault"
    using assms max_line_u64 by (simp add: read_jsonl_line_def Let_def)
  then show ?thesis by (simp add: load_reader_def)
qed

text \<open>The tail of a cut sequence of lines is part of one of them.\<close>

lemma take_tail_length:
  "list_all is_line ls \<Longrightarrow> take n (concat ls) = concat (take (whole_lines n ls) ls) @ t \<Longrightarrow>
   t = [] \<or> (\<exists>l \<in> set ls. length t \<le> length l)"
proof (induction n ls rule: whole_lines.induct)
  case (2 n l ls)
  then show ?case by (cases "length l \<le> n") auto
qed simp

lemma log_file_fault:
  assumes "log_file C bs m j"
  shows "load_reader C now \<lparr>rd_bytes = take n bs, rd_fault = True\<rparr> = Inl LeOther"
proof -
  from log_fileE [OF assms, of now] obtain hdr hl ls h d where f: "bs = concat (hl # ls)" "lk_dec_header C hl = Some hdr"
    "list_all (\<lambda>l. is_line l \<and> length l \<le> MAX_LINE_BYTES) (hl # ls)"
    "scan_lines (v2_ledger C now) v2_options scan_start (v2_start hdr) (hl # ls) = Inr (Continue, h, d)" by blast
  let ?k = "whole_lines n (hl # ls)" and ?D = "v2_ledger C now"
  have lines: "list_all is_line (hl # ls)" using f(3) by (auto simp: list_all_iff)
  from take_whole_lines [OF lines, of n] obtain t where t: "take n bs = concat (take ?k (hl # ls)) @ t" "newline \<notin> set t"
    using f(1) by auto
  have len: "length t \<le> MAX_LINE_BYTES"
    using take_tail_length [OF lines, of n t] t f(1,3) by (auto simp: list_all_iff)
  show ?thesis
  proof (cases ?k)
    case 0
    then show ?thesis using t read_faulty_tail [OF t(2) len] by simp
  next
    case (Suc k)
    have l: "is_line hl" "length hl \<le> MAX_LINE_BYTES" using f(3) by auto
    have sub: "list_all (\<lambda>l. is_line l \<and> length l \<le> max_line_bytes v2_options) (take ?k (hl # ls))"
      using f(3) by (auto simp: list_all_iff v2_options_def dest: in_set_takeD)
    from scan_lines_take [OF f(4), of ?k] obtain h1 d1 where
      "scan_lines ?D v2_options scan_start (v2_start hdr) (take ?k (hl # ls)) = Inr (Continue, h1, d1)" by blast
    from scan_faulty_prefix [OF sub _ this t(2)] have
      "scan ?D v2_options scan_start (v2_start hdr) None \<lparr>rd_bytes = take n bs, rd_fault = True\<rparr> = Inl ReadFault"
      using t(1) len max_line_u64 by (simp add: v2_options_def)
    moreover have "take n bs = hl @ (concat (take k ls) @ t)" using t(1) Suc by simp
    ultimately show ?thesis using load_reader_complete [OF l f(2), of now "concat (take k ls) @ t" True] by simp
  qed
qed

lemma snapshot_load:
  assumes "newline \<notin> set bs" "length bs \<le> MAX_LINE_BYTES" "lk_dec_header C bs = None"
    "lk_dec_snapshot C bs = Some \<lparr>sn_schema = 1, sn_entries = des\<rparr>"
  shows "\<exists>h. load_reader C now \<lparr>rd_bytes = bs, rd_fault = False\<rparr> =
     Inr \<lparr>lo_health = h, lo_entries = des, lo_format = 1, lo_sequence = 0, lo_sha = zero_sha, lo_appended = 0\<rparr>"
proof -
  have "length bs \<le> u64_max" using assms(2) max_line_u64 by simp
  from read_jsonl_line_tail [OF assms(1,2) this] assms show ?thesis
    by (cases "bs = []") (simp_all add: load_reader_def load_v1_def Let_def)
qed

lemma alist_entries:
  assumes "distinct (map fst al)" "\<And>pk de. map_of al pk = Some de \<Longrightarrow> de_id de = pk"
  shows "map de_id (map snd al) = map fst al" "entries_map (map snd al) = map_of al"
proof -
  have id: "de_id (snd x) = fst x" if "x \<in> set al" for x using assms that by (metis map_of_is_SomeI prod.collapse)
  then show "map de_id (map snd al) = map fst al" by simp
  have "map (\<lambda>de. (de_id de, de)) (map snd al) = al" using id by (simp add: map_idI)
  then show "entries_map (map snd al) = map_of al" by (simp add: entries_map_def)
qed

text \<open>What is loaded from a disk that holds a map, and the writer that agrees with it.\<close>

definition loaded_journal :: "ledger_loaded \<Rightarrow> ledger_journal" where
  "loaded_journal l =
     \<lparr>jn_file = None, jn_format = lo_format l, jn_sequence = lo_sequence l, jn_sha = lo_sha l, jn_appended = lo_appended l\<rparr>"

definition loaded_ok :: "ledger_codec \<Rightarrow> bytes \<Rightarrow> ledger_map \<Rightarrow> ledger_loaded \<Rightarrow> bool" where
  "loaded_ok C bs m l \<longleftrightarrow>
     distinct (map de_id (lo_entries l)) \<and> entries_map (lo_entries l) = m \<and>
     (lo_format l = 2 \<longrightarrow> log_file C bs m (loaded_journal l))"

lemma load_reader_stored:
  assumes "ledger_stored C d (Some m)" "dk_file d = Some bs"
  shows "\<exists>l. load_reader C now \<lparr>rd_bytes = bs, rd_fault = False\<rparr> = Inr l \<and> loaded_ok C bs m l"
    and "load_reader C now \<lparr>rd_bytes = take n bs, rd_fault = True\<rparr> = Inl LeOther"
proof -
  have ids: "m pk = Some de \<Longrightarrow> de_id de = pk" for pk de
    using assms(1) by (auto simp: ledger_stored_def dest: admissible_entry)
  from assms consider (log) j where "jn_format j = 2" "log_file C bs m j" | (snap) "snapshot_file C bs m"
    by (auto simp: ledger_stored_def)
  then have "(\<exists>l. load_reader C now \<lparr>rd_bytes = bs, rd_fault = False\<rparr> = Inr l \<and> loaded_ok C bs m l) \<and>
     load_reader C now \<lparr>rd_bytes = take n bs, rd_fault = True\<rparr> = Inl LeOther"
  proof cases
    case log
    from log_file_load [OF log(2), of now] obtain h d where s: "sound_scan h d m j"
      and l: "load_reader C now \<lparr>rd_bytes = bs, rd_fault = False\<rparr> =
        Inr \<lparr>lo_health = h, lo_entries = map snd (vd_entries d), lo_format = 2,
            lo_sequence = jn_sequence j, lo_sha = jn_sha j, lo_appended = jn_appended j\<rparr>" (is "_ = Inr ?l") by blast
    have "log_file C bs m (loaded_journal ?l)" by (rule log_file_journal [OF log(2)]) (simp_all add: loaded_journal_def)
    moreover have sd: "distinct (map fst (vd_entries d))" "map_of (vd_entries d) = m" using s by (auto simp: sound_scan_def)
    note al = alist_entries [OF sd(1)]
    have "map de_id (map snd (vd_entries d)) = map fst (vd_entries d)" "entries_map (map snd (vd_entries d)) = m"
      by (rule al(1), simp add: sd(2) ids) (subst al(2), simp_all add: sd(2) ids)
    with sd(1) have "distinct (map de_id (map snd (vd_entries d)))" "entries_map (map snd (vd_entries d)) = m" by (simp_all only:)
    ultimately have "loaded_ok C bs m ?l" by (simp add: loaded_ok_def)
    with l show ?thesis using log_file_fault [OF log(2)] by blast
  next
    case snap
    then obtain des where s: "newline \<notin> set bs" "length bs \<le> MAX_LINE_BYTES" "lk_dec_header C bs = None"
      "lk_dec_snapshot C bs = Some \<lparr>sn_schema = 1, sn_entries = des\<rparr>" "distinct (map de_id des)" "entries_map des = m"
      by (auto simp: snapshot_file_def)
    have "newline \<notin> set (take n bs)" "length (take n bs) \<le> MAX_LINE_BYTES" using s(1,2) by (auto dest: in_set_takeD)
    from read_faulty_tail [OF this] snapshot_load [OF s(1-4), of now] s(5,6) show ?thesis by (auto simp: loaded_ok_def)
  qed
  then show "\<exists>l. load_reader C now \<lparr>rd_bytes = bs, rd_fault = False\<rparr> = Inr l \<and> loaded_ok C bs m l"
    and "load_reader C now \<lparr>rd_bytes = take n bs, rd_fault = True\<rparr> = Inl LeOther" by blast+
qed

lemma ledger_load_cases:
  assumes "ledger_load C now d = (r, d')"
  obtains (failed) "r = Inl LeOther"
  | (missing) "dk_file d = None" "r = Inr None"
  | (loaded) bs where "dk_file d = Some bs" "r = map_sum id Some (load_reader C now \<lparr>rd_bytes = bs, rd_fault = False\<rparr>)"
  | (faulty) bs n where "dk_file d = Some bs" "r = map_sum id Some (load_reader C now \<lparr>rd_bytes = take n bs, rd_fault = True\<rparr>)"
proof -
  obtain r1 d1 where r1: "ledger_io d = (r1, d1)" by fastforce
  note f = ledger_io_frame [OF r1]
  show thesis
  proof (cases r1)
    case (Inl e)
    then have "r1 = Inl LeOther" using r1 by (auto simp: ledger_io_def split: prod.splits io_outcome.splits)
    then show thesis using assms r1 failed by (simp add: ledger_load_def)
  next
    case (Inr u)
    obtain o1 d2 where o: "next_io d1 = (o1, d2)" by fastforce
    show thesis
    proof (cases "dk_file d")
      case None
      then show thesis using assms r1 Inr f missing by (simp add: ledger_load_def)
    next
      case (Some bs)
      then show thesis using assms r1 Inr f o loaded [OF Some] faulty [OF Some] by (cases o1) (auto simp: ledger_load_def)
    qed
  qed
qed

lemma ledger_load_stored:
  assumes "ledger_stored C d (Some m)" "ledger_load C now d = (r, d')"
  shows "r = Inl LeOther \<or> r = Inr None \<and> dk_file d = None \<and> m = Map.empty \<or>
     (\<exists>bs l. r = Inr (Some l) \<and> dk_file d = Some bs \<and> loaded_ok C bs m l)"
  using assms(2)
proof (cases rule: ledger_load_cases)
  case missing
  then show ?thesis using assms(1) by (simp add: ledger_stored_def)
next
  case (loaded bs)
  then show ?thesis using load_reader_stored(1) [OF assms(1) loaded(1), of now] by auto
next
  case (faulty bs n)
  then show ?thesis using load_reader_stored(2) [OF assms(1) faulty(1), of now n] by auto
qed simp

lemma ledger_load_refused:
  assumes "ledger_stored C d None" "ledger_load C now d = (r, d')"
  shows "\<exists>e. r = Inl e"
  using assms(2)
proof (cases rule: ledger_load_cases)
  case (faulty bs n)
  then show ?thesis using load_reader_fault [of "\<lparr>rd_bytes = take n bs, rd_fault = True\<rparr>" C now]
    by (cases "load_reader C now \<lparr>rd_bytes = take n bs, rd_fault = True\<rparr>") auto
qed (use assms(1) in \<open>auto simp: ledger_stored_def\<close>)

section \<open>The file ledger keeps the contract\<close>

lemma opened_journal_result:
  assumes "opened_journal C now loaded d = (r, d')"
  shows "dk_file d' = dk_file d \<and> dk_inode d' = dk_inode d \<and>
    (\<forall>j v. r = Inr (j, v) \<longrightarrow>
       v = map_sum id (\<lambda>_. case loaded of None \<Rightarrow> [] | Some l \<Rightarrow> lo_entries l)
             (ledger_validate C now (case loaded of None \<Rightarrow> [] | Some l \<Rightarrow> lo_entries l)) \<and>
       j = (case loaded of None \<Rightarrow> fresh_journal
            | Some l \<Rightarrow> if lo_format l = 2 then (loaded_journal l)\<lparr>jn_file := Some (dk_inode d)\<rparr> else loaded_journal l))"
  using assms
  by (cases loaded)
     (auto simp: opened_journal_def Let_def loaded_journal_def fresh_journal_def and_then_def
        split: if_splits prod.splits sum.splits dest!: ledger_open_append_frame)

lemma persistence_open_cases:
  assumes "persistence_open C held now d = (r, d')"
  obtains (failed) e where "r = Inl e" "dk_file d' = dk_file d" "dk_inode d' = dk_inode d"
  | (opened) d1 loaded d2 where "dk_file d1 = dk_file d" "dk_inode d1 = dk_inode d" "ledger_load C now d1 = (Inr loaded, d2)"
      "opened_journal C now loaded d2 = (r, d')"
  | (damaged) d1 where "dk_file d1 = dk_file d" "ledger_load C now d1 = (Inl LeInvalidData, d')"
      "r = Inr (fresh_journal, Inl ''unreadableLedger'')"
proof -
  obtain r1 d1 where r1: "ledger_io d = (r1, d1)" by fastforce
  obtain r2 d2 where r2: "ledger_lock held d1 = (r2, d2)" by fastforce
  obtain r3 d3 where r3: "ledger_load C now d2 = (r3, d3)" by fastforce
  note f = ledger_io_frame [OF r1] ledger_lock_frame [OF r2] ledger_load_frame [OF r3]
  show thesis
  proof (cases "(\<exists>e. r1 = Inl e) \<or> (\<exists>e. r2 = Inl e)")
    case True
    then show thesis using assms r1 r2 f failed by (cases r1; cases r2) (auto simp: persistence_open_def)
  next
    case False
    then obtain u1 u2 where "r1 = Inr u1" "r2 = Inr u2" by (metis sum.exhaust)
    then show thesis using assms r1 r2 r3 f failed opened [of d2 _ d3] damaged [of d2]
      by (cases r3) (auto simp: persistence_open_def split: ledger_error.splits)
  qed
qed

lemma open_sound:
  assumes "ledger_stored C d (Some m)" "ledger_open C held now d = Inr (w, r)"
  shows "\<exists>des. r = Inr des \<and> distinct (map de_id des) \<and> entries_map des = m \<and> writer_ok C w m"
proof -
  obtain j d' where p: "persistence_open C held now d = (Inr (j, r), d')" "w = \<lparr>wr_journal = j, wr_disk = d'\<rparr>"
    using assms(2) by (auto simp: ledger_open_def split: prod.splits sum.splits)
  have adm: "admissible (lk_value_len C) m" using assms(1) by (simp add: ledger_stored_def)
  show ?thesis using p(1)
  proof (cases rule: persistence_open_cases)
    case (opened d1 loaded d2)
    have st1: "ledger_stored C d1 (Some m)" using ledger_stored_cong [OF opened(1)] assms(1) by simp
    note f = ledger_load_frame [OF opened(3)] opened_journal_result [OF opened(4)]
    have fl: "dk_file d' = dk_file d" "dk_inode d' = dk_inode d2" using f opened(1) by simp_all
    have st: "ledger_stored C d' (Some m)" using ledger_stored_cong [OF fl(1)] assms(1) by simp
    from ledger_load_stored [OF st1 opened(3)] consider (none) "loaded = None" "m = Map.empty"
      | (some) bs l where "loaded = Some l" "dk_file d1 = Some bs" "loaded_ok C bs m l" by auto
    then show ?thesis
    proof cases
      case none
      then have "r = Inr []" "jn_format j \<noteq> 2" using f(2) by (auto simp: ledger_validate_def fresh_journal_def)
      then show ?thesis using none st p(2) by (simp add: writer_ok_def entries_map_def)
    next
      case some
      then have v: "ledger_validate C now (lo_entries l) = Inr ()" using adm by (intro validate_ok) (auto simp: loaded_ok_def)
      have "r = Inr (lo_entries l)" using f(2) some(1) v by simp
      moreover have "writer_ok C w m"
        using f(2) some st p(2) fl opened(1) log_file_journal [of C bs m "loaded_journal l" j]
        by (auto simp: writer_ok_def loaded_ok_def loaded_journal_def split: if_splits)
      ultimately show ?thesis using some(3) by (auto simp: loaded_ok_def)
    qed
  next
    case (damaged d1)
    have st1: "ledger_stored C d1 (Some m)" using ledger_stored_cong [OF damaged(1)] assms(1) by simp
    from ledger_load_stored [OF st1 damaged(2)] show ?thesis by simp
  qed simp
qed

lemma open_refused_sound:
  assumes "ledger_stored C d None" "ledger_open C held now d = Inr (w, r)"
  shows "(\<exists>issue. r = Inl issue) \<and> ledger_stored C (wr_disk w) None"
proof -
  obtain j d' where p: "persistence_open C held now d = (Inr (j, r), d')" "w = \<lparr>wr_journal = j, wr_disk = d'\<rparr>"
    using assms(2) by (auto simp: ledger_open_def split: prod.splits sum.splits)
  show ?thesis using p(1)
  proof (cases rule: persistence_open_cases)
    case (opened d1 loaded d2)
    have "ledger_stored C d1 None" using ledger_stored_cong [OF opened(1)] assms(1) by simp
    from ledger_load_refused [OF this opened(3)] show ?thesis by simp
  next
    case (damaged d1)
    then have "dk_file d' = dk_file d" using ledger_load_frame [OF damaged(2)] by simp
    then have "ledger_stored C d' None" using ledger_stored_cong [of d' d C None] assms(1) by simp
    then show ?thesis using damaged(3) p(2) by simp
  qed simp
qed

lemma open_failed_sound:
  assumes "ledger_stored C d i" "ledger_open C held now d = Inl (e, d')"
  shows "ledger_stored C d' i"
proof -
  obtain e where p: "persistence_open C held now d = (Inl e, d')"
    using assms(2) by (auto simp: ledger_open_def split: prod.splits sum.splits)
  then have "dk_file d' = dk_file d"
  proof (cases rule: persistence_open_cases)
    case (opened d1 loaded d2)
    then show ?thesis using ledger_load_frame [OF opened(3)] opened_journal_result [OF opened(4)] by simp
  qed simp_all
  then show ?thesis using ledger_stored_cong [of d' d C i] assms(1) by simp
qed

interpretation file_log: change_log "file_ledger C" "lk_value_len C" "writer_ok C" "ledger_stored C" for C
proof unfold_locales
  show "writer_ok C w m \<Longrightarrow> ledger_stored C (lw_disk (file_ledger C) w) (Some m)"
    and "writer_ok C w m \<Longrightarrow> admissible (lk_value_len C) m" for w m
    by (simp_all add: file_ledger_def writer_ok_def ledger_stored_def)
  show "writer_ok C w m \<Longrightarrow> distinct (map de_id des) \<Longrightarrow> admissible (lk_value_len C) (entries_map des) \<Longrightarrow>
      lw_checkpoint (file_ledger C) des w = (Inr u, w') \<Longrightarrow> writer_ok C w' (entries_map des)"
    and "writer_ok C w m \<Longrightarrow> distinct (map de_id des) \<Longrightarrow> admissible (lk_value_len C) (entries_map des) \<Longrightarrow>
      lw_checkpoint (file_ledger C) des w = (Inl e, w') \<Longrightarrow>
      ledger_stored C (lw_disk (file_ledger C) w') (Some m) \<or> ledger_stored C (lw_disk (file_ledger C) w') (Some (entries_map des))"
    for w m des u e w' using checkpoint_result [of C w m des _ w'] by (fastforce simp: file_ledger_def)+
  show "writer_ok C w m \<Longrightarrow> \<not> lw_needs_checkpoint (file_ledger C) w \<Longrightarrow> proper_change us rs m \<Longrightarrow>
      admissible (lk_value_len C) (changed_map us rs m) \<Longrightarrow>
      lw_append (file_ledger C) us rs w = (Inr u, w') \<Longrightarrow> writer_ok C w' (changed_map us rs m)"
    and "writer_ok C w m \<Longrightarrow> \<not> lw_needs_checkpoint (file_ledger C) w \<Longrightarrow> proper_change us rs m \<Longrightarrow>
      admissible (lk_value_len C) (changed_map us rs m) \<Longrightarrow> lw_append (file_ledger C) us rs w = (Inl e, w') \<Longrightarrow>
      ledger_stored C (lw_disk (file_ledger C) w') None \<or> ledger_stored C (lw_disk (file_ledger C) w') (Some m) \<or>
      ledger_stored C (lw_disk (file_ledger C) w') (Some (changed_map us rs m))"
    for w m us rs u e w' using append_result [of C w m us rs _ w'] by (fastforce simp: file_ledger_def)+
  show "ledger_stored C d (Some m) \<Longrightarrow> lw_open (file_ledger C) held now d = Inr (w, r) \<Longrightarrow>
      \<exists>des. r = Inr des \<and> distinct (map de_id des) \<and> entries_map des = m \<and> writer_ok C w m" for d m held now w r
    using open_sound by (simp add: file_ledger_def)
  show "ledger_stored C d None \<Longrightarrow> lw_open (file_ledger C) held now d = Inr (w, r) \<Longrightarrow>
      (\<exists>issue. r = Inl issue) \<and> ledger_stored C (lw_disk (file_ledger C) w) None" for d held now w r
    using open_refused_sound by (simp add: file_ledger_def)
  show "ledger_stored C d i \<Longrightarrow> lw_open (file_ledger C) held now d = Inl (e, d') \<Longrightarrow> ledger_stored C d' i" for d i held now e d'
    using open_failed_sound by (simp add: file_ledger_def)
qed

end
