(* ===== verification/Idempotency_Run.thy ===== *)
theory Idempotency_Run
  imports Idempotency_Invariant Idempotency_Log
begin

text \<open>
  The idempotency store in a running program: opening, calls of \<open>reserve\<close> from many tasks, permits given
  back or lost, crashes and restarts as a step relation whose every step keeps the invariant; the
  exits of the eviction loops, the downgrade of the ledger, and the interpretation of the store's
  contract on the file ledger.
\<close>

section \<open>Runs\<close>

text \<open>The program around a store: it opens the store, calls \<open>reserve\<close> from any number of tasks, gives permits
  back, loses them, and stops at any point. A stop in the middle of a write is a write that fails,
  followed by the stop. The other components are what the proofs remember: the permits that are out,
  the pins, the outcomes finished, and the program counters of the calls so far.\<close>

datatype ('o, 'w, 'd) idem_system = Down 'd | Up "('o, 'w) idempotency_store"

record ('o, 'w, 'd) idem_world =
  iw_system :: "('o, 'w, 'd) idem_system"
  iw_live :: "idem_permit set"
  iw_pins :: "(ledger_key \<times> 'o pin) set"
  iw_done :: "(command_ref \<times> 'o) set"
  iw_calls :: "(idem_request \<times> 'o reserve_pc) set"

definition idem_start :: "('o, 'w, 'd) idem_system \<Rightarrow> ('o, 'w, 'd) idem_world" where
  "idem_start sys = \<lparr>iw_system = sys, iw_live = {}, iw_pins = {}, iw_done = {}, iw_calls = {}\<rparr>"

fun reserve_done :: "'o reserve_pc \<Rightarrow> bool" where
  "reserve_done (RpDone _) = True"
| "reserve_done _ = False"

fun granted :: "'o reserve_pc \<Rightarrow> idem_permit set" where
  "granted (RpDone (Inr (Acquired pm))) = {pm}"
| "granted _ = {}"

definition lost_pins :: "idem_permit set \<Rightarrow> (ledger_key \<times> 'o pin) set" where
  "lost_pins pms = (\<lambda>pm. (pm_id pm, PinUnresolved)) ` {pm \<in> pms. pm_durable pm}"

text \<open>\<open>finish\<close> on a store that must not be written drops the permit.\<close>

definition finish_pins ::
  "('o, 'w, 'd) idem_env \<Rightarrow> idem_permit \<Rightarrow> 'o \<Rightarrow> ('o, 'w) idempotency_store \<Rightarrow> interface_error + unit \<Rightarrow> (ledger_key \<times> 'o pin) set" where
  "finish_pins Env pm outcome st r =
     (if integrity_issue st \<noteq> None then lost_pins {pm} else case r of Inr _ \<Rightarrow> kept_pins Env pm outcome | Inl _ \<Rightarrow> {})"

definition finish_done :: "idem_permit \<Rightarrow> 'o \<Rightarrow> interface_error + unit \<Rightarrow> (command_ref \<times> 'o) set" where
  "finish_done pm outcome r = (case r of Inr _ \<Rightarrow> {(pm_ref pm, outcome)} | Inl _ \<Rightarrow> {})"

inductive idem_step ::
  "('o, 'w, 'd) idem_env \<Rightarrow> ('o, 'w, 'd) idem_world \<Rightarrow> ('o, 'w, 'd) idem_world \<Rightarrow> bool" for Env where
  step_open:
    "iw_system W = Down d \<Longrightarrow> open_durable Env held t now d = Inr st \<Longrightarrow>
     idem_step Env W (W\<lparr>iw_system := Up st, iw_done := iw_done W \<union> retained_of (id_state st)\<rparr>)"
| step_open_fails:
    "iw_system W = Down d \<Longrightarrow> open_durable Env held t now d = Inl (e, d') \<Longrightarrow>
     idem_step Env W (W\<lparr>iw_system := Down d'\<rparr>)"
| step_crash:
    "iw_system W = Up st \<Longrightarrow> id_durable st = Some w \<Longrightarrow>
     idem_step Env W
       (W\<lparr>iw_system := Down (lw_disk (ev_ledger Env) w), iw_live := {}, iw_pins := iw_pins W \<union> lost_pins (iw_live W),
          iw_calls := {}\<rparr>)"
| step_call:
    "iw_system W = Up st \<Longrightarrow> idem_step Env W (W\<lparr>iw_calls := insert (rq, RpStart now) (iw_calls W)\<rparr>)"
| step_reserve:
    "iw_system W = Up st \<Longrightarrow> (rq, pc) \<in> iw_calls W \<Longrightarrow> \<not> reserve_done pc \<Longrightarrow> reserve_step Env rq timer pc st = (pc', st') \<Longrightarrow>
     idem_step Env W
       (W\<lparr>iw_system := Up st', iw_live := iw_live W \<union> granted pc', iw_calls := insert (rq, pc') (iw_calls W)\<rparr>)"
| step_finish:
    "iw_system W = Up st \<Longrightarrow> pm \<in> iw_live W \<Longrightarrow> idem_finish Env pm outcome now st = (r, st') \<Longrightarrow>
     idem_step Env W
       (W\<lparr>iw_system := Up st', iw_live := iw_live W - {pm}, iw_pins := iw_pins W \<union> finish_pins Env pm outcome st r,
          iw_done := iw_done W \<union> finish_done pm outcome r\<rparr>)"
| step_abandon:
    "iw_system W = Up st \<Longrightarrow> pm \<in> iw_live W \<Longrightarrow>
     idem_step Env W (W\<lparr>iw_system := Up (idem_abandon Env pm st), iw_live := iw_live W - {pm}\<rparr>)"
| step_drop:
    "iw_system W = Up st \<Longrightarrow> pm \<in> iw_live W \<Longrightarrow>
     idem_step Env W
       (W\<lparr>iw_system := Up (drop_permit pm st), iw_live := iw_live W - {pm}, iw_pins := iw_pins W \<union> lost_pins {pm}\<rparr>)"

abbreviation idem_reaches ::
  "('o, 'w, 'd) idem_env \<Rightarrow> ('o, 'w, 'd) idem_world \<Rightarrow> ('o, 'w, 'd) idem_world \<Rightarrow> bool" where
  "idem_reaches Env \<equiv> rtranclp (idem_step Env)"

definition waiting :: "(idem_request \<times> 'o reserve_pc) set \<Rightarrow> (nat \<times> command_ref) set" where
  "waiting calls = {(ch, rq_ref rq) | ch rq. (rq, RpWait ch) \<in> calls}"

definition world_ok ::
  "('o, 'w, 'd) idem_env \<Rightarrow> ('w \<Rightarrow> ledger_map \<Rightarrow> bool) \<Rightarrow> ('d \<Rightarrow> ledger_map option \<Rightarrow> bool) \<Rightarrow> ('o, 'w, 'd) idem_world \<Rightarrow> bool" where
  "world_ok Env ok stored W \<longleftrightarrow>
     (case iw_system W of
        Up st \<Rightarrow> store_ok Env ok stored (iw_live W) (iw_pins W) (waiting (iw_calls W)) (iw_done W) st
      | Down d \<Rightarrow> iw_live W = {} \<and> iw_calls W = {} \<and> pins_ok Env (iw_pins W) \<and>
          (\<exists>i. stored d i \<and> (\<forall>m. i = Some m \<longrightarrow> disk_pins Env m (iw_pins W))))"

lemma waiting_insert:
  "waiting (insert (rq, pc) calls) = (case pc of RpWait ch \<Rightarrow> insert (ch, rq_ref rq) (waiting calls) | _ \<Rightarrow> waiting calls)"
  by (auto simp: waiting_def split: reserve_pc.splits)

lemma finish_unwritable:
  assumes "integrity_issue st \<noteq> None"
  shows "\<exists>err. idem_finish Env pm outcome now st = (Inl err, drop_permit pm st)"
  using assms by (simp add: idem_finish_def ensure_writable_def Let_def)

lemma lost_pins_live: "disk_pins Env m (P \<union> open_pins live) \<Longrightarrow> disk_pins Env m (P \<union> lost_pins live)"
proof -
  assume a: "disk_pins Env m (P \<union> open_pins live)"
  have "\<exists>de. m pk = Some de \<and> de_pinned Env pin de" if "(pk, pin) \<in> lost_pins live" for pk pin
  proof -
    have "(pk, PinOpen) \<in> P \<union> open_pins live" "pin = PinUnresolved" using that by (auto simp: lost_pins_def open_pins_def)
    from disk_pinsD [OF a this(1)] this(2) show ?thesis by simp
  qed
  then have "disk_pins Env m (lost_pins live)" by (auto simp: disk_pins_def)
  then show ?thesis using a by (simp add: disk_pins_un)
qed

lemma lost_pins_single: "P \<union> lost_pins {pm} = (if pm_durable pm then insert (pm_id pm, PinUnresolved) P else P)"
  by (auto simp: lost_pins_def)

lemma pins_ok_lost: "pins_ok Env P \<Longrightarrow> pins_ok Env (P \<union> lost_pins live)"
  by (auto simp: pins_ok_def lost_pins_def)

lemma reserve_wait_next: "reserve_wait rq ch clock woken clock' s \<noteq> RpWait c" "granted (reserve_wait rq ch clock woken clock' s) = {}"
  by (auto split: reservation_update.splits)

lemma lookup_next_granted [simp]: "granted (lookup_next now r) = {}"
  by (auto simp: lookup_next_def split: lookup_result.splits sum.splits)

lemma waiting_lookup:
  "waiting (insert (rq, lookup_next now r) calls) = (case r of LkWait ch \<Rightarrow> insert (ch, rq_ref rq) (waiting calls) | _ \<Rightarrow> waiting calls)"
  by (auto simp: waiting_insert lookup_next_def split: lookup_result.splits sum.splits)

context durable_store
begin

lemma reserve_keeps:
  assumes st: "store_ok Env ok stored live P (waiting calls) H st" and rs: "reserve_step Env rq timer pc st = (pc', st')" "\<not> reserve_done pc"
  shows "store_ok Env ok stored (live \<union> granted pc') P (waiting (insert (rq, pc') calls)) H st' \<and>
    (\<forall>pm \<in> granted pc'. pm_ref pm = rq_ref rq \<and> pm_id pm \<notin> pm_id ` live \<and> pm_id pm \<notin> fst ` P)"
proof (cases pc)
  case (RpStart now)
  then show ?thesis using rs(1) st by (auto simp: waiting_insert split: sum.splits)
next
  case (RpLookup now)
  obtain r s' where r: "reserve_lookup (ev_outcome Env) rq now (id_state st) = (r, s')" by force
  then have "pc' = lookup_next now r" "st' = st\<lparr>id_state := s'\<rparr>" using rs(1) RpLookup by auto
  then show ?thesis using store_lookup [OF st r] by (simp add: waiting_lookup)
next
  case (RpWait ch)
  obtain a b c where "timer = (a, b, c)" by (metis prod_cases3)
  then have pc': "pc' = reserve_wait rq ch a b c (id_state st)" and st': "st' = st" using rs(1) RpWait by (auto simp del: reserve_wait.simps)
  have "granted pc' = {}" "waiting (insert (rq, pc') calls) = waiting calls"
    unfolding pc' using reserve_wait_next [of rq ch a b c "id_state st"] by (auto simp: waiting_insert simp del: reserve_wait.simps split: reserve_pc.split)
  then show ?thesis using st st' by simp
next
  case (RpAcquire now)
  obtain r st1 where a: "reserve_acquire Env rq now st = (r, st1)" by force
  have step: "(case (r, st1) of (Inl err, s) \<Rightarrow> (RpDone (Inl err), s) | (Inr None, s) \<Rightarrow> (RpLookup now, s)
    | (Inr (Some permit), s) \<Rightarrow> (RpDone (Inr (Acquired permit)), s)) = (pc', st')" using rs(1) RpAcquire a by simp
  from store_acquire [OF st a] show ?thesis
  proof (elim disjE exE conjE)
    fix pm
    assume r: "r = Inr (Some pm)" and pm: "pm_ref pm = rq_ref rq" "pm_id pm \<notin> pm_id ` live" "pm_id pm \<notin> fst ` P"
      "store_ok Env ok stored (insert pm live) P (waiting calls) H st1"
    moreover have "pc' = RpDone (Inr (Acquired pm))" "st' = st1" using step r by auto
    ultimately show ?thesis by (simp add: waiting_insert)
  qed (use step in \<open>auto simp: waiting_insert\<close>)
next
  case (RpDone r)
  then show ?thesis using rs(2) by simp
qed

lemma world_step: "idem_step Env W W' \<Longrightarrow> world_ok Env ok stored W \<Longrightarrow> world_ok Env ok stored W'"
proof (induction rule: idem_step.induct)
  case (step_open W d held t now st)
  then obtain i where i: "stored d i" "\<And>m. i = Some m \<Longrightarrow> disk_pins Env m (iw_pins W)" and w: "iw_live W = {}" "iw_calls W = {}" "pins_ok Env (iw_pins W)"
    by (auto simp: world_ok_def)
  then show ?case using store_open [OF i w(3) step_open(2), of "iw_done W \<union> retained_of (id_state st)"] by (simp add: world_ok_def waiting_def)
next
  case (step_open_fails W d held t now e d')
  then show ?case using open_fails [OF _ step_open_fails(2)] by (auto simp: world_ok_def)
next
  case (step_crash W st w)
  then have st: "store_ok Env ok stored (iw_live W) (iw_pins W) (waiting (iw_calls W)) (iw_done W) st" by (simp add: world_ok_def)
  note l = store_okD(4) [OF st]
  have "\<exists>i. stored (lw_disk (ev_ledger Env) w) i \<and> (\<forall>m. i = Some m \<longrightarrow> disk_pins Env m (iw_pins W \<union> open_pins (iw_live W)))"
  proof (cases "integrity_issue st")
    case None
    then obtain m where "ok w m" "disk_pins Env m (iw_pins W \<union> open_pins (iw_live W))" using l step_crash(2) by (auto simp: ledger_side_def)
    then show ?thesis using ok_stored by blast
  next
    case (Some x)
    then show ?thesis using l step_crash(2) by (simp add: ledger_side_def)
  qed
  then show ?case using lost_pins_live pins_ok_lost [OF store_okD(2) [OF st]] unfolding world_ok_def by fastforce
next
  case (step_call W st rq now)
  then show ?case by (simp add: world_ok_def waiting_insert)
next
  case (step_reserve W st rq pc timer pc' st')
  then show ?case using reserve_keeps [of _ _ "iw_calls W"] by (simp add: world_ok_def)
next
  case (step_finish W st pm outcome now r st')
  then have st: "store_ok Env ok stored (iw_live W) (iw_pins W) (waiting (iw_calls W)) (iw_done W) st" by (simp add: world_ok_def)
  show ?case
  proof (cases "integrity_issue st")
    case None
    then show ?thesis using store_finish [OF st step_finish(2) None step_finish(3)] by (auto simp: world_ok_def finish_pins_def finish_done_def)
  next
    case (Some x)
    then obtain err where "r = Inl err" "st' = drop_permit pm st" using finish_unwritable [of st Env pm outcome now] step_finish(3) by auto
    then show ?thesis using store_drop [OF st step_finish(2)] Some by (simp add: world_ok_def finish_pins_def finish_done_def lost_pins_single)
  qed
next
  case (step_abandon W st pm)
  then show ?case using store_abandon by (simp add: world_ok_def)
next
  case (step_drop W st pm)
  then have st: "store_ok Env ok stored (iw_live W) (iw_pins W) (waiting (iw_calls W)) (iw_done W) st" by (simp add: world_ok_def)
  show ?case using store_drop [OF st step_drop(2)] by (simp add: world_ok_def lost_pins_single)
qed

lemma world_reach: "idem_reaches Env W W' \<Longrightarrow> world_ok Env ok stored W \<Longrightarrow> world_ok Env ok stored W'"
  by (induction rule: rtranclp_induct) (use world_step in blast)+

end

section \<open>What the invariant says\<close>

lemma lookup_pinned:
  assumes st: "store_ok Env ok stored live P W H st" and int: "integrity_issue st = None" and pin: "(rq_id rq, pin) \<in> P"
    and r: "reserve_lookup (ev_outcome Env) rq now (id_state st) = (r, s')"
  shows "pin = PinUnresolved \<Longrightarrow> r = LkReturn (Inl (unresolved_error (rq_correlation_id rq)))"
    "pin = PinRetained (rq_operation rq) (rq_sha rq) outcome \<Longrightarrow> r = LkReturn (Inr outcome)"
proof -
  note M = mem_okD [OF store_okD(1) [OF st]]
  note P = side_mem_pins [OF store_okD(4) [OF st] int]
  have here: "\<exists>e. view s1 (rq_id rq) = Some e \<and> entry_pinned pin e" if "shrinks (id_state st) s1" for s1
    by (rule mem_pinsD [OF mem_pins_shrinks [OF M(1) P that] pin])
  have "(pin = PinUnresolved \<longrightarrow> r = LkReturn (Inl (unresolved_error (rq_correlation_id rq)))) \<and>
    (\<forall>outcome. pin = PinRetained (rq_operation rq) (rq_sha rq) outcome \<longrightarrow> r = LkReturn (Inr outcome))"
    using M(5,6) r rq_id_def [of rq]
  proof (cases rule: lookup_effect)
    case (vacant s1)
    then show ?thesis using here by fastforce
  next
    case (mismatch s1 e)
    then show ?thesis using here [OF mismatch(1)] by auto
  next
    case (found s1 e n)
    then show ?thesis using here [OF found(1)] by auto
  qed
  then show "pin = PinUnresolved \<Longrightarrow> r = LkReturn (Inl (unresolved_error (rq_correlation_id rq)))"
    "pin = PinRetained (rq_operation rq) (rq_sha rq) outcome \<Longrightarrow> r = LkReturn (Inr outcome)" by blast+
qed

lemma lookup_replay:
  assumes st: "store_ok Env ok stored live P W H st" and r: "reserve_lookup (ev_outcome Env) rq now (id_state st) = (LkReturn (Inr outcome), s')"
  shows "(rq_ref rq, outcome) \<in> H"
proof -
  note M = mem_okD [OF store_okD(1) [OF st]]
  show ?thesis using M(5,6) r rq_id_def [of rq]
  proof (cases rule: lookup_effect)
    case (found s1 e n)
    then obtain sf where sf: "en_state e = ERetained outcome sf" by (cases "en_state e") auto
    have "view (id_state st) (rq_id rq) = Some e" using shrinksD(6) [OF found(1), of "rq_id rq"] found(2) by auto
    then show ?thesis using retained_okD [OF M(4) _ sf, of "rq_id rq"] found(3,4) by (simp add: entry_ref_def rq_ref_def)
  qed auto
qed

lemma step_replay:
  assumes st: "store_ok Env ok stored live P (waiting calls) H st" and c: "(rq, pc) \<in> calls" "\<not> reserve_done pc"
    and r: "reserve_step Env rq timer pc st = (RpDone (Inr (Replay outcome)), st')"
  shows "(rq_ref rq, outcome) \<in> H"
proof (cases pc)
  case (RpLookup now)
  obtain r0 s' where r0: "reserve_lookup (ev_outcome Env) rq now (id_state st) = (r0, s')" by force
  then have "r0 = LkReturn (Inr outcome)" using r RpLookup by (auto simp: lookup_next_def split: lookup_result.splits sum.splits)
  then show ?thesis using lookup_replay [OF st] r0 by blast
next
  case (RpWait ch)
  obtain a b c where "timer = (a, b, c)" by (metis prod_cases3)
  then have "ss_channels (id_state st) ! ch = UpReplay outcome" using r RpWait by (auto split: if_splits reservation_update.splits)
  moreover have "(ch, rq_ref rq) \<in> waiting calls" using c RpWait by (auto simp: waiting_def)
  ultimately show ?thesis using waiting_okD(3) [OF mem_okD(3) [OF store_okD(1) [OF st]]] by blast
qed (use r c in \<open>auto split: sum.splits prod.splits option.splits\<close>)

lemma waiter_held:
  assumes st: "store_ok Env ok stored live P W H st" and w: "(ch, ref) \<in> W" "ss_channels (id_state st) ! ch = UpPending"
  shows "\<exists>pm \<in> live. pm_ref pm = ref"
proof -
  note M = mem_okD [OF store_okD(1) [OF st]]
  obtain e where e: "view (id_state st) (fst ref) = Some e" "state_channel (en_state e) = Some ch" "entry_ref (fst ref) e = ref"
    using waiting_okD(2) [OF M(3) w] by blast
  obtain pm where pm: "pm \<in> live" "pm_id pm = fst ref" using live_okD(3) [OF M(2) e(1,2)] by blast
  then have "permit_matches pm e" using live_okD(2) [OF M(2) pm(1)] e(1) by simp
  then show ?thesis using permit_ref [of pm e] pm e(3) by auto
qed

lemma waiter_released:
  assumes "store_ok Env ok stored live P W H st" "inj_on pm_id live'" "pm \<in> live'" "live = live' - {pm}" "(ch, pm_ref pm) \<in> W"
  shows "ss_channels (id_state st) ! ch \<noteq> UpPending"
proof
  assume "ss_channels (id_state st) ! ch = UpPending"
  then obtain qm where "qm \<in> live" "pm_ref qm = pm_ref pm" using waiter_held [OF assms(1,5)] by blast
  then show False using assms(2-4) by (auto simp: pm_ref_def inj_on_def)
qed

lemma pins_grow: "idem_reaches Env W W' \<Longrightarrow> iw_pins W \<subseteq> iw_pins W'"
proof (induction rule: rtranclp_induct)
  case (step W1 W2)
  from step(2) have "iw_pins W1 \<subseteq> iw_pins W2" by cases auto
  with step(3) show ?case by blast
qed simp

lemma default_capacity_simps [simp]:
  "id_state (with_global_capacity a g ttl) = default_state" "id_per_principal_capacity (with_global_capacity a g ttl) = a"
  "id_global_capacity (with_global_capacity a g ttl) = g" "id_durable (with_global_capacity a g ttl) = None"
  "id_integrity_issue (with_global_capacity a g ttl) = None"
  by (simp_all add: with_global_capacity_def)

lemma memory_start: "world_ok Env ok stored (idem_start (Up (with_global_capacity a g ttl)))"
  by (simp add: world_ok_def idem_start_def store_ok_def waiting_def default_mem_ok pins_ok_def ledger_side_def)

context durable_store
begin

lemma disk_start: "stored d (Some m) \<Longrightarrow> world_ok Env ok stored (idem_start (Down d))"
  by (auto simp: world_ok_def idem_start_def pins_ok_def disk_pins_def)

lemma grant_fresh:
  assumes "world_ok Env ok stored W" "iw_system W = Up st" "(rq, pc) \<in> iw_calls W" "\<not> reserve_done pc"
    "reserve_step Env rq timer pc st = (RpDone (Inr (Acquired pm)), st')"
  shows "pm_ref pm = rq_ref rq \<and> pm_id pm \<notin> pm_id ` iw_live W \<and> pm_id pm \<notin> fst ` iw_pins W"
proof -
  have "store_ok Env ok stored (iw_live W) (iw_pins W) (waiting (iw_calls W)) (iw_done W) st" using assms(1,2) by (simp add: world_ok_def)
  from reserve_keeps [OF this assms(5,4)] show ?thesis by simp
qed

lemma waiter_woken:
  assumes "world_ok Env ok stored W" "iw_system W = Up st" "(rq, RpWait ch) \<in> iw_calls W" "ss_channels (id_state st) ! ch = UpPending"
  shows "\<exists>pm \<in> iw_live W. pm_ref pm = rq_ref rq \<and>
    (\<forall>outcome now. ss_channels (id_state (snd (idem_finish Env pm outcome now st))) ! ch \<noteq> UpPending) \<and>
    ss_channels (id_state (idem_abandon Env pm st)) ! ch \<noteq> UpPending \<and>
    ss_channels (id_state (drop_permit pm st)) ! ch \<noteq> UpPending"
proof -
  have st: "store_ok Env ok stored (iw_live W) (iw_pins W) (waiting (iw_calls W)) (iw_done W) st" using assms(1,2) by (simp add: world_ok_def)
  have w: "(ch, rq_ref rq) \<in> waiting (iw_calls W)" using assms(3) by (auto simp: waiting_def)
  obtain pm where pm: "pm \<in> iw_live W" "pm_ref pm = rq_ref rq" using waiter_held [OF st w assms(4)] by blast
  have inj: "inj_on pm_id (iw_live W)" by (rule live_okD(1) [OF mem_okD(2) [OF store_okD(1) [OF st]]])
  have rel: "ss_channels (id_state st') ! ch \<noteq> UpPending" if "store_ok Env ok stored (iw_live W - {pm}) P (waiting (iw_calls W)) H st'" for P H st'
    by (rule waiter_released [OF that inj pm(1) refl]) (use w pm(2) in simp)
  have "ss_channels (id_state (snd (idem_finish Env pm outcome now st))) ! ch \<noteq> UpPending" for outcome now
  proof (cases "integrity_issue st")
    case None
    obtain r st' where f: "idem_finish Env pm outcome now st = (r, st')" by force
    show ?thesis using store_finish [OF st pm(1) None f] rel f by auto
  next
    case (Some x)
    then show ?thesis using finish_unwritable [of st Env pm outcome now] rel [OF store_drop [OF st pm(1)]] by auto
  qed
  then show ?thesis using pm rel [OF store_abandon [OF st pm(1)]] rel [OF store_drop [OF st pm(1)]] by blast
qed

end

section \<open>Room\<close>

lemma shrinks_bucket:
  assumes "shrinks s s'" "wf_state s"
  shows "set (bucket_of s' p) \<subseteq> set (bucket_of s p)"
proof
  fix e
  assume "e \<in> set (bucket_of s' p)"
  then have "view s' (p, en_key e) = Some e" using shrinksD(1) [OF assms(1)] by (simp add: view_Some)
  then have "view s (p, en_key e) = Some e" using shrinksD(6) [OF assms(1), of "(p, en_key e)"] by auto
  then show "e \<in> set (bucket_of s p)" using assms(2) by (simp add: view_Some)
qed

lemma min_by_key_None: "min_by_key f xs = None \<longleftrightarrow> xs = []"
  by (cases xs) (auto split: option.splits if_splits)

lemma remove_oldest_None: "remove_oldest_evictable es = None \<Longrightarrow> e \<in> set es \<Longrightarrow> \<not> entry_is_evictable (en_state e)"
proof
  assume a: "remove_oldest_evictable es = None" "e \<in> set es" "entry_is_evictable (en_state e)"
  then obtain i where "i < length es" "es ! i = e" by (auto simp: in_set_conv_nth)
  then have "(i, e) \<in> set (evictable_indices es)" using a(3) by (simp add: evictable_indices_mem)
  then show False using a(1) by (auto simp: remove_oldest_evictable_def min_by_key_None)
qed

lemma evict_bucket_exit:
  "evict_bucket capacity p es dirty = (es', dirty') \<Longrightarrow> length es' < capacity \<or> (\<forall>e \<in> set es'. \<not> entry_is_evictable (en_state e))"
proof (induction capacity p es dirty rule: evict_bucket.induct)
  case (1 capacity p es dirty)
  show ?case using 1(1) 1(2) [unfolded evict_bucket.simps [of capacity p es dirty]]
    by (auto split: if_splits option.splits dest: remove_oldest_None)
qed

lemma principal_room_exit:
  assumes "wf_state s" "distinct (ss_dirty s)"
  shows "length (bucket_of (make_principal_room p capacity s) p) < capacity \<or>
    (\<forall>e \<in> set (bucket_of (make_principal_room p capacity s) p). \<not> entry_is_evictable (en_state e))"
proof (cases "map_of (ss_entries s) p")
  case None
  then show ?thesis by (simp add: make_principal_room_def bucket_of_def)
next
  case (Some es)
  obtain es' dirty' where e: "evict_bucket capacity p es (ss_dirty s) = (es', dirty')" by force
  have "make_principal_room p capacity s = remove_empty_buckets ((set_bucket p es' s)\<lparr>ss_dirty := dirty'\<rparr>)"
    using Some e by (simp add: make_principal_room_def set_bucket_def)
  moreover have "distinct (map fst (ss_entries (set_bucket p es' s)))" using assms(1) by (simp add: wf_state_def)
  ultimately have "bucket_of (make_principal_room p capacity s) p = es'" by simp
  then show ?thesis using evict_bucket_exit [OF e] by simp
qed

lemma no_candidates:
  assumes "wf_state s" "global_candidates s = []" "e \<in> set (bucket_of s p)"
  shows "\<not> entry_is_evictable (en_state e)"
proof
  assume ev: "entry_is_evictable (en_state e)"
  obtain es where es: "(p, es) \<in> set (ss_entries s)" "e \<in> set es"
    using assms(3) map_of_SomeD [of "ss_entries s" p] by (cases "map_of (ss_entries s) p") (auto simp: bucket_of_def)
  then obtain i where "i < length es" "es ! i = e" by (auto simp: in_set_conv_nth)
  then have "(i, e) \<in> set (evictable_indices es)" using ev by (simp add: evictable_indices_mem)
  then have "(en_last_used e, p, i) \<in> set (global_candidates s)" using es(1) by (force simp: global_candidates_def)
  then show False using assms(2) by simp
qed

section \<open>The store over its file\<close>

interpretation file_store: durable_store "ledger_env C Ops resolve" "writer_ok C" "ledger_stored C" for C Ops resolve
  unfolding durable_store_def by (simp add: ledger_env_def file_log.change_log_axioms)

text \<open>A run starts with a store in memory, or with a disk that has no ledger yet.\<close>

definition idem_init :: "('o, ledger_writer, disk) idem_system \<Rightarrow> bool" where
  "idem_init sys \<longleftrightarrow> (\<exists>a g ttl. sys = Up (with_global_capacity a g ttl)) \<or> (\<exists>d. sys = Down d \<and> dk_file d = None)"

lemma reachable_ok:
  assumes "faithful_codec C" "idem_init sys" "idem_reaches (ledger_env C Ops resolve) (idem_start sys) W"
  shows "world_ok (ledger_env C Ops resolve) (writer_ok C) (ledger_stored C) W"
proof (rule file_store.world_reach [OF assms(3)])
  show "world_ok (ledger_env C Ops resolve) (writer_ok C) (ledger_stored C) (idem_start sys)"
    using assms(2) unfolding idem_init_def
  proof (elim disjE exE conjE)
    fix a g ttl
    assume "sys = Up (with_global_capacity a g ttl)"
    then show ?thesis using memory_start by blast
  next
    fix d
    assume d: "sys = Down d" "dk_file d = None"
    have "ledger_stored C d (Some Map.empty)" using assms(1) d(2) by (simp add: ledger_stored_def admissible_def)
    then show ?thesis using file_store.disk_start d(1) by blast
  qed
qed

lemma reachable_store:
  assumes "faithful_codec C" "idem_init sys" "idem_reaches (ledger_env C Ops resolve) (idem_start sys) W" "iw_system W = Up st"
  shows "store_ok (ledger_env C Ops resolve) (writer_ok C) (ledger_stored C) (iw_live W) (iw_pins W) (waiting (iw_calls W)) (iw_done W) st"
  using reachable_ok [OF assms(1-3)] assms(4) by (simp add: world_ok_def)

lemma lookup_step:
  "reserve_lookup (ev_outcome Env) rq now (id_state st) = (r, s') \<Longrightarrow>
   reserve_step Env rq timer (RpLookup now) st = (lookup_next now r, st\<lparr>id_state := s'\<rparr>)"
  by simp

section \<open>The downgrade\<close>

definition downgrade_map :: "ledger_map \<Rightarrow> ledger_map" where
  "downgrade_map m = (\<lambda>pk. map_option downgrade_entry (m pk))"

lemma downgrade_entry_id [simp]: "de_id (downgrade_entry de) = de_id de"
  by (simp add: downgrade_entry_def de_id_def split: durable_state.splits)

lemma downgrade_entries:
  assumes "distinct (map de_id des)"
  shows "distinct (map de_id (map downgrade_entry des))" "entries_map (map downgrade_entry des) = downgrade_map (entries_map des)"
proof -
  show d: "distinct (map de_id (map downgrade_entry des))" using assms by (simp add: comp_def)
  show "entries_map (map downgrade_entry des) = downgrade_map (entries_map des)"
    by (induction des) (auto simp: entries_map_def downgrade_map_def fun_eq_iff)
qed

lemma downgrade_entry_ok: "entry_ok value_len de \<Longrightarrow> entry_ok value_len (downgrade_entry de)"
  by (cases "de_state de") (auto simp: downgrade_entry_def entry_ok_def)

lemma downgrade_admissible: "admissible value_len m \<Longrightarrow> admissible value_len (downgrade_map m)"
proof -
  assume a: "admissible value_len m"
  have d: "dom (downgrade_map m) = dom m" by (auto simp: downgrade_map_def dom_def)
  have "de_id de = pk \<and> entry_ok value_len de" if "downgrade_map m pk = Some de" for pk de
    using that admissible_entry [OF a, of pk] downgrade_entry_ok by (auto simp: downgrade_map_def)
  then show ?thesis using a unfolding admissible_def d by blast
qed

lemma ledger_backup_frame: "ledger_backup d = (r, d') \<Longrightarrow> dk_file d' = dk_file d"
  by (auto simp: ledger_backup_def and_then_def next_io_def split: prod.splits sum.splits option.splits list.splits io_outcome.splits dest!: ledger_io_frame)

lemma snapshot_stored:
  assumes "faithful_codec C" "lk_enc_snapshot C \<lparr>sn_schema = 1, sn_entries = des\<rparr> = Some bs" "distinct (map de_id des)"
    "admissible (lk_value_len C) (entries_map des)" "dk_file d = Some bs"
  shows "ledger_stored C d (Some (entries_map des))"
proof -
  have "newline \<notin> set bs \<and> lk_dec_snapshot C bs = Some \<lparr>sn_schema = 1, sn_entries = des\<rparr> \<and> lk_dec_header C bs = None \<and>
      length bs \<le> MAX_LINE_BYTES"
    using assms(1-4) unfolding faithful_codec_def by fastforce
  then show ?thesis using assms by (auto simp: ledger_stored_def snapshot_file_def)
qed

text \<open>Every way the downgrade ends: with the file as it was, or with an attempt to replace it.\<close>

lemma downgrade_cases:
  assumes "downgrade_idempotency_ledger C held now d = (r, d')"
  obtains (kept) "dk_file d' = dk_file d" "r \<noteq> Inr True"
  | (replaced) d1 d2 l bs d3 r3 where "ledger_load C now d1 = (Inr (Some l), d2)" "dk_file d1 = dk_file d" "dk_file d3 = dk_file d"
      "lk_enc_snapshot C \<lparr>sn_schema = 1, sn_entries = map downgrade_entry (lo_entries l)\<rparr> = Some bs"
      "ledger_replace bs d3 = (r3, d')" "r = map_sum id (\<lambda>_. True) r3"
proof -
  obtain r0 d0 where r0: "ledger_io d = (r0, d0)" by force
  obtain r1 d1 where r1: "ledger_lock held d0 = (r1, d1)" by force
  obtain r2 d2 where r2: "ledger_load C now d1 = (r2, d2)" by force
  obtain rb db where rb: "ledger_backup d2 = (rb, db)" by force
  have f: "dk_file d0 = dk_file d" "dk_file d1 = dk_file d" "dk_file d2 = dk_file d" "dk_file db = dk_file d"
    using ledger_io_frame [OF r0] ledger_lock_frame [OF r1] ledger_load_frame [OF r2] ledger_backup_frame [OF rb] by simp_all
  show thesis
  proof (cases "\<exists>l bs. r0 = Inr () \<and> dk_file d0 \<noteq> None \<and> r1 = Inr () \<and> r2 = Inr (Some l) \<and> ledger_validate C now (lo_entries l) = Inr () \<and>
      lo_format l \<noteq> 1 \<and> rb = Inr () \<and> lk_enc_snapshot C \<lparr>sn_schema = 1, sn_entries = map downgrade_entry (lo_entries l)\<rparr> = Some bs")
    case True
    then obtain l bs where l: "r0 = Inr ()" "dk_file d0 \<noteq> None" "r1 = Inr ()" "r2 = Inr (Some l)" "ledger_validate C now (lo_entries l) = Inr ()"
      "lo_format l \<noteq> 1" "rb = Inr ()" "lk_enc_snapshot C \<lparr>sn_schema = 1, sn_entries = map downgrade_entry (lo_entries l)\<rparr> = Some bs" by blast
    obtain r3 d3 where r3: "ledger_replace bs db = (r3, d3)" by force
    have "d' = d3" "r = map_sum id (\<lambda>_. True) r3" using assms r0 r1 r2 rb r3 l
      by (cases r3; simp add: downgrade_idempotency_ledger_def and_then_def)+
    then show thesis using replaced [OF r2 [unfolded l(4)] f(2,4) l(8)] r3 by blast
  next
    case False
    then have "dk_file d' = dk_file d \<and> r \<noteq> Inr True" using assms r0 r1 r2 rb f
      by (auto simp: downgrade_idempotency_ledger_def and_then_def split: sum.splits option.splits if_splits)
    then show thesis using kept by blast
  qed
qed

end
