(* ===== verification/Idempotency_Properties.thy ===== *)
theory Idempotency_Properties
  imports Idempotency_Run "HOL-Library.Code_Target_Nat"
begin

text \<open>
  What the idempotency store over its file promises in every run, and a short concrete run on which
  each theorem is applied.
\<close>

section \<open>A run of the store\<close>

text \<open>A codec for the values that occur in a short run: a header, two change records and a snapshot.\<close>

definition demo_entry :: "string \<Rightarrow> u64 \<Rightarrow> durable_state \<Rightarrow> durable_entry" where
  "demo_entry k n state =
     \<lparr>de_principal = PrincipalId 1, de_key = IdempotencyKey k, de_operation = SubmitCommand, de_sha = [1], de_expires = None,
      de_last_used = n, de_state = state\<rparr>"

definition demo_header :: ledger_header where
  "demo_header = \<lparr>lh_schema = 2, lh_entries = [demo_entry ''a'' 2 DReserved], lh_sha = zero_sha\<rparr>"

definition demo_record :: "durable_entry \<Rightarrow> ledger_record" where
  "demo_record de =
     \<lparr>lr_schema = 2, lr_change = \<lparr>lc_sequence = 1, lc_previous_sha = zero_sha, lc_updates = [de], lc_removes = []\<rparr>, lr_sha = zero_sha\<rparr>"

definition demo_snapshot :: durable_snapshot where
  "demo_snapshot = \<lparr>sn_schema = 1, sn_entries = [demo_entry ''a'' 2 DUnresolved]\<rparr>"

definition demo_finished :: ledger_record where
  "demo_finished = demo_record (demo_entry ''a'' 3 (DRetained JNull))"

definition demo_second :: ledger_record where
  "demo_second = demo_record (demo_entry ''b'' 4 DReserved)"

definition demo_codec :: ledger_codec where
  "demo_codec =
     \<lparr>lk_enc_header = (\<lambda>h. if h = demo_header then Some [1] else None),
      lk_dec_header = (\<lambda>bs. if bs = [1, newline] then Some demo_header else None),
      lk_enc_record = (\<lambda>r. if r = demo_finished then Some [2] else if r = demo_second then Some [3] else None),
      lk_dec_record = (\<lambda>bs. if bs = [2, newline] then Some demo_finished else if bs = [3, newline] then Some demo_second else None),
      lk_enc_snapshot = (\<lambda>sn. if sn = demo_snapshot then Some [4] else None),
      lk_dec_snapshot = (\<lambda>bs. if bs = [4] then Some demo_snapshot else None),
      lk_snapshot_json = (\<lambda>_. Some JNull), lk_change_json = (\<lambda>_. Some JNull), lk_value_len = (\<lambda>_. Some 4),
      lk_hasher = \<lparr>to_vec = (\<lambda>_. Some []), sha_digest = (\<lambda>_. zero_sha)\<rparr>\<rparr>"

lemma demo_faithful: "faithful_codec demo_codec"
  by (auto simp: faithful_codec_def demo_codec_def newline_def MAX_LINE_BYTES_def demo_finished_def demo_second_def demo_record_def demo_entry_def
      split: if_splits)

definition demo_ops :: "unit outcome_ops" where
  "demo_ops =
     \<lparr>releases_reservation = (\<lambda>_. False), safety_relevant = (\<lambda>_. True), uncertain = (\<lambda>_. False), durable_value = (\<lambda>_. Some JNull)\<rparr>"

abbreviation demo_env :: "(unit, ledger_writer, disk) idem_env" where
  "demo_env \<equiv> ledger_env demo_codec demo_ops (\<lambda>_. Some ())"

definition demo_disk :: disk where
  "demo_disk = \<lparr>dk_file = None, dk_inode = 0, dk_archives = [], dk_io = []\<rparr>"

definition demo_request :: "string \<Rightarrow> idem_request" where
  "demo_request k =
     \<lparr>rq_principal = PrincipalId 1, rq_key = IdempotencyKey k, rq_operation = SubmitCommand, rq_sha = [1], rq_deadline = 100,
      rq_correlation_id = 7\<rparr>"

definition demo_step :: "string \<Rightarrow> unit reserve_pc \<Rightarrow> (unit, ledger_writer) idempotency_store \<Rightarrow> unit reserve_pc \<times> (unit, ledger_writer) idempotency_store" where
  "demo_step k = reserve_step demo_env (demo_request k) (0, False, 0)"

definition demo_key :: "string \<Rightarrow> u64 \<Rightarrow> unit entry_state \<Rightarrow> unit entry" where
  "demo_key k n state =
     \<lparr>en_key = IdempotencyKey k, en_operation = SubmitCommand, en_sha = [1], en_state = state, en_expires = None, en_last_used = n\<rparr>"

definition demo_store ::
  "unit entry list \<Rightarrow> u64 \<Rightarrow> ledger_key list \<Rightarrow> unit reservation_update list \<Rightarrow> nat \<Rightarrow> u64 \<Rightarrow> bytes option \<Rightarrow> (unit, ledger_writer) idempotency_store" where
  "demo_store es n dirty chs f sq bs =
     idempotency_default
       \<lparr>id_state := \<lparr>ss_entries = (if es = [] then [] else [(PrincipalId 1, es)]), ss_sequence = n, ss_dirty = dirty, ss_channels = chs\<rparr>,
        id_durable := Some \<lparr>wr_journal = \<lparr>jn_file = (if f = 2 then Some 1 else None), jn_format = f, jn_sequence = sq, jn_sha = zero_sha,
                                         jn_appended = 2 * unat sq\<rparr>,
                            wr_disk = demo_disk\<lparr>dk_file := bs, dk_inode := (if f = 2 then 1 else 0)\<rparr>\<rparr>\<rparr>"

text \<open>The store is opened on an empty disk and a key is reserved; a second caller waits for it.\<close>

definition demo_store0 :: "(unit, ledger_writer) idempotency_store" where
  "demo_store0 = demo_store [] 0 [] [] 0 0 None"

definition demo_store1 :: "(unit, ledger_writer) idempotency_store" where
  "demo_store1 = demo_store [] 1 [] [] 0 0 None"

definition demo_store2 :: "(unit, ledger_writer) idempotency_store" where
  "demo_store2 = demo_store [demo_key ''a'' 2 (EReserved 2 0)] 2 [] [UpPending] 2 0 (Some [1, newline])"

definition demo_waiting :: "(unit, ledger_writer) idempotency_store" where
  "demo_waiting = demo_store [demo_key ''a'' 3 (EReserved 2 0)] 3 [(PrincipalId 1, IdempotencyKey ''a'')] [UpPending] 2 0 (Some [1, newline])"

definition demo_permit :: idem_permit where
  "demo_permit = permit_for (demo_request ''a'') (id_state demo_store1) True"

text \<open>After a crash the store is opened again, and another key is reserved.\<close>

definition demo_crashed :: disk where
  "demo_crashed = demo_disk\<lparr>dk_file := Some [1, newline], dk_inode := 1\<rparr>"

definition demo_store3 :: "(unit, ledger_writer) idempotency_store" where
  "demo_store3 = demo_store [demo_key ''a'' 2 EUnresolved] 2 [] [] 2 0 (Some [1, newline])"

definition demo_store4 :: "(unit, ledger_writer) idempotency_store" where
  "demo_store4 = demo_store [demo_key ''a'' 2 EUnresolved] 3 [] [] 2 0 (Some [1, newline])"

definition demo_store5 :: "(unit, ledger_writer) idempotency_store" where
  "demo_store5 = demo_store [demo_key ''a'' 2 EUnresolved, demo_key ''b'' 4 (EReserved 4 0)] 4 [] [UpPending] 2 1 (Some [1, newline, 3, newline])"

text \<open>Instead of the crash, the permit is finished before the store is opened again.\<close>

definition demo_store6 :: "(unit, ledger_writer) idempotency_store" where
  "demo_store6 = demo_store [demo_key ''a'' 3 (ERetained () True)] 3 [] [UpReplay ()] 2 1 (Some [1, newline, 2, newline])"

definition demo_finished_disk :: disk where
  "demo_finished_disk = demo_disk\<lparr>dk_file := Some [1, newline, 2, newline], dk_inode := 1\<rparr>"

definition demo_store7 :: "(unit, ledger_writer) idempotency_store" where
  "demo_store7 = demo_store [demo_key ''a'' 3 (ERetained () True)] 3 [] [] 2 1 (Some [1, newline, 2, newline])"

lemma demo_opens: "open_durable demo_env False 0 0 demo_disk = Inr demo_store0"
    "open_durable demo_env False 0 0 demo_crashed = Inr demo_store3"
    "open_durable demo_env False 0 0 demo_finished_disk = Inr demo_store7"
  by code_simp+

lemma demo_reserves:
  "demo_step ''a'' (RpStart 1) demo_store0 = (RpLookup 1, demo_store0)"
  "demo_step ''a'' (RpLookup 1) demo_store0 = (RpAcquire 1, demo_store1)"
  "demo_step ''a'' (RpAcquire 1) demo_store1 = (RpDone (Inr (Acquired demo_permit)), demo_store2)"
  by code_simp+

lemma demo_second_reserves:
  "demo_step ''b'' (RpStart 1) demo_store3 = (RpLookup 1, demo_store3)"
  "demo_step ''b'' (RpLookup 1) demo_store3 = (RpAcquire 1, demo_store4)"
  "demo_step ''b'' (RpAcquire 1) demo_store4 =
     (RpDone (Inr (Acquired (permit_for (demo_request ''b'') (id_state demo_store4) True))), demo_store5)"
  by code_simp+

lemma demo_finishes:
  "idem_finish demo_env demo_permit () 5 demo_store2 = (Inr (), demo_store6)"
  "demo_step ''a'' (RpStart 2) demo_store2 = (RpLookup 2, demo_store2)"
  "demo_step ''a'' (RpLookup 2) demo_store2 = (RpWait 0, demo_waiting)"
  by code_simp+

lemma demo_durable:
  "map_option wr_disk (id_durable demo_store2) = Some demo_crashed" "map_option wr_disk (id_durable demo_store6) = Some demo_finished_disk"
  "integrity_issue demo_store3 = None" "integrity_issue demo_store7 = None"
  by code_simp+

abbreviation demo_call :: "string \<Rightarrow> unit reserve_pc \<Rightarrow> idem_request \<times> unit reserve_pc" where
  "demo_call k pc \<equiv> (demo_request k, pc)"

definition demo_world ::
  "(unit, ledger_writer, disk) idem_system \<Rightarrow> idem_permit set \<Rightarrow> (ledger_key \<times> unit pin) set \<Rightarrow> (command_ref \<times> unit) set \<Rightarrow>
   (idem_request \<times> unit reserve_pc) set \<Rightarrow> (unit, ledger_writer, disk) idem_world" where
  "demo_world sys live pins out calls = \<lparr>iw_system = sys, iw_live = live, iw_pins = pins, iw_done = out, iw_calls = calls\<rparr>"

lemma demo_world_simps [simp]:
  "iw_system (demo_world sys live pins out calls) = sys" "iw_live (demo_world sys live pins out calls) = live"
  "iw_pins (demo_world sys live pins out calls) = pins" "iw_done (demo_world sys live pins out calls) = out"
  "iw_calls (demo_world sys live pins out calls) = calls"
  by (simp_all add: demo_world_def)

lemma demo_calls:
  "demo_step k pc st = (pc', st') \<Longrightarrow> demo_call k pc \<in> calls \<Longrightarrow> \<not> reserve_done pc \<Longrightarrow>
   idem_step demo_env (demo_world (Up st) live pins out calls) (demo_world (Up st') (live \<union> granted pc') pins out (insert (demo_call k pc') calls))"
  "idem_step demo_env (demo_world (Up st) live pins out calls) (demo_world (Up st) live pins out (insert (demo_call k (RpStart now)) calls))"
  "map_option wr_disk (id_durable st) = Some d \<Longrightarrow>
   idem_step demo_env (demo_world (Up st) live pins out calls) (demo_world (Down d) {} (pins \<union> lost_pins live) out {})"
  "open_durable demo_env False 0 0 d = Inr st \<Longrightarrow>
   idem_step demo_env (demo_world (Down d) live pins out calls) (demo_world (Up st) live pins (out \<union> retained_of (id_state st)) calls)"
proof -
  show "idem_step demo_env (demo_world (Up st) live pins out calls) (demo_world (Up st') (live \<union> granted pc') pins out (insert (demo_call k pc') calls))"
    if "demo_step k pc st = (pc', st')" "demo_call k pc \<in> calls" "\<not> reserve_done pc"
    using step_reserve [of "demo_world (Up st) live pins out calls" st "demo_request k" pc demo_env "(0, False, 0)" pc' st'] that
    by (simp add: demo_step_def demo_world_def)
  show "idem_step demo_env (demo_world (Up st) live pins out calls) (demo_world (Up st) live pins out (insert (demo_call k (RpStart now)) calls))"
    using step_call [of "demo_world (Up st) live pins out calls" st demo_env "demo_request k" now] by (simp add: demo_world_def)
  show "idem_step demo_env (demo_world (Up st) live pins out calls) (demo_world (Down d) {} (pins \<union> lost_pins live) out {})"
    if d: "map_option wr_disk (id_durable st) = Some d"
  proof -
    obtain w where "id_durable st = Some w" "wr_disk w = d" using d by auto
    then show ?thesis using step_crash [of "demo_world (Up st) live pins out calls" st w demo_env]
      by (simp add: demo_world_def ledger_env_def file_ledger_def)
  qed
  show "idem_step demo_env (demo_world (Down d) live pins out calls) (demo_world (Up st) live pins (out \<union> retained_of (id_state st)) calls)"
    if "open_durable demo_env False 0 0 d = Inr st"
    using step_open [OF _ that, of "demo_world (Down d) live pins out calls"] by (simp add: demo_world_def)
qed

abbreviation demo_reaches :: "(unit, ledger_writer, disk) idem_world \<Rightarrow> bool" where
  "demo_reaches \<equiv> idem_reaches demo_env (idem_start (Down demo_disk))"

lemma demo_init: "idem_init (Down demo_disk)"
  by (simp add: idem_init_def demo_disk_def)

definition demo_out :: "(command_ref \<times> unit) set" where
  "demo_out = retained_of (id_state demo_store0)"

definition demo_calls1 :: "(idem_request \<times> unit reserve_pc) set" where
  "demo_calls1 = {demo_call ''a'' (RpAcquire 1), demo_call ''a'' (RpLookup 1), demo_call ''a'' (RpStart 1)}"

definition demo_calls2 :: "(idem_request \<times> unit reserve_pc) set" where
  "demo_calls2 = insert (demo_call ''a'' (RpDone (Inr (Acquired demo_permit)))) demo_calls1"

lemma demo_reach1: "demo_reaches (demo_world (Up demo_store1) {} {} demo_out demo_calls1)"
proof -
  have "demo_reaches (demo_world (Down demo_disk) {} {} {} {})" by (simp add: idem_start_def demo_world_def)
  note a = rtranclp.rtrancl_into_rtrancl [OF this demo_calls(4) [OF demo_opens(1)]]
  note b = rtranclp.rtrancl_into_rtrancl [OF a demo_calls(2) [of _ _ _ _ _ "''a''" 1]]
  note c = rtranclp.rtrancl_into_rtrancl [OF b demo_calls(1) [OF demo_reserves(1)]]
  note d = rtranclp.rtrancl_into_rtrancl [OF c [simplified] demo_calls(1) [OF demo_reserves(2)]]
  show ?thesis using d by (simp add: demo_out_def demo_calls1_def)
qed

lemma demo_reach2: "demo_reaches (demo_world (Up demo_store2) {demo_permit} {} demo_out demo_calls2)"
  using rtranclp.rtrancl_into_rtrancl [OF demo_reach1 demo_calls(1) [OF demo_reserves(3)]] by (simp add: demo_calls2_def demo_calls1_def)

definition demo_pins :: "(ledger_key \<times> unit pin) set" where
  "demo_pins = {(pm_id demo_permit, PinUnresolved)}"

definition demo_calls3 :: "(idem_request \<times> unit reserve_pc) set" where
  "demo_calls3 = {demo_call ''b'' (RpAcquire 1), demo_call ''b'' (RpLookup 1), demo_call ''b'' (RpStart 1)}"

lemma demo_pm: "pm_durable demo_permit" "pm_id demo_permit = rq_id (demo_request ''a'')" "pm_ref demo_permit = rq_ref (demo_request ''a'')"
  by (simp_all add: demo_permit_def)

lemma demo_crash:
  "idem_step demo_env (demo_world (Up demo_store2) {demo_permit} {} demo_out demo_calls2) (demo_world (Down demo_crashed) {} demo_pins demo_out {})"
proof -
  have "lost_pins {demo_permit} = demo_pins" using demo_pm(1) by (auto simp: demo_pins_def lost_pins_def)
  then show ?thesis using demo_calls(3) [OF demo_durable(1), of "{demo_permit}" "{}" demo_out demo_calls2] by simp
qed

lemma demo_reopened:
  "idem_reaches demo_env (demo_world (Down demo_crashed) {} demo_pins demo_out {})
     (demo_world (Up demo_store3) {} demo_pins (demo_out \<union> retained_of (id_state demo_store3)) {})"
  by (rule r_into_rtranclp [of "idem_step demo_env"], rule demo_calls(4) [OF demo_opens(2)])

lemma demo_reach4:
  "idem_reaches demo_env (demo_world (Down demo_crashed) {} demo_pins demo_out {})
     (demo_world (Up demo_store4) {} demo_pins (demo_out \<union> retained_of (id_state demo_store3)) demo_calls3)"
proof -
  note b = rtranclp.rtrancl_into_rtrancl [OF demo_reopened demo_calls(2) [of _ _ _ _ _ "''b''" 1]]
  note c = rtranclp.rtrancl_into_rtrancl [OF b demo_calls(1) [OF demo_second_reserves(1)]]
  note d = rtranclp.rtrancl_into_rtrancl [OF c [simplified] demo_calls(1) [OF demo_second_reserves(2)]]
  show ?thesis using d by (simp add: demo_calls3_def)
qed

lemma demo_crashed_stored: "ledger_stored demo_codec demo_crashed (Some (entries_map [demo_entry ''a'' 2 DReserved]))"
proof -
  have "ledger_stored demo_codec demo_disk (Some Map.empty)"
    using demo_faithful by (simp add: ledger_stored_def demo_disk_def admissible_def)
  moreover have o: "ledger_open demo_codec False 0 demo_disk = Inr (the (id_durable demo_store0), Inr [])" by code_simp
  ultimately have ok: "writer_ok demo_codec (the (id_durable demo_store0)) Map.empty" using open_sound by blast
  have c: "ledger_checkpoint demo_codec [demo_entry ''a'' 2 DReserved] (the (id_durable demo_store0)) = (Inr (), the (id_durable demo_store2))" by code_simp
  have adm: "admissible (lk_value_len demo_codec) (entries_map [demo_entry ''a'' 2 DReserved])"
  proof -
    have "card {k. (p, k) \<in> dom (entries_map [demo_entry ''a'' 2 DReserved])} \<le> card {IdempotencyKey ''a''}" for p
      by (rule card_mono) (auto simp: entries_map_def demo_entry_def de_id_def split: if_splits)
    then have "card {k. (p, k) \<in> dom (entries_map [demo_entry ''a'' 2 DReserved])} \<le> 256" for p by (rule order_trans) simp
    then show ?thesis by (auto simp: admissible_def entries_map_def entry_ok_def demo_entry_def de_id_def split: if_splits)
  qed
  have "writer_ok demo_codec (the (id_durable demo_store2)) (entries_map [demo_entry ''a'' 2 DReserved])"
    using file_log.checkpoint_ok [OF ok _ adm, of "()"] c by (simp add: file_ledger_def)
  moreover have "wr_disk (the (id_durable demo_store2)) = demo_crashed" by code_simp
  ultimately show ?thesis by (simp add: writer_ok_def)
qed

section \<open>Properties\<close>

text \<open>C2. A key is granted to one caller: a permit is issued only for the request that asked, and only when no
  other permit for its principal and key is out and the key is not bound to a lost permit or to a kept
  outcome.\<close>

theorem idem_grant_fresh:
  assumes "faithful_codec C" "idem_init sys" "idem_reaches (ledger_env C Ops resolve) (idem_start sys) W"
    "iw_system W = Up st" "(rq, pc) \<in> iw_calls W" "\<not> reserve_done pc"
    "reserve_step (ledger_env C Ops resolve) rq timer pc st = (RpDone (Inr (Acquired pm)), st')"
  shows "pm_ref pm = rq_ref rq \<and> pm_id pm \<notin> pm_id ` iw_live W \<and> pm_id pm \<notin> fst ` iw_pins W"
  by (rule file_store.grant_fresh [OF reachable_ok [OF assms(1-3)] assms(4-7)])

theorem idem_grant_fresh_witness:
  "reserve_step demo_env (demo_request ''a'') (0, False, 0) (RpAcquire 1) demo_store1 = (RpDone (Inr (Acquired demo_permit)), demo_store2) \<and>
   pm_ref demo_permit = rq_ref (demo_request ''a'')"
proof -
  have s: "reserve_step demo_env (demo_request ''a'') (0, False, 0) (RpAcquire 1) demo_store1 = (RpDone (Inr (Acquired demo_permit)), demo_store2)"
    using demo_reserves(3) by (simp only: demo_step_def)
  show ?thesis using s idem_grant_fresh [OF demo_faithful demo_init demo_reach1 _ _ _ s] by (simp add: demo_calls1_def)
qed

text \<open>C1. A permit that was out when the process stopped is never granted again: however often the store is
  reopened on that disk, and whatever fails in between, no later call of \<open>reserve\<close> returns a permit for
  its principal and key.\<close>

theorem idem_crash_never_regrants:
  assumes "faithful_codec C" "idem_init sys" "idem_reaches (ledger_env C Ops resolve) (idem_start sys) W"
    "iw_system W = Up st" "pm \<in> iw_live W" "idem_step (ledger_env C Ops resolve) W W1" "iw_system W1 = Down d"
    "idem_reaches (ledger_env C Ops resolve) W1 W2" "iw_system W2 = Up st2" "(rq, pc) \<in> iw_calls W2" "\<not> reserve_done pc"
    "reserve_step (ledger_env C Ops resolve) rq timer pc st2 = (RpDone (Inr (Acquired qm)), st')"
  shows "pm_id qm \<noteq> pm_id pm"
proof -
  have "(pm_id pm, PinUnresolved) \<in> iw_pins W1" using assms(6)
  proof cases
    case (step_crash st1 w)
    then have "pm_durable pm" using store_okD(3) [OF reachable_store [OF assms(1-4)] assms(5)] assms(4) by simp
    then show ?thesis using step_crash assms(5) by (auto simp: lost_pins_def)
  qed (use assms(4,7) in auto)
  then have "pm_id pm \<in> fst ` iw_pins W2" using pins_grow [OF assms(8)] by force
  moreover have "idem_reaches (ledger_env C Ops resolve) (idem_start sys) W2" using assms(3,6,8) by (meson rtranclp.rtrancl_into_rtrancl rtranclp_trans)
  ultimately show ?thesis using file_store.grant_fresh [OF reachable_ok [OF assms(1,2)] assms(9-12)] by metis
qed

theorem idem_crash_never_regrants_witness:
  "reserve_step demo_env (demo_request ''b'') (0, False, 0) (RpAcquire 1) demo_store4 =
     (RpDone (Inr (Acquired (permit_for (demo_request ''b'') (id_state demo_store4) True))), demo_store5) \<and>
   pm_id (permit_for (demo_request ''b'') (id_state demo_store4) True) \<noteq> pm_id demo_permit"
proof -
  have s: "reserve_step demo_env (demo_request ''b'') (0, False, 0) (RpAcquire 1) demo_store4 =
     (RpDone (Inr (Acquired (permit_for (demo_request ''b'') (id_state demo_store4) True))), demo_store5)"
    using demo_second_reserves(3) by (simp only: demo_step_def)
  show ?thesis
    using s idem_crash_never_regrants [OF demo_faithful demo_init demo_reach2 _ _ demo_crash _ demo_reach4 _ _ _ s, where pm = demo_permit]
    by (simp add: demo_calls3_def)
qed

text \<open>C24. The key of a lost permit is never handed out nor answered as free: while the store is writable, a
  lookup of it returns the error that asks for reconciliation, whatever the request's operation and
  digest are.\<close>

theorem idem_lost_key_unresolved:
  assumes "faithful_codec C" "idem_init sys" "idem_reaches (ledger_env C Ops resolve) (idem_start sys) W"
    "iw_system W = Up st" "integrity_issue st = None" "(rq_id rq, PinUnresolved) \<in> iw_pins W"
  shows "fst (reserve_step (ledger_env C Ops resolve) rq timer (RpLookup now) st) = RpDone (Inl (unresolved_error (rq_correlation_id rq)))"
proof -
  obtain r s' where r: "reserve_lookup (ev_outcome (ledger_env C Ops resolve)) rq now (id_state st) = (r, s')" by force
  have "r = LkReturn (Inl (unresolved_error (rq_correlation_id rq)))"
    by (rule lookup_pinned(1) [OF reachable_store [OF assms(1-4)] assms(5,6) r refl])
  then show ?thesis using lookup_step [OF r] by (simp add: lookup_next_def)
qed

theorem idem_lost_key_unresolved_witness:
  "integrity_issue demo_store3 = None \<and>
   fst (reserve_step demo_env (demo_request ''a'') (0, False, 0) (RpLookup 1000) demo_store3) = RpDone (Inl (unresolved_error 7))"
  using idem_lost_key_unresolved [OF demo_faithful demo_init
      rtranclp_trans [OF rtranclp.rtrancl_into_rtrancl [OF demo_reach2 demo_crash] demo_reopened],
      where st = demo_store3 and rq = "demo_request ''a''" and timer = "(0, False, 0)" and now = 1000] demo_durable(3) demo_pm(2)
  by (simp add: demo_pins_def demo_request_def)





text \<open>C26. No caller waits for ever: the channel a caller waits on has been told, or the permit for its own command
  is out, and giving that permit back in any way, by \<open>finish\<close>, by \<open>abandon\<close> or by dropping it, whatever
  the writes do, tells the channel.\<close>

theorem idem_waiter_woken:
  assumes "faithful_codec C" "idem_init sys" "idem_reaches (ledger_env C Ops resolve) (idem_start sys) W"
    "iw_system W = Up st" "(rq, RpWait ch) \<in> iw_calls W" "ss_channels (id_state st) ! ch = UpPending"
  shows "\<exists>pm \<in> iw_live W. pm_ref pm = rq_ref rq \<and>
    (\<forall>outcome now. ss_channels (id_state (snd (idem_finish (ledger_env C Ops resolve) pm outcome now st))) ! ch \<noteq> UpPending) \<and>
    ss_channels (id_state (idem_abandon (ledger_env C Ops resolve) pm st)) ! ch \<noteq> UpPending \<and>
    ss_channels (id_state (drop_permit pm st)) ! ch \<noteq> UpPending"
  by (rule file_store.waiter_woken [OF reachable_ok [OF assms(1-3)] assms(4-6)])

theorem idem_waiter_woken_witness:
  "ss_channels (id_state demo_waiting) ! 0 = UpPending \<and>
   (\<exists>pm. pm_ref pm = rq_ref (demo_request ''a'') \<and> ss_channels (id_state (drop_permit pm demo_waiting)) ! 0 \<noteq> UpPending)"
proof -
  note b = rtranclp.rtrancl_into_rtrancl [OF demo_reach2 demo_calls(2) [of _ _ _ _ _ "''a''" 2]]
  note c = rtranclp.rtrancl_into_rtrancl [OF b demo_calls(1) [OF demo_finishes(2)]]
  note d = rtranclp.rtrancl_into_rtrancl [OF c [simplified] demo_calls(1) [OF demo_finishes(3)]]
  have p: "ss_channels (id_state demo_waiting) ! 0 = UpPending" by code_simp
  show ?thesis using p idem_waiter_woken [OF demo_faithful demo_init d [simplified] _ _ p, where rq = "demo_request ''a''"] by auto
qed

text \<open>C27. Every reachable store is well formed: one bucket for a principal, one entry for a key, buckets and the
  whole store within their capacities, reservations without an expiry and with a channel of the store,
  and at most one permit out for a key.\<close>

theorem idem_store_wf:
  assumes "faithful_codec C" "idem_init sys" "idem_reaches (ledger_env C Ops resolve) (idem_start sys) W" "iw_system W = Up st"
  shows "distinct (map fst (ss_entries (id_state st))) \<and> distinct (map en_key (bucket_of (id_state st) p)) \<and>
    length (bucket_of (id_state st) p) \<le> id_per_principal_capacity st \<and> entry_count (id_state st) \<le> id_global_capacity st \<and>
    (\<forall>e \<in> set (bucket_of (id_state st) p). \<forall>gen ch. en_state e = EReserved gen ch \<longrightarrow>
       en_expires e = None \<and> ch < length (ss_channels (id_state st))) \<and> inj_on pm_id (iw_live W)"
proof -
  note M = mem_okD [OF store_okD(1) [OF reachable_store [OF assms]]]
  have "view_ok (id_per_principal_capacity st) (id_global_capacity st) (length (ss_channels (id_state st))) (view (id_state st))"
    using M(1) by (simp add: state_ok_def)
  then have "length (bucket_of (id_state st) p) \<le> id_per_principal_capacity st" "entry_count (id_state st) \<le> id_global_capacity st"
    using length_bucket_view [OF M(5), of p] entry_count_view [OF M(5)] by (simp_all add: view_ok_def)
  moreover have "en_expires e = None \<and> ch < length (ss_channels (id_state st))"
    if "e \<in> set (bucket_of (id_state st) p)" "en_state e = EReserved gen ch" for e gen ch
  proof -
    have "view (id_state st) (p, en_key e) = Some e" using that(1) M(5) by (simp add: view_Some)
    from state_ok_entry [OF M(1) this] that(2) show ?thesis by (auto simp: coherent_def)
  qed
  ultimately show ?thesis using M(5) live_okD(1) [OF M(2)] by (auto simp: wf_state_def)
qed

theorem idem_store_wf_witness:
  "entry_count (id_state demo_store2) \<le> id_global_capacity demo_store2 \<and> inj_on pm_id {demo_permit}"
  using idem_store_wf [OF demo_faithful demo_init demo_reach2, of demo_store2] by simp

text \<open>C28. The eviction loops end, and by their own conditions: the number of entries is fuel enough, and after
  them there is room for the principal and in the store, or nothing is left that may be evicted.\<close>

theorem idem_make_room_exits:
  assumes "faithful_codec C" "idem_init sys" "idem_reaches (ledger_env C Ops resolve) (idem_start sys) W" "iw_system W = Up st"
    and s_def: "s = make_room p now st"
  shows "(length (bucket_of s p) < id_per_principal_capacity st \<or> (\<forall>e \<in> set (bucket_of s p). \<not> entry_is_evictable (en_state e))) \<and>
    (entry_count s < id_global_capacity st \<or> (\<forall>q. \<forall>e \<in> set (bucket_of s q). \<not> entry_is_evictable (en_state e)))"
proof -
  note M = mem_okD [OF store_okD(1) [OF reachable_store [OF assms(1-4)]]]
  note c = shrinks_cleanup [OF M(5,6), of now]
  define s1 where "s1 = make_principal_room p (id_per_principal_capacity st) (cleanup_expired now (id_state st))"
  note h = shrinks_principal_room [OF shrinksD(1,3) [OF c], of p "id_per_principal_capacity st", folded s1_def]
  have s: "s = make_global_room (id_global_capacity st) s1" by (simp add: s_def make_room_def s1_def)
  have g: "shrinks s1 s" unfolding s make_global_room_def by (rule shrinks_evict_global [OF shrinksD(1,3) [OF h]])
  have "length (bucket_of s p) \<le> length (bucket_of s1 p)" "set (bucket_of s p) \<subseteq> set (bucket_of s1 p)"
    using shrinksD(5) [OF g, of p] shrinks_bucket [OF g shrinksD(1) [OF h]] by auto
  moreover have "length (bucket_of s1 p) < id_per_principal_capacity st \<or> (\<forall>e \<in> set (bucket_of s1 p). \<not> entry_is_evictable (en_state e))"
    unfolding s1_def by (rule principal_room_exit [OF shrinksD(1,3) [OF c]])
  moreover have "entry_count s < id_global_capacity st \<or> (\<forall>q. \<forall>e \<in> set (bucket_of s q). \<not> entry_is_evictable (en_state e))"
    using evict_global_exit [OF shrinksD(1,3) [OF h] order_refl, of "id_global_capacity st"] no_candidates [OF shrinksD(1) [OF g]]
    by (auto simp: s make_global_room_def)
  ultimately show ?thesis by fastforce
qed

theorem idem_make_room_exits_witness:
  "entry_count (make_room (PrincipalId 1) 0 demo_store2) < id_global_capacity demo_store2 \<or>
   (\<forall>q. \<forall>e \<in> set (bucket_of (make_room (PrincipalId 1) 0 demo_store2) q). \<not> entry_is_evictable (en_state e))"
  using idem_make_room_exits [OF demo_faithful demo_init demo_reach2 _ refl, of demo_store2 "PrincipalId 1" 0] by simp

text \<open>C29. Converting the ledger to the old format loses no key and frees none: every entry keeps its key, its
  operation and its digest, a retained outcome is kept, and a reservation becomes unresolved. Whatever
  fails, the path then holds the old map or the converted one, and the conversion reports success only
  when it holds the converted one.\<close>

theorem idem_downgrade_keeps:
  assumes "ledger_stored C d (Some m)" "downgrade_idempotency_ledger C held now d = (r, d')"
  shows "(ledger_stored C d' (Some m) \<and> r \<noteq> Inr True \<or> ledger_stored C d' (Some (downgrade_map m))) \<and>
    (\<forall>pk de. m pk = Some de \<longrightarrow> (\<exists>de'. downgrade_map m pk = Some de' \<and> de_operation de' = de_operation de \<and> de_sha de' = de_sha de \<and>
       (case de_state de of DRetained v \<Rightarrow> de' = de | _ \<Rightarrow> de_state de' = DUnresolved)))"
proof
  show "\<forall>pk de. m pk = Some de \<longrightarrow> (\<exists>de'. downgrade_map m pk = Some de' \<and> de_operation de' = de_operation de \<and> de_sha de' = de_sha de \<and>
       (case de_state de of DRetained v \<Rightarrow> de' = de | _ \<Rightarrow> de_state de' = DUnresolved))"
    by (simp add: downgrade_map_def downgrade_entry_def split: durable_state.splits)
  have adm: "admissible (lk_value_len C) m" and fc: "faithful_codec C" using assms(1) by (auto simp: ledger_stored_def)
  show "ledger_stored C d' (Some m) \<and> r \<noteq> Inr True \<or> ledger_stored C d' (Some (downgrade_map m))"
    using assms(2)
  proof (cases rule: downgrade_cases)
    case kept
    then show ?thesis using ledger_stored_cong [of d' d C] assms(1) by simp
  next
    case (replaced d1 d2 l bs d3 r3)
    have "ledger_stored C d1 (Some m)" using ledger_stored_cong [OF replaced(2)] assms(1) by simp
    then obtain bs0 where "loaded_ok C bs0 m l" using ledger_load_stored [OF _ replaced(1), of m] by auto
    then have l: "distinct (map de_id (lo_entries l))" "entries_map (lo_entries l) = m" by (auto simp: loaded_ok_def)
    note dg = downgrade_entries [OF l(1)]
    from ledger_replace_file [OF replaced(5)] show ?thesis
    proof
      assume "dk_file d' = Some bs"
      from snapshot_stored [OF fc replaced(4) dg(1) _ this] show ?thesis using downgrade_admissible [OF adm] dg(2) l(2) by simp
    next
      assume "(\<exists>e. r3 = Inl e) \<and> dk_file d' = dk_file d3"
      then show ?thesis using ledger_stored_cong [of d' d C] assms(1) replaced(3,6) by auto
    qed
  qed
qed

theorem idem_downgrade_keeps_witness:
  "fst (downgrade_idempotency_ledger demo_codec False 0 demo_crashed) = Inr True \<and>
   ledger_stored demo_codec (snd (downgrade_idempotency_ledger demo_codec False 0 demo_crashed))
     (Some (downgrade_map (entries_map [demo_entry ''a'' 2 DReserved])))"
proof -
  have d: "ledger_stored demo_codec demo_crashed (Some (entries_map [demo_entry ''a'' 2 DReserved]))" by (rule demo_crashed_stored)
  have r: "fst (downgrade_idempotency_ledger demo_codec False 0 demo_crashed) = Inr True" by code_simp
  obtain d' where d': "downgrade_idempotency_ledger demo_codec False 0 demo_crashed = (Inr True, d')"
    using r by (cases "downgrade_idempotency_ledger demo_codec False 0 demo_crashed") auto
  show ?thesis using idem_downgrade_keeps [OF d d'] d' by simp
qed

end
