(* ===== verification/Directory.thy ===== *)
theory Directory
  imports Disk Ledger
begin

text \<open>
  A directory as the file-based stores see it: names that lead to files, files that stay readable
  through a handle after their name is gone, and the outcomes of the calls to come. A handle and the
  identity of a file are its inode number.
\<close>

section \<open>Files and names\<close>

datatype io_kind = IoNotFound | IoAlreadyExists | IoUnexpectedEof | IoInvalidData | IoInvalidInput | IoOther

datatype file_kind = RegularFile | SymbolicLink | DirectoryFile | SpecialFile

record node =
  nd_kind :: file_kind
  nd_bytes :: bytes
  nd_links :: nat
  nd_modified :: time

text \<open>\<open>fs_clock\<close> is the time a write stamps on a file; it need not advance between two writes. A call that
  fails for a reason outside the directory does so as the list \<open>fs_io\<close> says.\<close>

record directory =
  fs_entries :: "(string \<times> nat) list"
  fs_nodes :: "nat \<Rightarrow> node"
  fs_next :: nat
  fs_clock :: time
  fs_io :: "io_outcome list"

definition fs_outcome :: "directory \<Rightarrow> io_outcome \<times> directory" where
  "fs_outcome d = (case fs_io d of [] \<Rightarrow> (IoOk, d) | x # xs \<Rightarrow> (x, d\<lparr>fs_io := xs\<rparr>))"

definition fs_call :: "directory \<Rightarrow> (io_kind + unit) \<times> directory" where
  "fs_call d = (case fs_outcome d of (IoOk, d') \<Rightarrow> (Inr (), d') | (IoErr _, d') \<Rightarrow> (Inl IoOther, d'))"

definition name_of :: "directory \<Rightarrow> string \<Rightarrow> nat option" where
  "name_of d = map_of (fs_entries d)"

section \<open>Calls\<close>

text \<open>\<open>File::metadata\<close> and \<open>symlink_metadata\<close>.\<close>

definition fs_metadata :: "nat \<Rightarrow> directory \<Rightarrow> (io_kind + node) \<times> directory" where
  "fs_metadata i d = and_then (fs_call d) (\<lambda>_ d. (Inr (fs_nodes d i), d))"

definition symlink_metadata :: "string \<Rightarrow> directory \<Rightarrow> (io_kind + node) \<times> directory" where
  "symlink_metadata name d =
     and_then (fs_call d) (\<lambda>_ d. case name_of d name of
         None \<Rightarrow> (Inl IoNotFound, d) | Some i \<Rightarrow> (Inr (fs_nodes d i), d))"

definition create_file :: "string \<Rightarrow> directory \<Rightarrow> nat \<times> directory" where
  "create_file name d =
     (fs_next d,
      d\<lparr>fs_entries := AList.update name (fs_next d) (fs_entries d), fs_next := fs_next d + 1,
        fs_nodes := (fs_nodes d)(fs_next d :=
          \<lparr>nd_kind = RegularFile, nd_bytes = [], nd_links = 1, nd_modified = fs_clock d\<rparr>)\<rparr>)"

text \<open>Opening without following links: to read, to append (creating the file if there is none), and
  exclusively for a new file.\<close>

definition open_read :: "string \<Rightarrow> directory \<Rightarrow> (io_kind + nat) \<times> directory" where
  "open_read name d =
     and_then (fs_call d) (\<lambda>_ d. case name_of d name of
         None \<Rightarrow> (Inl IoNotFound, d)
       | Some i \<Rightarrow> (if nd_kind (fs_nodes d i) = SymbolicLink then Inl IoOther else Inr i, d))"

definition open_appending :: "string \<Rightarrow> directory \<Rightarrow> (io_kind + nat) \<times> directory" where
  "open_appending name d =
     and_then (fs_call d) (\<lambda>_ d. case name_of d name of
         None \<Rightarrow> (let (i, d') = create_file name d in (Inr i, d'))
       | Some i \<Rightarrow> (if nd_kind (fs_nodes d i) \<in> {SymbolicLink, DirectoryFile} then Inl IoOther else Inr i, d))"

definition open_new :: "string \<Rightarrow> directory \<Rightarrow> (io_kind + nat) \<times> directory" where
  "open_new name d =
     and_then (fs_call d) (\<lambda>_ d. case name_of d name of
         None \<Rightarrow> (let (i, d') = create_file name d in (Inr i, d'))
       | Some i \<Rightarrow> (Inl IoAlreadyExists, d))"

text \<open>Writing at the end of a file. A write that fails may have written a part.\<close>

definition extend_file :: "nat \<Rightarrow> bytes \<Rightarrow> directory \<Rightarrow> directory" where
  "extend_file i bs d =
     (if bs = [] then d
      else d\<lparr>fs_nodes := (fs_nodes d)(i := (fs_nodes d i)\<lparr>nd_bytes := nd_bytes (fs_nodes d i) @ bs,
                                                       nd_modified := fs_clock d\<rparr>)\<rparr>)"

definition fs_write_all :: "nat \<Rightarrow> bytes \<Rightarrow> directory \<Rightarrow> (io_kind + unit) \<times> directory" where
  "fs_write_all i bs d =
     (case fs_outcome d of
        (IoOk, d') \<Rightarrow> (Inr (), extend_file i bs d')
      | (IoErr n, d') \<Rightarrow> (Inl IoOther, extend_file i (take n bs) d'))"

text \<open>\<open>rename\<close>: atomic; a file that loses its name stays readable through its handles.\<close>

definition fs_rename :: "string \<Rightarrow> string \<Rightarrow> directory \<Rightarrow> (io_kind + unit) \<times> directory" where
  "fs_rename old new d =
     and_then (fs_call d) (\<lambda>_ d. case name_of d old of
         None \<Rightarrow> (Inl IoNotFound, d)
       | Some i \<Rightarrow>
           (case name_of d new of
              None \<Rightarrow> (Inr (), d\<lparr>fs_entries := AList.update new i (AList.delete old (fs_entries d))\<rparr>)
            | Some j \<Rightarrow>
                if j = i then (Inr (), d)
                else if nd_kind (fs_nodes d j) = DirectoryFile then (Inl IoOther, d)
                else (Inr (), d\<lparr>fs_entries := AList.update new i (AList.delete old (fs_entries d)),
                               fs_nodes := (fs_nodes d)(j := (fs_nodes d j)\<lparr>nd_links := nd_links (fs_nodes d j) - 1\<rparr>)\<rparr>)))"

definition fs_remove :: "string \<Rightarrow> directory \<Rightarrow> (io_kind + unit) \<times> directory" where
  "fs_remove name d =
     and_then (fs_call d) (\<lambda>_ d. case name_of d name of
         None \<Rightarrow> (Inl IoNotFound, d)
       | Some i \<Rightarrow>
           if nd_kind (fs_nodes d i) = DirectoryFile then (Inl IoOther, d)
           else (Inr (), d\<lparr>fs_entries := AList.delete name (fs_entries d),
                          fs_nodes := (fs_nodes d)(i := (fs_nodes d i)\<lparr>nd_links := nd_links (fs_nodes d i) - 1\<rparr>)\<rparr>))"

text \<open>A buffered reader over a file from its start; a fault cuts the stream.\<close>

definition open_reader :: "nat \<Rightarrow> directory \<Rightarrow> reader \<times> directory" where
  "open_reader i d =
     (case fs_outcome d of
        (IoOk, d') \<Rightarrow> (\<lparr>rd_bytes = nd_bytes (fs_nodes d i), rd_fault = False\<rparr>, d')
      | (IoErr n, d') \<Rightarrow> (\<lparr>rd_bytes = take n (nd_bytes (fs_nodes d i)), rd_fault = True\<rparr>, d'))"

text \<open>Opening the directory itself and syncing it.\<close>

definition sync_directory :: "directory \<Rightarrow> (io_kind + unit) \<times> directory" where
  "sync_directory d = and_then (fs_call d) (\<lambda>_ d. fs_call d)"

section \<open>Directories without faults\<close>

definition wf_dir :: "directory \<Rightarrow> bool" where
  "wf_dir d \<longleftrightarrow> distinct (map fst (fs_entries d)) \<and> (\<forall>(name, i) \<in> set (fs_entries d). i < fs_next d)"

lemma fs_outcome_frame [simp]:
  "fs_entries (snd (fs_outcome d)) = fs_entries d" "fs_nodes (snd (fs_outcome d)) = fs_nodes d"
  "fs_next (snd (fs_outcome d)) = fs_next d" "fs_clock (snd (fs_outcome d)) = fs_clock d"
  by (simp_all add: fs_outcome_def split: list.splits)

lemma fs_outcome_clean [simp]: "fs_io d = [] \<Longrightarrow> fs_outcome d = (IoOk, d)"
  by (simp add: fs_outcome_def)

lemma fs_call_clean [simp]: "fs_io d = [] \<Longrightarrow> fs_call d = (Inr (), d)"
  by (simp add: fs_call_def)

section \<open>The effect of a call\<close>

text \<open>Two directories that differ at most in the outcomes of the calls to come.\<close>

definition same_dir :: "directory \<Rightarrow> directory \<Rightarrow> bool" where
  "same_dir d d' \<longleftrightarrow>
     fs_entries d' = fs_entries d \<and> fs_nodes d' = fs_nodes d \<and> fs_next d' = fs_next d \<and> fs_clock d' = fs_clock d"

lemma same_dir_refl [simp]: "same_dir d d"
  by (simp add: same_dir_def)

lemma same_dir_trans [trans]: "same_dir d e \<Longrightarrow> same_dir e f \<Longrightarrow> same_dir d f"
  by (simp add: same_dir_def)

lemma fs_outcome_same: "fs_outcome d = (r, d') \<Longrightarrow> same_dir d d'"
  using fs_outcome_frame [of d] by (simp add: same_dir_def)

lemma fs_call_effect:
  assumes "fs_call d = (r, d')"
  shows "same_dir d d'" "r = Inr () \<or> r = Inl IoOther"
  using assms fs_outcome_same [of d "fst (fs_outcome d)"]
  by (auto simp: fs_call_def split: prod.splits io_outcome.splits)

lemma name_of_same: "same_dir d d' \<Longrightarrow> name_of d' = name_of d"
  by (simp add: same_dir_def name_of_def)

lemma fs_metadata_effect:
  assumes "fs_metadata i d = (r, d')"
  shows "same_dir d d'" "r = Inr (fs_nodes d i) \<or> r = Inl IoOther"
  using assms fs_call_effect [of d "fst (fs_call d)"]
  by (auto simp: fs_metadata_def and_then_def same_dir_def split: prod.splits sum.splits)

lemma symlink_metadata_effect:
  assumes "symlink_metadata n d = (r, d')"
  shows "same_dir d d'"
    "r = (case name_of d n of None \<Rightarrow> Inl IoNotFound | Some i \<Rightarrow> Inr (fs_nodes d i)) \<or> r = Inl IoOther"
  using assms fs_call_effect [of d "fst (fs_call d)"] name_of_same [of d "snd (fs_call d)"]
  by (auto simp: symlink_metadata_def and_then_def same_dir_def split: prod.splits sum.splits option.splits)

lemma open_read_effect:
  assumes "open_read n d = (r, d')"
  shows "same_dir d d'" "r = Inr i \<Longrightarrow> name_of d n = Some i \<and> nd_kind (fs_nodes d i) \<noteq> SymbolicLink"
    "r = Inl IoNotFound \<Longrightarrow> name_of d n = None"
  using assms fs_call_effect [of d "fst (fs_call d)"] name_of_same [of d "snd (fs_call d)"]
  by (auto simp: open_read_def and_then_def same_dir_def split: prod.splits sum.splits option.splits if_splits)

text \<open>A directory in which a file was made under a name that led nowhere.\<close>

definition created :: "string \<Rightarrow> directory \<Rightarrow> directory \<Rightarrow> bool" where
  "created n d d' \<longleftrightarrow>
     name_of d n = None \<and> fs_entries d' = AList.update n (fs_next d) (fs_entries d) \<and> fs_next d' = fs_next d + 1
     \<and> fs_clock d' = fs_clock d
     \<and> fs_nodes d' = (fs_nodes d)(fs_next d := \<lparr>nd_kind = RegularFile, nd_bytes = [], nd_links = 1, nd_modified = fs_clock d\<rparr>)"

lemma created_name: "created n d d' \<Longrightarrow> name_of d' = (name_of d)(n \<mapsto> fs_next d)"
  by (simp add: created_def name_of_def hmap_simps)

lemma create_file_created: "same_dir d e \<Longrightarrow> name_of d n = None \<Longrightarrow> create_file n e = (i, d') \<Longrightarrow> i = fs_next d \<and> created n d d'"
  by (auto simp: create_file_def created_def same_dir_def)

lemma open_new_effect:
  assumes "open_new n d = (r, d')"
  shows "(\<exists>e. r = Inl e \<and> same_dir d d') \<or> r = Inr (fs_next d) \<and> created n d d'"
proof -
  obtain q e where q: "fs_call d = (q, e)" by (cases "fs_call d")
  note e = fs_call_effect [OF q]
  from assms q e name_of_same [OF e(1)] show ?thesis
    by (auto simp: open_new_def split: option.splits prod.splits dest: create_file_created)
qed

lemma open_appending_effect:
  assumes "open_appending n d = (r, d')"
  shows "(\<exists>e. r = Inl e \<and> same_dir d d')
         \<or> (\<exists>i. r = Inr i \<and> name_of d n = Some i \<and> same_dir d d' \<and> nd_kind (fs_nodes d i) \<notin> {SymbolicLink, DirectoryFile})
         \<or> r = Inr (fs_next d) \<and> created n d d'"
proof -
  obtain q e where q: "fs_call d = (q, e)" by (cases "fs_call d")
  note e = fs_call_effect [OF q]
  have "fs_nodes e = fs_nodes d" using e(1) by (simp add: same_dir_def)
  with assms q e name_of_same [OF e(1)] show ?thesis
    by (auto simp: open_appending_def split: option.splits prod.splits if_splits dest: create_file_created)
qed

text \<open>A directory in which bytes were added to a file.\<close>

definition extended :: "nat \<Rightarrow> bytes \<Rightarrow> directory \<Rightarrow> directory \<Rightarrow> bool" where
  "extended i bs d d' \<longleftrightarrow> same_dir (extend_file i bs d) d'"

lemma extend_file_Nil [simp]: "extend_file i [] d = d"
  by (simp add: extend_file_def)

lemma extend_file_nodes:
  "nd_bytes (fs_nodes (extend_file i bs d) k) = nd_bytes (fs_nodes d k) @ (if k = i then bs else [])"
  "nd_kind (fs_nodes (extend_file i bs d) k) = nd_kind (fs_nodes d k)"
  "nd_links (fs_nodes (extend_file i bs d) k) = nd_links (fs_nodes d k)"
  "k \<noteq> i \<Longrightarrow> nd_modified (fs_nodes (extend_file i bs d) k) = nd_modified (fs_nodes d k)"
  by (simp_all add: extend_file_def)

lemma extend_file_frame [simp]:
  "fs_entries (extend_file i bs d) = fs_entries d" "fs_next (extend_file i bs d) = fs_next d"
  "fs_clock (extend_file i bs d) = fs_clock d" "fs_io (extend_file i bs d) = fs_io d"
  by (simp_all add: extend_file_def)

lemma extendedD:
  assumes "extended i bs d d'"
  shows "fs_entries d' = fs_entries d" "fs_next d' = fs_next d" "fs_clock d' = fs_clock d" "name_of d' = name_of d"
    "nd_bytes (fs_nodes d' k) = nd_bytes (fs_nodes d k) @ (if k = i then bs else [])"
    "nd_kind (fs_nodes d' k) = nd_kind (fs_nodes d k)" "nd_links (fs_nodes d' k) = nd_links (fs_nodes d k)"
    "k \<noteq> i \<Longrightarrow> fs_nodes d' k = fs_nodes d k"
  using assms by (simp_all add: extended_def same_dir_def extend_file_nodes name_of_def)

lemma fs_write_all_effect:
  assumes "fs_write_all i bs d = (r, d')"
  shows "r = Inr () \<and> extended i bs d d' \<or> r = Inl IoOther \<and> (\<exists>n. extended i (take n bs) d d')"
proof -
  obtain q e where q: "fs_outcome d = (q, e)" by (cases "fs_outcome d")
  have e: "same_dir d e" by (rule fs_outcome_same [OF q])
  have "extended i cs d (extend_file i cs e)" for cs
    using e by (simp add: extended_def same_dir_def extend_file_def)
  with assms q show ?thesis by (cases q) (auto simp: fs_write_all_def)
qed

text \<open>A rename to a name that led nowhere, or over another file.\<close>

definition renamed :: "string \<Rightarrow> string \<Rightarrow> nat \<Rightarrow> directory \<Rightarrow> directory \<Rightarrow> bool" where
  "renamed old new i d d' \<longleftrightarrow>
     name_of d old = Some i \<and> fs_entries d' = AList.update new i (AList.delete old (fs_entries d))
     \<and> fs_next d' = fs_next d \<and> fs_clock d' = fs_clock d
     \<and> (\<forall>k. nd_bytes (fs_nodes d' k) = nd_bytes (fs_nodes d k) \<and> nd_kind (fs_nodes d' k) = nd_kind (fs_nodes d k)
          \<and> nd_modified (fs_nodes d' k) = nd_modified (fs_nodes d k)
          \<and> (name_of d new \<noteq> Some k \<longrightarrow> fs_nodes d' k = fs_nodes d k))"

lemma renamed_name: "renamed old new i d d' \<Longrightarrow> name_of d' = (name_of d)(old := None, new \<mapsto> i)"
  by (simp add: renamed_def name_of_def hmap_simps)

lemma fs_rename_effect:
  assumes "fs_rename old new d = (r, d')" "name_of d new \<noteq> name_of d old"
  shows "(\<exists>e. r = Inl e \<and> same_dir d d') \<or> r = Inr () \<and> (\<exists>i. renamed old new i d d')"
proof -
  obtain q e where q: "fs_call d = (q, e)" by (cases "fs_call d")
  note e = fs_call_effect [OF q]
  from assms q e(2) name_of_same [OF e(1)] e(1) show ?thesis
    by (auto simp: fs_rename_def renamed_def same_dir_def split: option.splits if_splits)
qed

lemma sync_directory_effect: "sync_directory d = (r, d') \<Longrightarrow> same_dir d d'"
  using fs_call_effect [of d "fst (fs_call d)"] fs_call_effect [of "snd (fs_call d)" r d']
  by (auto simp: sync_directory_def and_then_def same_dir_def split: prod.splits sum.splits)

lemma open_reader_effect:
  assumes "open_reader i d = (rd, d')"
  shows "same_dir d d'" "\<not> rd_fault rd \<Longrightarrow> rd_bytes rd = nd_bytes (fs_nodes d i)"
  using assms fs_outcome_same [of d "fst (fs_outcome d)"]
  by (auto simp: open_reader_def split: prod.splits io_outcome.splits)

text \<open>Removing a name.\<close>

definition removed :: "string \<Rightarrow> directory \<Rightarrow> directory \<Rightarrow> bool" where
  "removed n d d' \<longleftrightarrow>
     fs_entries d' = AList.delete n (fs_entries d) \<and> fs_next d' = fs_next d \<and> fs_clock d' = fs_clock d
     \<and> (\<forall>k. nd_bytes (fs_nodes d' k) = nd_bytes (fs_nodes d k) \<and> nd_kind (fs_nodes d' k) = nd_kind (fs_nodes d k)
          \<and> (name_of d n \<noteq> Some k \<longrightarrow> fs_nodes d' k = fs_nodes d k))"

lemma removed_name: "removed n d d' \<Longrightarrow> name_of d' = (name_of d)(n := None)"
  by (simp add: removed_def name_of_def hmap_simps)

lemma fs_remove_effect:
  assumes "fs_remove n d = (r, d')"
  shows "(\<exists>e. r = Inl e \<and> same_dir d d') \<or> r = Inr () \<and> name_of d n \<noteq> None \<and> removed n d d'"
proof -
  obtain q e where q: "fs_call d = (q, e)" by (cases "fs_call d")
  note e = fs_call_effect [OF q]
  from assms q e(2) name_of_same [OF e(1)] e(1) show ?thesis
    by (auto simp: fs_remove_def removed_def same_dir_def split: option.splits if_splits)
qed

end
