(* ===== verification/Durable_File.thy ===== *)
theory Durable_File
  imports Directory
begin

text \<open>
  The helpers of crate \<open>durable-file\<close>: a serialisation buffer with a byte limit, the checks on opened
  files, and the replacement of a file by a new one that is either complete or absent.
\<close>

section \<open>The bounded buffer\<close>

record bounded_buffer =
  bb_bytes :: bytes
  bb_max_bytes :: nat

definition buffer_new :: "nat \<Rightarrow> bounded_buffer" where
  "buffer_new max_bytes = \<lparr>bb_bytes = [], bb_max_bytes = max_bytes\<rparr>"

definition buffer_write :: "bytes \<Rightarrow> bounded_buffer \<Rightarrow> io_kind + bounded_buffer" where
  "buffer_write bs b =
     (if bb_max_bytes b - length (bb_bytes b) < length bs then Inl IoInvalidData
      else Inr (b\<lparr>bb_bytes := bb_bytes b @ bs\<rparr>))"

text \<open>A serialiser writes its output in pieces and stops at the first that is refused.\<close>

fun buffer_writes :: "bytes list \<Rightarrow> bounded_buffer \<Rightarrow> io_kind + bounded_buffer" where
  "buffer_writes [] b = Inr b"
| "buffer_writes (c # cs) b = (case buffer_write c b of Inl e \<Rightarrow> Inl e | Inr b' \<Rightarrow> buffer_writes cs b')"

lemma buffer_writes_eq:
  "length (bb_bytes b) \<le> bb_max_bytes b \<Longrightarrow>
   buffer_writes cs b =
     (if length (bb_bytes b) + length (concat cs) \<le> bb_max_bytes b
      then Inr (b\<lparr>bb_bytes := bb_bytes b @ concat cs\<rparr>) else Inl IoInvalidData)"
  by (induction cs arbitrary: b) (auto simp: buffer_write_def)

section \<open>Checks on files\<close>

definition require_regular_file :: "node \<Rightarrow> io_kind + unit" where
  "require_regular_file nd = (if nd_kind nd = RegularFile then Inr () else Inl IoInvalidData)"

definition require_sole_hard_link :: "node \<Rightarrow> io_kind + unit" where
  "require_sole_hard_link nd = (if nd_links nd \<noteq> 1 then Inl IoInvalidData else Inr ())"

section \<open>Replacing a file\<close>

definition replace_owned :: "nat \<Rightarrow> string \<Rightarrow> string \<Rightarrow> bytes \<Rightarrow> directory \<Rightarrow> (io_kind + unit) \<times> directory" where
  "replace_owned h temporary destination bs d =
     and_then (fs_write_all h bs d) (\<lambda>_ d.
     and_then (fs_call d) (\<lambda>_ d.
     and_then (fs_rename temporary destination d) (\<lambda>_ d.
     sync_directory d)))"

definition replace_exclusive :: "string \<Rightarrow> string \<Rightarrow> bytes \<Rightarrow> directory \<Rightarrow> (io_kind + unit) \<times> directory" where
  "replace_exclusive temporary destination bs d =
     and_then (open_new temporary d) (\<lambda>h d.
     case replace_owned h temporary destination bs d of
       (Inl e, d') \<Rightarrow> (Inl e, snd (fs_remove temporary d'))
     | (Inr _, d') \<Rightarrow> (Inr (), d'))"

section \<open>What a replacement leaves\<close>

text \<open>The new file while it is under its temporary name, and after the rename.\<close>

definition staged :: "string \<Rightarrow> directory \<Rightarrow> directory \<Rightarrow> bool" where
  "staged t d d' \<longleftrightarrow>
     name_of d t = None \<and> name_of d' = (name_of d)(t \<mapsto> fs_next d)
     \<and> nd_kind (fs_nodes d' (fs_next d)) = RegularFile \<and> nd_links (fs_nodes d' (fs_next d)) = 1
     \<and> (\<forall>i < fs_next d. fs_nodes d' i = fs_nodes d i)"

definition placed :: "string \<Rightarrow> string \<Rightarrow> bytes \<Rightarrow> directory \<Rightarrow> directory \<Rightarrow> bool" where
  "placed t dst bs d d' \<longleftrightarrow>
     name_of d t = None \<and> name_of d' = (name_of d)(dst \<mapsto> fs_next d)
     \<and> nd_kind (fs_nodes d' (fs_next d)) = RegularFile \<and> nd_links (fs_nodes d' (fs_next d)) = 1
     \<and> nd_bytes (fs_nodes d' (fs_next d)) = bs
     \<and> (\<forall>i < fs_next d. nd_bytes (fs_nodes d' i) = nd_bytes (fs_nodes d i) \<and> nd_kind (fs_nodes d' i) = nd_kind (fs_nodes d i))"

lemma wf_dir_name: "wf_dir d \<Longrightarrow> name_of d n = Some i \<Longrightarrow> i < fs_next d"
  by (auto simp: wf_dir_def name_of_def dest: map_of_SomeD)

lemma staged_same: "staged t d e \<Longrightarrow> same_dir e f \<Longrightarrow> staged t d f"
  by (simp add: staged_def name_of_same) (simp add: same_dir_def)

lemma placed_same: "placed t dst bs d e \<Longrightarrow> same_dir e f \<Longrightarrow> placed t dst bs d f"
  by (simp add: placed_def name_of_same) (simp add: same_dir_def)

lemma staged_extended: "staged t d e \<Longrightarrow> extended (fs_next d) bs e f \<Longrightarrow> staged t d f"
  using extendedD(4,6,7,8) [of "fs_next d" bs e f] by (simp add: staged_def)

lemma staged_renamed:
  assumes "staged t d e" "t \<noteq> dst" "wf_dir d" "nd_bytes (fs_nodes e (fs_next d)) = bs" "fs_rename t dst e = (r, f)"
  shows "(\<exists>k. r = Inl k \<and> staged t d f) \<or> r = Inr () \<and> placed t dst bs d f"
proof -
  have n: "name_of e dst \<noteq> name_of e t" "name_of e t = Some (fs_next d)" "name_of e dst = name_of d dst" "name_of d dst \<noteq> Some (fs_next d)"
    using assms(1,2) wf_dir_name [OF assms(3)] by (auto simp: staged_def)
  from fs_rename_effect [OF assms(5) n(1)] show ?thesis
  proof (elim disjE exE conjE)
    fix k assume "r = Inl k" "same_dir e f" then show ?thesis using staged_same [OF assms(1)] by blast
  next
    fix i assume r: "r = Inr ()" and f: "renamed t dst i e f"
    have "i = fs_next d" using f n by (simp add: renamed_def)
    moreover have "fs_nodes f (fs_next d) = fs_nodes e (fs_next d)" using f n by (simp add: renamed_def)
    ultimately have "placed t dst bs d f"
      using assms(1,2,4) renamed_name [OF f] f by (auto simp: placed_def staged_def renamed_def)
    with r show ?thesis by blast
  qed
qed

text \<open>The attempt that owns the new file either has it placed, or leaves it under its temporary name.\<close>

lemma replace_owned_effect:
  assumes "staged t d e" "t \<noteq> dst" "wf_dir d" "nd_bytes (fs_nodes e (fs_next d)) = []"
    "replace_owned (fs_next d) t dst bs e = (r, f)"
  shows "placed t dst bs d f \<or> (\<exists>k. r = Inl k) \<and> staged t d f"
proof -
  obtain r1 e1 where 1: "fs_write_all (fs_next d) bs e = (r1, e1)" by (cases "fs_write_all (fs_next d) bs e")
  obtain r2 e2 where 2: "fs_call e1 = (r2, e2)" by (cases "fs_call e1")
  obtain r3 e3 where 3: "fs_rename t dst e2 = (r3, e3)" by (cases "fs_rename t dst e2")
  show ?thesis
  proof (cases r1)
    case (Inl k)
    with fs_write_all_effect [OF 1] obtain n where "extended (fs_next d) (take n bs) e e1" by auto
    with staged_extended [OF assms(1)] assms(5) 1 Inl show ?thesis by (auto simp: replace_owned_def)
  next
    case (Inr u)
    with fs_write_all_effect [OF 1] have x: "extended (fs_next d) bs e e1" by auto
    have s: "staged t d e2" "nd_bytes (fs_nodes e2 (fs_next d)) = bs"
      using staged_same [OF staged_extended [OF assms(1) x] fs_call_effect(1) [OF 2]] fs_call_effect(1) [OF 2]
        extendedD(5) [OF x, of "fs_next d"] assms(4) by (auto simp: same_dir_def)
    show ?thesis
    proof (cases r2)
      case (Inl k)
      with s assms(5) 1 2 Inr show ?thesis by (auto simp: replace_owned_def)
    next
      case i2: (Inr u2)
      from staged_renamed [OF s(1) assms(2,3) s(2) 3] show ?thesis
      proof (elim disjE exE conjE)
        fix k assume "r3 = Inl k" "staged t d e3"
        with assms(5) 1 2 3 Inr i2 show ?thesis by (auto simp: replace_owned_def)
      next
        assume "r3 = Inr ()" "placed t dst bs d e3"
        with assms(5) 1 2 3 Inr i2 placed_same show ?thesis
          by (auto simp: replace_owned_def dest: sync_directory_effect)
      qed
    qed
  qed
qed

definition untouched :: "string \<Rightarrow> directory \<Rightarrow> directory \<Rightarrow> bool" where
  "untouched t d d' \<longleftrightarrow>
     (\<forall>n. n \<noteq> t \<or> name_of d t \<noteq> None \<longrightarrow> name_of d' n = name_of d n) \<and> (\<forall>i < fs_next d. fs_nodes d' i = fs_nodes d i)"

lemma same_untouched: "same_dir d d' \<Longrightarrow> untouched t d d'"
  by (simp add: untouched_def name_of_same) (simp add: same_dir_def)

lemma staged_untouched: "staged t d d' \<Longrightarrow> untouched t d d'"
  by (simp add: untouched_def staged_def)

lemma staged_removed:
  assumes "staged t d e" "fs_remove t e = (r, f)"
  shows "untouched t d f"
  using fs_remove_effect [OF assms(2)]
proof (elim disjE exE conjE)
  assume "same_dir e f"
  then show ?thesis by (rule staged_untouched [OF staged_same [OF assms(1)]])
next
  assume f: "removed t e f"
  have "name_of e t = Some (fs_next d)" using assms(1) by (simp add: staged_def)
  with f assms(1) show ?thesis
    by (auto simp: untouched_def removed_name [OF f]) (auto simp: staged_def removed_def)
qed

lemma placed_removed:
  assumes "placed t dst bs d e" "t \<noteq> dst" "fs_remove t e = (r, f)"
  shows "placed t dst bs d f"
proof -
  have "name_of e t = None" using assms by (simp add: placed_def)
  with fs_remove_effect [OF assms(3)] have "same_dir e f" by auto
  then show ?thesis by (rule placed_same [OF assms(1)])
qed

lemma created_staged: "created t d e \<Longrightarrow> staged t d e \<and> nd_bytes (fs_nodes e (fs_next d)) = []"
  by (simp add: staged_def created_name) (simp add: created_def)

lemma replace_exclusive_effect:
  assumes "wf_dir d" "t \<noteq> dst" "replace_exclusive t dst bs d = (r, d')"
  shows "placed t dst bs d d' \<or> r \<noteq> Inr () \<and> untouched t d d'"
proof -
  obtain r1 e where 1: "open_new t d = (r1, e)" by (cases "open_new t d")
  from open_new_effect [OF 1] show ?thesis
  proof (elim disjE exE conjE)
    fix k assume "r1 = Inl k" "same_dir d e"
    with assms(3) 1 show ?thesis by (auto simp: replace_exclusive_def same_untouched)
  next
    assume r1: "r1 = Inr (fs_next d)" and c: "created t d e"
    obtain r2 f where 2: "replace_owned (fs_next d) t dst bs e = (r2, f)" by (cases "replace_owned (fs_next d) t dst bs e")
    obtain r3 g where 3: "fs_remove t f = (r3, g)" by (cases "fs_remove t f")
    note o = replace_owned_effect [OF conjunct1 [OF created_staged [OF c]] assms(2,1) conjunct2 [OF created_staged [OF c]] 2]
    show ?thesis
    proof (cases r2)
      case (Inl k)
      with assms(3) 1 2 3 r1 have "r = Inl k" "d' = g" by (auto simp: replace_exclusive_def)
      with o staged_removed [OF _ 3] placed_removed [OF _ assms(2) 3] show ?thesis by blast
    next
      case (Inr u)
      with assms(3) 1 2 r1 o show ?thesis by (auto simp: replace_exclusive_def)
    qed
  qed
qed

lemma replace_exclusive_clean:
  assumes "fs_io d = []" "wf_dir d" "t \<noteq> dst" "name_of d t = None"
    "\<And>i. name_of d dst = Some i \<Longrightarrow> nd_kind (fs_nodes d i) \<noteq> DirectoryFile"
  shows "fst (replace_exclusive t dst bs d) = Inr ()"
proof -
  let ?h = "fs_next d"
  have n: "name_of d dst \<noteq> Some ?h" "i < ?h \<Longrightarrow> i \<noteq> ?h" for i using wf_dir_name [OF assms(2)] by auto
  show ?thesis
    using assms n wf_dir_name [OF assms(2), of dst]
    by (auto simp: replace_exclusive_def open_new_def create_file_def replace_owned_def fs_write_all_def fs_rename_def
        sync_directory_def extend_file_def name_of_def hmap_simps split: option.splits)
qed

section \<open>Properties\<close>

text \<open>C40. \<open>replace_exclusive\<close> is atomic whatever fails: either the destination leads to a complete new file and
  the temporary name is gone, or the call reports an error and every other name, a temporary name that was taken included,
  leads where it did before, to the same contents. A call that reports success has placed the file, and without faults,
  with a free temporary name and no directory in the way, the call succeeds.\<close>

theorem replace_exclusive_atomic:
  assumes "wf_dir d" "temporary \<noteq> destination" "replace_exclusive temporary destination bs d = (r, d')"
  shows "(placed temporary destination bs d d' \<or> r \<noteq> Inr () \<and> untouched temporary d d')
         \<and> (fs_io d = [] \<and> name_of d temporary = None
             \<and> (\<forall>i. name_of d destination = Some i \<longrightarrow> nd_kind (fs_nodes d i) \<noteq> DirectoryFile) \<longrightarrow> r = Inr ())"
  using replace_exclusive_effect [OF assms] replace_exclusive_clean [OF _ assms(1,2), of bs] assms(3) by auto

definition demo_dir :: "io_outcome list \<Rightarrow> directory" where
  "demo_dir io =
     \<lparr>fs_entries = [(''entry'', 0)],
      fs_nodes = (\<lambda>_. \<lparr>nd_kind = RegularFile, nd_bytes = [1, 2], nd_links = 1, nd_modified = 0\<rparr>),
      fs_next = 1, fs_clock = 5, fs_io = io\<rparr>"

theorem replace_exclusive_atomic_witness:
  "fst (replace_exclusive ''.tmp'' ''entry'' [7] (demo_dir [])) = Inr ()
   \<and> untouched ''.tmp'' (demo_dir [IoOk, IoErr 1]) (snd (replace_exclusive ''.tmp'' ''entry'' [7, 8] (demo_dir [IoOk, IoErr 1])))"
proof -
  have wf: "wf_dir (demo_dir io)" for io by (simp add: wf_dir_def demo_dir_def)
  obtain r d' where r: "replace_exclusive ''.tmp'' ''entry'' [7] (demo_dir []) = (r, d')"
    by (cases "replace_exclusive ''.tmp'' ''entry'' [7] (demo_dir [])")
  have "r = Inr ()"
    using replace_exclusive_atomic [OF wf _ r] by (simp add: demo_dir_def name_of_def)
  moreover obtain q e where q: "replace_exclusive ''.tmp'' ''entry'' [7, 8] (demo_dir [IoOk, IoErr 1]) = (q, e)"
    by (cases "replace_exclusive ''.tmp'' ''entry'' [7, 8] (demo_dir [IoOk, IoErr 1])")
  moreover have "name_of e ''entry'' = Some 0"
    using arg_cong [OF q, of snd]
    by (simp add: demo_dir_def replace_exclusive_def open_new_def fs_call_def fs_outcome_def name_of_def create_file_def
        replace_owned_def fs_write_all_def extend_file_def fs_remove_def) auto
  moreover have "name_of e ''entry'' = Some 1" if "placed ''.tmp'' ''entry'' [7, 8] (demo_dir [IoOk, IoErr 1]) e"
    using that by (simp add: placed_def demo_dir_def)
  ultimately show ?thesis using r replace_exclusive_atomic [OF wf _ q] by auto
qed

end
