(* ===== verification/Command_Journal.thy ===== *)
theory Command_Journal
  imports Durable_File Idempotency
begin

text \<open>
  The command journal (\<open>JsonlJournal\<close> of \<open>workflow-journal/src/lib.rs\<close>): an append-only JSONL file with an
  index of the records of each command, opened through checks on the file, archived as a whole when it is
  damaged, and opened again whenever the file under the path is not the one that was indexed. The
  directory is that of the theory \<open>Directory\<close>; \<open>serde_json\<close> and SHA-256 are the fields of a codec, and a function
  from numbers gives the UUIDs an operation draws for archive names. Nothing else touches the
  directory during an operation; between two operations it may change in any way.
\<close>

section \<open>Records\<close>

datatype command_phase =
    PhaseAccepted | PhasePrepared | PhaseExecuting | PhaseResultPrepared | PhaseVerifying | PhaseRecovering
  | PhaseCompleted | PhaseFailed

type_synonym command_id = uuid

record prepared_download =
  pd_staging_id :: string
  pd_metadata_sha256 :: string

record 'e prepared_result =
  pr_command_id :: command_id
  pr_attempt_id :: uuid
  pr_state_version :: u64
  pr_state_delta :: json
  pr_evidence :: "'e list"
  pr_artifact_id :: "string option"
  pr_artifact_sha256 :: "string option"
  pr_artifact_bytes :: "u64 option"
  pr_artifact_staging_id :: "string option"
  pr_download :: "prepared_download option"

text \<open>The envelope of a command is an opaque payload of type \<open>'v\<close>.\<close>

record ('v, 'e) command_record =
  cr_sequence :: u64
  cr_recorded_at :: time
  cr_command_id :: command_id
  cr_phase :: command_phase
  cr_envelope :: "'v option"
  cr_outcome :: "'e command_outcome option"
  cr_prepared_result :: "'e prepared_result option"

record ('v, 'e) journal_scan =
  jc_records :: "('v, 'e) command_record list"
  jc_torn_tail :: bool
  jc_incompatible :: nat

datatype journal_error = JeIo io_kind | JeSerialization | JeUncertainCommand

text \<open>The serialiser hands over its output in pieces (\<open>cc_writes\<close>); \<open>cc_probe\<close> reads a \<open>RecordProbe\<close>;
  \<open>cc_object\<close> parses a JSON object into its members in order, and \<open>cc_command_id\<close> reads an id from a value.\<close>

record ('v, 'e) command_codec =
  cc_writes :: "('v, 'e) command_record \<Rightarrow> bytes list option"
  cc_dec :: "bytes \<Rightarrow> ('v, 'e) command_record option"
  cc_probe :: "bytes \<Rightarrow> u64 option option"
  cc_object :: "bytes \<Rightarrow> (string \<times> json) list option"
  cc_command_id :: "json \<Rightarrow> command_id option"
  cc_sha :: "bytes \<Rightarrow> digest"

text \<open>\<open>ArchiveRecordProbe\<close>: the last member \<open>commandId\<close> counts, even if it is no id.\<close>

fun probe_members :: "('v, 'e) command_codec \<Rightarrow> command_id option \<Rightarrow> (string \<times> json) list \<Rightarrow> command_id option" where
  "probe_members C found [] = found"
| "probe_members C found ((k, v) # ms) =
     probe_members C (if k = ''commandId'' then cc_command_id C v else found) ms"

definition archive_probe :: "('v, 'e) command_codec \<Rightarrow> bytes \<Rightarrow> command_id option" where
  "archive_probe C line = (case cc_object C line of None \<Rightarrow> None | Some ms \<Rightarrow> probe_members C None ms)"

definition is_ascii_whitespace :: "byte \<Rightarrow> bool" where
  "is_ascii_whitespace b \<longleftrightarrow> b \<in> {9, 10, 12, 13, 32}"

section \<open>The index\<close>

record indexed_record =
  ir_offset :: nat
  ir_len :: nat
  ir_digest :: digest

definition indexed_new :: "('v, 'e) command_codec \<Rightarrow> nat \<Rightarrow> bytes \<Rightarrow> indexed_record" where
  "indexed_new C offset bs = \<lparr>ir_offset = offset, ir_len = length bs, ir_digest = cc_sha C bs\<rparr>"

text \<open>\<open>entry(k).or_default().push(v)\<close>.\<close>

definition push_entry :: "'k \<Rightarrow> 'v \<Rightarrow> ('k \<times> 'v list) list \<Rightarrow> ('k \<times> 'v list) list" where
  "push_entry k v m = AList.update k ((case map_of m k of None \<Rightarrow> [] | Some vs \<Rightarrow> vs) @ [v]) m"

type_synonym command_index = "(command_id \<times> indexed_record list) list"

definition command_decode ::
  "('v, 'e) command_codec \<Rightarrow> command_index option \<Rightarrow> jsonl_line \<Rightarrow>
   io_error + (('v, 'e) command_record prepared_record \<times> command_index option)" where
  "command_decode C ix line =
     (if list_all is_ascii_whitespace (ln_bytes line) then Inr (\<lparr>observation = Skip, pr_record = None\<rparr>, ix)
      else case cc_dec C (ln_bytes line) of
             Some r \<Rightarrow> Inr (\<lparr>observation = Accepted (Some (cr_sequence r)), pr_record = Some r\<rparr>, ix)
           | None \<Rightarrow>
               Inr (\<lparr>observation = Rejected (Option.bind (cc_probe C (ln_bytes line)) id) DecodeIssue, pr_record = None\<rparr>, ix))"

definition command_apply ::
  "('v, 'e) command_codec \<Rightarrow> command_index option \<Rightarrow> jsonl_line \<Rightarrow> ('v, 'e) command_record prepared_record \<Rightarrow>
   sequence_verdict \<Rightarrow> io_error + (scan_control \<times> command_index option)" where
  "command_apply C ix line prepared verdict =
     (case (ix, pr_record prepared) of
        (Some m, Some r) \<Rightarrow>
          Inr (Continue, Some (push_entry (cr_command_id r) (indexed_new C (ln_offset line) (ln_bytes line)) m))
      | _ \<Rightarrow> Inr (Continue, ix))"

definition command_ledger ::
  "('v, 'e) command_codec \<Rightarrow> (command_index option, ('v, 'e) command_record) ledger_decoder" where
  "command_ledger C = \<lparr>ld_decode = command_decode C, ld_apply = command_apply C\<rparr>"

record command_scan =
  cs_torn_tail :: bool
  cs_incompatible :: nat
  cs_records :: nat
  cs_max_sequence :: "u64 option"

definition scan_file ::
  "('v, 'e) command_codec \<Rightarrow> nat \<Rightarrow> command_index option \<Rightarrow> reader \<Rightarrow> io_kind + (command_scan \<times> command_index option)" where
  "scan_file C max_record_bytes ix rd =
     (case scan_jsonl (command_ledger C) \<lparr>max_line_bytes = max_record_bytes, seq_rule = Increasing\<rparr> ix rd of
        Inl _ \<Rightarrow> Inl IoOther
      | Inr (h, ix') \<Rightarrow>
          Inr (\<lparr>cs_torn_tail = (0 < issue_count h TornTail),
                cs_incompatible = incompatible_records h + issue_count h OversizedLine,
                cs_records = decoded_records h, cs_max_sequence = max_observed_sequence h\<rparr>, ix'))"

section \<open>Opening files\<close>

definition open_regular_read :: "string \<Rightarrow> directory \<Rightarrow> (io_kind + nat option) \<times> directory" where
  "open_regular_read name d =
     and_then (symlink_metadata name d) (\<lambda>nd d.
     if nd_kind nd \<noteq> RegularFile then (Inr None, d)
     else
     and_then (open_read name d) (\<lambda>i d.
     and_then (fs_metadata i d) (\<lambda>nd d.
     case require_regular_file nd of Inl _ \<Rightarrow> (Inr None, d) | Inr _ \<Rightarrow> (Inr (Some i), d))))"

definition archive_name :: "string \<Rightarrow> string \<Rightarrow> string" where
  "archive_name path fresh = path @ ''.archive-'' @ fresh"

definition archive_journal :: "string \<Rightarrow> string \<Rightarrow> directory \<Rightarrow> (io_kind + unit) \<times> directory" where
  "archive_journal path fresh d =
     and_then (fs_rename path (archive_name path fresh) d) (\<lambda>_ d. sync_directory d)"

text \<open>Opening the journal for appending, with the checks on the handle.\<close>

definition open_checked :: "string \<Rightarrow> directory \<Rightarrow> (io_kind + nat) \<times> directory" where
  "open_checked path d =
     and_then (open_appending path d) (\<lambda>i d.
     and_then (fs_metadata i d) (\<lambda>nd d.
     and_then (require_regular_file nd, d) (\<lambda>_ d.
     and_then (fs_metadata i d) (\<lambda>nd d.
     and_then (require_sole_hard_link nd, d) (\<lambda>_ d.
     (Inr i, d))))))"

section \<open>Archives\<close>

record archived_location =
  al_path :: string
  al_offset :: nat
  al_len :: nat

record archive_state =
  ar_archives :: "string list"
  ar_offsets :: "(command_id \<times> archived_location list) list"
  ar_torn_tail :: bool
  ar_incompatible :: nat

definition discard_jsonl_line :: "reader \<Rightarrow> io_kind + (nat \<times> reader)" where
  "discard_jsonl_line rd =
     (case position (\<lambda>b. b = newline) (rd_bytes rd) of
        Some i \<Rightarrow> Inr (Suc i, rd\<lparr>rd_bytes := drop (Suc i) (rd_bytes rd)\<rparr>)
      | None \<Rightarrow> if rd_fault rd then Inl IoOther else Inr (length (rd_bytes rd), rd\<lparr>rd_bytes := []\<rparr>))"

text \<open>\<open>take(limit).read_until(b'\n')\<close> on a stream that may break off.\<close>

definition read_limited :: "nat \<Rightarrow> reader \<Rightarrow> io_kind + (bytes \<times> reader)" where
  "read_limited lim rd =
     (let (l, r) = read_until lim (rd_bytes rd)
      in if rd_fault rd \<and> r = [] \<and> length l < lim \<and> \<not> ends_nl l then Inl IoOther
         else Inr (l, rd\<lparr>rd_bytes := r\<rparr>))"

text \<open>A line of an archive that is within the limit: its id, if one can be read, stays reserved.\<close>

definition archive_line ::
  "('v, 'e) command_codec \<Rightarrow> string \<Rightarrow> nat \<Rightarrow> bytes \<Rightarrow> archive_state \<Rightarrow> archive_state" where
  "archive_line C archive offset line a =
     (let a1 = (if ends_nl line then a else a\<lparr>ar_torn_tail := True\<rparr>)
      in if list_all is_ascii_whitespace line then a1
         else (let (found, a2) =
                     (case cc_dec C line of
                        Some r \<Rightarrow> (Some (cr_command_id r), a1)
                      | None \<Rightarrow> (archive_probe C line, a1\<lparr>ar_incompatible := ar_incompatible a1 + 1\<rparr>))
               in case found of
                    None \<Rightarrow> a2
                  | Some i \<Rightarrow>
                      a2\<lparr>ar_offsets := push_entry i \<lparr>al_path = archive, al_offset = offset, al_len = length line\<rparr>
                                        (ar_offsets a2)\<rparr>))"

lemma read_limited_splits: "read_limited lim rd = Inr (l, rd') \<Longrightarrow> rd_bytes rd = l @ rd_bytes rd'"
  using read_until_append [of lim "rd_bytes rd"]
  by (auto simp: read_limited_def Let_def split: prod.splits if_splits)

lemma read_limited_shorter:
  "read_limited lim rd = Inr (l, rd') \<Longrightarrow> l \<noteq> [] \<Longrightarrow> length (rd_bytes rd') < length (rd_bytes rd)"
  by (simp add: read_limited_splits)

lemma discard_shorter:
  "discard_jsonl_line rd = Inr (n, rd') \<Longrightarrow> length (rd_bytes rd') \<le> length (rd_bytes rd)"
  by (auto simp: discard_jsonl_line_def split: option.splits if_splits)

function archive_lines ::
  "('v, 'e) command_codec \<Rightarrow> nat \<Rightarrow> string \<Rightarrow> nat \<Rightarrow> reader \<Rightarrow> archive_state \<Rightarrow> io_kind + archive_state" where
  "archive_lines C max_bytes archive offset rd a =
     (case read_limited (sat_add max_bytes 1) rd of
        Inl e \<Rightarrow> Inl e
      | Inr (line, rd1) \<Rightarrow>
          if line = [] then Inr a
          else if max_bytes < length line
          then (let a1 = a\<lparr>ar_incompatible := ar_incompatible a + 1\<rparr>
                in if ends_nl line then archive_lines C max_bytes archive (offset + length line) rd1 a1
                   else (case discard_jsonl_line rd1 of
                           Inl e \<Rightarrow> Inl e
                         | Inr (n, rd2) \<Rightarrow> archive_lines C max_bytes archive (offset + length line + n) rd2 a1))
          else archive_lines C max_bytes archive (offset + length line) rd1 (archive_line C archive offset line a))"
  by pat_completeness auto
termination
  by (relation "measure (\<lambda>(C, max_bytes, archive, offset, rd, a). length (rd_bytes rd))")
     (auto dest: read_limited_shorter discard_shorter intro: le_less_trans)

declare archive_lines.simps [simp del]

definition starts_with :: "string \<Rightarrow> string \<Rightarrow> bool" where
  "starts_with p s \<longleftrightarrow> take (length p) s = p"

text \<open>The loop over the entries of the directory.\<close>

fun scan_archives ::
  "('v, 'e) command_codec \<Rightarrow> nat \<Rightarrow> string \<Rightarrow> string list \<Rightarrow> archive_state \<Rightarrow> directory \<Rightarrow> (io_kind + archive_state) \<times> directory" where
  "scan_archives C max_bytes path [] a d = and_then (fs_call d) (\<lambda>_ d. (Inr a, d))"
| "scan_archives C max_bytes path (n # ns) a d =
     and_then (fs_call d) (\<lambda>_ d.
     if \<not> starts_with (archive_name path '''') n then scan_archives C max_bytes path ns a d
     else
     and_then (open_regular_read n d) (\<lambda>opened d.
     case opened of
       None \<Rightarrow>
         scan_archives C max_bytes path ns
           (a\<lparr>ar_incompatible := ar_incompatible a + 1, ar_archives := ar_archives a @ [n]\<rparr>) d
     | Some i \<Rightarrow>
         (let (rd, d) = open_reader i d
          in case archive_lines C max_bytes n 0 rd a of
               Inl e \<Rightarrow> (Inl e, d)
             | Inr a' \<Rightarrow> scan_archives C max_bytes path ns (a'\<lparr>ar_archives := ar_archives a' @ [n]\<rparr>) d)))"

section \<open>The writer\<close>

record writer_state =
  ws_file :: nat
  ws_identity :: nat
  ws_next_sequence :: u64
  ws_file_len :: nat
  ws_modified :: time
  ws_offsets :: command_index
  ws_archived :: archive_state

definition archive_irregular :: "string \<Rightarrow> string \<Rightarrow> directory \<Rightarrow> (io_kind + unit) \<times> directory" where
  "archive_irregular path fresh d =
     (case symlink_metadata path d of
        (Inr nd, d) \<Rightarrow>
          if nd_kind nd \<noteq> RegularFile \<or> require_sole_hard_link nd \<noteq> Inr () then archive_journal path fresh d
          else (Inr (), d)
      | (Inl IoNotFound, d) \<Rightarrow> (Inr (), d)
      | (Inl e, d) \<Rightarrow> (Inl e, d))"

text \<open>Whether a scan lets the journal be continued.\<close>

definition command_damaged :: "command_scan \<Rightarrow> bool" where
  "command_damaged sc \<longleftrightarrow> cs_torn_tail sc \<or> 0 < cs_incompatible sc \<or> cs_max_sequence sc = Some (- 1)"

definition open_indexed ::
  "('v, 'e) command_codec \<Rightarrow> nat \<Rightarrow> string \<Rightarrow> string \<Rightarrow> directory \<Rightarrow>
   (io_kind + (nat \<times> u64 \<times> command_index)) \<times> directory" where
  "open_indexed C max_bytes path fresh d =
     and_then (open_checked path d) (\<lambda>i d.
     and_then (fs_call d) (\<lambda>_ d.
     let (rd, d) = open_reader i d
     in and_then (scan_file C max_bytes (Some []) rd, d) (\<lambda>(sc, ix) d.
        if command_damaged sc
        then and_then (archive_journal path fresh d) (\<lambda>_ d.
             and_then (open_checked path d) (\<lambda>i d. (Inr (i, 0, []), d)))
        else (Inr (i, case cs_max_sequence sc of None \<Rightarrow> 0 | Some s \<Rightarrow> s + 1,
                   case ix of None \<Rightarrow> [] | Some m \<Rightarrow> m), d))))"

definition no_archives :: archive_state where
  "no_archives = \<lparr>ar_archives = [], ar_offsets = [], ar_torn_tail = False, ar_incompatible = 0\<rparr>"

text \<open>The end of \<open>open_writer\<close>: the file is synced and described, and the archives beside it are read.\<close>

definition finish_writer ::
  "('v, 'e) command_codec \<Rightarrow> nat \<Rightarrow> string \<Rightarrow> nat \<times> u64 \<times> command_index \<Rightarrow> directory \<Rightarrow> (io_kind + writer_state) \<times> directory" where
  "finish_writer C max_bytes path opened d =
     (case opened of (i, next, ix) \<Rightarrow>
        and_then (fs_call d) (\<lambda>_ d.
        and_then (sync_directory d) (\<lambda>_ d.
        and_then (fs_metadata i d) (\<lambda>nd d.
        and_then (fs_call d) (\<lambda>_ d.
        and_then (fs_call d) (\<lambda>_ d.
        and_then (fs_call d) (\<lambda>_ d.
        and_then (scan_archives C max_bytes path (map fst (fs_entries d)) no_archives d) (\<lambda>a d.
        (Inr \<lparr>ws_file = i, ws_identity = i, ws_next_sequence = next, ws_file_len = length (nd_bytes nd),
              ws_modified = nd_modified nd, ws_offsets = ix, ws_archived = a\<rparr>, d)))))))))"

definition command_open_writer ::
  "('v, 'e) command_codec \<Rightarrow> (nat \<Rightarrow> string) \<Rightarrow> nat \<Rightarrow> string \<Rightarrow> directory \<Rightarrow> (io_kind + writer_state) \<times> directory" where
  "command_open_writer C fresh max_bytes path d =
     and_then (archive_irregular path (fresh 0) d) (\<lambda>_ d.
     and_then (open_indexed C max_bytes path (fresh 1) d) (\<lambda>opened d.
     finish_writer C max_bytes path opened d))"

section \<open>The journal\<close>

record jsonl_journal =
  jj_path :: string
  jj_writer :: writer_state
  jj_max_record_bytes :: nat

definition DEFAULT_MAX_RECORD_BYTES :: nat where
  "DEFAULT_MAX_RECORD_BYTES = 64 * 1024 * 1024"

definition validate_record_limit :: "nat \<Rightarrow> io_kind + unit" where
  "validate_record_limit max_bytes = (if max_bytes = 0 then Inl IoInvalidInput else Inr ())"

text \<open>An I/O error inside an operation that returns a \<open>JournalError\<close>.\<close>

definition as_journal_error :: "(io_kind + 'a) \<times> 's \<Rightarrow> (journal_error + 'a) \<times> 's" where
  "as_journal_error r = (case r of (Inl e, s) \<Rightarrow> (Inl (JeIo e), s) | (Inr x, s) \<Rightarrow> (Inr x, s))"

definition command_open_bounded ::
  "('v, 'e) command_codec \<Rightarrow> (nat \<Rightarrow> string) \<Rightarrow> string \<Rightarrow> nat \<Rightarrow> directory \<Rightarrow> (journal_error + jsonl_journal) \<times> directory" where
  "command_open_bounded C fresh path max_bytes d =
     as_journal_error
       (and_then (validate_record_limit max_bytes, d) (\<lambda>_ d.
        and_then (fs_call d) (\<lambda>_ d.
        and_then (command_open_writer C fresh max_bytes path d) (\<lambda>w d.
        (Inr \<lparr>jj_path = path, jj_writer = w, jj_max_record_bytes = max_bytes\<rparr>, d)))))"

definition command_open ::
  "('v, 'e) command_codec \<Rightarrow> (nat \<Rightarrow> string) \<Rightarrow> string \<Rightarrow> directory \<Rightarrow> (journal_error + jsonl_journal) \<times> directory" where
  "command_open C fresh path d = command_open_bounded C fresh path DEFAULT_MAX_RECORD_BYTES d"

definition command_archives :: "jsonl_journal \<Rightarrow> string list" where
  "command_archives J = ar_archives (ws_archived (jj_writer J))"

definition command_inspect ::
  "('v, 'e) command_codec \<Rightarrow> string \<Rightarrow> nat \<Rightarrow> directory \<Rightarrow> (journal_error + journal_health) \<times> directory" where
  "command_inspect C path max_bytes d =
     as_journal_error
       (and_then (validate_record_limit max_bytes, d) (\<lambda>_ d.
        case open_regular_read path d of
          (Inr (Some i), d) \<Rightarrow>
            and_then (fs_metadata i d) (\<lambda>nd d.
            let (rd, d) = open_reader i d
            in and_then (scan_file C max_bytes None rd, d) (\<lambda>(sc, _) d.
               (Inr \<lparr>jh_exists = True, jh_bytes = length (nd_bytes nd), jh_records = cs_records sc,
                     jh_torn_tail = cs_torn_tail sc, jh_incompatible = cs_incompatible sc\<rparr>, d)))
        | (Inr None, d) \<Rightarrow> (Inl IoInvalidData, d)
        | (Inl IoNotFound, d) \<Rightarrow>
            (Inr \<lparr>jh_exists = False, jh_bytes = 0, jh_records = 0, jh_torn_tail = False, jh_incompatible = 0\<rparr>, d)
        | (Inl e, d) \<Rightarrow> (Inl e, d)))"

text \<open>The operations on an open journal take the writer and the directory and return both.\<close>

definition on_dir :: "(directory \<Rightarrow> (io_kind + 'a) \<times> directory) \<Rightarrow> 's \<times> directory \<Rightarrow> (journal_error + 'a) \<times> ('s \<times> directory)" where
  "on_dir f s = (case s of (J, d) \<Rightarrow> (case f d of (Inl e, d') \<Rightarrow> (Inl (JeIo e), (J, d')) | (Inr x, d') \<Rightarrow> (Inr x, (J, d'))))"

definition reopen ::
  "('v, 'e) command_codec \<Rightarrow> (nat \<Rightarrow> string) \<Rightarrow> jsonl_journal \<times> directory \<Rightarrow> (journal_error + unit) \<times> (jsonl_journal \<times> directory)" where
  "reopen C fresh s =
     and_then (on_dir (command_open_writer C fresh (jj_max_record_bytes (fst s)) (jj_path (fst s))) s)
       (\<lambda>w (J, d). (Inr (), (J\<lparr>jj_writer := w\<rparr>, d)))"

definition unchanged :: "writer_state \<Rightarrow> nat \<Rightarrow> node \<Rightarrow> bool" where
  "unchanged w i nd \<longleftrightarrow>
     i = ws_identity w \<and> require_sole_hard_link nd = Inr () \<and> length (nd_bytes nd) = ws_file_len w
     \<and> nd_modified nd = ws_modified w"

definition refresh ::
  "('v, 'e) command_codec \<Rightarrow> (nat \<Rightarrow> string) \<Rightarrow> jsonl_journal \<times> directory \<Rightarrow> (journal_error + unit) \<times> (jsonl_journal \<times> directory)" where
  "refresh C fresh s =
     (case s of (J, d) \<Rightarrow>
        (case open_regular_read (jj_path J) d of
           (Inr (Some i), d) \<Rightarrow>
             and_then (on_dir (fs_metadata i) (J, d)) (\<lambda>nd s.
             and_then (on_dir fs_call s) (\<lambda>_ s.
             if unchanged (jj_writer J) i nd then (Inr (), s) else reopen C fresh s))
         | (Inr None, d) \<Rightarrow> reopen C fresh (J, d)
         | (Inl IoNotFound, d) \<Rightarrow> reopen C fresh (J, d)
         | (Inl e, d) \<Rightarrow> (Inl (JeIo e), (J, d))))"

section \<open>Appending\<close>

definition encode_bounded :: "('v, 'e) command_codec \<Rightarrow> nat \<Rightarrow> ('v, 'e) command_record \<Rightarrow> journal_error + bytes" where
  "encode_bounded C max_bytes r =
     (case cc_writes C r of
        None \<Rightarrow> Inl JeSerialization
      | Some cs \<Rightarrow>
          (case buffer_writes cs (buffer_new max_bytes) of
             Inl _ \<Rightarrow> Inl JeSerialization
           | Inr b \<Rightarrow>
               (case buffer_write [newline] b of Inl e \<Rightarrow> Inl (JeIo e) | Inr b' \<Rightarrow> Inr (bb_bytes b'))))"

text \<open>The write of an encoded record, and what the writer notes of it once it is synced.\<close>

definition write_record ::
  "('v, 'e) command_codec \<Rightarrow> command_id \<Rightarrow> u64 \<Rightarrow> bytes \<Rightarrow> jsonl_journal \<times> directory \<Rightarrow>
   (journal_error + unit) \<times> (jsonl_journal \<times> directory)" where
  "write_record C i next bs s =
     (let w = jj_writer (fst s)
      in and_then (on_dir (fs_metadata (ws_file w)) s) (\<lambda>nd s.
         and_then (on_dir (\<lambda>d. (require_sole_hard_link nd, d)) s) (\<lambda>_ s.
         and_then (on_dir (fs_write_all (ws_file w) bs) s) (\<lambda>_ s.
         and_then (on_dir fs_call s) (\<lambda>_ s.
         and_then (on_dir fs_call s) (\<lambda>_ (J, d).
         let w1 = w\<lparr>ws_offsets := push_entry i (indexed_new C (ws_file_len w) bs) (ws_offsets w),
                    ws_file_len := ws_file_len w + length bs\<rparr>
         in and_then (on_dir (fs_metadata (ws_file w)) (J\<lparr>jj_writer := w1\<rparr>, d)) (\<lambda>nd (J, d).
            (Inr (), (J\<lparr>jj_writer := w1\<lparr>ws_modified := nd_modified nd, ws_next_sequence := next\<rparr>\<rparr>, d)))))))))"

definition command_append ::
  "('v, 'e) command_codec \<Rightarrow> (nat \<Rightarrow> string) \<Rightarrow> ('v, 'e) command_record \<Rightarrow> jsonl_journal \<times> directory \<Rightarrow>
   (journal_error + unit) \<times> (jsonl_journal \<times> directory)" where
  "command_append C fresh r s =
     and_then (refresh C fresh s) (\<lambda>_ (J, d).
     let w = jj_writer J
     in if map_of (ar_offsets (ws_archived w)) (cr_command_id r) \<noteq> None then (Inl JeUncertainCommand, (J, d))
        else case checked_succ (ws_next_sequence w) of
               None \<Rightarrow> (Inl JeUncertainCommand, (J, d))
             | Some next \<Rightarrow>
                 (case encode_bounded C (jj_max_record_bytes J) (r\<lparr>cr_sequence := ws_next_sequence w\<rparr>) of
                    Inl e \<Rightarrow> (Inl e, (J, d))
                  | Inr bs \<Rightarrow> write_record C (cr_command_id r) next bs (J, d)))"

section \<open>Reading the history of a command\<close>

definition seek_to :: "bool \<Rightarrow> directory \<Rightarrow> (io_kind + unit) \<times> directory" where
  "seek_to there d = (if there then (Inr (), d) else fs_call d)"

fun read_entries ::
  "('v, 'e) command_codec \<Rightarrow> nat \<Rightarrow> command_id \<Rightarrow> indexed_record list \<Rightarrow> nat option \<Rightarrow> ('v, 'e) command_record list \<Rightarrow>
   directory \<Rightarrow> (io_kind + ('v, 'e) command_record list option) \<times> directory" where
  "read_entries C i cid [] pos acc d = (Inr (Some acc), d)"
| "read_entries C i cid (e # es) pos acc d =
     and_then (seek_to (pos = Some (ir_offset e)) d) (\<lambda>_ d.
     and_then (fs_call d) (\<lambda>_ d.
     let line = take (ir_len e) (drop (ir_offset e) (nd_bytes (fs_nodes d i)))
     in if length line < ir_len e \<or> \<not> ends_nl line \<or> cc_sha C line \<noteq> ir_digest e then (Inr None, d)
        else case cc_dec C line of
               None \<Rightarrow> (Inr None, d)
             | Some r \<Rightarrow>
                 if cr_command_id r \<noteq> cid then (Inr None, d)
                 else read_entries C i cid es (Some (ir_offset e + ir_len e)) (acc @ [r]) d))"

definition read_indexed_records ::
  "('v, 'e) command_codec \<Rightarrow> nat \<Rightarrow> indexed_record list \<Rightarrow> command_id \<Rightarrow> directory \<Rightarrow>
   (io_kind + ('v, 'e) command_record list option) \<times> directory" where
  "read_indexed_records C i es cid d = and_then (fs_call d) (\<lambda>_ d. read_entries C i cid es None [] d)"

fun chunk_by :: "('a \<Rightarrow> 'a \<Rightarrow> bool) \<Rightarrow> 'a list \<Rightarrow> 'a list list" where
  "chunk_by same [] = []"
| "chunk_by same (x # xs) =
     (case chunk_by same xs of
        (y # c) # cs \<Rightarrow> if same x y then (x # y # c) # cs else [x] # (y # c) # cs
      | cs \<Rightarrow> [x] # cs)"

fun read_archived ::
  "('v, 'e) command_codec \<Rightarrow> nat \<Rightarrow> command_id \<Rightarrow> archived_location list \<Rightarrow> nat \<Rightarrow> ('v, 'e) journal_scan \<Rightarrow> directory \<Rightarrow>
   (io_kind + ('v, 'e) journal_scan) \<times> directory" where
  "read_archived C i cid [] pos sc d = (Inr sc, d)"
| "read_archived C i cid (e # es) pos sc d =
     and_then (seek_to (pos = al_offset e) d) (\<lambda>_ d.
     and_then (fs_call d) (\<lambda>_ d.
     let line = fst (read_until (al_len e) (drop (al_offset e) (nd_bytes (fs_nodes d i))));
         sc1 = (if ends_nl line then sc else sc\<lparr>jc_torn_tail := True\<rparr>);
         sc2 = (case cc_dec C line of
                  None \<Rightarrow> sc1
                | Some r \<Rightarrow>
                    if cr_command_id r = cid then sc1\<lparr>jc_records := jc_records sc1 @ [r]\<rparr>
                    else sc1\<lparr>jc_incompatible := jc_incompatible sc1 + 1\<rparr>)
     in read_archived C i cid es (al_offset e + length line) sc2 d))"

fun read_archives ::
  "('v, 'e) command_codec \<Rightarrow> command_id \<Rightarrow> archived_location list list \<Rightarrow> ('v, 'e) journal_scan \<Rightarrow> directory \<Rightarrow>
   (io_kind + ('v, 'e) journal_scan) \<times> directory" where
  "read_archives C cid [] sc d = (Inr sc, d)"
| "read_archives C cid (es # ess) sc d =
     and_then (open_regular_read (al_path (hd es)) d) (\<lambda>opened d.
     case opened of
       None \<Rightarrow> read_archives C cid ess (sc\<lparr>jc_incompatible := jc_incompatible sc + 1\<rparr>) d
     | Some i \<Rightarrow> and_then (read_archived C i cid es 0 sc d) (\<lambda>sc d. read_archives C cid ess sc d))"

definition archived_history ::
  "('v, 'e) command_codec \<Rightarrow> command_id \<Rightarrow> jsonl_journal \<times> directory \<Rightarrow>
   (journal_error + ('v, 'e) journal_scan) \<times> (jsonl_journal \<times> directory)" where
  "archived_history C cid s =
     (let a = ws_archived (jj_writer (fst s));
          sc = \<lparr>jc_records = [], jc_torn_tail = ar_torn_tail a, jc_incompatible = ar_incompatible a\<rparr>;
          locations = (case map_of (ar_offsets a) cid of None \<Rightarrow> [] | Some ls \<Rightarrow> ls)
      in and_then (on_dir (read_archives C cid (chunk_by (\<lambda>x y. al_path x = al_path y) locations) sc) s) (\<lambda>sc s.
         (Inr (if ar_archives a = [] then sc else sc\<lparr>jc_incompatible := max (jc_incompatible sc) 1\<rparr>), s)))"

text \<open>The bytes under an indexed offset changed in place: the journal is archived and the history is uncertain.\<close>

definition damaged_history ::
  "('v, 'e) command_codec \<Rightarrow> (nat \<Rightarrow> string) \<Rightarrow> command_id \<Rightarrow> jsonl_journal \<times> directory \<Rightarrow>
   (journal_error + ('v, 'e) journal_scan) \<times> (jsonl_journal \<times> directory)" where
  "damaged_history C fresh cid s =
     and_then (on_dir (archive_journal (jj_path (fst s)) (fresh 2)) s) (\<lambda>_ s.
     and_then (reopen C (\<lambda>k. fresh (k + 3)) s) (\<lambda>_ s.
     archived_history C cid s))"

definition command_history ::
  "('v, 'e) command_codec \<Rightarrow> (nat \<Rightarrow> string) \<Rightarrow> command_id \<Rightarrow> jsonl_journal \<times> directory \<Rightarrow>
   (journal_error + ('v, 'e) journal_scan) \<times> (jsonl_journal \<times> directory)" where
  "command_history C fresh cid s =
     and_then (refresh C fresh s) (\<lambda>_ (J, d).
     let w = jj_writer J
     in case (map_of (ws_offsets w) cid, map_of (ar_offsets (ws_archived w)) cid) of
          (Some es, None) \<Rightarrow>
            and_then (on_dir (read_indexed_records C (ws_file w) es cid) (J, d)) (\<lambda>found s.
            case found of
              Some rs \<Rightarrow> (Inr \<lparr>jc_records = rs, jc_torn_tail = False, jc_incompatible = 0\<rparr>, s)
            | None \<Rightarrow> damaged_history C fresh cid s)
        | _ \<Rightarrow> archived_history C cid (J, d))"

end
