(* ===== verification/Command_Archives.thy ===== *)
theory Command_Archives
  imports Command_Journal
begin

text \<open>
  What the command journal does to its directory when any call may fail: files keep a name and their
  bytes, damaged journals are kept as archives, and every id that can be read in an archive is known to the
  journal that is opened beside it.
\<close>

section \<open>How a directory evolves\<close>

text \<open>A file whose link count is one has one name.\<close>

definition sole_names :: "directory \<Rightarrow> bool" where
  "sole_names d \<longleftrightarrow>
     (\<forall>n n' i. name_of d n = Some i \<and> name_of d n' = Some i \<and> nd_links (fs_nodes d i) = 1 \<longrightarrow> n = n')"

text \<open>The operations give no name away: the file under the journal's path may move to an archive name in \<open>F\<close>, new
  files appear under the path, and only the files in \<open>W\<close> grow. If any name changed, the path leads nowhere or to a new file.\<close>

definition evolves :: "string \<Rightarrow> string set \<Rightarrow> nat set \<Rightarrow> directory \<Rightarrow> directory \<Rightarrow> bool" where
  "evolves path F W d d' \<longleftrightarrow>
     (\<forall>n i. name_of d n = Some i \<longrightarrow>
        name_of d' n = Some i \<or> n = path \<and> (\<exists>f \<in> F. name_of d' (archive_name path f) = Some i))
     \<and> (\<forall>n. name_of d' n \<noteq> None \<longrightarrow> name_of d n \<noteq> None \<or> n = path \<or> n \<in> archive_name path ` F)
     \<and> (name_of d' = name_of d \<or> name_of d' path = None \<or> (\<exists>j \<ge> fs_next d. name_of d' path = Some j))
     \<and> (sole_names d \<longrightarrow> sole_names d')
     \<and> (\<forall>i < fs_next d. nd_kind (fs_nodes d' i) = nd_kind (fs_nodes d i) \<and>
          (\<exists>more. nd_bytes (fs_nodes d' i) = nd_bytes (fs_nodes d i) @ more \<and> (i \<notin> W \<longrightarrow> more = [])))
     \<and> (\<forall>i. fs_next d \<le> i \<and> i < fs_next d' \<and> i \<notin> W \<longrightarrow> nd_bytes (fs_nodes d' i) = [])
     \<and> fs_next d \<le> fs_next d' \<and> wf_dir d'"

definition unused :: "string \<Rightarrow> string set \<Rightarrow> directory \<Rightarrow> bool" where
  "unused path F d \<longleftrightarrow> (\<forall>f \<in> F. name_of d (archive_name path f) = None)"

lemma archive_name_neq [simp]: "archive_name path f \<noteq> path" "path \<noteq> archive_name path f"
  by (simp_all add: archive_name_def)

lemma archive_name_inj [simp]: "archive_name path f = archive_name path g \<longleftrightarrow> f = g"
  by (simp add: archive_name_def)

lemma wf_dir_same: "same_dir d d' \<Longrightarrow> wf_dir d' = wf_dir d"
  by (simp add: same_dir_def wf_dir_def)

lemma wf_dir_created: "wf_dir d \<Longrightarrow> created n d d' \<Longrightarrow> wf_dir d'"
  using set_update_subset [of n "fs_next d" "fs_entries d"]
  by (fastforce simp: wf_dir_def created_def intro: distinct_update)

lemma wf_dir_renamed:
  assumes "wf_dir d" "renamed old new i d d'"
  shows "wf_dir d'"
proof -
  have "i < fs_next d" using assms by (auto simp: renamed_def wf_dir_def name_of_def dest: map_of_SomeD)
  then have "k < fs_next d" if "(n, k) \<in> set (fs_entries d')" for n k
    using that assms set_update_subset [of new i "AList.delete old (fs_entries d)"]
    by (auto simp: renamed_def AList.delete_eq wf_dir_def)
  moreover have "distinct (map fst (fs_entries d'))"
    using assms by (simp add: renamed_def wf_dir_def distinct_update distinct_delete)
  moreover have "fs_next d' = fs_next d" using assms(2) by (simp add: renamed_def)
  ultimately show ?thesis by (auto simp: wf_dir_def)
qed

lemma sole_names_cong:
  "name_of d' = name_of d \<Longrightarrow> (\<And>i. nd_links (fs_nodes d' i) = nd_links (fs_nodes d i)) \<Longrightarrow> sole_names d' = sole_names d"
  by (simp add: sole_names_def)

lemma evolves_same: "wf_dir d \<Longrightarrow> same_dir d d' \<Longrightarrow> evolves path F W d d'"
  by (simp add: evolves_def name_of_same wf_dir_same sole_names_def) (auto simp: same_dir_def)

lemma evolves_refl: "wf_dir d \<Longrightarrow> evolves path F W d d"
  by (simp add: evolves_same)

lemma evolves_mono: "evolves path F W d d' \<Longrightarrow> F \<subseteq> F' \<Longrightarrow> W \<subseteq> W' \<Longrightarrow> evolves path F' W' d d'"
  unfolding evolves_def by (intro conjI allI impI) (meson in_mono image_mono | blast)+

lemma evolves_wf: "evolves path F W d d' \<Longrightarrow> wf_dir d'"
  by (simp add: evolves_def)

lemma evolves_trans:
  assumes "evolves path F W d e" "evolves path F W e f"
  shows "evolves path F W d f"
proof -
  have 1: "name_of f n = Some i \<or> n = path \<and> (\<exists>g \<in> F. name_of f (archive_name path g) = Some i)"
    if "name_of d n = Some i" for n i
  proof -
    from that assms(1) consider "name_of e n = Some i" | g where "n = path" "g \<in> F" "name_of e (archive_name path g) = Some i"
      unfolding evolves_def by blast
    then show ?thesis
    proof cases
      case 1
      with assms(2) show ?thesis unfolding evolves_def by blast
    next
      case 2
      with assms(2) have "name_of f (archive_name path g) = Some i" unfolding evolves_def by (metis archive_name_neq(1))
      with 2 show ?thesis by blast
    qed
  qed
  have 2: "name_of d n \<noteq> None \<or> n = path \<or> n \<in> archive_name path ` F" if "name_of f n \<noteq> None" for n
    using that assms unfolding evolves_def by meson
  have 3: "nd_kind (fs_nodes f i) = nd_kind (fs_nodes d i) \<and>
      (\<exists>more. nd_bytes (fs_nodes f i) = nd_bytes (fs_nodes d i) @ more \<and> (i \<notin> W \<longrightarrow> more = []))" if i: "i < fs_next d" for i
  proof -
    from i assms(1) have e: "i < fs_next e" unfolding evolves_def by simp
    obtain m where m: "nd_bytes (fs_nodes e i) = nd_bytes (fs_nodes d i) @ m" "i \<notin> W \<longrightarrow> m = []"
      "nd_kind (fs_nodes e i) = nd_kind (fs_nodes d i)" using i assms(1) unfolding evolves_def by blast
    obtain m' where m': "nd_bytes (fs_nodes f i) = nd_bytes (fs_nodes e i) @ m'" "i \<notin> W \<longrightarrow> m' = []"
      "nd_kind (fs_nodes f i) = nd_kind (fs_nodes e i)" using e assms(2) unfolding evolves_def by blast
    from m m' show ?thesis by auto
  qed
  have 4: "name_of f = name_of d \<or> name_of f path = None \<or> (\<exists>j \<ge> fs_next d. name_of f path = Some j)"
    using assms unfolding evolves_def by (metis order.trans)
  have 5: "nd_bytes (fs_nodes f i) = []" if i: "fs_next d \<le> i" "i < fs_next f" "i \<notin> W" for i
  proof (cases "i < fs_next e")
    case True
    then have "nd_bytes (fs_nodes e i) = []" "nd_bytes (fs_nodes f i) = nd_bytes (fs_nodes e i)"
      using i assms unfolding evolves_def by auto
    then show ?thesis by simp
  next
    case False
    with i assms(2) show ?thesis unfolding evolves_def by auto
  qed
  from 1 2 3 4 5 assms show ?thesis unfolding evolves_def by auto
qed

lemma evolves_created:
  assumes "wf_dir d" "created path d d'"
  shows "evolves path F W d d'"
proof -
  have "name_of d n \<noteq> Some (fs_next d)" for n using wf_dir_name [OF assms(1)] by auto
  then have "sole_names d'" if "sole_names d"
    using that assms(2) unfolding sole_names_def created_name [OF assms(2)] by (auto simp: created_def)
  then show ?thesis
    using assms(2) wf_dir_created [OF assms]
    by (auto simp: evolves_def created_name [OF assms(2)]) (auto simp: created_def)
qed

lemma evolves_renamed:
  assumes "wf_dir d" "renamed path (archive_name path f) i d d'" "name_of d (archive_name path f) = None" "f \<in> F"
  shows "evolves path F W d d'"
proof -
  have r: "name_of d path = Some i" "\<And>k. fs_nodes d' k = fs_nodes d k" using assms(2,3) by (auto simp: renamed_def)
  then have "sole_names d'" if "sole_names d"
    using that unfolding sole_names_def renamed_name [OF assms(2)] by (auto split: if_splits)
  moreover have "fs_next d' = fs_next d" using assms(2) by (simp add: renamed_def)
  ultimately show ?thesis
    using assms(3,4) wf_dir_renamed [OF assms(1,2)] r by (auto simp: evolves_def renamed_name [OF assms(2)])
qed

lemma evolves_extended:
  assumes "wf_dir d" "extended i bs d d'" "i \<in> W"
  shows "evolves path F W d d'"
proof -
  note x = extendedD [OF assms(2)]
  have "wf_dir d'" using assms(1) x(1,2) by (simp add: wf_dir_def)
  then show ?thesis using x assms(3) sole_names_cong [OF x(4,7)] by (auto simp: evolves_def)
qed

lemma evolves_then_same: "evolves path F W d e \<Longrightarrow> same_dir e f \<Longrightarrow> evolves path F W d f"
  by (rule evolves_trans [OF _ evolves_same [OF evolves_wf]])

lemma unused_evolves: "unused path F d \<Longrightarrow> evolves path G W d d' \<Longrightarrow> F \<inter> G = {} \<Longrightarrow> unused path F d'"
  by (fastforce simp: unused_def evolves_def)

section \<open>Calls that may fail\<close>

lemma and_thenE:
  assumes "and_then c k = (r, s')"
  obtains e where "c = (Inl e, s')" "r = Inl e" | x s where "c = (Inr x, s)" "k x s = (r, s')"
  using assms by (cases c; cases "fst c") auto

lemma metadataD: "fs_metadata i d = (r, d') \<Longrightarrow> same_dir d d' \<and> (r = Inr (fs_nodes d i) \<or> r = Inl IoOther)"
  using fs_metadata_effect by blast

lemma open_regular_effect:
  assumes "open_regular_read n d = (r, d')"
  shows "same_dir d d'"
    "r = Inr (Some i) \<Longrightarrow> name_of d n = Some i \<and> nd_kind (fs_nodes d i) = RegularFile"
    "r = Inr None \<Longrightarrow> \<exists>i. name_of d n = Some i \<and> nd_kind (fs_nodes d i) \<noteq> RegularFile"
proof -
  obtain r1 d1 where 1: "symlink_metadata n d = (r1, d1)" by (cases "symlink_metadata n d")
  obtain r2 d2 where 2: "open_read n d1 = (r2, d2)" by (cases "open_read n d1")
  note e1 = symlink_metadata_effect [OF 1] and e2 = open_read_effect [OF 2]
  have s: "same_dir d d1" "same_dir d d2" using e1(1) e2(1) by (auto intro: same_dir_trans)
  have n: "name_of d1 = name_of d" "fs_nodes d1 = fs_nodes d" "fs_nodes d2 = fs_nodes d"
    using s name_of_same [OF s(1)] by (simp_all add: same_dir_def)
  show "same_dir d d'"
    using assms 1 2 s unfolding open_regular_read_def
    by (auto elim!: and_thenE split: if_splits sum.splits dest!: metadataD simp: same_dir_def)
  show "name_of d n = Some i \<and> nd_kind (fs_nodes d i) = RegularFile" if "r = Inr (Some i)"
    using assms 1 2 n e2(2) that unfolding open_regular_read_def
    by (auto elim!: and_thenE split: if_splits sum.splits dest!: metadataD simp: require_regular_file_def)
  show "\<exists>i. name_of d n = Some i \<and> nd_kind (fs_nodes d i) \<noteq> RegularFile" if "r = Inr None"
    using assms 1 2 n e2(2) e1(2) that unfolding open_regular_read_def
    by (auto elim!: and_thenE split: if_splits sum.splits option.splits dest!: metadataD
        simp: require_regular_file_def)
qed

lemma archive_journal_evolves:
  assumes "wf_dir d" "name_of d (archive_name path f) = None" "archive_journal path f d = (r, d')" "f \<in> F"
  shows "evolves path F W d d'"
proof -
  obtain r1 d1 where 1: "fs_rename path (archive_name path f) d = (r1, d1)" by (cases "fs_rename path (archive_name path f) d")
  have "evolves path F W d d1"
  proof (cases "name_of d path")
    case None
    obtain q e where q: "fs_call d = (q, e)" by (cases "fs_call d")
    have "same_dir d d1"
      using 1 q fs_call_effect [OF q] name_of_same [OF fs_call_effect(1) [OF q]] None by (auto simp: fs_rename_def)
    then show ?thesis by (rule evolves_same [OF assms(1)])
  next
    case (Some i)
    then have "name_of d (archive_name path f) \<noteq> name_of d path" using assms(2) by simp
    from fs_rename_effect [OF 1 this] show ?thesis
      using evolves_same [OF assms(1)] evolves_renamed [OF assms(1) _ assms(2,4)] by blast
  qed
  moreover have "same_dir d1 d'"
    using assms(3) 1 unfolding archive_journal_def by (auto elim!: and_thenE dest: sync_directory_effect)
  ultimately show ?thesis by (rule evolves_then_same)
qed

text \<open>A journal opened for appending is a regular file under its path with no other name.\<close>

lemma open_checked_effect:
  assumes "wf_dir d" "open_checked path d = (r, d')"
  shows "evolves path F W d d'"
    "r = Inr i \<Longrightarrow> name_of d' path = Some i \<and> nd_kind (fs_nodes d' i) = RegularFile \<and> nd_links (fs_nodes d' i) = 1"
    "r = Inr i \<Longrightarrow> same_dir d d' \<or> created path d d' \<and> i = fs_next d"
proof -
  obtain r1 d1 where 1: "open_appending path d = (r1, d1)" by (cases "open_appending path d")
  have e: "same_dir d1 d'" "r = Inr i \<Longrightarrow> r1 = Inr i \<and> nd_kind (fs_nodes d1 i) = RegularFile \<and> nd_links (fs_nodes d1 i) = 1"
    using assms(2) 1 unfolding open_checked_def
    by (auto elim!: and_thenE dest!: metadataD simp: require_regular_file_def require_sole_hard_link_def same_dir_def
        split: if_splits)
  note o = open_appending_effect [OF 1]
  have "evolves path F W d d1"
    using o by (elim disjE exE conjE) (simp_all add: evolves_same [OF assms(1)] evolves_created [OF assms(1)])
  then show "evolves path F W d d'" using e(1) by (rule evolves_then_same)
  assume "r = Inr i"
  note e2 = e(2) [OF this]
  have n: "name_of d' = name_of d1" "fs_nodes d' = fs_nodes d1" using e(1) name_of_same [OF e(1)] by (simp_all add: same_dir_def)
  have "name_of d1 path = Some i" using o e2 name_of_same [of d d1] created_name [of path d d1] by auto
  then show "name_of d' path = Some i \<and> nd_kind (fs_nodes d' i) = RegularFile \<and> nd_links (fs_nodes d' i) = 1"
    using n e2 by simp
  have "same_dir d d1 \<or> created path d d1 \<and> i = fs_next d" using o e2 by auto
  then show "same_dir d d' \<or> created path d d' \<and> i = fs_next d"
    using e(1) by (auto simp: same_dir_def created_def)
qed

section \<open>What a scan of archives finds\<close>

definition archived_ids :: "archive_state \<Rightarrow> command_id set" where
  "archived_ids a = fst ` set (ar_offsets a)"

definition line_id :: "('v, 'e) command_codec \<Rightarrow> bytes \<Rightarrow> command_id option" where
  "line_id C l = (case cc_dec C l of Some r \<Rightarrow> Some (cr_command_id r) | None \<Rightarrow> archive_probe C l)"

definition carries :: "('v, 'e) command_codec \<Rightarrow> nat \<Rightarrow> bytes \<Rightarrow> command_id \<Rightarrow> bool" where
  "carries C m l k \<longleftrightarrow> length l \<le> m \<and> \<not> list_all is_ascii_whitespace l \<and> line_id C l = Some k"

lemma keys_push_entry: "fst ` set (push_entry k v m) = insert k (fst ` set m)"
  by (auto simp: push_entry_def dom_update)

lemma archive_line_effect:
  "archived_ids a \<subseteq> archived_ids (archive_line C arch off l a)"
  "ar_archives (archive_line C arch off l a) = ar_archives a"
  "carries C m l k \<Longrightarrow> k \<in> archived_ids (archive_line C arch off l a)"
  by (auto simp: archive_line_def archived_ids_def Let_def keys_push_entry carries_def line_id_def
      split: option.splits prod.splits)

lemma archive_lines_grow:
  "archive_lines C m arch off rd a = Inr a' \<Longrightarrow> archived_ids a \<subseteq> archived_ids a' \<and> ar_archives a' = ar_archives a"
proof (induction C m arch off rd a rule: archive_lines.induct)
  case (1 C m arch off rd a)
  let ?long = "a\<lparr>ar_incompatible := ar_incompatible a + 1\<rparr>"
  have long: "archived_ids ?long = archived_ids a" "ar_archives ?long = ar_archives a" by (simp_all add: archived_ids_def)
  obtain l rd1 where l: "read_limited (sat_add m 1) rd = Inr (l, rd1)"
    using "1.prems" by (subst (asm) archive_lines.simps) (auto split: sum.splits)
  show ?case
  proof (cases "l = []")
    case True
    then show ?thesis using "1.prems" l by (subst (asm) archive_lines.simps) simp
  next
    case l0: False
    show ?thesis
    proof (cases "m < length l")
      case False
      then have "archive_lines C m arch (off + length l) rd1 (archive_line C arch off l a) = Inr a'"
        using "1.prems" l l0 by (subst (asm) archive_lines.simps) simp
      from "1.IH"(3) [OF l refl l0 False this] archive_line_effect(1,2) [where a = a and C = C and arch = arch and off = off and l = l] show ?thesis by auto
    next
      case m: True
      show ?thesis
      proof (cases "ends_nl l")
        case True
        then have "archive_lines C m arch (off + length l) rd1 ?long = Inr a'"
          using "1.prems" l l0 m by (subst (asm) archive_lines.simps) (simp add: Let_def)
        from "1.IH"(1) [OF l refl l0 m refl True this] long show ?thesis by simp
      next
        case False
        then obtain n rd2 where n: "discard_jsonl_line rd1 = Inr (n, rd2)" "archive_lines C m arch (off + length l + n) rd2 ?long = Inr a'"
          using "1.prems" l l0 m by (subst (asm) archive_lines.simps) (auto simp: Let_def split: sum.splits)
        from "1.IH"(2) [OF l refl l0 m refl False n(1) refl n(2)] long show ?thesis by simp
      qed
    qed
  qed
qed

text \<open>The physical lines of a file, with an unfinished last one.\<close>

definition lines_of :: "bytes \<Rightarrow> bytes list" where
  "lines_of bs = (let (ls, t) = split_lines bs in if t = [] then ls else ls @ [t])"

lemma read_until_long: "is_line l \<Longrightarrow> lim < length l \<Longrightarrow> read_until lim (l @ rest) = (take lim l, drop lim l @ rest)"
proof (induction l arbitrary: lim)
  case (Cons b l)
  show ?case
  proof (cases lim)
    case (Suc k)
    with Cons.prems have "l \<noteq> []" by auto
    with Cons.prems have "is_line l" "b \<noteq> newline" by (auto simp: is_line_def ends_nl_def)
    with Cons Suc show ?thesis by simp
  qed simp
qed (simp add: is_line_def ends_nl_def)

lemma drop_is_line: "is_line l \<Longrightarrow> n < length l \<Longrightarrow> is_line (drop n l)"
  by (auto simp: is_line_def ends_nl_def butlast_drop dest: in_set_dropD)

lemma discard_line:
  assumes "is_line l"
  shows "discard_jsonl_line \<lparr>rd_bytes = l @ rest, rd_fault = f\<rparr> = Inr (length l, \<lparr>rd_bytes = rest, rd_fault = f\<rparr>)"
proof -
  obtain b where l: "l = b @ [newline]" "newline \<notin> set b"
    using assms by (cases l rule: rev_cases) (auto simp: is_line_def ends_nl_def)
  have "position (\<lambda>x. x = newline) (b @ newline # rest) = Some (length b)" using l(2) by (induction b) auto
  then show ?thesis using l by (simp add: discard_jsonl_line_def)
qed

lemma archive_lines_step:
  assumes "is_line l" "m < u64_max" "archive_lines C m arch off \<lparr>rd_bytes = l @ rest, rd_fault = f\<rparr> a = Inr a'"
  obtains off1 a1 where "archive_lines C m arch off1 \<lparr>rd_bytes = rest, rd_fault = f\<rparr> a1 = Inr a'"
    "archived_ids a \<subseteq> archived_ids a1" "\<And>k. carries C m l k \<Longrightarrow> k \<in> archived_ids a1"
proof (cases "length l \<le> Suc m")
  case True
  let ?a = "if m < length l then a\<lparr>ar_incompatible := ar_incompatible a + 1\<rparr> else archive_line C arch off l a"
  have "read_limited (Suc m) \<lparr>rd_bytes = l @ rest, rd_fault = f\<rparr> = Inr (l, \<lparr>rd_bytes = rest, rd_fault = f\<rparr>)"
    using assms(1) read_until_line [OF assms(1) True, of rest] by (simp add: read_limited_def)
  then have "archive_lines C m arch (off + length l) \<lparr>rd_bytes = rest, rd_fault = f\<rparr> ?a = Inr a'"
    using assms by (subst (asm) archive_lines.simps) (simp add: Let_def split: if_splits)
  then show thesis
  proof (rule that)
    show "archived_ids a \<subseteq> archived_ids ?a" using archive_line_effect(1) [of a C arch off l] by (simp add: archived_ids_def)
    show "k \<in> archived_ids ?a" if "carries C m l k" for k
      using archive_line_effect(3) [OF that] that by (simp add: carries_def)
  qed
next
  case False
  let ?a = "a\<lparr>ar_incompatible := ar_incompatible a + 1\<rparr>"
  have t: "newline \<notin> set (take (Suc m) l)" using take_is_line [OF assms(1)] False by simp
  have "read_limited (Suc m) \<lparr>rd_bytes = l @ rest, rd_fault = f\<rparr>
      = Inr (take (Suc m) l, \<lparr>rd_bytes = drop (Suc m) l @ rest, rd_fault = f\<rparr>)"
    using False read_until_long [OF assms(1), of "Suc m" rest] by (simp add: read_limited_def)
  moreover have "discard_jsonl_line \<lparr>rd_bytes = drop (Suc m) l @ rest, rd_fault = f\<rparr>
      = Inr (length (drop (Suc m) l), \<lparr>rd_bytes = rest, rd_fault = f\<rparr>)"
    using discard_line [OF drop_is_line [OF assms(1)]] False by simp
  moreover have "l \<noteq> []" "min (length l) (Suc m) = Suc m" using False by auto
  ultimately have "archive_lines C m arch (off + Suc m + (length l - Suc m)) \<lparr>rd_bytes = rest, rd_fault = f\<rparr> ?a = Inr a'"
    using assms(2,3) not_ends_nl [OF t] by (subst (asm) archive_lines.simps) (simp add: Let_def del: min_less_iff_conj)
  then show thesis by (rule that) (use False in \<open>auto simp: archived_ids_def carries_def\<close>)
qed

lemma read_limited_flag: "read_limited lim rd = Inr (l, rd') \<Longrightarrow> rd_fault rd' = rd_fault rd"
  by (auto simp: read_limited_def Let_def split: prod.splits if_splits)

lemma discard_flag: "discard_jsonl_line rd = Inr (n, rd') \<Longrightarrow> rd_fault rd' = rd_fault rd"
  by (auto simp: discard_jsonl_line_def split: option.splits if_splits)

text \<open>A stream that breaks off ends the scan with an error.\<close>

lemma archive_lines_fault: "rd_fault rd \<Longrightarrow> archive_lines C m arch off rd a \<noteq> Inr a'"
proof (induction C m arch off rd a rule: archive_lines.induct)
  case (1 C m arch off rd a)
  show ?case
  proof
    assume r: "archive_lines C m arch off rd a = Inr a'"
    then obtain l rd1 where l: "read_limited (sat_add m 1) rd = Inr (l, rd1)"
      by (subst (asm) archive_lines.simps) (auto split: sum.splits)
    have f1: "rd_fault rd1" using read_limited_flag [OF l] "1.prems" by simp
    have l0: "l \<noteq> []"
      using l "1.prems" sat_add_pos [of 1 m] by (cases "rd_bytes rd") (auto simp: read_limited_def Let_def split: prod.splits if_splits)
    show False
    proof (cases "m < length l")
      case False
      with r l l0 "1.IH"(3) [OF l refl l0 False f1] show False by (subst (asm) (1) archive_lines.simps) simp
    next
      case m: True
      show False
      proof (cases "ends_nl l")
        case True
        with r l l0 m "1.IH"(1) [OF l refl l0 m refl True f1] show False
          by (subst (asm) (1) archive_lines.simps) (simp add: Let_def)
      next
        case False
        with r l l0 m obtain n rd2 where n: "discard_jsonl_line rd1 = Inr (n, rd2)"
          "archive_lines C m arch (off + length l + n) rd2 (a\<lparr>ar_incompatible := ar_incompatible a + 1\<rparr>) = Inr a'"
          by (subst (asm) (1) archive_lines.simps) (auto simp: Let_def split: sum.splits)
        with "1.IH"(2) [OF l refl l0 m refl False n(1) refl] discard_flag [OF n(1)] f1 show False by simp
      qed
    qed
  qed
qed

lemma archive_lines_tail:
  assumes "newline \<notin> set t" "m < u64_max" "archive_lines C m arch off \<lparr>rd_bytes = t, rd_fault = False\<rparr> a = Inr a'" "carries C m t k" "t \<noteq> []"
  shows "k \<in> archived_ids a'"
proof -
  have len: "length t \<le> m" using assms(4) by (simp add: carries_def)
  then have "read_limited (Suc m) \<lparr>rd_bytes = t, rd_fault = False\<rparr> = Inr (t, \<lparr>rd_bytes = [], rd_fault = False\<rparr>)"
    using read_until_no_newline [OF assms(1), of "Suc m"] by (simp add: read_limited_def)
  then have "archive_lines C m arch (off + length t) \<lparr>rd_bytes = [], rd_fault = False\<rparr> (archive_line C arch off t a) = Inr a'"
    using assms(2,3,5) len by (subst (asm) archive_lines.simps) simp
  from archive_lines_grow [OF this] archive_line_effect(3) [OF assms(4)] show ?thesis by blast
qed

lemma archive_lines_ids:
  assumes "m < u64_max" "archive_lines C m arch off \<lparr>rd_bytes = bs, rd_fault = f\<rparr> a = Inr a'" "l \<in> set (lines_of bs)" "carries C m l k"
  shows "k \<in> archived_ids a'"
proof -
  obtain ls t where split: "split_lines bs = (ls, t)" by (cases "split_lines bs")
  note bs = split_lines_concat [OF split] and ok = split_lines_lines [OF split]
  have f: "\<not> f" using archive_lines_fault [of "\<lparr>rd_bytes = bs, rd_fault = f\<rparr>" C m arch off a a'] assms(2) by auto
  have "k \<in> archived_ids a'"
    if "list_all is_line ls" "archive_lines C m arch off \<lparr>rd_bytes = concat ls @ t, rd_fault = f\<rparr> a = Inr a'"
      "l \<in> set ls \<or> l = t \<and> t \<noteq> []" for ls off a
    using that
  proof (induction ls arbitrary: off a)
    case Nil
    then show ?case using archive_lines_tail [of t m C arch off a a' k] ok assms(1,4) f by simp
  next
    case (Cons x ls)
    have x: "is_line x" "archive_lines C m arch off \<lparr>rd_bytes = x @ concat ls @ t, rd_fault = f\<rparr> a = Inr a'"
      using Cons.prems by simp_all
    obtain off1 a1 where s: "archive_lines C m arch off1 \<lparr>rd_bytes = concat ls @ t, rd_fault = f\<rparr> a1 = Inr a'"
      "\<And>k. carries C m x k \<Longrightarrow> k \<in> archived_ids a1"
      using archive_lines_step [OF x(1) assms(1) x(2)] by metis
    show ?case
    proof (cases "l = x")
      case True
      then show ?thesis using s(2) assms(4) archive_lines_grow [OF s(1)] by blast
    next
      case False
      then show ?thesis using Cons.IH [OF _ s(1)] Cons.prems by auto
    qed
  qed
  then show ?thesis using assms(2,3) bs ok split by (auto simp: lines_of_def split: if_splits)
qed

text \<open>An id is reserved when a line of an archive carries it.\<close>

definition is_archive :: "string \<Rightarrow> string \<Rightarrow> bool" where
  "is_archive path n \<longleftrightarrow> starts_with (archive_name path '''') n"

definition file_carries :: "('v, 'e) command_codec \<Rightarrow> nat \<Rightarrow> directory \<Rightarrow> string \<Rightarrow> command_id \<Rightarrow> bool" where
  "file_carries C m d n k \<longleftrightarrow>
     (\<exists>i l. name_of d n = Some i \<and> nd_kind (fs_nodes d i) = RegularFile
        \<and> l \<in> set (lines_of (nd_bytes (fs_nodes d i))) \<and> carries C m l k)"

definition reserved :: "('v, 'e) command_codec \<Rightarrow> nat \<Rightarrow> string \<Rightarrow> directory \<Rightarrow> command_id \<Rightarrow> bool" where
  "reserved C m path d k \<longleftrightarrow> (\<exists>n. is_archive path n \<and> file_carries C m d n k)"

lemma is_archive_name [simp]: "is_archive path (archive_name path f)" "\<not> is_archive path path"
  by (simp_all add: is_archive_def starts_with_def archive_name_def)

lemma file_carries_same: "same_dir d d' \<Longrightarrow> file_carries C m d' = file_carries C m d"
  by (simp add: file_carries_def name_of_same fun_eq_iff) (simp add: same_dir_def)

lemma reserved_evolves:
  assumes "evolves path F {} d d'" "reserved C m path d k" "wf_dir d"
  shows "reserved C m path d' k"
proof -
  obtain n i l where n: "is_archive path n" "name_of d n = Some i" "nd_kind (fs_nodes d i) = RegularFile"
    "l \<in> set (lines_of (nd_bytes (fs_nodes d i)))" "carries C m l k"
    using assms(2) unfolding reserved_def file_carries_def by blast
  have "n \<noteq> path" using n(1) by auto
  then have "name_of d' n = Some i" using assms(1) n(2) unfolding evolves_def by blast
  moreover have "nd_kind (fs_nodes d' i) = nd_kind (fs_nodes d i)" "nd_bytes (fs_nodes d' i) = nd_bytes (fs_nodes d i)"
    using assms(1) wf_dir_name [OF assms(3) n(2)] unfolding evolves_def by auto
  ultimately show ?thesis using n unfolding reserved_def file_carries_def by metis
qed

text \<open>An archive among the entries, and the loop over them.\<close>

definition noted :: "('v, 'e) command_codec \<Rightarrow> nat \<Rightarrow> directory \<Rightarrow> string \<Rightarrow> archive_state \<Rightarrow> bool" where
  "noted C m d n a \<longleftrightarrow> n \<in> set (ar_archives a) \<and> (\<forall>k. file_carries C m d n k \<longrightarrow> k \<in> archived_ids a)"

definition archive_le :: "archive_state \<Rightarrow> archive_state \<Rightarrow> bool" where
  "archive_le a a' \<longleftrightarrow> archived_ids a \<subseteq> archived_ids a' \<and> set (ar_archives a) \<subseteq> set (ar_archives a')"

lemma noted_le: "noted C m d n a \<Longrightarrow> archive_le a a' \<Longrightarrow> noted C m d n a'"
  by (auto simp: noted_def archive_le_def)

lemma noted_same: "same_dir d d' \<Longrightarrow> noted C m d' n a = noted C m d n a"
  by (simp add: noted_def file_carries_same)

lemma scan_archives_opened:
  assumes "m < u64_max" "is_archive path n" "open_reader i d = (rd, d1)" "name_of d n = Some i"
    "archive_lines C m n 0 rd a = Inr b"
  shows "archive_le a (b\<lparr>ar_archives := ar_archives b @ [n]\<rparr>) \<and> noted C m d n (b\<lparr>ar_archives := ar_archives b @ [n]\<rparr>)"
proof -
  have "\<not> rd_fault rd" using archive_lines_fault [of rd C m n 0 a b] assms(5) by auto
  then have "rd_bytes rd = nd_bytes (fs_nodes d i)" by (rule open_reader_effect(2) [OF assms(3)])
  then have "archive_lines C m n 0 \<lparr>rd_bytes = nd_bytes (fs_nodes d i), rd_fault = rd_fault rd\<rparr> a = Inr b"
    using assms(5) by (cases rd) simp
  note ids = archive_lines_ids [OF assms(1) this]
  have "k \<in> archived_ids b" if "file_carries C m d n k" for k
    using that ids assms(4) by (auto simp: file_carries_def)
  with archive_lines_grow [OF assms(5)] show ?thesis by (auto simp: archive_le_def noted_def archived_ids_def)
qed

lemma scan_archives_step:
  assumes "m < u64_max" "is_archive path n" "scan_archives C m path (n # ns) a d = (r, d')"
  obtains (failed) e where "r = Inl e" "same_dir d d'"
  | (step) a1 d1 where "scan_archives C m path ns a1 d1 = (r, d')" "same_dir d d1" "archive_le a a1" "noted C m d n a1"
proof -
  obtain r1 d1 where 1: "fs_call d = (r1, d1)" by (cases "fs_call d")
  obtain r2 d2 where 2: "open_regular_read n d1 = (r2, d2)" by (cases "open_regular_read n d1")
  note e1 = fs_call_effect(1) [OF 1] and e2 = open_regular_effect [OF 2]
  have s: "same_dir d d2" by (rule same_dir_trans [OF e1 e2(1)])
  have n: "name_of d1 = name_of d" "fs_nodes d1 = fs_nodes d" "name_of d2 = name_of d"
    using e1 name_of_same [OF e1] name_of_same [OF s] by (simp_all add: same_dir_def)
  show thesis
  proof (cases r1)
    case (Inl e)
    then show thesis using assms(3) 1 e1 by (intro failed [of e]) auto
  next
    case r1: (Inr u)
    consider e where "r2 = Inl e" | "r2 = Inr None" | i where "r2 = Inr (Some i)" by (metis sum.exhaust option.exhaust)
    then show thesis
    proof cases
      case (1 e)
      then show thesis using assms(2,3) \<open>fs_call d = (r1, d1)\<close> r1 2 s by (intro failed [of e]) (auto simp: is_archive_def)
    next
      case none: 2
      show thesis
      proof (rule step)
        show "scan_archives C m path ns (a\<lparr>ar_incompatible := ar_incompatible a + 1, ar_archives := ar_archives a @ [n]\<rparr>) d2 = (r, d')"
          using assms(2,3) 1 r1 2 none by (simp add: is_archive_def)
      qed (use s e2(3) [OF none] n in \<open>auto simp: archive_le_def noted_def archived_ids_def file_carries_def\<close>)
    next
      case (3 i)
      obtain rd d3 where rd: "open_reader i d2 = (rd, d3)" by (cases "open_reader i d2")
      have s3: "same_dir d d3" by (rule same_dir_trans [OF s open_reader_effect(1) [OF rd]])
      show thesis
      proof (cases "archive_lines C m n 0 rd a")
        case (Inl e)
        then show thesis using assms(2,3) 1 r1 2 3 rd s3 by (intro failed [of e]) (auto simp: is_archive_def)
      next
        case (Inr b)
        have ni: "name_of d2 n = Some i" using e2(2) [OF 3] n by simp
        show thesis
        proof (rule step)
          show "scan_archives C m path ns (b\<lparr>ar_archives := ar_archives b @ [n]\<rparr>) d3 = (r, d')"
            using assms(2,3) 1 r1 2 3 rd Inr by (simp add: is_archive_def)
        qed (use s3 scan_archives_opened [OF assms(1,2) rd ni Inr] in \<open>simp_all add: noted_same [OF s]\<close>)
      qed
    qed
  qed
qed

lemma archive_le_refl [simp]: "archive_le a a"
  by (simp add: archive_le_def)

lemma archive_le_trans [trans]: "archive_le a b \<Longrightarrow> archive_le b c \<Longrightarrow> archive_le a c"
  by (auto simp: archive_le_def)

lemma scan_archives_effect:
  assumes "m < u64_max" "scan_archives C m path ns a d = (r, d')"
  shows "same_dir d d'"
    "r = Inr a' \<Longrightarrow> archive_le a a' \<and> (\<forall>n \<in> set ns. is_archive path n \<longrightarrow> noted C m d n a')"
proof -
  have "same_dir d d' \<and> (\<forall>a'. r = Inr a' \<longrightarrow> archive_le a a' \<and> (\<forall>n \<in> set ns. is_archive path n \<longrightarrow> noted C m d n a'))"
    using assms(2)
  proof (induction ns arbitrary: a d)
    case Nil
    then show ?case by (auto elim!: and_thenE dest: fs_call_effect)
  next
    case (Cons n ns)
    show ?case
    proof (cases "is_archive path n")
      case False
      obtain r1 d1 where 1: "fs_call d = (r1, d1)" by (cases "fs_call d")
      note e1 = fs_call_effect(1) [OF 1]
      show ?thesis
      proof (cases r1)
        case (Inr u)
        then have s: "scan_archives C m path ns a d1 = (r, d')" using Cons.prems 1 False by (simp add: is_archive_def)
        from Cons.IH [OF s] False show ?thesis
          using same_dir_trans [OF e1] by (auto simp: noted_same [OF e1])
      qed (use Cons.prems 1 e1 in auto)
    next
      case True
      show ?thesis
      proof (cases rule: scan_archives_step [OF assms(1) True Cons.prems, case_names failed step])
        case (step a1 d1)
        from Cons.IH [OF step(1)] step show ?thesis
          using same_dir_trans [OF step(2)] noted_le [OF step(4)]
          by (auto simp: noted_same [OF step(2)] intro: archive_le_trans)
      qed simp
    qed
  qed
  then show "same_dir d d'" "r = Inr a' \<Longrightarrow> archive_le a a' \<and> (\<forall>n \<in> set ns. is_archive path n \<longrightarrow> noted C m d n a')" by blast+
qed

section \<open>Opening the writer\<close>

lemma archive_irregular_evolves:
  assumes "wf_dir d" "unused path {f} d" "archive_irregular path f d = (r, d')"
  shows "evolves path {f} {} d d'"
proof -
  obtain r1 d1 where 1: "symlink_metadata path d = (r1, d1)" by (cases "symlink_metadata path d")
  note s = symlink_metadata_effect(1) [OF 1]
  have w: "wf_dir d1" "name_of d1 (archive_name path f) = None"
    using assms(1,2) wf_dir_same [OF s] name_of_same [OF s] by (simp_all add: unused_def)
  have "same_dir d1 d' \<or> archive_journal path f d1 = (r, d')"
    using assms(3) 1 by (auto simp: archive_irregular_def split: sum.splits io_kind.splits if_splits)
  then have "evolves path {f} {} d1 d'"
    using archive_journal_evolves [OF w, of r d' "{f}" "{}"] evolves_same [OF w(1)] by auto
  then show ?thesis by (rule evolves_trans [OF evolves_same [OF assms(1) s]])
qed

lemma open_indexed_evolves:
  assumes "wf_dir d" "unused path {f} d" "open_indexed C m path f d = (r, d')"
  shows "evolves path {f} {} d d'"
proof -
  obtain r1 d1 where 1: "open_checked path d = (r1, d1)" by (cases "open_checked path d")
  obtain r2 d2 where 2: "fs_call d1 = (r2, d2)" by (cases "fs_call d1")
  obtain rd d3 where 3: "open_reader (projr r1) d2 = (rd, d3)" by (cases "open_reader (projr r1) d2")
  obtain r4 d4 where 4: "archive_journal path f d3 = (r4, d4)" by (cases "archive_journal path f d3")
  obtain r5 d5 where 5: "open_checked path d4 = (r5, d5)" by (cases "open_checked path d4")
  have e1: "evolves path {} {} d d1" by (rule open_checked_effect(1) [OF assms(1) 1])
  have s: "same_dir d1 d2" "same_dir d2 d3" using fs_call_effect(1) [OF 2] open_reader_effect(1) [OF 3] by auto
  have e3: "evolves path {} {} d d3" using evolves_then_same [OF evolves_then_same [OF e1 s(1)] s(2)] .
  have w3: "wf_dir d3" "name_of d3 (archive_name path f) = None"
    using evolves_wf [OF e3] unused_evolves [OF assms(2) e3] by (auto simp: unused_def)
  have e4: "evolves path {f} {} d3 d4" by (rule archive_journal_evolves [OF w3 4]) simp
  have e5: "evolves path {f} {} d4 d5" by (rule open_checked_effect(1) [OF evolves_wf [OF e4] 5])
  have "d' \<in> {d1, d2, d3, d4, d5}"
    using assms(3) 1 2 3 4 5 unfolding open_indexed_def
    by (auto elim!: and_thenE simp: Let_def split: prod.splits if_splits sum.splits)
  moreover have f: "evolves path {f} {} d d1" "evolves path {f} {} d d3"
    using evolves_mono [OF e1, of "{f}" "{}"] evolves_mono [OF e3, of "{f}" "{}"] by auto
  moreover have "evolves path {f} {} d d2" by (rule evolves_then_same [OF f(1) s(1)])
  moreover have "evolves path {f} {} d d4" by (rule evolves_trans [OF f(2) e4])
  moreover have "evolves path {f} {} d d5" by (rule evolves_trans [OF evolves_trans [OF f(2) e4] e5])
  ultimately show ?thesis by auto
qed

text \<open>Every archive in the directory is known to the writer.\<close>

definition covers :: "('v, 'e) command_codec \<Rightarrow> nat \<Rightarrow> string \<Rightarrow> directory \<Rightarrow> archive_state \<Rightarrow> bool" where
  "covers C m path d a \<longleftrightarrow> (\<forall>n. is_archive path n \<and> name_of d n \<noteq> None \<longrightarrow> noted C m d n a)"

lemma covers_same: "same_dir d d' \<Longrightarrow> covers C m path d' a = covers C m path d a"
  by (simp add: covers_def name_of_same noted_same)

lemma covers_reserved:
  assumes "covers C m path d a" "reserved C m path d k"
  shows "k \<in> archived_ids a" "ar_archives a \<noteq> []"
proof -
  obtain n where n: "is_archive path n" "file_carries C m d n k" using assms(2) unfolding reserved_def by blast
  then have "noted C m d n a" using assms(1) by (auto simp: covers_def file_carries_def)
  with n show "k \<in> archived_ids a" "ar_archives a \<noteq> []" by (auto simp: noted_def)
qed

lemma scan_archivesD:
  assumes "m < u64_max" "scan_archives C m path ns a d = (r, d')"
  shows "same_dir d d' \<and> (\<forall>a'. r = Inr a' \<longrightarrow> (\<forall>n \<in> set ns. is_archive path n \<longrightarrow> noted C m d n a'))"
  using scan_archives_effect(1) [OF assms] scan_archives_effect(2) [OF assms] by blast

lemma finish_writer_effect:
  assumes "m < u64_max" "finish_writer C m path (i, q, ix) d = (r, d')"
  shows "same_dir d d'"
    "r = Inr w \<Longrightarrow> covers C m path d (ws_archived w) \<and> ws_file w = i \<and> ws_identity w = i \<and> ws_next_sequence w = q
       \<and> ws_offsets w = ix \<and> ws_file_len w = length (nd_bytes (fs_nodes d i)) \<and> ws_modified w = nd_modified (fs_nodes d i)"
proof -
  let ?W = "\<lambda>w. covers C m path d (ws_archived w) \<and> ws_file w = i \<and> ws_identity w = i \<and> ws_next_sequence w = q
       \<and> ws_offsets w = ix \<and> ws_file_len w = length (nd_bytes (fs_nodes d i)) \<and> ws_modified w = nd_modified (fs_nodes d i)"
  have covers: "covers C m path d a" if "\<forall>n \<in> set (fs_entries d). is_archive path (fst n) \<longrightarrow> noted C m e (fst n) a"
      "fs_entries e = fs_entries d" "fs_nodes e = fs_nodes d" "fs_next e = fs_next d" "fs_clock e = fs_clock d" for a e
  proof -
    have e: "same_dir d e" using that by (simp add: same_dir_def)
    show ?thesis using that(1) unfolding noted_same [OF e] by (fastforce simp: covers_def name_of_def map_of_eq_None_iff)
  qed
  have "same_dir d d' \<and> (\<forall>w. r = Inr w \<longrightarrow> ?W w)"
    using assms(2) unfolding finish_writer_def prod.case
    apply (elim and_thenE)
    apply (auto dest!: fs_call_effect(1) sync_directory_effect metadataD scan_archivesD [OF assms(1)] simp: same_dir_def)
    apply (rule covers; assumption)
    done
  then show "same_dir d d'" "r = Inr w \<Longrightarrow> ?W w" by auto
qed

lemma open_indexed_opened:
  assumes "wf_dir d" "open_indexed C m path f d = (Inr (i, q, ix), d')"
  shows "name_of d' path = Some i \<and> nd_kind (fs_nodes d' i) = RegularFile \<and> nd_links (fs_nodes d' i) = 1"
proof -
  obtain i1 d1 where 1: "open_checked path d = (Inr i1, d1)" using assms(2) unfolding open_indexed_def by (auto elim: and_thenE)
  obtain r2 d2 where 2: "fs_call d1 = (r2, d2)" by (cases "fs_call d1")
  obtain rd d3 where 3: "open_reader i1 d2 = (rd, d3)" by (cases "open_reader i1 d2")
  have s: "same_dir d1 d3" using same_dir_trans [OF fs_call_effect(1) [OF 2] open_reader_effect(1) [OF 3]] .
  have w: "wf_dir d3" using wf_dir_same [OF s] evolves_wf [OF open_checked_effect(1) [OF assms(1) 1]] by simp
  have "(i = i1 \<and> d' = d3) \<or> (\<exists>r4 d4. archive_journal path f d3 = (r4, d4) \<and> open_checked path d4 = (Inr i, d'))"
    using assms(2) 1 2 3 unfolding open_indexed_def
    by (auto elim!: and_thenE simp: Let_def split: prod.splits if_splits sum.splits)
  then show ?thesis
  proof (elim disjE exE conjE)
    assume "i = i1" "d' = d3"
    then show ?thesis
      using open_checked_effect(2) [OF assms(1) 1 refl] s name_of_same [OF s] by (simp add: same_dir_def)
  next
    fix r4 d4 assume 4: "archive_journal path f d3 = (r4, d4)" "open_checked path d4 = (Inr i, d')"
    obtain r5 d5 where 5: "fs_rename path (archive_name path f) d3 = (r5, d5)" by (cases "fs_rename path (archive_name path f) d3")
    have "wf_dir d5"
    proof (cases "name_of d3 (archive_name path f) = name_of d3 path")
      case True
      obtain q e where q: "fs_call d3 = (q, e)" by (cases "fs_call d3")
      have "same_dir d3 d5"
        using 5 q True name_of_same [OF fs_call_effect(1) [OF q]] fs_call_effect(1) [OF q]
        by (auto simp: fs_rename_def elim!: and_thenE split: option.splits)
      then show ?thesis using w wf_dir_same by blast
    next
      case False
      from fs_rename_effect [OF 5 False] w show ?thesis using wf_dir_same wf_dir_renamed by blast
    qed
    moreover have "same_dir d5 d4"
      using 4(1) 5 unfolding archive_journal_def by (auto elim!: and_thenE dest: sync_directory_effect)
    ultimately have "wf_dir d4" using wf_dir_same by blast
    from open_checked_effect(2) [OF this 4(2) refl] show ?thesis .
  qed
qed

lemma open_writer_effect:
  assumes "wf_dir d" "unused path {fresh 0, fresh 1} d" "fresh 0 \<noteq> fresh (1 :: nat)" "m < u64_max"
    "command_open_writer C fresh m path d = (r, d')"
  shows "evolves path {fresh 0, fresh 1} {} d d'"
    "r = Inr w \<Longrightarrow> covers C m path d' (ws_archived w) \<and> ws_identity w = ws_file w \<and> name_of d' path = Some (ws_file w)
       \<and> nd_kind (fs_nodes d' (ws_file w)) = RegularFile \<and> nd_links (fs_nodes d' (ws_file w)) = 1
       \<and> ws_file_len w = length (nd_bytes (fs_nodes d' (ws_file w))) \<and> ws_modified w = nd_modified (fs_nodes d' (ws_file w))"
proof -
  let ?F = "{fresh 0, fresh 1}"
  obtain r1 d1 where 1: "archive_irregular path (fresh 0) d = (r1, d1)" by (cases "archive_irregular path (fresh 0) d")
  obtain r2 d2 where 2: "open_indexed C m path (fresh 1) d1 = (r2, d2)" by (cases "open_indexed C m path (fresh 1) d1")
  obtain r3 d3 where 3: "finish_writer C m path (projr r2) d2 = (r3, d3)" by (cases "finish_writer C m path (projr r2) d2")
  obtain i q ix where o: "projr r2 = (i, q, ix)" by (cases "projr r2")
  have e1: "evolves path {fresh 0} {} d d1"
    using archive_irregular_evolves [OF assms(1) _ 1] assms(2) by (simp add: unused_def)
  have u1: "unused path {fresh 1} d1" using unused_evolves [OF _ e1, of "{fresh 1}"] assms(2,3) by (simp add: unused_def)
  have f: "evolves path ?F {} d d1" using evolves_mono [OF e1] by simp
  have e2: "evolves path ?F {} d d2"
    using evolves_trans [OF f evolves_mono [OF open_indexed_evolves [OF evolves_wf [OF e1] u1 2]]] by simp
  note e3 = finish_writer_effect [OF assms(4) 3 [unfolded o]]
  have c: "d' = d1 \<or> d' = d2 \<or> d' = d3" "r = Inr w \<Longrightarrow> r2 = Inr (i, q, ix) \<and> r3 = Inr w \<and> d' = d3" for w
    using assms(5) 1 2 3 o unfolding command_open_writer_def by (auto elim!: and_thenE)
  show "evolves path ?F {} d d'" using c(1) f e2 evolves_then_same [OF e2 e3(1)] by auto
  assume "r = Inr w"
  note c2 = c(2) [OF this]
  note x = open_indexed_opened [OF evolves_wf [OF e1] 2 [unfolded conjunct1 [OF c2]]]
  have "covers C m path d3 (ws_archived w)" using e3(2) [of w] c2 by (simp add: covers_same [OF e3(1)])
  moreover have "fs_nodes d3 = fs_nodes d2" using e3(1) by (simp add: same_dir_def)
  ultimately show "covers C m path d' (ws_archived w) \<and> ws_identity w = ws_file w \<and> name_of d' path = Some (ws_file w)
       \<and> nd_kind (fs_nodes d' (ws_file w)) = RegularFile \<and> nd_links (fs_nodes d' (ws_file w)) = 1
       \<and> ws_file_len w = length (nd_bytes (fs_nodes d' (ws_file w))) \<and> ws_modified w = nd_modified (fs_nodes d' (ws_file w))"
    using e3(2) [of w] c2 x name_of_same [OF e3(1)] by simp
qed

end
