(* ===== verification/Command_Durability.thy ===== *)
theory Command_Durability
  imports Command_Journal
begin

text \<open>
  Durability of the command journal: what a scan finds in a file of well-formed records, the invariant that
  ties an open journal to its file, its preservation by appends, exact histories, and what remains of
  a journal after a failed write or a crash.
\<close>

section \<open>Lines of records\<close>

definition with_sequence :: "u64 \<Rightarrow> ('v, 'e) command_record \<Rightarrow> ('v, 'e) command_record" where
  "with_sequence q r = r\<lparr>cr_sequence := q\<rparr>"

lemma with_sequence_simps [simp]:
  "cr_sequence (with_sequence q r) = q" "cr_command_id (with_sequence q r) = cr_command_id r"
  "with_sequence q (with_sequence p r) = with_sequence q r"
  by (simp_all add: with_sequence_def)

text \<open>What the journal relies on from \<open>serde_json\<close> for the records in \<open>T\<close>, whatever their sequence: a record
  is written on one line that is not blank, and decoding the line gives the record back.\<close>

definition faithful_commands :: "('v, 'e) command_codec \<Rightarrow> ('v, 'e) command_record set \<Rightarrow> bool" where
  "faithful_commands C T \<longleftrightarrow>
     (\<forall>r \<in> T. \<forall>q. \<exists>cs. cc_writes C (with_sequence q r) = Some cs \<and> newline \<notin> set (concat cs)
        \<and> \<not> list_all is_ascii_whitespace (concat cs)
        \<and> cc_dec C (concat cs @ [newline]) = Some (with_sequence q r))"

definition drawn :: "('v, 'e) command_record set \<Rightarrow> ('v, 'e) command_record \<Rightarrow> bool" where
  "drawn T r \<longleftrightarrow> (\<exists>t \<in> T. \<exists>q. r = with_sequence q t)"

definition command_line :: "('v, 'e) command_codec \<Rightarrow> ('v, 'e) command_record \<Rightarrow> bytes" where
  "command_line C r = (case cc_writes C r of None \<Rightarrow> [] | Some cs \<Rightarrow> concat cs @ [newline])"

definition command_bytes :: "('v, 'e) command_codec \<Rightarrow> ('v, 'e) command_record list \<Rightarrow> bytes" where
  "command_bytes C rs = concat (map (command_line C) rs)"

definition good_commands ::
  "('v, 'e) command_codec \<Rightarrow> ('v, 'e) command_record set \<Rightarrow> nat \<Rightarrow> ('v, 'e) command_record list \<Rightarrow> bool" where
  "good_commands C T m rs \<longleftrightarrow>
     (\<forall>r \<in> set rs. drawn T r \<and> length (command_line C r) \<le> m) \<and> sorted_wrt (<) (map cr_sequence rs)"

lemma drawn_with_sequence: "r \<in> T \<Longrightarrow> drawn T (with_sequence q r)"
  by (auto simp: drawn_def)

lemma drawn_line:
  assumes "faithful_commands C T" "drawn T r"
  obtains cs where "cc_writes C r = Some cs" "command_line C r = concat cs @ [newline]" "newline \<notin> set (concat cs)"
    "\<not> list_all is_ascii_whitespace (command_line C r)" "cc_dec C (command_line C r) = Some r" "is_line (command_line C r)"
proof -
  obtain cs where cs: "cc_writes C r = Some cs" "newline \<notin> set (concat cs)" "\<not> list_all is_ascii_whitespace (concat cs)"
    "cc_dec C (concat cs @ [newline]) = Some r"
    using assms unfolding faithful_commands_def drawn_def by blast
  then show thesis by (intro that [of cs]) (auto simp: command_line_def is_line_def ends_nl_def)
qed

section \<open>The index of a file\<close>

text \<open>A map of lists that holds the pairs of a list, in order.\<close>

definition collects :: "('k \<times> 'v list) list \<Rightarrow> ('k \<times> 'v) list \<Rightarrow> bool" where
  "collects m ps \<longleftrightarrow>
     (\<forall>k. map_of m k = (if k \<in> fst ` set ps then Some (map snd (filter (\<lambda>p. fst p = k) ps)) else None))"

lemma collects_Nil [simp]: "collects [] []"
  by (simp add: collects_def)

lemma filter_fst_Nil: "k \<notin> fst ` set ps \<Longrightarrow> filter (\<lambda>p. fst p = k) ps = []"
  by (auto simp: filter_empty_conv)

lemma collects_push: "collects m ps \<Longrightarrow> collects (push_entry k v m) (ps @ [(k, v)])"
  by (auto simp: collects_def push_entry_def hmap_simps filter_fst_Nil)

fun index_from :: "('v, 'e) command_codec \<Rightarrow> nat \<Rightarrow> ('v, 'e) command_record list \<Rightarrow> (command_id \<times> indexed_record) list" where
  "index_from C off [] = []"
| "index_from C off (r # rs) =
     (cr_command_id r, indexed_new C off (command_line C r)) # index_from C (off + length (command_line C r)) rs"

lemma index_from_append:
  "index_from C off (rs @ rs') = index_from C off rs @ index_from C (off + length (command_bytes C rs)) rs'"
  by (induction rs arbitrary: off) (simp_all add: command_bytes_def add.assoc)

lemma index_from_keys: "fst ` set (index_from C off rs) = cr_command_id ` set rs"
  by (induction rs arbitrary: off) auto

lemma command_bytes_simps [simp]:
  "command_bytes C [] = []" "command_bytes C (r # rs) = command_line C r @ command_bytes C rs"
  "command_bytes C (rs @ rs') = command_bytes C rs @ command_bytes C rs'"
  by (simp_all add: command_bytes_def)

section \<open>Scanning a file\<close>

abbreviation command_options :: "nat \<Rightarrow> scan_options" where
  "command_options m \<equiv> \<lparr>max_line_bytes = m, seq_rule = Increasing\<rparr>"

lemma observe_oversized:
  "(\<And>s k. obs = Rejected s k \<Longrightarrow> k \<noteq> kind) \<Longrightarrow> kind \<notin> {SequenceIssue, SequenceExhausted} \<Longrightarrow>
     issue_count (snd (observe rule n off obs h)) kind = issue_count h kind"
  by (auto simp: observe_def Let_def record_issue_def issue_count_def
      split: record_observation.splits option.splits)

lemma scan_command_record:
  assumes "faithful_commands C T" "drawn T r" "\<And>s. max_observed_sequence h = Some s \<Longrightarrow> s < cr_sequence r"
  shows "\<exists>h'. scan_complete (command_ledger C) (command_options m) h (Some ix) (command_line C r)
            = Inr (Continue, h', Some (push_entry (cr_command_id r) (indexed_new C (bytes_observed h) (command_line C r)) ix))
          \<and> max_observed_sequence h' = Some (cr_sequence r) \<and> incompatible_records h' = incompatible_records h
          \<and> issue_count h' TornTail = issue_count h TornTail \<and> issue_count h' OversizedLine = issue_count h OversizedLine
          \<and> bytes_observed h' = sat_add (bytes_observed h) (length (command_line C r))"
proof -
  let ?p = "\<lparr>observation = Accepted (Some (cr_sequence r)), pr_record = Some r\<rparr>"
  let ?l = "line_at h (command_line C r)"
  let ?e = "enter_line h (command_line C r) ?p"
  let ?o = "observe Increasing (ln_number ?l) (ln_offset ?l) (Accepted (Some (cr_sequence r))) ?e"
  have valid: "sequence_valid Increasing ?e (Some (cr_sequence r))"
    using assms(3) by (auto simp: sequence_valid_def split: option.splits)
  then have verdict: "fst ?o = SeqValid"
    by (simp add: observe_verdict obs_sequence_def obs_rejected_def)
  have "max_observed_sequence (snd ?o) = Some (cr_sequence r)"
    using assms(3) by (auto simp: observe_max obs_sequence_def max_opt_def split: option.splits)
  moreover have "incompatible_records (snd ?o) = incompatible_records h"
    by (simp add: observe_incompatible verdict)
  moreover have "issue_count (snd ?o) k = issue_count h k" if "k \<in> {TornTail, OversizedLine}" for k
    using that by (subst observe_oversized) auto
  moreover have "bytes_observed (snd ?o) = sat_add (bytes_observed h) (length (command_line C r))" by simp
  moreover obtain cs where "\<not> list_all is_ascii_whitespace (command_line C r)" "cc_dec C (command_line C r) = Some r"
    using drawn_line [OF assms(1,2)] .
  then have "scan_complete (command_ledger C) (command_options m) h (Some ix) (command_line C r)
      = Inr (Continue, snd ?o, Some (push_entry (cr_command_id r) (indexed_new C (bytes_observed h) (command_line C r)) ix))"
    by (simp add: scan_complete_def command_ledger_def Let_def command_decode_def command_apply_def line_at_def case_prod_beta)
  ultimately show ?thesis by blast
qed

definition last_command :: "('v, 'e) command_record list \<Rightarrow> u64 option" where
  "last_command rs = (if rs = [] then None else Some (cr_sequence (last rs)))"

lemma scan_command_records:
  assumes "faithful_commands C T" "good_commands C T m rs" "collects ix ps"
    "\<And>s r. max_observed_sequence h = Some s \<Longrightarrow> r \<in> set rs \<Longrightarrow> s < cr_sequence r"
    "bytes_observed h + length (command_bytes C rs) \<le> u64_max"
  shows "\<exists>h' ix'. scan_lines (command_ledger C) (command_options m) h (Some ix) (map (command_line C) rs)
              = Inr (Continue, h', Some ix')
          \<and> collects ix' (ps @ index_from C (bytes_observed h) rs)
          \<and> max_observed_sequence h' = (if rs = [] then max_observed_sequence h else last_command rs)
          \<and> incompatible_records h' = incompatible_records h
          \<and> issue_count h' TornTail = issue_count h TornTail \<and> issue_count h' OversizedLine = issue_count h OversizedLine
          \<and> bytes_observed h' = bytes_observed h + length (command_bytes C rs)"
  using assms
proof (induction rs arbitrary: h ix ps)
  case (Cons r rs)
  from Cons.prems(2) have r: "drawn T r" "good_commands C T m rs" "\<forall>r' \<in> set rs. cr_sequence r < cr_sequence r'"
    by (auto simp: good_commands_def)
  let ?e = "indexed_new C (bytes_observed h) (command_line C r)"
  from scan_command_record [OF Cons.prems(1) r(1), of h m ix] Cons.prems(4) obtain h1 where
    h1: "scan_complete (command_ledger C) (command_options m) h (Some ix) (command_line C r)
           = Inr (Continue, h1, Some (push_entry (cr_command_id r) ?e ix))"
      "max_observed_sequence h1 = Some (cr_sequence r)" "incompatible_records h1 = incompatible_records h"
      "issue_count h1 TornTail = issue_count h TornTail" "issue_count h1 OversizedLine = issue_count h OversizedLine"
      "bytes_observed h1 = bytes_observed h + length (command_line C r)"
    using Cons.prems(5) by auto
  have above: "s < cr_sequence r'" if "max_observed_sequence h1 = Some s" "r' \<in> set rs" for s r'
    using that h1(2) r(3) by auto
  have "bytes_observed h1 + length (command_bytes C rs) \<le> u64_max" using h1(6) Cons.prems(5) by simp
  from Cons.IH [OF Cons.prems(1) r(2) collects_push [OF Cons.prems(3)] above this, of "cr_command_id r" ?e]
  obtain h2 ix2 where h2: "scan_lines (command_ledger C) (command_options m) h1 (Some (push_entry (cr_command_id r) ?e ix))
        (map (command_line C) rs) = Inr (Continue, h2, Some ix2)"
    "collects ix2 ((ps @ [(cr_command_id r, ?e)]) @ index_from C (bytes_observed h1) rs)"
    "max_observed_sequence h2 = (if rs = [] then max_observed_sequence h1 else last_command rs)"
    "incompatible_records h2 = incompatible_records h1" "issue_count h2 TornTail = issue_count h1 TornTail"
    "issue_count h2 OversizedLine = issue_count h1 OversizedLine"
    "bytes_observed h2 = bytes_observed h1 + length (command_bytes C rs)" by auto
  show ?case
    by (rule exI [of _ h2], rule exI [of _ ix2]) (use h1 h2 in \<open>simp add: last_command_def add.assoc\<close>)
qed (auto simp: last_command_def)

text \<open>The result of a scan of well-formed records followed by an unfinished line.\<close>

lemma scan_file_good:
  assumes "faithful_commands C T" "good_commands C T m rs" "newline \<notin> set t" "length t \<le> m"
    and len: "length (command_bytes C rs @ t) \<le> u64_max"
  obtains ix n where "scan_file C m (Some []) \<lparr>rd_bytes = command_bytes C rs @ t, rd_fault = False\<rparr>
      = Inr (\<lparr>cs_torn_tail = (t \<noteq> []), cs_incompatible = 0, cs_records = n, cs_max_sequence = last_command rs\<rparr>, Some ix)"
    "collects ix (index_from C 0 rs)"
proof -
  let ?ls = "map (command_line C) rs" and ?h = "default_health\<lparr>lh_exists := True\<rparr>"
  have "is_line (command_line C r)" if "r \<in> set rs" for r
    using that assms(2) by (auto simp: good_commands_def intro: drawn_line [OF assms(1)])
  then have split: "split_lines (command_bytes C rs @ t) = (?ls, t)"
    unfolding command_bytes_def by (intro split_lines_unique [OF _ assms(3)]) (auto simp: list_all_iff)
  have short: "list_all (\<lambda>l. length l \<le> max_line_bytes (command_options m)) (t # ?ls)"
    using assms(2,4) by (auto simp: list_all_iff good_commands_def)
  obtain h' ix where run: "scan_lines (command_ledger C) (command_options m) ?h (Some []) ?ls = Inr (Continue, h', Some ix)"
    and ix: "collects ix (index_from C 0 rs)"
    and h': "max_observed_sequence h' = last_command rs" "incompatible_records h' = 0"
      "issue_count h' TornTail = 0" "issue_count h' OversizedLine = 0"
    using scan_command_records [OF assms(1,2) collects_Nil, of ?h] len
    by (auto simp: default_health_def issue_count_def last_command_def split: if_splits)
  have scan: "scan_jsonl (command_ledger C) (command_options m) (Some []) \<lparr>rd_bytes = command_bytes C rs @ t, rd_fault = False\<rparr>
      = Inr (finish_tail h' t, Some ix)"
    by (subst scan_jsonl_split [OF split len short]) (simp add: scan_split_def run)
  have tail: "max_observed_sequence (finish_tail h' t) = last_command rs" "incompatible_records (finish_tail h' t) = 0"
    "(0 < issue_count (finish_tail h' t) TornTail) = (t \<noteq> [])" "issue_count (finish_tail h' t) OversizedLine = 0"
    using h' by (auto simp: finish_tail_def record_issue_def issue_count_def sat_add_pos)
  show thesis
    by (rule that [OF _ ix, of "decoded_records (finish_tail h' t)"]) (simp add: scan_file_def scan tail)
qed

section \<open>A journal and its file\<close>

definition next_command :: "('v, 'e) command_record list \<Rightarrow> u64" where
  "next_command rs = (case last_command rs of None \<Rightarrow> 0 | Some s \<Rightarrow> s + 1)"

definition file_holds :: "('v, 'e) command_codec \<Rightarrow> ('v, 'e) command_record list \<Rightarrow> nat \<Rightarrow> directory \<Rightarrow> bool" where
  "file_holds C rs i d \<longleftrightarrow>
     nd_kind (fs_nodes d i) = RegularFile \<and> nd_links (fs_nodes d i) = 1 \<and> nd_bytes (fs_nodes d i) = command_bytes C rs"

definition journal_synced ::
  "('v, 'e) command_codec \<Rightarrow> ('v, 'e) command_record set \<Rightarrow> ('v, 'e) command_record list \<Rightarrow> jsonl_journal \<Rightarrow> directory \<Rightarrow> bool" where
  "journal_synced C T rs J d \<longleftrightarrow>
     (let w = jj_writer J; i = ws_file w
      in name_of d (jj_path J) = Some i \<and> ws_identity w = i \<and> file_holds C rs i d
         \<and> ws_file_len w = length (command_bytes C rs) \<and> ws_modified w = nd_modified (fs_nodes d i)
         \<and> good_commands C T (jj_max_record_bytes J) rs \<and> last_command rs \<noteq> Some (- 1)
         \<and> ws_next_sequence w = next_command rs \<and> collects (ws_offsets w) (index_from C 0 rs))"

lemma on_dir_simps [simp]:
  "f d = (Inl e, d') \<Longrightarrow> on_dir f (J, d) = (Inl (JeIo e), (J, d'))"
  "f d = (Inr x, d') \<Longrightarrow> on_dir f (J, d) = (Inr x, (J, d'))"
  by (simp_all add: on_dir_def)

lemma clean_calls [simp]:
  assumes "fs_io d = []"
  shows "fs_metadata i d = (Inr (fs_nodes d i), d)" "fs_write_all i bs d = (Inr (), extend_file i bs d)"
    "sync_directory d = (Inr (), d)" "seek_to b d = (Inr (), d)"
    "open_reader i d = (\<lparr>rd_bytes = nd_bytes (fs_nodes d i), rd_fault = False\<rparr>, d)"
    "symlink_metadata n d = (case name_of d n of None \<Rightarrow> Inl IoNotFound | Some i \<Rightarrow> Inr (fs_nodes d i), d)"
  using assms by (simp_all add: fs_metadata_def fs_write_all_def sync_directory_def seek_to_def open_reader_def
      symlink_metadata_def split: option.splits)

lemma open_regular_clean:
  assumes "fs_io d = []" "name_of d n = Some i" "nd_kind (fs_nodes d i) = RegularFile"
  shows "open_regular_read n d = (Inr (Some i), d)"
  using assms by (simp add: open_regular_read_def open_read_def require_regular_file_def)

lemma refresh_synced:
  assumes "fs_io d = []" "journal_synced C T rs J d"
  shows "refresh C fresh (J, d) = (Inr (), (J, d))"
proof -
  have "open_regular_read (jj_path J) d = (Inr (Some (ws_file (jj_writer J))), d)"
    using assms by (intro open_regular_clean) (simp_all add: journal_synced_def file_holds_def Let_def)
  with assms show ?thesis
    by (simp add: refresh_def unchanged_def journal_synced_def file_holds_def Let_def require_sole_hard_link_def)
qed

lemma encode_bounded_line:
  assumes "faithful_commands C T" "drawn T r" "length (command_line C r) \<le> m"
  shows "encode_bounded C m r = Inr (command_line C r)"
proof -
  obtain cs where "cc_writes C r = Some cs" "command_line C r = concat cs @ [newline]"
    using drawn_line [OF assms(1,2)] .
  with assms(3) show ?thesis
    using buffer_writes_eq [of "buffer_new m" cs] by (simp add: encode_bounded_def buffer_new_def buffer_write_def)
qed

lemma good_commands_snoc:
  assumes "good_commands C T m rs" "last_command rs \<noteq> Some (- 1)" "r \<in> T"
    "length (command_line C (with_sequence (next_command rs) r)) \<le> m"
  shows "good_commands C T m (rs @ [with_sequence (next_command rs) r])"
proof -
  have "cr_sequence x < next_command rs" if "x \<in> set rs" for x
  proof -
    from that have rs: "rs \<noteq> []" by auto
    then have "cr_sequence x \<le> cr_sequence (last rs)"
      using assms(1) that by (cases rs rule: rev_cases) (auto simp: good_commands_def sorted_wrt_append)
    moreover have "cr_sequence (last rs) < cr_sequence (last rs) + 1"
      using assms(2) rs unat_succ [of "cr_sequence (last rs)"] by (simp add: last_command_def word_less_nat_alt)
    ultimately show ?thesis using rs by (simp add: next_command_def last_command_def)
  qed
  with assms show ?thesis by (auto simp: good_commands_def sorted_wrt_append drawn_with_sequence)
qed

definition appended ::
  "('v, 'e) command_codec \<Rightarrow> ('v, 'e) command_record list \<Rightarrow> ('v, 'e) command_record \<Rightarrow> ('v, 'e) command_record list" where
  "appended C rs r = rs @ [with_sequence (next_command rs) r]"

lemma last_command_snoc [simp]: "last_command (rs @ [r]) = Some (cr_sequence r)"
  by (simp add: last_command_def)

lemma append_synced:
  assumes "fs_io d = []" "journal_synced C T rs J d" "faithful_commands C T" "r \<in> T" "next_command rs \<noteq> - 1"
    "map_of (ar_offsets (ws_archived (jj_writer J))) (cr_command_id r) = None"
    "length (command_line C (with_sequence (next_command rs) r)) \<le> jj_max_record_bytes J"
  obtains J' where "command_append C fresh r (J, d) =
      (Inr (), (J', extend_file (ws_file (jj_writer J)) (command_line C (with_sequence (next_command rs) r)) d))"
    "journal_synced C T (appended C rs r) J' (extend_file (ws_file (jj_writer J)) (command_line C (with_sequence (next_command rs) r)) d)"
    "ws_archived (jj_writer J') = ws_archived (jj_writer J)" "jj_path J' = jj_path J" "jj_max_record_bytes J' = jj_max_record_bytes J"
proof -
  let ?w = "jj_writer J" and ?l = "command_line C (with_sequence (next_command rs) r)"
  let ?d = "extend_file (ws_file ?w) ?l d"
  let ?w' = "?w\<lparr>ws_offsets := push_entry (cr_command_id r) (indexed_new C (ws_file_len ?w) ?l) (ws_offsets ?w),
                 ws_file_len := ws_file_len ?w + length ?l, ws_modified := nd_modified (fs_nodes ?d (ws_file ?w)),
                 ws_next_sequence := next_command rs + 1\<rparr>"
  have s: "name_of d (jj_path J) = Some (ws_file ?w)" "ws_identity ?w = ws_file ?w" "file_holds C rs (ws_file ?w) d"
    "ws_file_len ?w = length (command_bytes C rs)" "good_commands C T (jj_max_record_bytes J) rs"
    "last_command rs \<noteq> Some (- 1)" "ws_next_sequence ?w = next_command rs" "collects (ws_offsets ?w) (index_from C 0 rs)"
    using assms(2) by (simp_all add: journal_synced_def Let_def)
  have enc: "encode_bounded C (jj_max_record_bytes J) (r\<lparr>cr_sequence := next_command rs\<rparr>) = Inr ?l"
    using encode_bounded_line [OF assms(3) drawn_with_sequence [OF assms(4)] assms(7)] by (simp add: with_sequence_def)
  have sc: "checked_succ (next_command rs) = Some (next_command rs + 1)" using assms(5) by (simp add: checked_succ_def)
  have io: "fs_io ?d = []" using assms(1) by simp
  have sole: "require_sole_hard_link (fs_nodes d (ws_file ?w)) = Inr ()" using s(3) by (simp add: file_holds_def require_sole_hard_link_def)
  have run: "command_append C fresh r (J, d) = (Inr (), (J\<lparr>jj_writer := ?w'\<rparr>, ?d))"
    by (simp add: command_append_def refresh_synced [OF assms(1,2)] s(7) assms(6) sc enc write_record_def Let_def assms(1) sole io)
  have "index_from C 0 (appended C rs r) = index_from C 0 rs @ [(cr_command_id r, indexed_new C (ws_file_len ?w) ?l)]"
    by (simp add: appended_def index_from_append s(4))
  then have "collects (ws_offsets ?w') (index_from C 0 (appended C rs r))" using collects_push [OF s(8)] by simp
  moreover have "file_holds C (appended C rs r) (ws_file ?w) ?d"
    using s(3) by (simp add: file_holds_def extend_file_nodes appended_def)
  moreover have "good_commands C T (jj_max_record_bytes J) (appended C rs r)"
    unfolding appended_def by (rule good_commands_snoc [OF s(5,6) assms(4,7)])
  moreover have "name_of ?d (jj_path J) = Some (ws_file ?w)" using s(1) by (simp add: name_of_def)
  ultimately have syn: "journal_synced C T (appended C rs r) (J\<lparr>jj_writer := ?w'\<rparr>) ?d"
    using s(2,4) assms(5) by (simp add: journal_synced_def Let_def appended_def next_command_def)
  show thesis by (rule that [OF run syn]) simp_all
qed

section \<open>Histories\<close>

lemma read_entries_good:
  assumes "faithful_commands C T" "fs_io d = []" "nd_bytes (fs_nodes d i) = pre @ command_bytes C rs @ post"
    "\<forall>r \<in> set rs. drawn T r"
  shows "read_entries C i cid (map snd (filter (\<lambda>p. fst p = cid) (index_from C (length pre) rs))) pos acc d
           = (Inr (Some (acc @ filter (\<lambda>r. cr_command_id r = cid) rs)), d)"
  using assms(3,4)
proof (induction rs arbitrary: pre pos acc)
  case (Cons r rs)
  have b: "nd_bytes (fs_nodes d i) = (pre @ command_line C r) @ command_bytes C rs @ post" using Cons.prems(1) by simp
  note IH = Cons.IH [OF b]
  obtain cs where "cc_dec C (command_line C r) = Some r" "is_line (command_line C r)"
    using drawn_line [OF assms(1)] Cons.prems(2) by (metis list.set_intros(1))
  then show ?case using IH Cons.prems assms(2) by (simp add: indexed_new_def Let_def)
qed simp

lemma history_synced:
  assumes "fs_io d = []" "journal_synced C T rs J d" "faithful_commands C T" "cid \<in> cr_command_id ` set rs"
    "map_of (ar_offsets (ws_archived (jj_writer J))) cid = None"
  shows "command_history C fresh cid (J, d) =
           (Inr \<lparr>jc_records = filter (\<lambda>r. cr_command_id r = cid) rs, jc_torn_tail = False, jc_incompatible = 0\<rparr>, (J, d))"
proof -
  let ?i = "ws_file (jj_writer J)" and ?es = "map snd (filter (\<lambda>p. fst p = cid) (index_from C 0 rs))"
  have s: "nd_bytes (fs_nodes d ?i) = [] @ command_bytes C rs @ []" "\<forall>r \<in> set rs. drawn T r"
    "map_of (ws_offsets (jj_writer J)) cid = Some ?es"
    using assms(2,4) index_from_keys [of C 0 rs] by (auto simp: journal_synced_def file_holds_def Let_def good_commands_def collects_def)
  have "read_entries C ?i cid ?es None [] d = (Inr (Some (filter (\<lambda>r. cr_command_id r = cid) rs)), d)"
    using read_entries_good [OF assms(3,1) s(1,2), of cid None "[]"] by simp
  then have "read_indexed_records C ?i ?es cid d = (Inr (Some (filter (\<lambda>r. cr_command_id r = cid) rs)), d)"
    using assms(1) by (simp add: read_indexed_records_def)
  then show ?thesis
    by (simp add: command_history_def refresh_synced [OF assms(1,2)] s(3) assms(5) Let_def)
qed

end
