(* ===== verification/Command_Run.thy ===== *)
theory Command_Run
  imports Command_Archives Command_Durability
begin

text \<open>
  The command journal in a running program: it is opened, appended to and read, its calls fail, the program
  stops at any point and opens the journal again. The theory shows what holds in every such run.
\<close>

section \<open>The index of any file\<close>

definition line_entry :: "('v, 'e) command_codec \<Rightarrow> nat \<Rightarrow> bytes \<Rightarrow> (command_id \<times> indexed_record) list" where
  "line_entry C off l =
     (if list_all is_ascii_whitespace l then []
      else case cc_dec C l of None \<Rightarrow> [] | Some r \<Rightarrow> [(cr_command_id r, indexed_new C off l)])"

fun line_index :: "('v, 'e) command_codec \<Rightarrow> nat \<Rightarrow> bytes list \<Rightarrow> (command_id \<times> indexed_record) list" where
  "line_index C off [] = []"
| "line_index C off (l # ls) = line_entry C off l @ line_index C (off + length l) ls"

lemma line_index_append:
  "line_index C off (ls @ ls') = line_index C off ls @ line_index C (off + length (concat ls)) ls'"
  by (induction ls arbitrary: off) (simp_all add: add.assoc)

lemma scan_complete_index:
  assumes "collects ix ps"
  obtains h' ix' where "scan_complete (command_ledger C) opts h (Some ix) l = Inr (Continue, h', Some ix')"
    "collects ix' (ps @ line_entry C (bytes_observed h) l)" "bytes_observed h' = sat_add (bytes_observed h) (length l)"
proof -
  obtain p where p: "command_decode C (Some ix) (line_at h l) = Inr (p, Some ix)"
    "pr_record p = (if list_all is_ascii_whitespace l then None else cc_dec C l)"
    by (cases "list_all is_ascii_whitespace l"; cases "cc_dec C l") (simp_all add: command_decode_def line_at_def)
  let ?o = "observe (seq_rule opts) (ln_number (line_at h l)) (ln_offset (line_at h l)) (observation p) (enter_line h l p)"
  let ?ix = "case pr_record p of None \<Rightarrow> ix | Some r \<Rightarrow> push_entry (cr_command_id r) (indexed_new C (bytes_observed h) l) ix"
  have "scan_complete (command_ledger C) opts h (Some ix) l = Inr (Continue, snd ?o, Some ?ix)"
    using p(1) by (simp add: scan_complete_def command_ledger_def Let_def command_apply_def line_at_def case_prod_beta split: option.splits)
  moreover have "collects ?ix (ps @ line_entry C (bytes_observed h) l)"
    using p(2) assms collects_push [OF assms] by (auto simp: line_entry_def split: option.splits)
  moreover have "bytes_observed (snd ?o) = sat_add (bytes_observed h) (length l)" by simp
  ultimately show thesis by (rule that)
qed

lemma read_until_first: "newline \<notin> set (butlast (fst (read_until lim bs)))"
  by (induction lim bs rule: read_until.induct) (auto simp: Let_def split: prod.splits if_splits)

lemma read_complete_line:
  assumes "read_jsonl_line m rd = Inr (Complete l, rd')"
  shows "is_line l" "rd_bytes rd = l @ rd_bytes rd'" "rd_fault rd' = rd_fault rd"
proof -
  show "rd_bytes rd = l @ rd_bytes rd'" by (rule read_jsonl_line_consumes(1) [OF assms])
  have "l = fst (read_until (sat_add m 1) (rd_bytes rd)) \<and> ends_nl l \<and> rd_fault rd' = rd_fault rd"
    using assms by (auto simp: read_jsonl_line_def Let_def split: prod.splits if_splits)
  then show "is_line l" "rd_fault rd' = rd_fault rd"
    using read_until_first [of "sat_add m 1" "rd_bytes rd"] by (auto simp: is_line_def)
qed

lemma issue_recorded [simp]: "0 < issue_count (record_issue k n off h) k" "issue_count (record_issue k n off h) k \<noteq> 0"
  by (simp_all add: record_issue_def issue_count_def sat_add_pos)

text \<open>A scan without a torn or an oversized line has indexed every line of the file.\<close>

lemma scan_undamaged:
  assumes "scan (command_ledger C) opts h (Some ix) None rd = Inr (h', d')"
    "issue_count h' TornTail = 0" "issue_count h' OversizedLine = 0" "collects ix ps"
    "bytes_observed h + length (rd_bytes rd) \<le> u64_max"
  shows "\<not> rd_fault rd \<and> (\<exists>ls ix'. d' = Some ix' \<and> list_all is_line ls \<and> rd_bytes rd = concat ls
           \<and> collects ix' (ps @ line_index C (bytes_observed h) ls))"
  using assms
proof (induction "length (rd_bytes rd)" arbitrary: rd h ix ps rule: less_induct)
  case less
  obtain r rd1 where r: "read_jsonl_line (max_line_bytes opts) rd = Inr (r, rd1)"
    using less.prems(1) by (subst (asm) scan.simps) (auto split: sum.splits)
  show ?case
  proof (cases r)
    case Eof
    have "rd_bytes rd = [] \<and> \<not> rd_fault rd"
    proof (cases "rd_bytes rd")
      case Nil
      then show ?thesis using r Eof sat_add_pos [of 1 "max_line_bytes opts"]
        by (auto simp: read_jsonl_line_def Let_def split: if_splits)
    next
      case (Cons b bs)
      then show ?thesis using r Eof sat_add_pos [of 1 "max_line_bytes opts"]
        by (auto simp: read_jsonl_line_def Let_def split: prod.splits if_splits)
    qed
    moreover have "d' = Some ix" using less.prems(1) r Eof by (subst (asm) scan.simps) simp
    ultimately show ?thesis using less.prems(4) by (auto intro!: exI [of _ "[]"])
  next
    case (Complete l)
    note l = read_complete_line [OF r [unfolded Complete]]
    obtain h1 ix1 where s: "scan_complete (command_ledger C) opts h (Some ix) l = Inr (Continue, h1, Some ix1)"
      "collects ix1 (ps @ line_entry C (bytes_observed h) l)" "bytes_observed h1 = sat_add (bytes_observed h) (length l)"
      using scan_complete_index [OF less.prems(4)] .
    have "scan (command_ledger C) opts h1 (Some ix1) None rd1 = Inr (h', d')"
      using less.prems(1) r Complete s(1) by (subst (asm) scan.simps) simp
    moreover have "length (rd_bytes rd1) < length (rd_bytes rd)" using l(1,2) is_line_nonempty [OF l(1)] by simp
    moreover have b: "bytes_observed h1 = bytes_observed h + length l" using s(3) l(2) less.prems(5) by simp
    moreover have "bytes_observed h1 + length (rd_bytes rd1) \<le> u64_max" using b l(2) less.prems(5) by simp
    ultimately obtain ls ix' where "\<not> rd_fault rd1" "d' = Some ix'" "list_all is_line ls" "rd_bytes rd1 = concat ls"
      "collects ix' ((ps @ line_entry C (bytes_observed h) l) @ line_index C (bytes_observed h1) ls)"
      using less.hyps [OF _ _ less.prems(2,3) s(2)] by blast
    then show ?thesis using l b by (intro conjI exI [of _ "l # ls"] exI [of _ ix']) auto
  next
    case (Torn bs)
    then show ?thesis
      using less.prems(1,2) r by (subst (asm) scan.simps) auto
  next
    case TooLong
    then show ?thesis
      using less.prems(1,3) r by (subst (asm) scan.simps) auto
  qed
qed

lemma scan_file_undamaged:
  assumes "scan_file C m (Some []) rd = Inr (sc, d')" "\<not> command_damaged sc" "length (rd_bytes rd) \<le> u64_max"
  shows "\<not> rd_fault rd \<and> (\<exists>ls ix. d' = Some ix \<and> list_all is_line ls \<and> rd_bytes rd = concat ls \<and> collects ix (line_index C 0 ls))"
proof -
  let ?h = "default_health\<lparr>lh_exists := True\<rparr>"
  obtain h where h: "scan (command_ledger C) (command_options m) ?h (Some []) None rd = Inr (h, d')"
    "issue_count h TornTail = 0" "issue_count h OversizedLine = 0"
    using assms(1,2) by (auto simp: scan_file_def scan_jsonl_def command_damaged_def split: sum.splits prod.splits)
  have "bytes_observed ?h = 0" by (simp add: default_health_def)
  with scan_undamaged [OF h collects_Nil] assms(3) show ?thesis by simp
qed

section \<open>The invariant of an open journal\<close>

definition fits_files :: "directory \<Rightarrow> bool" where
  "fits_files d \<longleftrightarrow> (\<forall>i < fs_next d. length (nd_bytes (fs_nodes d i)) \<le> u64_max)"

text \<open>The index describes the file as long as the writer knows its length.\<close>

definition holds_index :: "('v, 'e) command_codec \<Rightarrow> command_index \<Rightarrow> bytes \<Rightarrow> bool" where
  "holds_index C ix bs \<longleftrightarrow> (\<exists>ls. list_all is_line ls \<and> bs = concat ls \<and> collects ix (line_index C 0 ls))"

definition indexes :: "('v, 'e) command_codec \<Rightarrow> writer_state \<Rightarrow> directory \<Rightarrow> bool" where
  "indexes C w d \<longleftrightarrow>
     (let bs = nd_bytes (fs_nodes d (ws_file w))
      in ws_file_len w \<le> length bs \<and> (ws_file_len w = length bs \<longrightarrow> holds_index C (ws_offsets w) bs))"

definition archives_known :: "archive_state \<Rightarrow> bool" where
  "archives_known a \<longleftrightarrow> archived_ids a = {} \<or> ar_archives a \<noteq> []"

definition journal_ok :: "('v, 'e) command_codec \<Rightarrow> string \<Rightarrow> nat \<Rightarrow> jsonl_journal \<Rightarrow> directory \<Rightarrow> bool" where
  "journal_ok C path m J d \<longleftrightarrow>
     (let w = jj_writer J
      in jj_path J = path \<and> jj_max_record_bytes J = m \<and> ws_identity w = ws_file w \<and> ws_file w < fs_next d
         \<and> indexes C w d \<and> archives_known (ws_archived w)
         \<and> (name_of d path = Some (ws_file w) \<longrightarrow> covers C m path d (ws_archived w)))"

text \<open>A journal after its writer was refreshed.\<close>

definition journal_ready :: "('v, 'e) command_codec \<Rightarrow> string \<Rightarrow> nat \<Rightarrow> jsonl_journal \<Rightarrow> directory \<Rightarrow> bool" where
  "journal_ready C path m J d \<longleftrightarrow>
     journal_ok C path m J d \<and> name_of d path = Some (ws_file (jj_writer J))
     \<and> ws_file_len (jj_writer J) = length (nd_bytes (fs_nodes d (ws_file (jj_writer J))))
     \<and> nd_kind (fs_nodes d (ws_file (jj_writer J))) = RegularFile"

lemma covers_evolves:
  assumes "covers C m path d a" "name_of d' = name_of d" "wf_dir d"
    "\<And>n i. name_of d n = Some i \<Longrightarrow> is_archive path n \<Longrightarrow>
       nd_bytes (fs_nodes d' i) = nd_bytes (fs_nodes d i) \<and> nd_kind (fs_nodes d' i) = nd_kind (fs_nodes d i)"
  shows "covers C m path d' a"
proof -
  have "file_carries C m d' n k = file_carries C m d n k" if "is_archive path n" for n k
    using assms(2,4) that unfolding file_carries_def by metis
  with assms(1,2) show ?thesis by (simp add: covers_def noted_def)
qed

lemma journal_ok_evolves:
  assumes "journal_ok C path m J d" "evolves path F {} d d'" "wf_dir d"
  shows "journal_ok C path m J d'"
proof -
  let ?w = "jj_writer J"
  have j: "jj_path J = path" "jj_max_record_bytes J = m" "ws_identity ?w = ws_file ?w" "ws_file ?w < fs_next d"
    "indexes C ?w d" "archives_known (ws_archived ?w)" "name_of d path = Some (ws_file ?w) \<longrightarrow> covers C m path d (ws_archived ?w)"
    using assms(1) by (simp_all add: journal_ok_def Let_def)
  have e: "fs_next d \<le> fs_next d'"
    "\<And>i. i < fs_next d \<Longrightarrow> nd_bytes (fs_nodes d' i) = nd_bytes (fs_nodes d i) \<and> nd_kind (fs_nodes d' i) = nd_kind (fs_nodes d i)"
    "name_of d' = name_of d \<or> name_of d' path = None \<or> (\<exists>j \<ge> fs_next d. name_of d' path = Some j)"
    using assms(2) unfolding evolves_def by auto
  have "covers C m path d' (ws_archived ?w)" if p: "name_of d' path = Some (ws_file ?w)"
  proof -
    have n: "name_of d' = name_of d" using e(3) p j(4) by auto
    with p j(7) have c: "covers C m path d (ws_archived ?w)" by simp
    show ?thesis by (rule covers_evolves [OF c n assms(3)]) (use e(2) wf_dir_name [OF assms(3)] in blast)
  qed
  moreover have "indexes C ?w d'" using j(5) e(2) [OF j(4)] by (simp add: indexes_def)
  ultimately show ?thesis using j e(1) by (simp add: journal_ok_def Let_def)
qed

section \<open>Opening\<close>

lemma archive_journal_done:
  assumes "name_of d (archive_name path f) = None" "archive_journal path f d = (Inr u, d')"
  shows "name_of d' path = None \<and> (\<exists>i. name_of d path = Some i \<and> name_of d' (archive_name path f) = Some i)
    \<and> fs_next d' = fs_next d"
proof -
  obtain d1 where 1: "fs_rename path (archive_name path f) d = (Inr (), d1)" "same_dir d1 d'"
    using assms(2) unfolding archive_journal_def by (auto elim!: and_thenE dest: sync_directory_effect)
  have "name_of d path \<noteq> None"
  proof
    assume n: "name_of d path = None"
    obtain q e where q: "fs_call d = (q, e)" by (cases "fs_call d")
    show False using 1(1) q n name_of_same [OF fs_call_effect(1) [OF q]] by (auto simp: fs_rename_def elim!: and_thenE)
  qed
  then have "name_of d (archive_name path f) \<noteq> name_of d path" using assms(1) by auto
  from fs_rename_effect [OF 1(1) this] obtain i where r: "renamed path (archive_name path f) i d d1" by auto
  have "name_of d path = Some i" "fs_next d1 = fs_next d" using r by (simp_all add: renamed_def)
  then show ?thesis using renamed_name [OF r] name_of_same [OF 1(2)] 1(2) by (simp add: same_dir_def)
qed

lemma open_indexed_index:
  assumes "wf_dir d" "fits_files d" "unused path {f} d" "open_indexed C m path f d = (Inr (i, q, ix), d')"
  shows "holds_index C ix (nd_bytes (fs_nodes d' i))"
proof -
  obtain i1 d1 where 1: "open_checked path d = (Inr i1, d1)" using assms(4) unfolding open_indexed_def by (auto elim: and_thenE)
  obtain r2 d2 where 2: "fs_call d1 = (r2, d2)" by (cases "fs_call d1")
  obtain rd d3 where 3: "open_reader i1 d2 = (rd, d3)" by (cases "open_reader i1 d2")
  obtain r4 d4 where 4: "archive_journal path f d3 = (r4, d4)" by (cases "archive_journal path f d3")
  have s: "same_dir d1 d2" "same_dir d1 d3" using fs_call_effect(1) [OF 2] same_dir_trans open_reader_effect(1) [OF 3] by blast+
  note e1 = open_checked_effect [OF assms(1) 1]
  have small: "length (nd_bytes (fs_nodes d1 i1)) \<le> u64_max"
    using e1(3) [OF refl] assms(2) wf_dir_name [OF assms(1)] e1(2) [OF refl] name_of_same [of d d1]
    by (auto simp: fits_files_def same_dir_def created_def)
  obtain sc ix1 where sc: "scan_file C m (Some []) rd = Inr (sc, ix1)"
    "\<not> command_damaged sc \<and> d' = d3 \<and> i = i1 \<and> ix = (case ix1 of None \<Rightarrow> [] | Some m \<Rightarrow> m)
     \<or> command_damaged sc \<and> (\<exists>u. r4 = Inr u) \<and> open_checked path d4 = (Inr i, d') \<and> ix = []"
    using assms(4) 1 2 3 4 unfolding open_indexed_def
    by (auto elim!: and_thenE simp: Let_def split: prod.splits if_splits sum.splits)
  from sc(2) show ?thesis
  proof (elim disjE conjE exE)
    assume a: "\<not> command_damaged sc" "d' = d3" "i = i1" "ix = (case ix1 of None \<Rightarrow> [] | Some m \<Rightarrow> m)"
    have "length (rd_bytes rd) \<le> length (nd_bytes (fs_nodes d1 i1))"
      using 3 s(1) by (auto simp: open_reader_def same_dir_def split: prod.splits io_outcome.splits)
    from scan_file_undamaged [OF sc(1) a(1)] this small obtain ls ix' where
      ls: "\<not> rd_fault rd" "ix1 = Some ix'" "list_all is_line ls" "rd_bytes rd = concat ls" "collects ix' (line_index C 0 ls)" by auto
    moreover have "nd_bytes (fs_nodes d' i) = rd_bytes rd"
      using open_reader_effect(2) [OF 3 ls(1)] s a(2,3) by (simp add: same_dir_def)
    ultimately show ?thesis using a(4) unfolding holds_index_def by auto
  next
    fix u assume b: "r4 = Inr u" "open_checked path d4 = (Inr i, d')" "ix = []"
    have e3: "evolves path {} {} d d3" by (rule evolves_then_same [OF e1(1) s(2)])
    have f3: "name_of d3 (archive_name path f) = None" using unused_evolves [OF assms(3) e3] by (simp add: unused_def)
    have n: "name_of d4 path = None" using archive_journal_done [OF f3 4 [unfolded b(1)]] by simp
    have w: "wf_dir d4" using archive_journal_evolves [OF evolves_wf [OF e3] f3 4, of "{f}"] evolves_wf by blast
    note e4 = open_checked_effect(2,3) [OF w b(2) refl]
    have "created path d4 d'" "i = fs_next d4" using e4 n name_of_same [of d4 d'] by auto
    then have "nd_bytes (fs_nodes d' i) = []" by (simp add: created_def)
    then show ?thesis using b(3) by (auto simp: holds_index_def intro!: exI [of _ "[]"])
  qed
qed

lemma scan_archives_known:
  assumes "m < u64_max"
  shows "scan_archives C m path ns a d = (Inr a', d') \<Longrightarrow> a' = a \<or> ar_archives a' \<noteq> []"
proof (induction ns arbitrary: a d)
  case Nil
  then show ?case by (auto elim!: and_thenE)
next
  case (Cons n ns)
  show ?case
  proof (cases "is_archive path n")
    case False
    then show ?thesis using Cons.prems Cons.IH by (auto simp: is_archive_def elim!: and_thenE)
  next
    case True
    show ?thesis
    proof (cases rule: scan_archives_step [OF assms True Cons.prems, case_names failed step])
      case (step a1 d1)
      from scan_archives_effect(2) [OF assms step(1) refl] step(4) show ?thesis
        by (auto simp: archive_le_def noted_def)
    qed simp
  qed
qed

lemma finish_writer_known:
  assumes "m < u64_max" "finish_writer C m path opened d = (Inr w, d')"
  shows "archives_known (ws_archived w)"
proof -
  obtain e ns where s: "scan_archives C m path ns no_archives e = (Inr (ws_archived w), d')"
    using assms(2) unfolding finish_writer_def by (auto elim!: and_thenE split: prod.splits)
  from scan_archives_known [OF assms(1) s] show ?thesis by (auto simp: archives_known_def no_archives_def archived_ids_def)
qed

lemma fits_evolves:
  assumes "fits_files d" "evolves path F {} d d'"
  shows "fits_files d'"
  unfolding fits_files_def
proof (intro allI impI)
  fix i assume i: "i < fs_next d'"
  show "length (nd_bytes (fs_nodes d' i)) \<le> u64_max"
  proof (cases "i < fs_next d")
    case True
    then have "nd_bytes (fs_nodes d' i) = nd_bytes (fs_nodes d i)" using assms(2) unfolding evolves_def by auto
    with True assms(1) show ?thesis by (simp add: fits_files_def)
  next
    case False
    then have "nd_bytes (fs_nodes d' i) = []" using i assms(2) unfolding evolves_def by auto
    then show ?thesis by simp
  qed
qed

lemma open_writer_ready:
  assumes "wf_dir d" "fits_files d" "unused path {fresh 0, fresh 1} d" "fresh 0 \<noteq> fresh (1 :: nat)" "m < u64_max"
    "command_open_writer C fresh m path d = (Inr w, d')"
  shows "journal_ready C path m \<lparr>jj_path = path, jj_writer = w, jj_max_record_bytes = m\<rparr> d'"
proof -
  obtain u1 d1 where 1: "archive_irregular path (fresh 0) d = (Inr u1, d1)"
    using assms(6) unfolding command_open_writer_def by (auto elim: and_thenE)
  then obtain i q ix d2 where 2: "open_indexed C m path (fresh 1) d1 = (Inr (i, q, ix), d2)"
    and 3: "finish_writer C m path (i, q, ix) d2 = (Inr w, d')"
    using assms(6) unfolding command_open_writer_def by (auto elim!: and_thenE)
  have e1: "evolves path {fresh 0} {} d d1"
    using archive_irregular_evolves [OF assms(1) _ 1] assms(3) by (simp add: unused_def)
  have u1: "unused path {fresh 1} d1" using unused_evolves [OF _ e1, of "{fresh 1}"] assms(3,4) by (simp add: unused_def)
  have f1: "fits_files d1" by (rule fits_evolves [OF assms(2) e1])
  have ix: "holds_index C ix (nd_bytes (fs_nodes d2 i))" by (rule open_indexed_index [OF evolves_wf [OF e1] f1 u1 2])
  note o = open_writer_effect [OF assms(1,3,4,5,6)] and f = finish_writer_effect [OF assms(5) 3]
  note w = o(2) [OF refl] and fw = f(2) [OF refl]
  have b: "fs_nodes d' = fs_nodes d2" using f(1) by (simp add: same_dir_def)
  have "ws_file w < fs_next d'" using w wf_dir_name [OF evolves_wf [OF o(1)]] by blast
  with w fw ix b finish_writer_known [OF assms(5) 3] show ?thesis
    by (simp add: journal_ready_def journal_ok_def Let_def indexes_def)
qed

lemma reopen_effect:
  assumes "wf_dir d" "fits_files d" "unused path {fresh 0, fresh 1} d" "fresh 0 \<noteq> fresh (1 :: nat)" "m < u64_max"
    "journal_ok C path m J d" "reopen C fresh (J, d) = (r, (J', d'))"
  shows "evolves path {fresh 0, fresh 1} {} d d' \<and> journal_ok C path m J' d' \<and> (r = Inr () \<longrightarrow> journal_ready C path m J' d')"
proof -
  have J: "jj_path J = path" "jj_max_record_bytes J = m" using assms(6) by (simp_all add: journal_ok_def Let_def)
  obtain r1 d1 where 1: "command_open_writer C fresh m path d = (r1, d1)" by (cases "command_open_writer C fresh m path d")
  note e = open_writer_effect(1) [OF assms(1,3,4,5) 1]
  show ?thesis
  proof (cases r1)
    case (Inl k)
    then have "J' = J" "d' = d1" "r \<noteq> Inr ()" using assms(7) 1 J by (auto simp: reopen_def)
    then show ?thesis using e journal_ok_evolves [OF assms(6) e assms(1)] by simp
  next
    case (Inr w)
    then have r: "J' = \<lparr>jj_path = path, jj_writer = w, jj_max_record_bytes = m\<rparr>" "d' = d1"
      using assms(7) 1 J by (auto simp: reopen_def)
    then show ?thesis
      using e open_writer_ready [OF assms(1-5) 1 [unfolded Inr]] by (simp add: journal_ready_def)
  qed
qed

lemma refresh_effect:
  assumes "wf_dir d" "fits_files d" "unused path {fresh 0, fresh 1} d" "fresh 0 \<noteq> fresh (1 :: nat)" "m < u64_max"
    "journal_ok C path m J d" "refresh C fresh (J, d) = (r, (J', d'))"
  shows "evolves path {fresh 0, fresh 1} {} d d' \<and> journal_ok C path m J' d' \<and> (r = Inr () \<longrightarrow> journal_ready C path m J' d')"
proof -
  have J: "jj_path J = path" using assms(6) by (simp add: journal_ok_def Let_def)
  obtain r1 d1 where 1: "open_regular_read path d = (r1, d1)" by (cases "open_regular_read path d")
  note e1 = open_regular_effect [OF 1]
  have re: ?thesis if "same_dir d e" "reopen C fresh (J, e) = (r, (J', d'))" for e
  proof -
    have w: "wf_dir e" "fits_files e" "unused path {fresh 0, fresh 1} e" "journal_ok C path m J e"
      using assms(1,2,3) journal_ok_evolves [OF assms(6) evolves_same [OF assms(1) that(1)] assms(1)]
        wf_dir_same [OF that(1)] name_of_same [OF that(1)] that(1) by (auto simp: fits_files_def unused_def same_dir_def)
    from reopen_effect [OF w(1,2,3) assms(4,5) w(4) that(2)] show ?thesis
      using evolves_trans [OF evolves_same [OF assms(1) that(1)]] by blast
  qed
  have ok: ?thesis if "same_dir d d'" "J' = J" "r = Inr () \<Longrightarrow> journal_ready C path m J d'"
    using that evolves_same [OF assms(1) that(1)] journal_ok_evolves [OF assms(6) _ assms(1)] by auto
  obtain r2 d2 where 2: "fs_metadata (the (projr r1)) d1 = (r2, d2)" by (cases "fs_metadata (the (projr r1)) d1")
  obtain r3 d3 where 3: "fs_call d2 = (r3, d3)" by (cases "fs_call d2")
  have s: "same_dir d d1" "same_dir d d2" "same_dir d d3"
    using e1(1) fs_metadata_effect(1) [OF 2] fs_call_effect(1) [OF 3] same_dir_trans by blast+
  have "(\<exists>e \<in> {d1, d3}. reopen C fresh (J, e) = (r, (J', d'))) \<or> d' \<in> {d1, d2, d3} \<and> J' = J \<and>
      (r \<noteq> Inr () \<or> d' = d3 \<and> (\<exists>i nd. r1 = Inr (Some i) \<and> r2 = Inr nd \<and> unchanged (jj_writer J) i nd))"
    using assms(7) 1 2 3 J unfolding refresh_def
    by (auto simp: on_dir_def split: sum.splits option.splits io_kind.splits if_splits)
  then show ?thesis
  proof (elim disjE bexE conjE exE)
    fix e assume "e \<in> {d1, d3}" "reopen C fresh (J, e) = (r, (J', d'))"
    then show ?thesis using re s by blast
  next
    assume "d' \<in> {d1, d2, d3}" "J' = J" "r \<noteq> Inr ()"
    then show ?thesis using ok s by blast
  next
    fix i nd assume x: "d' = d3" "J' = J" "r1 = Inr (Some i)" "r2 = Inr nd" "unchanged (jj_writer J) i nd"
    have nd: "nd = fs_nodes d i" using fs_metadata_effect(2) [OF 2] x(3,4) s(1) by (simp add: same_dir_def)
    have "journal_ready C path m J d"
      using assms(6) e1(2) [OF x(3)] x(5) nd by (auto simp: journal_ready_def journal_ok_def Let_def unchanged_def)
    moreover have "journal_ok C path m J d3" by (rule journal_ok_evolves [OF assms(6) evolves_same [OF assms(1) s(3)] assms(1)])
    ultimately have "journal_ready C path m J d3"
      using s(3) name_of_same [OF s(3)] by (simp add: journal_ready_def same_dir_def)
    then show ?thesis using ok [OF _ x(2)] x(1) s(3) by simp
  qed
qed

section \<open>Appending\<close>

lemma encode_bounded_Inr:
  assumes "encode_bounded C m x = Inr bs"
  shows "bs = command_line C x" "length bs \<le> m"
  using assms buffer_writes_eq [of "buffer_new m"]
  by (auto simp: encode_bounded_def command_line_def buffer_new_def buffer_write_def split: option.splits sum.splits if_splits)

text \<open>A line that is indexed under an id.\<close>

definition entry_line :: "('v, 'e) command_codec \<Rightarrow> command_id \<Rightarrow> bytes \<Rightarrow> bool" where
  "entry_line C k bs \<longleftrightarrow> is_line bs \<and> (\<forall>off. line_entry C off bs = [(k, indexed_new C off bs)])"

lemma drawn_entry_line:
  assumes "faithful_commands C T" "drawn T r"
  shows "entry_line C (cr_command_id r) (command_line C r)"
proof -
  obtain cs where "\<not> list_all is_ascii_whitespace (command_line C r)" "cc_dec C (command_line C r) = Some r" "is_line (command_line C r)"
    using drawn_line [OF assms] .
  then show ?thesis by (simp add: entry_line_def line_entry_def)
qed

lemma holds_index_snoc:
  assumes "holds_index C ix bs" "entry_line C k l"
  shows "holds_index C (push_entry k (indexed_new C (length bs) l) ix) (bs @ l)"
proof -
  obtain ls where "list_all is_line ls" "bs = concat ls" "collects ix (line_index C 0 ls)"
    using assms(1) by (auto simp: holds_index_def)
  with assms(2) collects_push show ?thesis
    by (auto simp: holds_index_def entry_line_def line_index_append intro!: exI [of _ "ls @ [l]"])
qed

lemma journal_ok_extended:
  assumes "journal_ready C path m J d" "wf_dir d" "sole_names d" "nd_links (fs_nodes d (ws_file (jj_writer J))) = 1"
    "extended (ws_file (jj_writer J)) xs d d'" "ws_file w = ws_file (jj_writer J)" "ws_identity w = ws_file w"
    "ws_archived w = ws_archived (jj_writer J)" "indexes C w d'"
  shows "journal_ok C path m (J\<lparr>jj_writer := w\<rparr>) d'"
proof -
  let ?i = "ws_file (jj_writer J)"
  note x = extendedD [OF assms(5)]
  have j: "jj_path J = path" "jj_max_record_bytes J = m" "?i < fs_next d" "archives_known (ws_archived (jj_writer J))"
    "name_of d path = Some ?i" "covers C m path d (ws_archived (jj_writer J))"
    using assms(1) by (auto simp: journal_ready_def journal_ok_def Let_def)
  have "i \<noteq> ?i" if "name_of d n = Some i" "is_archive path n" for n i
    using that assms(3,4) j(5) is_archive_name(2) unfolding sole_names_def by metis
  then have "covers C m path d' (ws_archived (jj_writer J))"
    by (intro covers_evolves [OF j(6) x(4) assms(2)]) (simp add: x)
  then show ?thesis using j assms(6-9) x(2) by (simp add: journal_ok_def Let_def)
qed

text \<open>How far the write of a record gets: nothing was written; a part was, or all of it without the sync; or the record
  is synced and noted, whether or not the last look at the file succeeds.\<close>

definition noted_writer :: "('v, 'e) command_codec \<Rightarrow> command_id \<Rightarrow> bytes \<Rightarrow> writer_state \<Rightarrow> writer_state" where
  "noted_writer C k bs w =
     w\<lparr>ws_offsets := push_entry k (indexed_new C (ws_file_len w) bs) (ws_offsets w), ws_file_len := ws_file_len w + length bs\<rparr>"

lemma write_record_cases:
  assumes "write_record C k q bs (J, d) = (r, (J', d'))"
  obtains (stay) "same_dir d d'" "J' = J" "r \<noteq> Inr ()"
    | (cut) n where "nd_links (fs_nodes d (ws_file (jj_writer J))) = 1" "extended (ws_file (jj_writer J)) (take n bs) d d'" "J' = J" "r \<noteq> Inr ()"
    | (noted) w' where "nd_links (fs_nodes d (ws_file (jj_writer J))) = 1" "extended (ws_file (jj_writer J)) bs d d'" "J' = J\<lparr>jj_writer := w'\<rparr>"
        "w' = noted_writer C k bs (jj_writer J) \<or> (\<exists>t. w' = noted_writer C k bs (jj_writer J)\<lparr>ws_modified := t, ws_next_sequence := q\<rparr>)"
proof -
  let ?w = "jj_writer J" and ?i = "ws_file (jj_writer J)"
  let ?w1 = "noted_writer C k bs ?w"
  obtain r1 d1 where 1: "fs_metadata ?i d = (r1, d1)" by (cases "fs_metadata ?i d")
  obtain r2 d2 where 2: "fs_write_all ?i bs d1 = (r2, d2)" by (cases "fs_write_all ?i bs d1")
  obtain r3 d3 where 3: "fs_call d2 = (r3, d3)" by (cases "fs_call d2")
  obtain r4 d4 where 4: "fs_call d3 = (r4, d4)" by (cases "fs_call d3")
  obtain r5 d5 where 5: "fs_metadata ?i d4 = (r5, d5)" by (cases "fs_metadata ?i d4")
  have s1: "same_dir d d1" and s: "same_dir d2 d3" "same_dir d2 d4" "same_dir d2 d5"
    using fs_metadata_effect(1) [OF 1] fs_call_effect(1) [OF 3] fs_call_effect(1) [OF 4] fs_metadata_effect(1) [OF 5] same_dir_trans by blast+
  have ext: "extended ?i xs d e" if "extended ?i xs d1 e" for xs e
    using that s1 by (simp add: extended_def same_dir_def extend_file_def)
  have ext': "extended ?i xs d e'" if "extended ?i xs d1 e" "same_dir e e'" for xs e e'
    using ext [OF that(1)] that(2) same_dir_trans by (auto simp: extended_def)
  have run: "write_record C k q bs (J, d) =
      (case r1 of Inl e \<Rightarrow> (Inl (JeIo e), (J, d1)) | Inr nd \<Rightarrow>
       if nd_links nd \<noteq> 1 then (Inl (JeIo IoInvalidData), (J, d1)) else
       case r2 of Inl e \<Rightarrow> (Inl (JeIo e), (J, d2)) | Inr _ \<Rightarrow>
       case r3 of Inl e \<Rightarrow> (Inl (JeIo e), (J, d3)) | Inr _ \<Rightarrow>
       case r4 of Inl e \<Rightarrow> (Inl (JeIo e), (J, d4)) | Inr _ \<Rightarrow>
       case r5 of Inl e \<Rightarrow> (Inl (JeIo e), (J\<lparr>jj_writer := ?w1\<rparr>, d5))
                | Inr nd \<Rightarrow> (Inr (), (J\<lparr>jj_writer := ?w1\<lparr>ws_modified := nd_modified nd, ws_next_sequence := q\<rparr>\<rparr>, d5)))"
    by (auto simp: write_record_def noted_writer_def Let_def on_dir_def 1 2 3 4 5 require_sole_hard_link_def split: sum.splits)
  have links: "nd_links (fs_nodes d ?i) = 1" if "r1 = Inr nd" "nd_links nd = 1" for nd
    using fs_metadata_effect(2) [OF 1] that by simp
  have w: "r2 = Inr () \<and> extended ?i bs d1 d2 \<or> r2 = Inl IoOther \<and> (\<exists>n. extended ?i (take n bs) d1 d2)"
    by (rule fs_write_all_effect [OF 2])
  show thesis
  proof (cases "\<exists>nd. r1 = Inr nd \<and> nd_links nd = 1")
    case False
    then have "(r, (J', d')) = (case r1 of Inl e \<Rightarrow> (Inl (JeIo e), (J, d1)) | Inr nd \<Rightarrow> (Inl (JeIo IoInvalidData), (J, d1)))"
      using run assms by (cases r1) auto
    then show thesis using stay s1 by (cases r1) auto
  next
    case True
    then obtain nd where nd: "r1 = Inr nd" "nd_links nd = 1" by blast
    note l = links [OF nd]
    show thesis
    proof (cases r2)
      case (Inl e)
      then have "J' = J" "d' = d2" "r \<noteq> Inr ()" using run assms nd by auto
      moreover obtain n where "extended ?i (take n bs) d1 d2" using w Inl by auto
      ultimately show thesis using cut [OF l ext] by blast
    next
      case (Inr u)
      then have x: "extended ?i bs d1 d2" using w by auto
      show thesis
      proof (cases "(\<exists>e. r3 = Inl e) \<or> (\<exists>e. r4 = Inl e)")
        case True
        then have "J' = J" "d' = d3 \<or> d' = d4" "r \<noteq> Inr ()" using run assms nd Inr by (auto split: sum.splits)
        then show thesis using cut [OF l, of "length bs"] ext' [OF x] s by auto
      next
        case False
        then obtain u3 u4 where "r3 = Inr u3" "r4 = Inr u4" by (metis sum.exhaust)
        then have "d' = d5" "J' = J\<lparr>jj_writer := ?w1\<rparr> \<or> (\<exists>t. J' = J\<lparr>jj_writer := ?w1\<lparr>ws_modified := t, ws_next_sequence := q\<rparr>\<rparr>)"
          using run assms nd Inr by (auto split: sum.splits)
        then show thesis using noted [OF l] ext' [OF x s(3)] by blast
      qed
    qed
  qed
qed

lemma write_record_effect:
  assumes "journal_ready C path m J d" "wf_dir d" "sole_names d" "entry_line C k bs" "write_record C k q bs (J, d) = (r, (J', d'))"
  shows "(\<exists>xs. extended (ws_file (jj_writer J)) xs d d' \<and> (r = Inr () \<longrightarrow> xs = bs)) \<and> journal_ok C path m J' d'"
proof -
  let ?w = "jj_writer J" and ?i = "ws_file (jj_writer J)"
  have ok: "journal_ok C path m J d" and ix: "indexes C ?w d" and ids: "ws_identity ?w = ?i"
    and len: "ws_file_len ?w = length (nd_bytes (fs_nodes d ?i))"
    using assms(1) by (auto simp: journal_ready_def journal_ok_def Let_def)
  show ?thesis
  proof (cases rule: write_record_cases [OF assms(5), case_names stay cut noted])
    case stay
    then show ?thesis
      using journal_ok_evolves [OF ok evolves_same [OF assms(2) stay(1)] assms(2)] by (auto simp: extended_def intro!: exI [of _ "[]"])
  next
    case (cut n)
    have "indexes C ?w d'"
      using ix len extendedD(5) [OF cut(2), of ?i] by (cases "take n bs") (auto simp: indexes_def Let_def)
    then have "journal_ok C path m (J\<lparr>jj_writer := ?w\<rparr>) d'"
      by (rule journal_ok_extended [OF assms(1-3) cut(1,2) refl ids refl])
    then show ?thesis using cut by auto
  next
    case (noted w')
    have "holds_index C (push_entry k (indexed_new C (ws_file_len ?w) bs) (ws_offsets ?w)) (nd_bytes (fs_nodes d ?i) @ bs)"
      using ix len holds_index_snoc [OF _ assms(4), of "ws_offsets ?w" "nd_bytes (fs_nodes d ?i)"] by (simp add: indexes_def)
    then have "indexes C w' d'"
      using noted(4) len extendedD(5) [OF noted(2), of ?i] by (auto simp: indexes_def Let_def noted_writer_def)
    then have "journal_ok C path m (J\<lparr>jj_writer := w'\<rparr>) d'"
      by (intro journal_ok_extended [OF assms(1-3) noted(1,2)]) (use noted(4) ids in \<open>auto simp: noted_writer_def\<close>)
    then show ?thesis using noted by auto
  qed
qed

section \<open>Stored lines\<close>

text \<open>A complete line in the journal or in an archive.\<close>

definition stored :: "string \<Rightarrow> directory \<Rightarrow> bytes \<Rightarrow> bool" where
  "stored path d l \<longleftrightarrow>
     (\<exists>n i. (n = path \<or> is_archive path n) \<and> name_of d n = Some i \<and> nd_kind (fs_nodes d i) = RegularFile
        \<and> l \<in> set (fst (split_lines (nd_bytes (fs_nodes d i)))))"

lemma split_lines_extend: "set (fst (split_lines bs)) \<subseteq> set (fst (split_lines (bs @ xs)))"
proof -
  obtain ls t where 1: "split_lines bs = (ls, t)" by (cases "split_lines bs")
  obtain ls' t' where 2: "split_lines (t @ xs) = (ls', t')" by (cases "split_lines (t @ xs)")
  have "bs @ xs = concat (ls @ ls') @ t'" using split_lines_concat [OF 1] split_lines_concat [OF 2] by simp
  moreover have "list_all is_line (ls @ ls')" "newline \<notin> set t'" using split_lines_lines [OF 1] split_lines_lines [OF 2] by auto
  ultimately have "split_lines (bs @ xs) = (ls @ ls', t')" using split_lines_unique by metis
  then show ?thesis using 1 by auto
qed

lemma stored_evolves:
  assumes "evolves path F W d d'" "stored path d l" "wf_dir d"
  shows "stored path d' l"
proof -
  obtain n i where n: "n = path \<or> is_archive path n" "name_of d n = Some i" "nd_kind (fs_nodes d i) = RegularFile"
    "l \<in> set (fst (split_lines (nd_bytes (fs_nodes d i))))" using assms(2) unfolding stored_def by blast
  obtain xs where xs: "nd_bytes (fs_nodes d' i) = nd_bytes (fs_nodes d i) @ xs" "nd_kind (fs_nodes d' i) = RegularFile"
    using assms(1) wf_dir_name [OF assms(3) n(2)] n(3) unfolding evolves_def by metis
  have "\<exists>n'. (n' = path \<or> is_archive path n') \<and> name_of d' n' = Some i"
    using assms(1) n(1,2) is_archive_name(1) [of path] unfolding evolves_def by metis
  moreover have "l \<in> set (fst (split_lines (nd_bytes (fs_nodes d' i))))"
    using n(4) xs(1) split_lines_extend [of "nd_bytes (fs_nodes d i)" xs] by auto
  ultimately show ?thesis using xs(2) unfolding stored_def by metis
qed

definition no_blank_record :: "('v, 'e) command_codec \<Rightarrow> nat \<Rightarrow> bytes \<Rightarrow> ('v, 'e) command_record \<Rightarrow> bool" where
  "no_blank_record C m l x \<longleftrightarrow> length l \<le> m \<and> \<not> list_all is_ascii_whitespace l \<and> cc_dec C l = Some x"

lemma stored_cases:
  assumes "stored path d l" "no_blank_record C m l x"
  obtains (journal) i where "name_of d path = Some i" "l \<in> set (fst (split_lines (nd_bytes (fs_nodes d i))))"
  | (archived) "reserved C m path d (cr_command_id x)"
proof -
  obtain n i where n: "n = path \<or> is_archive path n" "name_of d n = Some i" "nd_kind (fs_nodes d i) = RegularFile"
    "l \<in> set (fst (split_lines (nd_bytes (fs_nodes d i))))" using assms(1) unfolding stored_def by blast
  have "l \<in> set (lines_of (nd_bytes (fs_nodes d i)))"
    using n(4) by (cases "split_lines (nd_bytes (fs_nodes d i))") (simp add: lines_of_def)
  moreover have "carries C m l (cr_command_id x)" using assms(2) by (simp add: carries_def line_id_def no_blank_record_def)
  ultimately show thesis
    using n that unfolding reserved_def file_carries_def by blast
qed

lemma line_index_mem:
  assumes "l \<in> set ls" "no_blank_record C m l x"
  obtains pre post where "(cr_command_id x, indexed_new C (off + length pre) l) \<in> set (line_index C off ls)" "concat ls = pre @ l @ post"
proof -
  obtain us vs where ls: "ls = us @ l # vs" using assms(1) by (auto dest: split_list)
  have "line_entry C o' l = [(cr_command_id x, indexed_new C o' l)]" for o'
    using assms(2) by (simp add: line_entry_def no_blank_record_def)
  with ls show thesis by (intro that [of "concat us" "concat vs"]) (simp_all add: line_index_append)
qed

section \<open>Reading\<close>

lemma read_entries_sound:
  "read_entries C i k es pos acc d = (Inr (Some rs), d') \<Longrightarrow>
     set acc \<subseteq> set rs \<and> (\<forall>e \<in> set es. \<exists>x \<in> set rs. cc_dec C (take (ir_len e) (drop (ir_offset e) (nd_bytes (fs_nodes d i)))) = Some x)"
proof (induction es arbitrary: pos acc d)
  case (Cons e es)
  obtain r1 d1 where 1: "seek_to (pos = Some (ir_offset e)) d = (r1, d1)" by (cases "seek_to (pos = Some (ir_offset e)) d")
  obtain r2 d2 where 2: "fs_call d1 = (r2, d2)" by (cases "fs_call d1")
  have "same_dir d d1" using 1 fs_call_effect(1) [of d r1 d1] by (auto simp: seek_to_def split: if_splits)
  then have n: "fs_nodes d2 = fs_nodes d" using fs_call_effect(1) [OF 2] by (simp add: same_dir_def)
  let ?l = "take (ir_len e) (drop (ir_offset e) (nd_bytes (fs_nodes d i)))"
  obtain x where x: "cc_dec C ?l = Some x"
    "read_entries C i k es (Some (ir_offset e + ir_len e)) (acc @ [x]) d2 = (Inr (Some rs), d')"
    using Cons.prems 1 2 n by (auto elim!: and_thenE simp: Let_def split: if_splits option.splits)
  from Cons.IH [OF x(2)] x(1) n show ?case by auto
qed simp

lemma read_entries_same: "read_entries C i k es pos acc d = (r, d') \<Longrightarrow> same_dir d d'"
proof (induction es arbitrary: pos acc d)
  case (Cons e es)
  obtain r1 d1 where 1: "seek_to (pos = Some (ir_offset e)) d = (r1, d1)" by (cases "seek_to (pos = Some (ir_offset e)) d")
  obtain r2 d2 where 2: "fs_call d1 = (r2, d2)" by (cases "fs_call d1")
  have s: "same_dir d d1" "same_dir d d2"
    using 1 fs_call_effect(1) [of d r1 d1] fs_call_effect(1) [OF 2] by (auto simp: seek_to_def same_dir_def split: if_splits)
  from Cons.prems 1 2 have "d' = d1 \<or> d' = d2 \<or> (\<exists>p a. read_entries C i k es p a d2 = (r, d'))"
    by (auto elim!: and_thenE simp: Let_def split: if_splits option.splits)
  then show ?case using s Cons.IH same_dir_trans by blast
qed simp

lemma read_archived_same: "read_archived C i k es pos sc d = (r, d') \<Longrightarrow> same_dir d d'"
proof (induction es arbitrary: pos sc d)
  case (Cons e es)
  obtain r1 d1 where 1: "seek_to (pos = al_offset e) d = (r1, d1)" by (cases "seek_to (pos = al_offset e) d")
  obtain r2 d2 where 2: "fs_call d1 = (r2, d2)" by (cases "fs_call d1")
  have s: "same_dir d d1" "same_dir d d2"
    using 1 fs_call_effect(1) [of d r1 d1] fs_call_effect(1) [OF 2] by (auto simp: seek_to_def same_dir_def split: if_splits)
  from Cons.prems 1 2 have "d' = d1 \<or> d' = d2 \<or> (\<exists>p a. read_archived C i k es p a d2 = (r, d'))"
    by (auto elim!: and_thenE simp: Let_def)
  then show ?case using s Cons.IH same_dir_trans by blast
qed simp

lemma read_archives_same: "read_archives C k ess sc d = (r, d') \<Longrightarrow> same_dir d d'"
proof (induction ess arbitrary: sc d)
  case (Cons es ess)
  obtain r1 d1 where 1: "open_regular_read (al_path (hd es)) d = (r1, d1)" by (cases "open_regular_read (al_path (hd es)) d")
  note s = open_regular_effect(1) [OF 1]
  from Cons.prems 1 have "d' = d1 \<or> (\<exists>a. read_archives C k ess a d1 = (r, d'))
      \<or> (\<exists>i r2 d2. read_archived C i k es 0 sc d1 = (r2, d2) \<and> (d' = d2 \<or> (\<exists>a. read_archives C k ess a d2 = (r, d'))))"
    by (auto elim!: and_thenE split: option.splits) blast+
  then show ?case
  proof (elim disjE exE conjE)
    fix i r2 d2 assume a: "read_archived C i k es 0 sc d1 = (r2, d2)"
    note t = same_dir_trans [OF s read_archived_same [OF a]]
    { assume "d' = d2" then show ?case using t by simp }
    { fix b assume "read_archives C k ess b d2 = (r, d')" then show ?case using Cons.IH same_dir_trans [OF t] by blast }
  qed (use s Cons.IH same_dir_trans [OF s] in blast)+
qed simp

lemma archived_history_effect:
  assumes "archived_history C k (J, d) = (r, (J', d'))"
  shows "J' = J" "same_dir d d'" "r = Inr sc \<Longrightarrow> ar_archives (ws_archived (jj_writer J)) \<noteq> [] \<Longrightarrow> 0 < jc_incompatible sc"
  using assms by (auto simp: archived_history_def Let_def on_dir_def elim!: and_thenE dest!: read_archives_same split: prod.splits sum.splits if_splits)

section \<open>The operations on an open journal\<close>

text \<open>The names an operation may draw: distinct, and none of them in use.\<close>

definition fresh_names :: "string \<Rightarrow> (nat \<Rightarrow> string) \<Rightarrow> directory \<Rightarrow> bool" where
  "fresh_names path fresh d \<longleftrightarrow> inj fresh \<and> unused path (range fresh) d"

definition dir_ok :: "directory \<Rightarrow> bool" where
  "dir_ok d \<longleftrightarrow> wf_dir d \<and> sole_names d \<and> fits_files d"

lemma fresh_names_pair: "fresh_names path fresh d \<Longrightarrow> unused path {fresh 0, fresh 1} d \<and> fresh 0 \<noteq> fresh (1 :: nat)"
  by (auto simp: fresh_names_def unused_def inj_def)

definition journal_files :: "string \<Rightarrow> directory \<Rightarrow> nat set" where
  "journal_files path d = {i. name_of d path = Some i \<or> fs_next d \<le> i}"

lemma map_of_archived: "map_of (ar_offsets a) k \<noteq> None \<longleftrightarrow> k \<in> archived_ids a"
  by (auto simp: archived_ids_def map_of_eq_None_iff)

lemma append_cases:
  assumes "command_append C fresh r (J, d) = (res, (J', d'))" "refresh C fresh (J, d) = (r1, (J1, d1))"
  obtains (refused) "J' = J1" "d' = d1" "res \<noteq> Inr ()"
  | (written) q p bs where "r1 = Inr ()" "cr_command_id r \<notin> archived_ids (ws_archived (jj_writer J1))"
      "encode_bounded C (jj_max_record_bytes J1) (with_sequence q r) = Inr bs"
      "write_record C (cr_command_id r) p bs (J1, d1) = (res, (J', d'))"
proof (cases r1)
  case (Inl e)
  then show thesis using assms by (intro refused) (auto simp: command_append_def)
next
  case (Inr u)
  let ?w = "jj_writer J1" let ?q = "ws_next_sequence ?w"
  show thesis
  proof (cases "cr_command_id r \<in> archived_ids (ws_archived ?w)")
    case True
    with map_of_archived have "map_of (ar_offsets (ws_archived ?w)) (cr_command_id r) \<noteq> None" by blast
    then show thesis using assms Inr by (intro refused) (auto simp: command_append_def Let_def)
  next
    case na: False
    with map_of_archived have n: "map_of (ar_offsets (ws_archived ?w)) (cr_command_id r) = None" by blast
    show thesis
    proof (cases "checked_succ ?q")
      case None
      then show thesis using assms Inr n by (intro refused) (auto simp: command_append_def Let_def simp del: checked_succ_None_iff)
    next
      case (Some p)
      show thesis
      proof (cases "encode_bounded C (jj_max_record_bytes J1) (with_sequence ?q r)")
        case (Inl e)
        then show thesis using assms Inr n Some by (intro refused) (auto simp: command_append_def Let_def with_sequence_def)
      next
        case enc: (Inr bs)
        then have "write_record C (cr_command_id r) p bs (J1, d1) = (res, (J', d'))"
          using assms Inr n Some by (simp add: command_append_def Let_def with_sequence_def)
        with Inr na enc show thesis by (intro written) simp_all
      qed
    qed
  qed
qed

lemma appended_stored:
  assumes "journal_ready C path m J d" "extended (ws_file (jj_writer J)) bs d d'" "is_line bs"
  shows "stored path d' bs"
proof -
  let ?i = "ws_file (jj_writer J)"
  have m: "name_of d path = Some ?i" "nd_kind (fs_nodes d ?i) = RegularFile" "holds_index C (ws_offsets (jj_writer J)) (nd_bytes (fs_nodes d ?i))"
    using assms(1) by (auto simp: journal_ready_def journal_ok_def indexes_def Let_def)
  obtain ls where ls: "list_all is_line ls" "nd_bytes (fs_nodes d ?i) = concat ls" using m(3) by (auto simp: holds_index_def)
  have "nd_bytes (fs_nodes d' ?i) = concat (ls @ [bs]) @ []" using extendedD(5) [OF assms(2), of ?i] ls(2) by simp
  then have "split_lines (nd_bytes (fs_nodes d' ?i)) = (ls @ [bs], [])"
    using split_lines_unique [of "ls @ [bs]" "[]"] ls(1) assms(3) by simp
  moreover have "name_of d' path = Some ?i" "nd_kind (fs_nodes d' ?i) = RegularFile"
    using m(1,2) extendedD(4) [OF assms(2)] extendedD(6) [OF assms(2), of ?i] by simp_all
  ultimately show ?thesis unfolding stored_def by (intro exI [of _ path] exI [of _ ?i]) simp
qed

lemma append_effect:
  assumes "dir_ok d" "fresh_names path fresh d" "m < u64_max" "journal_ok C path m J d" "faithful_commands C T" "r \<in> T"
    "command_append C fresh r (J, d) = (res, (J', d'))"
  shows "evolves path (range fresh) (journal_files path d) d d' \<and> journal_ok C path m J' d'
    \<and> (res = Inr () \<longrightarrow> \<not> reserved C m path d (cr_command_id r)
       \<and> (\<exists>q. stored path d' (command_line C (with_sequence q r)) \<and> no_blank_record C m (command_line C (with_sequence q r)) (with_sequence q r)))"
proof -
  have wf: "wf_dir d" "sole_names d" "fits_files d" using assms(1) by (simp_all add: dir_ok_def)
  note fr = fresh_names_pair [OF assms(2)]
  obtain r1 J1 d1 where 1: "refresh C fresh (J, d) = (r1, (J1, d1))" by (metis prod.exhaust)
  have e1: "evolves path {fresh 0, fresh 1} {} d d1" "journal_ok C path m J1 d1" "r1 = Inr () \<Longrightarrow> journal_ready C path m J1 d1"
    using refresh_effect [OF wf(1,3) conjunct1 [OF fr] conjunct2 [OF fr] assms(3,4) 1] by auto
  have ev1: "evolves path (range fresh) (journal_files path d) d d1" by (rule evolves_mono [OF e1(1)]) auto
  show ?thesis
  proof (cases rule: append_cases [OF assms(7) 1, case_names refused written])
    case refused
    then show ?thesis using e1(2) ev1 by simp
  next
    case (written q p bs)
    let ?i = "ws_file (jj_writer J1)"
    note rd = e1(3) [OF written(1)]
    have m: "jj_max_record_bytes J1 = m" "name_of d1 path = Some ?i" "covers C m path d1 (ws_archived (jj_writer J1))"
      using rd by (auto simp: journal_ready_def journal_ok_def Let_def)
    note bs = encode_bounded_Inr [OF written(3), unfolded m(1)]
    have dr: "drawn T (with_sequence q r)" by (rule drawn_with_sequence [OF assms(6)])
    have el: "entry_line C (cr_command_id r) bs" using drawn_entry_line [OF assms(5) dr] bs(1) by simp
    have w1: "wf_dir d1" "sole_names d1" using e1(1) wf(2) unfolding evolves_def by blast+
    from write_record_effect [OF rd w1 el written(4)] obtain xs where
      x: "extended ?i xs d1 d'" "res = Inr () \<longrightarrow> xs = bs" "journal_ok C path m J' d'" by blast
    have "name_of d path = Some ?i \<or> fs_next d \<le> ?i" using e1(1) m(2) unfolding evolves_def by auto
    then have ev: "evolves path (range fresh) (journal_files path d) d d'"
      by (intro evolves_trans [OF ev1 evolves_extended [OF w1(1) x(1)]]) (simp add: journal_files_def)
    have "\<not> reserved C m path d (cr_command_id r)"
      using written(2) covers_reserved(1) [OF m(3)] reserved_evolves [OF e1(1) _ wf(1)] by blast
    moreover have "stored path d' bs" if "res = Inr ()"
      using appended_stored [OF rd, of bs d'] x(1,2) that el by (simp add: entry_line_def)
    moreover have "no_blank_record C m bs (with_sequence q r)"
      using drawn_line [OF assms(5) dr] bs by (metis no_blank_record_def)
    ultimately show ?thesis using ev x(3) bs(1) by blast
  qed
qed

lemma evolves_name: "evolves path F W d d' \<Longrightarrow> name_of d n = Some i \<Longrightarrow> n \<noteq> path \<Longrightarrow> name_of d' n = Some i"
  unfolding evolves_def by blast

lemma unused_subset: "unused path G d \<Longrightarrow> F \<subseteq> G \<Longrightarrow> unused path F d"
  by (auto simp: unused_def)

lemma history_cases:
  assumes "command_history C fresh k (J, d) = (res, (J', d'))" "refresh C fresh (J, d) = (r1, (J1, d1))"
  obtains (failed) e where "res = Inl e" "J' = J1" "same_dir d1 d'"
  | (found) es rs where "r1 = Inr ()" "map_of (ws_offsets (jj_writer J1)) k = Some es" "k \<notin> archived_ids (ws_archived (jj_writer J1))"
      "read_indexed_records C (ws_file (jj_writer J1)) es k d1 = (Inr (Some rs), d')" "J' = J1"
      "res = Inr \<lparr>jc_records = rs, jc_torn_tail = False, jc_incompatible = 0\<rparr>"
  | (damaged) d2 where "r1 = Inr ()" "same_dir d1 d2" "damaged_history C fresh k (J1, d2) = (res, (J', d'))"
  | (archived) "r1 = Inr ()" "map_of (ws_offsets (jj_writer J1)) k = None \<or> k \<in> archived_ids (ws_archived (jj_writer J1))"
      "archived_history C k (J1, d1) = (res, (J', d'))"
proof (cases r1)
  case (Inl e)
  then show thesis using assms by (intro failed) (auto simp: command_history_def)
next
  case r1: (Inr u)
  let ?w = "jj_writer J1"
  show thesis
  proof (cases "\<exists>es. map_of (ws_offsets ?w) k = Some es \<and> k \<notin> archived_ids (ws_archived ?w)")
    case False
    then have "archived_history C k (J1, d1) = (res, (J', d'))"
      using assms r1 map_of_archived [of "ws_archived ?w" k]
      by (auto simp: command_history_def Let_def split: option.splits)
    with False r1 show thesis by (intro archived) auto
  next
    case True
    then obtain es where es: "map_of (ws_offsets ?w) k = Some es" "k \<notin> archived_ids (ws_archived ?w)" by blast
    then have n: "map_of (ar_offsets (ws_archived ?w)) k = None" using map_of_archived by blast
    obtain r2 d2 where 2: "read_indexed_records C (ws_file ?w) es k d1 = (r2, d2)" by (cases "read_indexed_records C (ws_file ?w) es k d1")
    have s: "same_dir d1 d2"
      using 2 unfolding read_indexed_records_def by (auto elim!: and_thenE dest!: fs_call_effect(1) read_entries_same intro: same_dir_trans)
    consider e where "r2 = Inl e" | "r2 = Inr None" | rs where "r2 = Inr (Some rs)" by (metis sum.exhaust option.exhaust)
    then show thesis
    proof cases
      case (1 e)
      then show thesis using assms r1 es n 2 s by (intro failed [of "JeIo e"]) (auto simp: command_history_def Let_def on_dir_def)
    next
      case none: 2
      then have "damaged_history C fresh k (J1, d2) = (res, (J', d'))"
        using assms r1 es n 2 by (simp add: command_history_def Let_def on_dir_def)
      with r1 s show thesis by (intro damaged) simp_all
    next
      case (3 rs)
      then show thesis using assms r1 es n 2 by (intro found [of es rs]) (auto simp: command_history_def Let_def on_dir_def)
    qed
  qed
qed

lemma damaged_history_effect:
  assumes "dir_ok d" "inj fresh \<and> unused path {fresh 2, fresh 3, fresh 4} d" "m < u64_max" "journal_ready C path m J d"
    "damaged_history C fresh k (J, d) = (res, (J', d'))"
  shows "evolves path (range fresh) {} d d' \<and> journal_ok C path m J' d' \<and> (\<forall>sc. res = Inr sc \<longrightarrow> 0 < jc_incompatible sc)"
proof -
  have wf: "wf_dir d" "fits_files d" using assms(1) by (simp_all add: dir_ok_def)
  have J: "jj_path J = path" "journal_ok C path m J d" using assms(4) by (auto simp: journal_ready_def journal_ok_def Let_def)
  have f2: "name_of d (archive_name path (fresh 2)) = None" using assms(2) by (simp add: unused_def)
  obtain r1 d1 where 1: "archive_journal path (fresh 2) d = (r1, d1)" by (cases "archive_journal path (fresh 2) d")
  have e1: "evolves path {fresh 2} {} d d1" by (rule archive_journal_evolves [OF wf(1) f2 1]) simp
  have R: "evolves path (range fresh) {} d d1" by (rule evolves_mono [OF e1]) auto
  note j1 = journal_ok_evolves [OF J(2) e1 wf(1)]
  show ?thesis
  proof (cases r1)
    case (Inl e)
    then show ?thesis using assms(5) 1 J(1) R j1 by (auto simp: damaged_history_def on_dir_def)
  next
    case (Inr u)
    note a = archive_journal_done [OF f2 1 [unfolded Inr]]
    obtain r2 J2 d2 where 2: "reopen C (\<lambda>k. fresh (k + 3)) (J, d1) = (r2, (J2, d2))" by (metis prod.exhaust)
    have fits: "fits_files d1" by (rule fits_evolves [OF wf(2) e1])
    have inj: "fresh a = fresh b \<longleftrightarrow> a = b" for a b using assms(2) by (auto simp: inj_def)
    have u: "unused path {fresh (0 + 3), fresh (1 + 3)} d1"
      using unused_evolves [OF unused_subset e1, of "{fresh 2, fresh 3, fresh 4}" "{fresh (0 + 3), fresh (1 + 3)}"] assms(2) inj
      by auto
    have e2: "evolves path {fresh (0 + 3), fresh (1 + 3)} {} d1 d2" "journal_ok C path m J2 d2" "r2 = Inr () \<Longrightarrow> journal_ready C path m J2 d2"
      using reopen_effect [OF evolves_wf [OF e1] fits u _ assms(3) j1 2] inj by auto
    have R2: "evolves path (range fresh) {} d d2"
      by (rule evolves_trans [OF R evolves_mono [OF e2(1)]]) auto
    show ?thesis
    proof (cases r2)
      case (Inl e)
      then show ?thesis using assms(5) 1 Inr 2 J(1) R2 e2(2) by (auto simp: damaged_history_def on_dir_def)
    next
      case r2: (Inr u2)
      have h: "archived_history C k (J2, d2) = (res, (J', d'))"
        using assms(5) 1 Inr 2 r2 J(1) by (simp add: damaged_history_def on_dir_def)
      note h2 = archived_history_effect [OF h]
      have "name_of d2 (archive_name path (fresh 2)) \<noteq> None" using evolves_name [OF e2(1)] a by auto
      moreover have "covers C m path d2 (ws_archived (jj_writer J2))"
        using e2(3) r2 by (auto simp: journal_ready_def journal_ok_def Let_def)
      ultimately have "ar_archives (ws_archived (jj_writer J2)) \<noteq> []" by (auto simp: covers_def noted_def)
      then show ?thesis
        using h2 evolves_then_same [OF R2 h2(2)] journal_ok_evolves [OF e2(2) evolves_same [OF evolves_wf [OF e2(1)] h2(2)] evolves_wf [OF e2(1)]]
        by auto
    qed
  qed
qed

text \<open>What the journal under the path holds is in the index of a refreshed writer.\<close>

lemma ready_indexed:
  assumes "journal_ready C path m J d" "name_of d path = Some i" "l \<in> set (fst (split_lines (nd_bytes (fs_nodes d i))))"
    "no_blank_record C m l x"
  obtains es e where "map_of (ws_offsets (jj_writer J)) (cr_command_id x) = Some es" "e \<in> set es"
    "take (ir_len e) (drop (ir_offset e) (nd_bytes (fs_nodes d (ws_file (jj_writer J))))) = l"
proof -
  let ?i = "ws_file (jj_writer J)"
  have i: "i = ?i" "holds_index C (ws_offsets (jj_writer J)) (nd_bytes (fs_nodes d ?i))"
    using assms(1,2) by (auto simp: journal_ready_def journal_ok_def indexes_def Let_def)
  then obtain ls where ls: "list_all is_line ls" "nd_bytes (fs_nodes d ?i) = concat ls" "collects (ws_offsets (jj_writer J)) (line_index C 0 ls)"
    by (auto simp: holds_index_def)
  have "split_lines (concat ls @ []) = (ls, [])" by (rule split_lines_unique [OF ls(1)]) simp
  then have "l \<in> set ls" using assms(3) i(1) ls(2) by simp
  from line_index_mem [OF this assms(4), where off = 0] obtain pre post where
    p: "(cr_command_id x, indexed_new C (0 + length pre) l) \<in> set (line_index C 0 ls)" "concat ls = pre @ l @ post" .
  let ?es = "map snd (filter (\<lambda>p. fst p = cr_command_id x) (line_index C 0 ls))"
  have "cr_command_id x \<in> fst ` set (line_index C 0 ls)" using p(1) by force
  then have "map_of (ws_offsets (jj_writer J)) (cr_command_id x) = Some ?es" using ls(3) unfolding collects_def by simp
  moreover have "indexed_new C (0 + length pre) l \<in> set ?es" using p(1) by force
  moreover have "take (length l) (drop (0 + length pre) (nd_bytes (fs_nodes d ?i))) = l" using ls(2) p(2) by simp
  ultimately show thesis by (intro that [of ?es "indexed_new C (0 + length pre) l"]) (simp_all add: indexed_new_def)
qed

definition answers :: "('v, 'e) command_codec \<Rightarrow> string \<Rightarrow> nat \<Rightarrow> directory \<Rightarrow> command_id \<Rightarrow> ('v, 'e) journal_scan \<Rightarrow> bool" where
  "answers C path m d k sc \<longleftrightarrow>
     0 < jc_incompatible sc
     \<or> \<not> reserved C m path d k
       \<and> (\<forall>l x. stored path d l \<and> no_blank_record C m l x \<and> cr_command_id x = k \<longrightarrow> x \<in> set (jc_records sc))"

lemma found_answers:
  assumes "journal_ready C path m J d" "map_of (ws_offsets (jj_writer J)) k = Some es" "k \<notin> archived_ids (ws_archived (jj_writer J))"
    "read_indexed_records C (ws_file (jj_writer J)) es k d = (Inr (Some rs), d')"
  shows "answers C path m d k \<lparr>jc_records = rs, jc_torn_tail = t, jc_incompatible = n\<rparr>"
proof -
  have "covers C m path d (ws_archived (jj_writer J))" using assms(1) by (auto simp: journal_ready_def journal_ok_def Let_def)
  then have nr: "\<not> reserved C m path d k" using covers_reserved(1) assms(3) by blast
  obtain r1 d1 where 1: "fs_call d = (r1, d1)" "read_entries C (ws_file (jj_writer J)) k es None [] d1 = (Inr (Some rs), d')"
    using assms(4) unfolding read_indexed_records_def by (auto elim: and_thenE)
  have n: "fs_nodes d1 = fs_nodes d" using fs_call_effect(1) [OF 1(1)] by (simp add: same_dir_def)
  have "x \<in> set rs" if x: "stored path d l" "no_blank_record C m l x" "cr_command_id x = k" for l x
  proof (cases rule: stored_cases [OF x(1,2), case_names journal archived])
    case (journal i)
    obtain es' e where e: "map_of (ws_offsets (jj_writer J)) (cr_command_id x) = Some es'" "e \<in> set es'"
      "take (ir_len e) (drop (ir_offset e) (nd_bytes (fs_nodes d (ws_file (jj_writer J))))) = l"
      using ready_indexed [OF assms(1) journal x(2)] .
    then have "e \<in> set es" using assms(2) x(3) by simp
    with read_entries_sound [OF 1(2)] e(3) n obtain y where "y \<in> set rs" "cc_dec C l = Some y" by metis
    then show ?thesis using x(2) by (simp add: no_blank_record_def)
  qed (use nr x(3) in simp)
  with nr show ?thesis unfolding answers_def by auto
qed

lemma archived_answers:
  assumes "journal_ready C path m J d" "archived_history C k (J, d) = (Inr sc, s)"
    "map_of (ws_offsets (jj_writer J)) k = None \<or> k \<in> archived_ids (ws_archived (jj_writer J))"
  shows "answers C path m d k sc"
proof -
  have c: "covers C m path d (ws_archived (jj_writer J))" "archives_known (ws_archived (jj_writer J))"
    using assms(1) by (auto simp: journal_ready_def journal_ok_def Let_def)
  have flag: "0 < jc_incompatible sc" if "ar_archives (ws_archived (jj_writer J)) \<noteq> []"
    using archived_history_effect(3) [of C k J d "Inr sc" "fst s" "snd s" sc] assms(2) that by simp
  show ?thesis
  proof (cases "k \<in> archived_ids (ws_archived (jj_writer J))")
    case True
    then show ?thesis using c(2) flag by (auto simp: answers_def archives_known_def)
  next
    case False
    then have nr: "\<not> reserved C m path d k" using covers_reserved(1) [OF c(1)] by blast
    have "False" if x: "stored path d l" "no_blank_record C m l x" "cr_command_id x = k" for l x
    proof (cases rule: stored_cases [OF x(1,2), case_names journal archived])
      case (journal i)
      show False using ready_indexed [OF assms(1) journal x(2)] assms(3) False x(3) by auto
    qed (use nr x(3) in simp)
    with nr show ?thesis by (auto simp: answers_def)
  qed
qed

lemma reserved_same: "same_dir d d' \<Longrightarrow> reserved C m path d' k = reserved C m path d k"
  by (simp add: reserved_def file_carries_same)

lemma answers_evolves:
  assumes "answers C path m d' k sc" "evolves path F {} d d'" "wf_dir d"
  shows "answers C path m d k sc"
  using assms(1) reserved_evolves [OF assms(2) _ assms(3)] stored_evolves [OF assms(2) _ assms(3)]
  unfolding answers_def by blast

lemma history_effect:
  assumes "dir_ok d" "fresh_names path fresh d" "m < u64_max" "journal_ok C path m J d"
    "command_history C fresh k (J, d) = (res, (J', d'))"
  shows "evolves path (range fresh) {} d d' \<and> journal_ok C path m J' d' \<and> (\<forall>sc. res = Inr sc \<longrightarrow> answers C path m d k sc)"
proof -
  have wf: "wf_dir d" "sole_names d" "fits_files d" using assms(1) by (simp_all add: dir_ok_def)
  note fr = fresh_names_pair [OF assms(2)]
  obtain r1 J1 d1 where 1: "refresh C fresh (J, d) = (r1, (J1, d1))" by (metis prod.exhaust)
  have e1: "evolves path {fresh 0, fresh 1} {} d d1" "journal_ok C path m J1 d1" "r1 = Inr () \<Longrightarrow> journal_ready C path m J1 d1"
    using refresh_effect [OF wf(1,3) conjunct1 [OF fr] conjunct2 [OF fr] assms(3,4) 1] by auto
  have R: "evolves path (range fresh) {} d d1" by (rule evolves_mono [OF e1(1)]) auto
  note w1 = evolves_wf [OF e1(1)]
  have same: "evolves path (range fresh) {} d e \<and> journal_ok C path m J1 e" if "same_dir d1 e" for e
    using evolves_then_same [OF R that] journal_ok_evolves [OF e1(2) evolves_same [OF w1 that] w1] by blast
  show ?thesis
  proof (cases rule: history_cases [OF assms(5) 1, case_names failed found damaged archived])
    case (failed e)
    then show ?thesis using same by simp
  next
    case (found es rs)
    have "same_dir d1 d'"
      using found(4) unfolding read_indexed_records_def
      by (auto elim!: and_thenE dest!: fs_call_effect(1) read_entries_same intro: same_dir_trans)
    with found same answers_evolves [OF found_answers [OF e1(3) found(2,3,4)] e1(1) wf(1)] show ?thesis by simp
  next
    case (damaged d2)
    have ok: "dir_ok d2"
      using w1 e1(1) wf(2) fits_evolves [OF wf(3) e1(1)] damaged(2) name_of_same [OF damaged(2)]
      unfolding dir_ok_def evolves_def by (auto simp: wf_dir_same sole_names_def fits_files_def) (auto simp: same_dir_def)
    have inj: "inj fresh" using assms(2) by (simp add: fresh_names_def)
    have "unused path {fresh 2, fresh 3, fresh 4} d1"
      using unused_evolves [OF unused_subset e1(1), of "range fresh" "{fresh 2, fresh 3, fresh 4}"] assms(2) inj
      by (auto simp: fresh_names_def inj_eq)
    then have u: "inj fresh \<and> unused path {fresh 2, fresh 3, fresh 4} d2" using inj name_of_same [OF damaged(2)] by (simp add: unused_def)
    have rd: "journal_ready C path m J1 d2"
      using e1(3) [OF damaged(1)] same [OF damaged(2)] damaged(2) name_of_same [OF damaged(2)]
      by (simp add: journal_ready_def same_dir_def)
    from damaged_history_effect [OF ok u assms(3) rd damaged(3)] show ?thesis
      using evolves_trans [OF conjunct1 [OF same [OF damaged(2)]]] by (auto simp: answers_def)
  next
    case archived
    note h = archived_history_effect [OF archived(3)]
    have "answers C path m d k sc" if "res = Inr sc" for sc
      by (rule answers_evolves [OF archived_answers [OF e1(3) [OF archived(1)] archived(3) [unfolded that] archived(2)] e1(1) wf(1)])
    then show ?thesis using same [OF h(2)] h(1) by simp
  qed
qed

section \<open>Runs\<close>

text \<open>The program around a journal: it opens the journal, appends and reads, and stops at any point, also in the
  middle of an operation (the calls that follow fail). Time passes, and calls start and cease to fail. Every file
  stays below the largest offset.\<close>

type_synonym command_world = "directory \<times> jsonl_journal option"

inductive command_step ::
  "('v, 'e) command_codec \<Rightarrow> ('v, 'e) command_record set \<Rightarrow> string \<Rightarrow> nat \<Rightarrow> command_world \<Rightarrow> command_world \<Rightarrow> bool"
  for C T path m where
  step_open: "fresh_names path fresh d \<Longrightarrow> command_open_bounded C fresh path m d = (res, d') \<Longrightarrow> fits_files d' \<Longrightarrow>
    command_step C T path m (d, None) (d', case res of Inl _ \<Rightarrow> None | Inr J \<Rightarrow> Some J)"
| step_append: "fresh_names path fresh d \<Longrightarrow> r \<in> T \<Longrightarrow> command_append C fresh r (J, d) = (res, (J', d')) \<Longrightarrow> fits_files d' \<Longrightarrow>
    command_step C T path m (d, Some J) (d', Some J')"
| step_history: "fresh_names path fresh d \<Longrightarrow> command_history C fresh k (J, d) = (hres, (J', d')) \<Longrightarrow>
    command_step C T path m (d, Some J) (d', Some J')"
| step_stop: "command_step C T path m (d, j) (d, None)"
| step_world: "command_step C T path m (d, j) (d\<lparr>fs_clock := t, fs_io := io\<rparr>, j)"

definition command_runs ::
  "('v, 'e) command_codec \<Rightarrow> ('v, 'e) command_record set \<Rightarrow> string \<Rightarrow> nat \<Rightarrow> command_world \<Rightarrow> command_world \<Rightarrow> bool" where
  "command_runs C T path m = (command_step C T path m)\<^sup>*\<^sup>*"

definition command_world_ok :: "('v, 'e) command_codec \<Rightarrow> string \<Rightarrow> nat \<Rightarrow> command_world \<Rightarrow> bool" where
  "command_world_ok C path m w \<longleftrightarrow> dir_ok (fst w) \<and> (\<forall>J. snd w = Some J \<longrightarrow> journal_ok C path m J (fst w))"

lemma open_effect:
  assumes "dir_ok d" "fresh_names path fresh d" "m < u64_max" "command_open_bounded C fresh path m d = (res, d')"
  shows "evolves path (range fresh) {} d d' \<and> (\<forall>J. res = Inr J \<longrightarrow> journal_ok C path m J d')"
proof -
  have wf: "wf_dir d" "fits_files d" using assms(1) by (simp_all add: dir_ok_def)
  note fr = fresh_names_pair [OF assms(2)]
  obtain r1 d1 where 1: "fs_call d = (r1, d1)" by (cases "fs_call d")
  obtain r2 d2 where 2: "command_open_writer C fresh m path d1 = (r2, d2)" by (cases "command_open_writer C fresh m path d1")
  note s = fs_call_effect(1) [OF 1]
  have w1: "wf_dir d1" "fits_files d1" "unused path {fresh 0, fresh 1} d1"
    using wf fr s name_of_same [OF s] wf_dir_same [OF s] by (auto simp: fits_files_def unused_def same_dir_def)
  have e2: "evolves path (range fresh) {} d d2"
    by (rule evolves_trans [OF evolves_same [OF wf(1) s] evolves_mono [OF open_writer_effect(1) [OF w1(1,3) conjunct2 [OF fr] assms(3) 2]]]) auto
  have c: "d' \<in> {d, d1, d2} \<and> (\<forall>J. res = Inr J \<longrightarrow> d' = d2 \<and> (\<exists>w. r2 = Inr w \<and> J = \<lparr>jj_path = path, jj_writer = w, jj_max_record_bytes = m\<rparr>))"
    using assms(4) 1 2 unfolding command_open_bounded_def as_journal_error_def and_then_def
    by (auto split: sum.splits prod.splits)
  have "journal_ok C path m J d'" if "res = Inr J" for J
    using c that open_writer_ready [OF w1 conjunct2 [OF fr] assms(3)] 2 by (auto simp: journal_ready_def)
  then show ?thesis using c e2 evolves_refl [OF wf(1)] evolves_same [OF wf(1) s] by auto
qed

lemma evolves_dir_ok: "dir_ok d \<Longrightarrow> evolves path F W d d' \<Longrightarrow> fits_files d' \<Longrightarrow> dir_ok d'"
  by (simp add: dir_ok_def evolves_def)

lemma world_change:
  assumes "dir_ok d"
  shows "evolves path F W d (d\<lparr>fs_clock := t, fs_io := io\<rparr>)" "dir_ok (d\<lparr>fs_clock := t, fs_io := io\<rparr>)"
    "journal_ok C path m J (d\<lparr>fs_clock := t, fs_io := io\<rparr>) = journal_ok C path m J d"
proof -
  have n: "name_of (d\<lparr>fs_clock := t, fs_io := io\<rparr>) = name_of d" by (simp add: name_of_def)
  show "evolves path F W d (d\<lparr>fs_clock := t, fs_io := io\<rparr>)" "dir_ok (d\<lparr>fs_clock := t, fs_io := io\<rparr>)"
    using assms by (auto simp: evolves_def dir_ok_def wf_dir_def sole_names_def fits_files_def n)
  show "journal_ok C path m J (d\<lparr>fs_clock := t, fs_io := io\<rparr>) = journal_ok C path m J d"
    by (simp add: journal_ok_def Let_def indexes_def covers_def noted_def file_carries_def n)
qed

lemma step_effect:
  assumes "faithful_commands C T" "m < u64_max" "command_step C T path m w w'" "command_world_ok C path m w"
  shows "command_world_ok C path m w' \<and> (\<exists>F W. evolves path F W (fst w) (fst w'))"
  using assms(3)
proof cases
  case (step_open fresh d res d')
  have d: "dir_ok d" using assms(4) step_open(1) by (simp add: command_world_ok_def)
  from open_effect [OF d step_open(3) assms(2) step_open(4)] show ?thesis
    using step_open evolves_dir_ok [OF d] by (auto simp: command_world_ok_def split: sum.splits)
next
  case (step_append fresh d r J res J' d')
  have d: "dir_ok d" "journal_ok C path m J d" using assms(4) step_append(1) by (simp_all add: command_world_ok_def)
  from append_effect [OF d(1) step_append(3) assms(2) d(2) assms(1) step_append(4,5)] show ?thesis
    using step_append evolves_dir_ok [OF d(1)] by (auto simp: command_world_ok_def)
next
  case (step_history fresh d k J hres J' d')
  have d: "dir_ok d" "journal_ok C path m J d" using assms(4) step_history(1) by (simp_all add: command_world_ok_def)
  from history_effect [OF d(1) step_history(3) assms(2) d(2) step_history(4)] show ?thesis
    using step_history evolves_dir_ok [OF d(1)] fits_evolves d(1) by (auto simp: command_world_ok_def dir_ok_def)
next
  case (step_stop d j)
  then show ?thesis using assms(4) evolves_refl by (auto simp: command_world_ok_def dir_ok_def)
next
  case (step_world d j t io)
  have d: "dir_ok d" using assms(4) step_world(1) by (simp add: command_world_ok_def)
  show ?thesis using assms(4) step_world d
    by (auto simp: command_world_ok_def world_change [OF d] intro: world_change(1) [OF d])
qed

text \<open>Along a run, files keep a name and their bytes.\<close>

definition kept :: "string \<Rightarrow> directory \<Rightarrow> directory \<Rightarrow> bool" where
  "kept path d d' \<longleftrightarrow>
     (\<forall>n i. name_of d n = Some i \<longrightarrow> (\<exists>n'. (n' = n \<or> n = path \<and> is_archive path n') \<and> name_of d' n' = Some i)
        \<and> nd_kind (fs_nodes d' i) = nd_kind (fs_nodes d i) \<and> (\<exists>xs. nd_bytes (fs_nodes d' i) = nd_bytes (fs_nodes d i) @ xs))"

lemma evolves_names:
  "evolves path F W d d' \<Longrightarrow> name_of d n = Some i \<Longrightarrow>
     name_of d' n = Some i \<or> n = path \<and> (\<exists>f \<in> F. name_of d' (archive_name path f) = Some i)"
  unfolding evolves_def by blast

lemma evolves_kept:
  assumes "wf_dir d" "evolves path F W d d'"
  shows "kept path d d'"
  unfolding kept_def
proof (intro allI impI conjI)
  fix n i assume n: "name_of d n = Some i"
  note i = wf_dir_name [OF assms(1) n]
  show "\<exists>n'. (n' = n \<or> n = path \<and> is_archive path n') \<and> name_of d' n' = Some i"
    using evolves_names [OF assms(2) n] is_archive_name(1) [of path] by blast
  show "nd_kind (fs_nodes d' i) = nd_kind (fs_nodes d i)" "\<exists>xs. nd_bytes (fs_nodes d' i) = nd_bytes (fs_nodes d i) @ xs"
    using assms(2) i unfolding evolves_def by blast+
qed

lemma kept_trans: "kept path d e \<Longrightarrow> kept path e f \<Longrightarrow> kept path d f"
  unfolding kept_def [of path d f]
proof (intro allI impI)
  fix n i assume k: "kept path d e" "kept path e f" and n: "name_of d n = Some i"
  obtain n1 xs where 1: "n1 = n \<or> n = path \<and> is_archive path n1" "name_of e n1 = Some i"
    "nd_kind (fs_nodes e i) = nd_kind (fs_nodes d i)" "nd_bytes (fs_nodes e i) = nd_bytes (fs_nodes d i) @ xs"
    using k(1) n unfolding kept_def by blast
  obtain n2 ys where 2: "n2 = n1 \<or> n1 = path \<and> is_archive path n2" "name_of f n2 = Some i"
    "nd_kind (fs_nodes f i) = nd_kind (fs_nodes e i)" "nd_bytes (fs_nodes f i) = nd_bytes (fs_nodes e i) @ ys"
    using k(2) 1(2) unfolding kept_def by blast
  have "n2 = n \<or> n = path \<and> is_archive path n2" using 1(1) 2(1) by auto
  then show "(\<exists>n'. (n' = n \<or> n = path \<and> is_archive path n') \<and> name_of f n' = Some i)
        \<and> nd_kind (fs_nodes f i) = nd_kind (fs_nodes d i) \<and> (\<exists>xs. nd_bytes (fs_nodes f i) = nd_bytes (fs_nodes d i) @ xs)"
    using 1(3,4) 2(2,3,4) by auto
qed

lemma runs_effect:
  assumes "faithful_commands C T" "m < u64_max" "command_runs C T path m w w'" "command_world_ok C path m w"
  shows "command_world_ok C path m w' \<and> kept path (fst w) (fst w')"
  using assms(3) unfolding command_runs_def
proof (induction rule: rtranclp_induct)
  case base
  then show ?case using assms(4) evolves_kept [OF _ evolves_refl] by (auto simp: command_world_ok_def dir_ok_def)
next
  case (step y z)
  from step_effect [OF assms(1,2) step(2)] step(3) obtain F W where
    "command_world_ok C path m z" "evolves path F W (fst y) (fst z)" by blast
  then show ?case using step(3) evolves_kept kept_trans by (metis dir_ok_def command_world_ok_def)
qed

end
