(* ===== verification/Command_Progress.thy ===== *)
theory Command_Progress
  imports Command_Run
begin

text \<open>
  The command journal on a disk whose calls succeed: every operation on the files returns, so a journal can be
  opened and refreshed whatever its file holds, and on a file of well-formed records it finds
  exactly these.
\<close>

section \<open>Scans end\<close>

lemma command_scan_complete: "\<exists>c h' ix'. scan_complete (command_ledger C) opts h ix l = Inr (c, h', ix')"
  by (auto simp: scan_complete_def command_ledger_def command_decode_def command_apply_def Let_def
      split: option.splits prod.splits)

lemma read_jsonl_line_total: "\<not> rd_fault rd \<Longrightarrow> \<exists>x rd'. read_jsonl_line m rd = Inr (x, rd') \<and> \<not> rd_fault rd'"
  by (auto simp: read_jsonl_line_def Let_def split: prod.splits)

lemma command_scan_total:
  "\<not> rd_fault rd \<Longrightarrow> \<exists>h' ix'. scan (command_ledger C) opts h ix None rd = Inr (h', ix')"
proof (induction "length (rd_bytes rd)" arbitrary: h ix rd rule: less_induct)
  case less
  obtain x rd' where x: "read_jsonl_line (max_line_bytes opts) rd = Inr (x, rd')" "\<not> rd_fault rd'"
    using read_jsonl_line_total [OF less.prems] by blast
  show ?case
  proof (cases x)
    case (Complete l)
    obtain c h1 ix1 where c: "scan_complete (command_ledger C) opts h ix l = Inr (c, h1, ix1)"
      using command_scan_complete by blast
    have "length (rd_bytes rd') < length (rd_bytes rd)" using read_jsonl_line_shorter x(1) Complete by blast
    from less.hyps [OF this x(2)] show ?thesis
      using x(1) Complete c by (subst scan.simps) (cases c, auto)
  qed (use x(1) in \<open>simp_all add: scan.simps [of "command_ledger C" opts h ix None rd]\<close>)
qed

lemma scan_file_total:
  assumes "\<not> rd_fault rd"
  obtains sc ix' where "scan_file C m ix rd = Inr (sc, ix')"
proof -
  obtain h' ix' where "scan (command_ledger C) (command_options m) (default_health\<lparr>lh_exists := True\<rparr>) ix None rd = Inr (h', ix')"
    using command_scan_total [OF assms] by blast
  then show thesis by (intro that) (simp add: scan_file_def scan_jsonl_def)
qed

lemma archive_lines_total:
  "\<not> rd_fault rd \<Longrightarrow> \<exists>a'. archive_lines C m arch off rd a = Inr a'"
proof (induction C m arch off rd a rule: archive_lines.induct)
  case (1 C m arch off rd a)
  obtain l rd1 where l: "read_limited (sat_add m 1) rd = Inr (l, rd1)" "\<not> rd_fault rd1"
    using 1(4) by (cases "read_until (sat_add m 1) (rd_bytes rd)") (simp add: read_limited_def)
  obtain n rd2 where n: "discard_jsonl_line rd1 = Inr (n, rd2)" "\<not> rd_fault rd2"
    using l(2) by (cases "position (\<lambda>b. b = newline) (rd_bytes rd1)") (simp_all add: discard_jsonl_line_def)
  show ?case
    using l n 1(1) [OF l(1) refl] 1(2) [OF l(1) refl _ _ refl _ n(1) refl] 1(3) [OF l(1) refl]
    by (subst archive_lines.simps) (auto simp: Let_def)
qed

section \<open>Calls on files\<close>

lemma clean_open_checked:
  assumes "fs_io d = []" "\<And>i. name_of d path = Some i \<Longrightarrow> nd_kind (fs_nodes d i) = RegularFile \<and> nd_links (fs_nodes d i) = 1"
  obtains i d' where "open_checked path d = (Inr i, d')" "fs_io d' = []" "nd_links (fs_nodes d' i) = 1"
    "\<And>n. n \<noteq> path \<Longrightarrow> name_of d' n = name_of d n" "name_of d' path = Some i"
    "nd_kind (fs_nodes d' i) = RegularFile" "name_of d path = None \<and> nd_bytes (fs_nodes d' i) = [] \<or> d' = d"
proof (cases "name_of d path")
  case None
  let ?d = "snd (create_file path d)"
  have "open_checked path d = (Inr (fs_next d), ?d)"
    using assms(1) None by (simp add: open_checked_def open_appending_def create_file_def fs_metadata_def
        require_regular_file_def require_sole_hard_link_def)
  then show thesis
    by (rule that) (use assms(1) None in \<open>simp_all add: create_file_def name_of_def update_conv'\<close>)
next
  case (Some i)
  then have "open_checked path d = (Inr i, d)"
    using assms by (simp add: open_checked_def open_appending_def fs_metadata_def
        require_regular_file_def require_sole_hard_link_def)
  then show thesis by (rule that) (use assms Some in auto)
qed

lemma clean_archive_journal:
  assumes "fs_io d = []" "name_of d path = Some i" "name_of d (archive_name path f) = None"
  obtains d' where "archive_journal path f d = (Inr (), d')" "fs_io d' = []" "name_of d' path = None"
    "\<And>g. g \<noteq> f \<Longrightarrow> name_of d' (archive_name path g) = name_of d (archive_name path g)"
proof -
  let ?d = "d\<lparr>fs_entries := AList.update (archive_name path f) i (AList.delete path (fs_entries d))\<rparr>"
  have "archive_journal path f d = (Inr (), ?d)" using assms by (simp add: archive_journal_def fs_rename_def)
  then show thesis
    by (rule that) (use assms in \<open>simp_all add: name_of_def update_conv' delete_conv'\<close>)
qed

lemma clean_open_regular:
  assumes "fs_io d = []" "name_of d n = Some i"
  shows "open_regular_read n d = (Inr (if nd_kind (fs_nodes d i) = RegularFile then Some i else None), d)"
  using assms by (simp add: open_regular_read_def open_read_def require_regular_file_def)

lemma clean_scan_archives:
  "fs_io d = [] \<Longrightarrow> \<forall>n \<in> set ns. name_of d n \<noteq> None \<Longrightarrow> \<exists>a'. scan_archives C m path ns a d = (Inr a', d)"
proof (induction ns arbitrary: a)
  case (Cons n ns)
  then obtain i where i: "name_of d n = Some i" by auto
  obtain a1 where a1: "archive_lines C m n 0 \<lparr>rd_bytes = nd_bytes (fs_nodes d i), rd_fault = False\<rparr> a = Inr a1"
    using archive_lines_total [of "\<lparr>rd_bytes = nd_bytes (fs_nodes d i), rd_fault = False\<rparr>" C m n 0 a] by auto
  show ?case using Cons by (simp add: clean_open_regular [OF Cons.prems(1) i] a1)
qed simp

lemma clean_finish_writer:
  assumes "fs_io d = []"
  obtains a where "scan_archives C m path (map fst (fs_entries d)) no_archives d = (Inr a, d)"
    "finish_writer C m path (i, q, ix) d =
       (Inr \<lparr>ws_file = i, ws_identity = i, ws_next_sequence = q, ws_file_len = length (nd_bytes (fs_nodes d i)),
             ws_modified = nd_modified (fs_nodes d i), ws_offsets = ix, ws_archived = a\<rparr>, d)"
proof -
  have "\<forall>n \<in> set (map fst (fs_entries d)). name_of d n \<noteq> None" by (auto simp: name_of_def map_of_eq_None_iff)
  then obtain a where "scan_archives C m path (map fst (fs_entries d)) no_archives d = (Inr a, d)"
    using clean_scan_archives [OF assms] by blast
  then show thesis using assms by (intro that) (simp_all add: finish_writer_def)
qed

section \<open>Opening\<close>

lemma clean_archive_irregular:
  assumes "fs_io d = []" "name_of d (archive_name path f) = None"
  obtains d' where "archive_irregular path f d = (Inr (), d')" "fs_io d' = []"
    "\<And>i. name_of d' path = Some i \<Longrightarrow> nd_kind (fs_nodes d' i) = RegularFile \<and> nd_links (fs_nodes d' i) = 1"
    "\<And>g. g \<noteq> f \<Longrightarrow> name_of d' (archive_name path g) = name_of d (archive_name path g)"
proof (cases "\<exists>i. name_of d path = Some i \<and> (nd_kind (fs_nodes d i) \<noteq> RegularFile \<or> nd_links (fs_nodes d i) \<noteq> 1)")
  case True
  then obtain i where i: "name_of d path = Some i" "nd_kind (fs_nodes d i) \<noteq> RegularFile \<or> nd_links (fs_nodes d i) \<noteq> 1" by blast
  obtain d' where "archive_journal path f d = (Inr (), d')" "fs_io d' = []" "name_of d' path = None"
    "\<And>g. g \<noteq> f \<Longrightarrow> name_of d' (archive_name path g) = name_of d (archive_name path g)"
    by (rule clean_archive_journal [OF assms(1) i(1) assms(2)]) (rule that, assumption+)
  then show thesis
    using i assms(1) by (intro that [of d']) (auto simp: archive_irregular_def require_sole_hard_link_def)
next
  case False
  then show thesis
    using assms by (intro that [of d])
      (auto simp: archive_irregular_def require_sole_hard_link_def split: option.splits)
qed

lemma clean_open_indexed:
  assumes "fs_io d = []" "\<And>i. name_of d path = Some i \<Longrightarrow> nd_kind (fs_nodes d i) = RegularFile \<and> nd_links (fs_nodes d i) = 1"
    "name_of d (archive_name path f) = None"
  obtains i q ix d' where "open_indexed C m path f d = (Inr (i, q, ix), d')" "fs_io d' = []" "nd_links (fs_nodes d' i) = 1"
proof -
  obtain i d1 where 1: "open_checked path d = (Inr i, d1)" "fs_io d1 = []" "nd_links (fs_nodes d1 i) = 1"
    "\<And>n. n \<noteq> path \<Longrightarrow> name_of d1 n = name_of d n" "name_of d1 path = Some i"
    by (rule clean_open_checked [OF assms(1,2)]) (assumption, rule that, assumption+)
  obtain sc ix where sc: "scan_file C m (Some []) \<lparr>rd_bytes = nd_bytes (fs_nodes d1 i), rd_fault = False\<rparr> = Inr (sc, ix)"
    using scan_file_total [of "\<lparr>rd_bytes = nd_bytes (fs_nodes d1 i), rd_fault = False\<rparr>" C m "Some []"] by auto
  show thesis
  proof (cases "command_damaged sc")
    case True
    have free: "name_of d1 (archive_name path f) = None" using 1(4) assms(3) by simp
    obtain d2 where 2: "archive_journal path f d1 = (Inr (), d2)" "fs_io d2 = []" "name_of d2 path = None"
      using clean_archive_journal [OF 1(2,5) free] by metis
    obtain j d3 where 3: "open_checked path d2 = (Inr j, d3)" "fs_io d3 = []" "nd_links (fs_nodes d3 j) = 1"
      using clean_open_checked [OF 2(2), of path] 2(3) by (metis option.distinct(1))
    show thesis by (rule that [OF _ 3(2,3), where q = 0 and ix = "[]"]) (use 1 2 3 sc True in \<open>simp add: open_indexed_def\<close>)
  next
    case False
    show thesis by (rule that [OF _ 1(2,3)]) (use 1 sc False in \<open>simp add: open_indexed_def\<close>)
  qed
qed

lemma clean_open_writer:
  assumes "fs_io d = []" "unused path {fresh 0, fresh 1} d" "fresh 0 \<noteq> fresh (1 :: nat)"
  obtains w d' where "command_open_writer C fresh m path d = (Inr w, d')" "fs_io d' = []" "nd_links (fs_nodes d' (ws_file w)) = 1"
proof -
  have free: "name_of d (archive_name path (fresh 0)) = None" "name_of d (archive_name path (fresh 1)) = None"
    using assms(2) by (simp_all add: unused_def)
  obtain d1 where 1: "archive_irregular path (fresh 0) d = (Inr (), d1)" "fs_io d1 = []"
    "\<And>i. name_of d1 path = Some i \<Longrightarrow> nd_kind (fs_nodes d1 i) = RegularFile \<and> nd_links (fs_nodes d1 i) = 1"
    "\<And>g. g \<noteq> fresh 0 \<Longrightarrow> name_of d1 (archive_name path g) = name_of d (archive_name path g)"
    by (rule clean_archive_irregular [OF assms(1) free(1)]) (rule that, assumption+)
  have free1: "name_of d1 (archive_name path (fresh 1)) = None" using 1(4) [of "fresh 1"] free(2) assms(3) by simp
  obtain i q ix d2 where 2: "open_indexed C m path (fresh 1) d1 = (Inr (i, q, ix), d2)" "fs_io d2 = []" "nd_links (fs_nodes d2 i) = 1"
    by (rule clean_open_indexed [OF 1(2,3) free1]) (assumption, rule that, assumption+)
  obtain a where "finish_writer C m path (i, q, ix) d2 =
       (Inr \<lparr>ws_file = i, ws_identity = i, ws_next_sequence = q, ws_file_len = length (nd_bytes (fs_nodes d2 i)),
             ws_modified = nd_modified (fs_nodes d2 i), ws_offsets = ix, ws_archived = a\<rparr>, d2)"
    using clean_finish_writer [OF 2(2)] by metis
  then have "command_open_writer C fresh m path d =
       (Inr \<lparr>ws_file = i, ws_identity = i, ws_next_sequence = q, ws_file_len = length (nd_bytes (fs_nodes d2 i)),
             ws_modified = nd_modified (fs_nodes d2 i), ws_offsets = ix, ws_archived = a\<rparr>, d2)"
    using 1(1) 2 by (simp add: command_open_writer_def)
  from that [OF this] show thesis using 2 by simp
qed

lemma clean_refresh:
  assumes "fs_io d = []" "unused (jj_path J) {fresh 0, fresh 1} d" "fresh 0 \<noteq> fresh (1 :: nat)"
    "ws_identity (jj_writer J) = ws_file (jj_writer J)"
  obtains J' d' where "refresh C fresh (J, d) = (Inr (), (J', d'))" "fs_io d' = []"
    "nd_links (fs_nodes d' (ws_file (jj_writer J'))) = 1" "jj_max_record_bytes J' = jj_max_record_bytes J"
proof -
  obtain w d1 where w: "command_open_writer C fresh (jj_max_record_bytes J) (jj_path J) d = (Inr w, d1)" "fs_io d1 = []"
    "nd_links (fs_nodes d1 (ws_file w)) = 1" using clean_open_writer [OF assms(1,2,3)] by metis
  have re: "reopen C fresh (J, d) = (Inr (), (J\<lparr>jj_writer := w\<rparr>, d1))" using w(1) by (simp add: reopen_def)
  consider (absent) "name_of d (jj_path J) = None" | (present) i where "name_of d (jj_path J) = Some i" by (cases "name_of d (jj_path J)") auto
  then show thesis
  proof cases
    case absent
    show thesis by (rule that [OF _ w(2), where J' = "J\<lparr>jj_writer := w\<rparr>"])
        (use absent assms(1) re w(3) in \<open>simp_all add: refresh_def open_regular_read_def\<close>)
  next
    case (present i)
    note rd = clean_open_regular [OF assms(1) present]
    show thesis
    proof (cases "nd_kind (fs_nodes d i) = RegularFile \<and> unchanged (jj_writer J) i (fs_nodes d i)")
      case True
      then show thesis
        by (intro that [of J d]) (use assms rd in \<open>auto simp: refresh_def unchanged_def require_sole_hard_link_def split: if_splits\<close>)
    next
      case False
      show thesis by (rule that [OF _ w(2), where J' = "J\<lparr>jj_writer := w\<rparr>"])
          (use False assms(1) rd re w(3) in \<open>auto simp: refresh_def\<close>)
    qed
  qed
qed

section \<open>Journals of well-formed records\<close>

text \<open>The directory holds the records under the path, or no file for an empty journal, and no archive.\<close>

definition plain_journal :: "('v, 'e) command_codec \<Rightarrow> string \<Rightarrow> ('v, 'e) command_record list \<Rightarrow> directory \<Rightarrow> bool" where
  "plain_journal C path rs d \<longleftrightarrow>
     (case name_of d path of None \<Rightarrow> rs = [] | Some i \<Rightarrow> file_holds C rs i d)
     \<and> (\<forall>n. name_of d n \<noteq> None \<longrightarrow> \<not> is_archive path n)"

lemma scan_archives_none:
  "fs_io d = [] \<Longrightarrow> \<forall>n \<in> set ns. \<not> is_archive path n \<Longrightarrow> scan_archives C m path ns a d = (Inr a, d)"
  by (induction ns) (auto simp: is_archive_def)

lemma open_plain:
  assumes "faithful_commands C T" "fs_io d = []" "plain_journal C path rs d" "good_commands C T m rs" "0 < m"
    "length (command_bytes C rs) \<le> u64_max" "last_command rs \<noteq> Some (- 1)"
  obtains J d' where "command_open_bounded C fresh path m d = (Inr J, d')" "fs_io d' = []" "journal_synced C T rs J d'"
    "plain_journal C path rs d'" "jj_path J = path" "jj_max_record_bytes J = m" "ws_archived (jj_writer J) = no_archives"
proof -
  have ok: "nd_kind (fs_nodes d i) = RegularFile \<and> nd_links (fs_nodes d i) = 1" if "name_of d path = Some i" for i
    using assms(3) that by (simp add: plain_journal_def file_holds_def)
  obtain i d1 where 1: "open_checked path d = (Inr i, d1)" "fs_io d1 = []" "nd_links (fs_nodes d1 i) = 1"
    "\<And>n. n \<noteq> path \<Longrightarrow> name_of d1 n = name_of d n" "name_of d1 path = Some i"
    "nd_kind (fs_nodes d1 i) = RegularFile" "name_of d path = None \<and> nd_bytes (fs_nodes d1 i) = [] \<or> d1 = d"
    by (rule clean_open_checked [OF assms(2) ok]) (assumption, rule that, assumption+)
  have b: "nd_bytes (fs_nodes d1 i) = command_bytes C rs"
    using 1(5,7) assms(3) by (auto simp: plain_journal_def file_holds_def)
  have plain: "plain_journal C path rs d1"
  proof -
    have "\<not> is_archive path n" if "name_of d1 n \<noteq> None" for n
      using that 1(4) [of n] assms(3) by (cases "n = path") (auto simp: plain_journal_def)
    then show ?thesis using 1(3,5,6) b by (simp add: file_holds_def plain_journal_def)
  qed
  obtain ix n where sc: "scan_file C m (Some []) \<lparr>rd_bytes = command_bytes C rs @ [], rd_fault = False\<rparr>
      = Inr (\<lparr>cs_torn_tail = ([] \<noteq> ([] :: bytes)), cs_incompatible = 0, cs_records = n, cs_max_sequence = last_command rs\<rparr>, Some ix)"
    "collects ix (index_from C 0 rs)"
    by (rule scan_file_good [OF assms(1,4), of "[]"]) (use assms(6) in auto)
  have irr: "archive_irregular path (fresh 0) d = (Inr (), d)"
    using ok assms(2) by (auto simp: archive_irregular_def require_sole_hard_link_def split: option.splits)
  have ind: "open_indexed C m path (fresh 1) d1' = (Inr (i, next_command rs, ix), d1)" if "open_checked path d1' = (Inr i, d1)" for d1'
    using that 1(2) b sc(1) assms(7) by (simp add: open_indexed_def command_damaged_def next_command_def)
  have "\<forall>n \<in> set (map fst (fs_entries d1)). \<not> is_archive path n"
    using plain by (auto simp: plain_journal_def name_of_def map_of_eq_None_iff)
  then have arch: "scan_archives C m path (map fst (fs_entries d1)) no_archives d1 = (Inr no_archives, d1)"
    using scan_archives_none [OF 1(2)] by blast
  let ?w = "\<lparr>ws_file = i, ws_identity = i, ws_next_sequence = next_command rs, ws_file_len = length (nd_bytes (fs_nodes d1 i)),
             ws_modified = nd_modified (fs_nodes d1 i), ws_offsets = ix, ws_archived = no_archives\<rparr>"
  let ?J = "\<lparr>jj_path = path, jj_writer = ?w, jj_max_record_bytes = m\<rparr>"
  have fin: "finish_writer C m path (i, next_command rs, ix) d1 = (Inr ?w, d1)"
    using arch 1(2) by (simp add: finish_writer_def)
  have "command_open_bounded C fresh path m d = (Inr ?J, d1)"
    using assms(2,5) irr ind [OF 1(1)] fin
    by (simp add: command_open_bounded_def validate_record_limit_def command_open_writer_def as_journal_error_def)
  moreover have "journal_synced C T rs ?J d1"
    using 1 b sc(2) assms(4,7) by (simp add: journal_synced_def Let_def file_holds_def)
  ultimately show thesis using 1(2) plain by (intro that [of ?J d1]) simp_all
qed

text \<open>The history of a command of which the journal holds nothing.\<close>

lemma history_synced_any:
  assumes "fs_io d = []" "journal_synced C T rs J d" "faithful_commands C T" "ws_archived (jj_writer J) = no_archives"
  shows "command_history C fresh k (J, d) =
           (Inr \<lparr>jc_records = filter (\<lambda>r. cr_command_id r = k) rs, jc_torn_tail = False, jc_incompatible = 0\<rparr>, (J, d))"
proof (cases "k \<in> cr_command_id ` set rs")
  case True
  then show ?thesis using history_synced [OF assms(1-3)] assms(4) by (simp add: no_archives_def)
next
  case False
  then have "map_of (ws_offsets (jj_writer J)) k = None"
    using assms(2) index_from_keys [of C 0 rs] by (auto simp: journal_synced_def Let_def collects_def)
  moreover have "filter (\<lambda>r. cr_command_id r = k) rs = []" using False by (auto simp: filter_empty_conv)
  ultimately show ?thesis
    using assms(1,4) by (simp add: command_history_def refresh_synced [OF assms(1,2)] archived_history_def no_archives_def)
qed

text \<open>A sequence of appends, and the numbers the records get.\<close>

fun append_all ::
  "('v, 'e) command_codec \<Rightarrow> (nat \<Rightarrow> string) \<Rightarrow> ('v, 'e) command_record list \<Rightarrow> jsonl_journal \<times> directory \<Rightarrow>
   (journal_error + unit) \<times> (jsonl_journal \<times> directory)" where
  "append_all C fresh [] s = (Inr (), s)"
| "append_all C fresh (r # rs) s = and_then (command_append C fresh r s) (\<lambda>_ s. append_all C fresh rs s)"

fun number_from :: "u64 \<Rightarrow> ('v, 'e) command_record list \<Rightarrow> ('v, 'e) command_record list" where
  "number_from q [] = []"
| "number_from q (r # rs) = with_sequence q r # number_from (q + 1) rs"

lemma append_plain:
  assumes "faithful_commands C T" "fs_io d = []" "journal_synced C T rs J d" "plain_journal C (jj_path J) rs d" "r \<in> T"
    "next_command rs \<noteq> - 1" "ws_archived (jj_writer J) = no_archives"
    "length (command_line C (with_sequence (next_command rs) r)) \<le> jj_max_record_bytes J"
  obtains J' d' where "command_append C fresh r (J, d) = (Inr (), (J', d'))" "fs_io d' = []" "journal_synced C T (appended C rs r) J' d'"
    "plain_journal C (jj_path J') (appended C rs r) d'" "ws_archived (jj_writer J') = no_archives"
    "jj_path J' = jj_path J" "jj_max_record_bytes J' = jj_max_record_bytes J"
proof -
  let ?d = "extend_file (ws_file (jj_writer J)) (command_line C (with_sequence (next_command rs) r)) d"
  have none: "map_of (ar_offsets (ws_archived (jj_writer J))) (cr_command_id r) = None" by (simp add: assms(7) no_archives_def)
  obtain J' where J': "command_append C fresh r (J, d) = (Inr (), (J', ?d))" "journal_synced C T (appended C rs r) J' ?d"
    "ws_archived (jj_writer J') = ws_archived (jj_writer J)" "jj_path J' = jj_path J" "jj_max_record_bytes J' = jj_max_record_bytes J"
    by (rule append_synced [OF assms(2,3,1,5,6) none assms(8)]) (rule that, assumption+)
  have n: "name_of ?d = name_of d" by (simp add: name_of_def)
  have "plain_journal C (jj_path J') (appended C rs r) ?d"
    using assms(4) J'(2,4) unfolding plain_journal_def n by (auto simp: journal_synced_def Let_def n)
  then show thesis using J' assms(2,7) by (intro that [of J' ?d]) simp_all
qed

lemma append_all_plain:
  assumes "faithful_commands C T" "\<forall>r \<in> set new. r \<in> T \<and> (\<forall>q. length (command_line C (with_sequence q r)) \<le> jj_max_record_bytes J)"
    "fs_io d = []" "journal_synced C T rs J d" "plain_journal C (jj_path J) rs d" "ws_archived (jj_writer J) = no_archives"
    "unat (next_command rs) + length new < 2 ^ 64"
  shows "\<exists>J' d'. append_all C fresh new (J, d) = (Inr (), (J', d')) \<and> fs_io d' = []
    \<and> journal_synced C T (rs @ number_from (next_command rs) new) J' d' \<and> plain_journal C (jj_path J') (rs @ number_from (next_command rs) new) d'
    \<and> ws_archived (jj_writer J') = no_archives \<and> jj_path J' = jj_path J \<and> jj_max_record_bytes J' = jj_max_record_bytes J"
  using assms(2-)
proof (induction new arbitrary: rs J d)
  case Nil
  then show ?case by (intro exI [of _ J] exI [of _ d]) simp
next
  case (Cons r new)
  let ?q = "next_command rs"
  have nq: "?q \<noteq> - 1"
  proof
    assume "?q = - 1"
    then have "unat ?q = 2 ^ 64 - 1" by (simp add: unsigned_minus_1_eq_mask mask_eq_exp_minus_1)
    then show False using Cons.prems(6) by simp
  qed
  have r: "r \<in> T" "length (command_line C (with_sequence ?q r)) \<le> jj_max_record_bytes J" using Cons.prems(1) by simp_all
  obtain J1 d1 where 1: "command_append C fresh r (J, d) = (Inr (), (J1, d1))" "fs_io d1 = []" "journal_synced C T (appended C rs r) J1 d1"
    "plain_journal C (jj_path J1) (appended C rs r) d1" "ws_archived (jj_writer J1) = no_archives"
    "jj_path J1 = jj_path J" "jj_max_record_bytes J1 = jj_max_record_bytes J"
    by (rule append_plain [OF assms(1) Cons.prems(2,3,4) r(1) nq Cons.prems(5) r(2)]) (rule that, assumption+)
  have nx: "next_command (appended C rs r) = ?q + 1" unfolding appended_def by (subst next_command_def) simp
  have "unat (?q + 1) = Suc (unat ?q)" by (rule unat_succ [OF nq])
  then have lt: "unat (next_command (appended C rs r)) + length new < 2 ^ 64" using Cons.prems(6) unfolding nx by simp
  have new: "\<forall>r \<in> set new. r \<in> T \<and> (\<forall>q. length (command_line C (with_sequence q r)) \<le> jj_max_record_bytes J1)"
    using Cons.prems(1) 1(7) by simp
  have all: "append_all C fresh (r # new) (J, d) = append_all C fresh new (J1, d1)" using 1(1) by simp
  have num: "appended C rs r @ number_from (?q + 1) new = rs @ number_from ?q (r # new)" by (simp add: appended_def)
  show ?case using Cons.IH [OF new 1(2-5) lt] unfolding all nx num 1(6,7) .
qed

end
