(* ===== verification/Command_Properties.thy ===== *)
theory Command_Properties
  imports Command_Progress
begin

text \<open>
  What the command journal promises along a run: an acknowledged record is never forgotten silently, an id
  in an archive is never acknowledged again, no byte of any file is lost, histories on a working
  disk are exact, and no earlier failure keeps a journal from appending once the disk works again.
\<close>

section \<open>What files keep\<close>

lemma stored_kept:
  assumes "kept path d d'" "stored path d l"
  shows "stored path d' l"
proof -
  obtain n i where n: "n = path \<or> is_archive path n" "name_of d n = Some i" "nd_kind (fs_nodes d i) = RegularFile"
    "l \<in> set (fst (split_lines (nd_bytes (fs_nodes d i))))" using assms(2) unfolding stored_def by blast
  obtain n' xs where k: "n' = n \<or> n = path \<and> is_archive path n'" "name_of d' n' = Some i"
    "nd_kind (fs_nodes d' i) = nd_kind (fs_nodes d i)" "nd_bytes (fs_nodes d' i) = nd_bytes (fs_nodes d i) @ xs"
    using assms(1) n(2) unfolding kept_def by blast
  have "n' = path \<or> is_archive path n'" using n(1) k(1) by auto
  moreover have "l \<in> set (fst (split_lines (nd_bytes (fs_nodes d' i))))"
    using n(4) k(4) split_lines_extend [of "nd_bytes (fs_nodes d i)" xs] by auto
  ultimately show ?thesis using k(2,3) n(3) unfolding stored_def by metis
qed

text \<open>A complete line of an archive.\<close>

definition archived_line :: "string \<Rightarrow> directory \<Rightarrow> bytes \<Rightarrow> bool" where
  "archived_line path d l \<longleftrightarrow>
     (\<exists>n i. is_archive path n \<and> name_of d n = Some i \<and> nd_kind (fs_nodes d i) = RegularFile
        \<and> l \<in> set (fst (split_lines (nd_bytes (fs_nodes d i)))))"

lemma archived_line_kept:
  assumes "kept path d d'" "archived_line path d l"
  shows "archived_line path d' l"
proof -
  obtain n i where n: "is_archive path n" "name_of d n = Some i" "nd_kind (fs_nodes d i) = RegularFile"
    "l \<in> set (fst (split_lines (nd_bytes (fs_nodes d i))))" using assms(2) unfolding archived_line_def by blast
  obtain n' xs where k: "n' = n \<or> n = path \<and> is_archive path n'" "name_of d' n' = Some i"
    "nd_kind (fs_nodes d' i) = nd_kind (fs_nodes d i)" "nd_bytes (fs_nodes d' i) = nd_bytes (fs_nodes d i) @ xs"
    using assms(1) n(2) unfolding kept_def by blast
  have "n' = n" using n(1) k(1) by auto
  moreover have "l \<in> set (fst (split_lines (nd_bytes (fs_nodes d' i))))"
    using n(4) k(4) split_lines_extend [of "nd_bytes (fs_nodes d i)" xs] by auto
  ultimately show ?thesis using k(2,3) n(1,3) unfolding archived_line_def by metis
qed

lemma archived_line_reserved:
  assumes "archived_line path d l" "carries C m l k"
  shows "reserved C m path d k"
proof -
  obtain n i where n: "is_archive path n" "name_of d n = Some i" "nd_kind (fs_nodes d i) = RegularFile"
    "l \<in> set (fst (split_lines (nd_bytes (fs_nodes d i))))" using assms(1) unfolding archived_line_def by blast
  have "l \<in> set (lines_of (nd_bytes (fs_nodes d i)))"
    using n(4) by (cases "split_lines (nd_bytes (fs_nodes d i))") (simp add: lines_of_def)
  with n assms(2) show ?thesis unfolding reserved_def file_carries_def by blast
qed

lemma start_ok: "dir_ok d \<Longrightarrow> command_world_ok C path m (d, None)"
  by (simp add: command_world_ok_def)

section \<open>A concrete journal\<close>

text \<open>Two commands, whose records are a digit for the command and the bits of the sequence.\<close>

definition demo_command :: "command_id \<Rightarrow> (unit, unit) command_record" where
  "demo_command k = \<lparr>cr_sequence = 0, cr_recorded_at = 7, cr_command_id = k, cr_phase = PhaseAccepted, cr_envelope = Some (),
                     cr_outcome = None, cr_prepared_result = None\<rparr>"

definition demo_commands :: "(unit, unit) command_record set" where
  "demo_commands = {demo_command 0, demo_command 1}"

definition demo_bits :: "u64 \<Rightarrow> bytes" where
  "demo_bits q = map (\<lambda>n. if bit q n then 49 else 48) [0..<64]"

definition demo_command_codec :: "(unit, unit) command_codec" where
  "demo_command_codec =
     \<lparr>cc_writes = (\<lambda>r. Some [[if cr_command_id r = 0 then 48 else 49], demo_bits (cr_sequence r)]),
      cc_dec = (\<lambda>bs. if length bs = 66
                   then Some (with_sequence (horner_sum of_bool 2 (map (\<lambda>b. b = 49) (take 64 (tl bs))))
                                (demo_command (if hd bs = 48 then 0 else 1)))
                   else None),
      cc_probe = (\<lambda>_. None), cc_object = (\<lambda>_. None), cc_command_id = (\<lambda>_. None), cc_sha = id\<rparr>"

definition demo_names :: "char \<Rightarrow> nat \<Rightarrow> string" where
  "demo_names c n = c # replicate n CHR ''x''"

text \<open>A directory without a journal, and one with an archive that holds a record of the first command.\<close>

definition empty_directory :: directory where
  "empty_directory =
     \<lparr>fs_entries = [], fs_nodes = (\<lambda>_. \<lparr>nd_kind = RegularFile, nd_bytes = [], nd_links = 1, nd_modified = 0\<rparr>),
      fs_next = 0, fs_clock = 5, fs_io = []\<rparr>"

definition archive_directory :: directory where
  "archive_directory =
     \<lparr>fs_entries = [(''j.archive-z'', 0)],
      fs_nodes = (\<lambda>_. \<lparr>nd_kind = RegularFile, nd_bytes = command_line demo_command_codec (demo_command 0), nd_links = 1, nd_modified = 0\<rparr>),
      fs_next = 1, fs_clock = 5, fs_io = []\<rparr>"

lemma demo_bits_facts:
  "length (demo_bits q) = 64" "newline \<notin> set (demo_bits q)" "horner_sum of_bool 2 (map (\<lambda>b. b = 49) (demo_bits q)) = q"
proof -
  show "length (demo_bits q) = 64" by (simp add: demo_bits_def del: upt_rec_numeral)
  show "newline \<notin> set (demo_bits q)" by (auto simp: demo_bits_def newline_def simp del: upt_rec_numeral)
  have "map (\<lambda>b. b = 49) (demo_bits q) = map (bit q) [0..<64]" by (simp add: demo_bits_def del: upt_rec_numeral)
  then show "horner_sum of_bool 2 (map (\<lambda>b. b = 49) (demo_bits q)) = q"
    by (simp add: horner_sum_bit_eq_take_bit take_bit_word_eq_self del: upt_rec_numeral)
qed

lemma demo_commands_faithful: "faithful_commands demo_command_codec demo_commands"
proof -
  have "\<exists>cs. cc_writes demo_command_codec (with_sequence q (demo_command k)) = Some cs \<and> newline \<notin> set (concat cs)
      \<and> \<not> list_all is_ascii_whitespace (concat cs)
      \<and> cc_dec demo_command_codec (concat cs @ [newline]) = Some (with_sequence q (demo_command k))" if "k = 0 \<or> k = 1" for q k
    using that demo_bits_facts [of q] by (auto simp: demo_command_codec_def newline_def is_ascii_whitespace_def demo_command_def)
  then show ?thesis unfolding faithful_commands_def demo_commands_def by blast
qed

lemma demo_line_length: "r \<in> demo_commands \<Longrightarrow> length (command_line demo_command_codec (with_sequence q r)) = 66"
  by (simp add: command_line_def demo_command_codec_def demo_bits_facts)

lemma demo_names_facts: "inj (demo_names c)" "c \<noteq> c' \<Longrightarrow> range (demo_names c) \<inter> range (demo_names c') = {}"
  by (auto simp: demo_names_def inj_def)

lemma demo_dirs_ok: "dir_ok empty_directory" "dir_ok archive_directory"
  by (simp_all add: dir_ok_def wf_dir_def sole_names_def fits_files_def empty_directory_def archive_directory_def name_of_def
      command_line_def demo_command_codec_def demo_bits_facts u64_max_def)

lemma demo_fresh:
  "c \<noteq> CHR ''z'' \<Longrightarrow> fresh_names ''j'' (demo_names c) archive_directory" "fresh_names ''j'' (demo_names c) empty_directory"
  by (auto simp: fresh_names_def demo_names_facts unused_def archive_directory_def empty_directory_def name_of_def archive_name_def
      demo_names_def)

text \<open>The journal of a directory whose calls succeed, opened.\<close>

lemma demo_journal_opens:
  assumes "d \<in> {empty_directory, archive_directory}"
  obtains J d1 where "command_runs demo_command_codec demo_commands ''j'' 100 (d, None) (d1, Some J)" "fs_io d1 = []"
    "fresh_names ''j'' (demo_names CHR ''b'') d1" "command_open_bounded demo_command_codec (demo_names CHR ''a'') ''j'' 100 d = (Inr J, d1)"
proof -
  let ?C = demo_command_codec and ?f = "demo_names CHR ''a''"
  have d: "fs_io d = []" "dir_ok d" "fresh_names ''j'' ?f d" "fresh_names ''j'' (demo_names CHR ''b'') d"
    using assms demo_dirs_ok demo_fresh [of "CHR ''a''"] demo_fresh [of "CHR ''b''"]
    by (auto simp: empty_directory_def [THEN arg_cong [of _ _ fs_io]] archive_directory_def [THEN arg_cong [of _ _ fs_io]])
  note fr = fresh_names_pair [OF d(3)]
  obtain w d1 where w: "command_open_writer ?C ?f 100 ''j'' d = (Inr w, d1)" "fs_io d1 = []"
    by (rule clean_open_writer [OF d(1) conjunct1 [OF fr] conjunct2 [OF fr]]) (rule that, assumption+)
  let ?J = "\<lparr>jj_path = ''j'', jj_writer = w, jj_max_record_bytes = 100\<rparr>"
  have op: "command_open_bounded ?C ?f ''j'' 100 d = (Inr ?J, d1)"
    using d(1) w(1) by (simp add: command_open_bounded_def validate_record_limit_def as_journal_error_def)
  have "(100 :: nat) < u64_max" by (simp add: u64_max_def)
  from open_effect [OF d(2,3) this op] have ev: "evolves ''j'' (range ?f) {} d d1" by simp
  have ft: "fits_files d1" using fits_evolves [OF _ ev] d(2) by (simp add: dir_ok_def)
  have "command_runs ?C demo_commands ''j'' 100 (d, None) (d1, Some ?J)"
    unfolding command_runs_def using step_open [OF d(3) op ft, of demo_commands] unfolding sum.case by (rule r_into_rtranclp)
  moreover have "fresh_names ''j'' (demo_names CHR ''b'') d1"
    using d(4) unused_evolves [OF _ ev, of "range (demo_names CHR ''b'')"] demo_names_facts(2) [of "CHR ''b''" "CHR ''a''"]
    unfolding fresh_names_def by simp
  ultimately show thesis using that [OF _ w(2) _ op] by simp
qed

text \<open>One append to the new journal.\<close>

lemma demo_appends:
  obtains J d J1 d1 where "command_runs demo_command_codec demo_commands ''j'' 100 (empty_directory, None) (d, Some J)"
    "fresh_names ''j'' (demo_names CHR ''b'') d"
    "command_append demo_command_codec (demo_names CHR ''b'') (demo_command 0) (J, d) = (Inr (), (J1, d1))"
    "fits_files d1" "fresh_names ''j'' (demo_names CHR ''b'') d1" "fs_io d1 = []" "ws_archived (jj_writer J1) = no_archives"
    "journal_synced demo_command_codec demo_commands [with_sequence 0 (demo_command 0)] J1 d1"
proof -
  let ?e = "[] :: (unit, unit) command_record list"
  let ?C = demo_command_codec and ?T = demo_commands and ?r = "demo_command 0"
  obtain J d where o: "command_runs ?C ?T ''j'' 100 (empty_directory, None) (d, Some J)" "fs_io d = []"
    "fresh_names ''j'' (demo_names CHR ''b'') d" "command_open_bounded ?C (demo_names CHR ''a'') ''j'' 100 empty_directory = (Inr J, d)"
    by (rule demo_journal_opens [of empty_directory]) (simp, rule that, assumption+)
  have p: "fs_io empty_directory = []" "plain_journal ?C ''j'' [] empty_directory"
    "good_commands ?C ?T 100 []" "0 < (100 :: nat)" "length (command_bytes ?C []) \<le> u64_max" "last_command [] \<noteq> Some (- 1)"
    by (simp_all add: empty_directory_def plain_journal_def name_of_def good_commands_def last_command_def)
  obtain J' d' where "command_open_bounded ?C (demo_names CHR ''a'') ''j'' 100 empty_directory = (Inr J', d')" "journal_synced ?C ?T [] J' d'"
    "jj_path J' = ''j''" "jj_max_record_bytes J' = 100" "ws_archived (jj_writer J') = no_archives"
    by (rule open_plain [OF demo_commands_faithful p]) (rule that, assumption+)
  then have J: "journal_synced ?C ?T [] J d" "jj_max_record_bytes J = 100" "ws_archived (jj_writer J) = no_archives" using o(4) by simp_all
  have q: "next_command ?e = 0" by (simp add: next_command_def last_command_def)
  let ?l = "command_line ?C (with_sequence (next_command ?e) ?r)"
  have r: "?r \<in> ?T" "next_command ?e \<noteq> - 1" "map_of (ar_offsets (ws_archived (jj_writer J))) (cr_command_id ?r) = None"
    "length ?l \<le> jj_max_record_bytes J"
    using demo_line_length [of ?r] J by (simp_all add: demo_commands_def q no_archives_def)
  let ?d = "extend_file (ws_file (jj_writer J)) ?l d"
  obtain J1 where 1: "command_append ?C (demo_names CHR ''b'') ?r (J, d) = (Inr (), (J1, ?d))" "journal_synced ?C ?T (appended ?C [] ?r) J1 ?d"
    "ws_archived (jj_writer J1) = ws_archived (jj_writer J)"
    by (rule append_synced [OF o(2) J(1) demo_commands_faithful r]) (rule that, assumption+)
  have "dir_ok d"
    using runs_effect [OF demo_commands_faithful _ o(1) start_ok [OF demo_dirs_ok(1)]] by (simp add: command_world_ok_def u64_max_def)
  moreover have "nd_bytes (fs_nodes d (ws_file (jj_writer J))) = []" using J(1) by (simp add: journal_synced_def Let_def file_holds_def)
  moreover have "length ?l \<le> u64_max" using r(4) J(2) by (simp add: u64_max_def)
  ultimately have "fits_files ?d" by (auto simp: dir_ok_def fits_files_def extend_file_def)
  moreover have "fresh_names ''j'' (demo_names CHR ''b'') ?d" using o(3) by (simp add: fresh_names_def unused_def name_of_def)
  moreover have "appended ?C [] ?r = [with_sequence 0 ?r]" by (simp add: appended_def q)
  ultimately show thesis using o(1-3) 1 J(3) by (intro that [of d J J1 ?d]) simp_all
qed

section \<open>Runs of a journal\<close>

text \<open>C5. An acknowledged record is never forgotten silently. In any run of the program on a journal, with any calls
  failing and any stops and reopenings in between, once an append was acknowledged, every later history of
  its command that returns either contains the record or reports records it cannot vouch for.\<close>

theorem command_record_remembered:
  assumes "faithful_commands C T" "m < u64_max" "dir_ok d0" "command_runs C T path m (d0, None) (d, Some J)"
    "fresh_names path fresh d" "r \<in> T" "command_append C fresh r (J, d) = (Inr (), (J1, d1))" "fits_files d1"
    "command_runs C T path m (d1, Some J1) (d2, Some J2)" "fresh_names path fresh2 d2"
    "command_history C fresh2 (cr_command_id r) (J2, d2) = (Inr sc, s)"
  shows "(\<exists>q. with_sequence q r \<in> set (jc_records sc)) \<or> 0 < jc_incompatible sc"
proof -
  have w: "dir_ok d" "journal_ok C path m J d"
    using runs_effect [OF assms(1,2,4) start_ok [OF assms(3)]] by (simp_all add: command_world_ok_def)
  note a = append_effect [OF w(1) assms(5,2) w(2) assms(1,6,7)]
  then obtain q where q: "stored path d1 (command_line C (with_sequence q r))"
    "no_blank_record C m (command_line C (with_sequence q r)) (with_sequence q r)" by blast
  have "command_world_ok C path m (d1, Some J1)" using a evolves_dir_ok [OF w(1) conjunct1 [OF a] assms(8)] by (simp add: command_world_ok_def)
  from runs_effect [OF assms(1,2,9) this]
  have k: "dir_ok d2" "journal_ok C path m J2 d2" "kept path d1 d2" by (simp_all add: command_world_ok_def)
  obtain J3 d3 where s: "s = (J3, d3)" by (cases s)
  have "answers C path m d2 (cr_command_id r) sc"
    using history_effect [OF k(1) assms(10,2) k(2)] assms(11) s by blast
  then show ?thesis using stored_kept [OF k(3) q(1)] q(2) unfolding answers_def by fastforce
qed

theorem command_record_remembered_witness:
  "\<exists>J d sc s. command_append demo_command_codec (demo_names CHR ''b'') (demo_command 0) (J, d) = (Inr (), s)
     \<and> fst (command_history demo_command_codec (demo_names CHR ''b'') 0 s) = Inr sc \<and> jc_incompatible sc = 0
     \<and> (\<exists>q. with_sequence q (demo_command 0) \<in> set (jc_records sc))"
proof -
  obtain J d J1 d1 where a: "command_runs demo_command_codec demo_commands ''j'' 100 (empty_directory, None) (d, Some J)"
    "fresh_names ''j'' (demo_names CHR ''b'') d"
    "command_append demo_command_codec (demo_names CHR ''b'') (demo_command 0) (J, d) = (Inr (), (J1, d1))"
    "fits_files d1" "fresh_names ''j'' (demo_names CHR ''b'') d1" "fs_io d1 = []" "ws_archived (jj_writer J1) = no_archives"
    "journal_synced demo_command_codec demo_commands [with_sequence 0 (demo_command 0)] J1 d1" by (rule demo_appends)
  have m: "(100 :: nat) < u64_max" "demo_command 0 \<in> demo_commands" by (simp_all add: u64_max_def demo_commands_def)
  have id: "cr_command_id (demo_command 0) = 0" by (simp add: demo_command_def)
  have refl: "command_runs demo_command_codec demo_commands ''j'' 100 (d1, Some J1) (d1, Some J1)" by (simp add: command_runs_def)
  note h = history_synced_any [OF a(6,8) demo_commands_faithful a(7), of "demo_names CHR ''b''" "cr_command_id (demo_command 0)"]
  from command_record_remembered [OF demo_commands_faithful m(1) demo_dirs_ok(1) a(1,2) m(2) a(3,4) refl a(5) h]
  have "\<exists>q. with_sequence q (demo_command 0) \<in> set (filter (\<lambda>r. cr_command_id r = cr_command_id (demo_command 0)) [with_sequence 0 (demo_command 0)])"
    by simp
  then show ?thesis
    by (intro exI [of _ J] exI [of _ d] exI [of _ "(J1, d1)"]
        exI [of _ "\<lparr>jc_records = [with_sequence 0 (demo_command 0)], jc_torn_tail = False, jc_incompatible = 0\<rparr>"])
      (use a(3) h id in simp)
qed

text \<open>C6. An id that an archive carries is never used again: in any later state of any run an append for it is
  not acknowledged, and a history of it that returns reports that it is incomplete.\<close>

theorem command_archived_refused:
  assumes "faithful_commands C T" "m < u64_max" "dir_ok d0" "command_runs C T path m (d0, None) (d, j)"
    "archived_line path d l" "carries C m l k" "command_runs C T path m (d, j) (d1, Some J)" "fresh_names path fresh d1"
  shows "(r \<in> T \<and> cr_command_id r = k \<longrightarrow> fst (command_append C fresh r (J, d1)) \<noteq> Inr ())
    \<and> (\<forall>sc. fst (command_history C fresh k (J, d1)) = Inr sc \<longrightarrow> 0 < jc_incompatible sc)"
proof -
  have "command_world_ok C path m (d, j)" using runs_effect [OF assms(1,2,4) start_ok [OF assms(3)]] by blast
  from runs_effect [OF assms(1,2,7) this]
  have w: "dir_ok d1" "journal_ok C path m J d1" "kept path d d1" by (simp_all add: command_world_ok_def)
  note res = archived_line_reserved [OF archived_line_kept [OF w(3) assms(5)] assms(6)]
  obtain ra Ja da where a: "command_append C fresh r (J, d1) = (ra, (Ja, da))" by (metis prod.exhaust)
  obtain rh Jh dh where h: "command_history C fresh k (J, d1) = (rh, (Jh, dh))" by (metis prod.exhaust)
  have "ra \<noteq> Inr ()" if "r \<in> T" "cr_command_id r = k"
    using append_effect [OF w(1) assms(8,2) w(2) assms(1) that(1) a] that(2) res by auto
  moreover have "0 < jc_incompatible sc" if "rh = Inr sc" for sc
    using history_effect [OF w(1) assms(8,2) w(2) h] that res unfolding answers_def by blast
  ultimately show ?thesis using a h by auto
qed

theorem command_archived_refused_witness:
  "\<exists>J d. command_runs demo_command_codec demo_commands ''j'' 100 (archive_directory, None) (d, Some J)
     \<and> fst (command_append demo_command_codec (demo_names CHR ''b'') (demo_command 0) (J, d)) \<noteq> Inr ()"
proof -
  obtain J d where o: "command_runs demo_command_codec demo_commands ''j'' 100 (archive_directory, None) (d, Some J)"
    "fresh_names ''j'' (demo_names CHR ''b'') d" by (rule demo_journal_opens [of archive_directory]) (simp, rule that, assumption+)
  have m: "(100 :: nat) < u64_max" "demo_command 0 \<in> demo_commands" "cr_command_id (demo_command 0) = 0"
    by (simp_all add: u64_max_def demo_commands_def demo_command_def)
  let ?l = "command_line demo_command_codec (demo_command 0)"
  have w: "demo_command 0 = with_sequence 0 (demo_command 0)" by (simp add: demo_command_def with_sequence_def)
  have dr: "drawn demo_commands (demo_command 0)" using drawn_with_sequence [OF m(2), of 0] w by simp
  obtain "cc_dec demo_command_codec ?l = Some (demo_command 0)" "is_line ?l" "\<not> list_all is_ascii_whitespace ?l"
    by (rule drawn_line [OF demo_commands_faithful dr]) (rule that, assumption+)
  then have l: "carries demo_command_codec 100 ?l 0" "split_lines ?l = ([?l], [])"
    using demo_line_length [OF m(2), of 0] w split_lines_unique [of "[?l]" "[]"] m(3) by (simp_all add: carries_def line_id_def)
  have "archived_line ''j'' archive_directory ?l"
    unfolding archived_line_def using l(2)
    by (intro exI [of _ "''j.archive-z''"] exI [of _ 0])
      (simp add: archive_directory_def name_of_def is_archive_def starts_with_def archive_name_def)
  moreover have "command_runs demo_command_codec demo_commands ''j'' 100 (archive_directory, None) (archive_directory, None)"
    by (simp add: command_runs_def)
  ultimately have "fst (command_append demo_command_codec (demo_names CHR ''b'') (demo_command 0) (J, d)) \<noteq> Inr ()"
    using command_archived_refused [OF demo_commands_faithful m(1) demo_dirs_ok(2) _ _ l(1) o(1,2), of "demo_command 0"] m(2,3) by blast
  with o(1) show ?thesis by blast
qed

text \<open>C13. No run loses anything: every file the directory held still has its name, or an archive name if it was the
  journal, is of the same kind, and its bytes are a prefix of what it holds now.\<close>

theorem command_runs_lose_nothing:
  assumes "faithful_commands C T" "m < u64_max" "dir_ok d0" "command_runs C T path m (d0, None) (d, j)"
    "command_runs C T path m (d, j) (d', j')" "name_of d n = Some i"
  shows "(\<exists>n'. (n' = n \<or> n = path \<and> starts_with (archive_name path '''') n') \<and> name_of d' n' = Some i)
    \<and> nd_kind (fs_nodes d' i) = nd_kind (fs_nodes d i) \<and> (\<exists>bs. nd_bytes (fs_nodes d' i) = nd_bytes (fs_nodes d i) @ bs)"
proof -
  have "command_world_ok C path m (d, j)" using runs_effect [OF assms(1,2,4) start_ok [OF assms(3)]] by blast
  from runs_effect [OF assms(1,2,5) this] have "kept path d d'" by simp
  then show ?thesis using assms(6) by (simp add: kept_def is_archive_def)
qed

theorem command_runs_lose_nothing_witness:
  "\<exists>J d bs. command_runs demo_command_codec demo_commands ''j'' 100 (archive_directory, None) (d, Some J)
     \<and> nd_bytes (fs_nodes d 0) = command_line demo_command_codec (demo_command 0) @ bs"
proof -
  obtain J d where o: "command_runs demo_command_codec demo_commands ''j'' 100 (archive_directory, None) (d, Some J)"
    by (rule demo_journal_opens [of archive_directory]) (simp, rule that, assumption+)
  have m: "(100 :: nat) < u64_max" by (simp add: u64_max_def)
  have "command_runs demo_command_codec demo_commands ''j'' 100 (archive_directory, None) (archive_directory, None)"
    "name_of archive_directory ''j.archive-z'' = Some 0"
    "nd_bytes (fs_nodes archive_directory 0) = command_line demo_command_codec (demo_command 0)"
    by (simp_all add: command_runs_def archive_directory_def name_of_def)
  then show ?thesis using command_runs_lose_nothing [OF demo_commands_faithful m demo_dirs_ok(2) _ o] o by metis
qed

section \<open>A disk that works\<close>

text \<open>C14. No failure blocks a journal. From every state a run can reach, if the calls that follow succeed, an append of a
  record within the size limit is acknowledged, unless an archive holds the id of its command or the
  sequence numbers are used up, and then it reports the command as uncertain.\<close>

theorem command_append_recovers:
  assumes "faithful_commands C T" "m < u64_max" "dir_ok d0" "command_runs C T path m (d0, None) (d, Some J)"
    "fs_io d = []" "fresh_names path fresh d" "r \<in> T" "\<forall>q. length (command_line C (with_sequence q r)) \<le> m"
  shows "\<exists>J' d'. command_append C fresh r (J, d) = (Inr (), (J', d'))
    \<or> command_append C fresh r (J, d) = (Inl JeUncertainCommand, (J', d'))
      \<and> (map_of (ar_offsets (ws_archived (jj_writer J'))) (cr_command_id r) \<noteq> None \<or> ws_next_sequence (jj_writer J') = - 1)"
proof -
  have "journal_ok C path m J d" using runs_effect [OF assms(1,2,4) start_ok [OF assms(3)]] by (simp add: command_world_ok_def)
  then have J: "jj_path J = path" "jj_max_record_bytes J = m" "ws_identity (jj_writer J) = ws_file (jj_writer J)"
    by (simp_all add: journal_ok_def Let_def)
  note fr = fresh_names_pair [OF assms(6)]
  obtain J1 d1 where 1: "refresh C fresh (J, d) = (Inr (), (J1, d1))" "fs_io d1 = []"
    "nd_links (fs_nodes d1 (ws_file (jj_writer J1))) = 1" "jj_max_record_bytes J1 = jj_max_record_bytes J"
    by (rule clean_refresh [OF assms(5) _ conjunct2 [OF fr] J(3)]) (use J(1) fr in simp, rule that, assumption+)
  let ?w = "jj_writer J1" let ?q = "ws_next_sequence ?w" let ?l = "command_line C (with_sequence ?q r)"
  show ?thesis
  proof (cases "map_of (ar_offsets (ws_archived ?w)) (cr_command_id r) = None \<and> ?q \<noteq> - 1")
    case True
    then have sc: "checked_succ ?q = Some (?q + 1)" by (simp add: checked_succ_def)
    have len: "length ?l \<le> m" using assms(8) by blast
    have enc: "encode_bounded C (jj_max_record_bytes J1) (r\<lparr>cr_sequence := ?q\<rparr>) = Inr ?l"
      using encode_bounded_line [OF assms(1) drawn_with_sequence [OF assms(7)] len] 1(4) J(2) by (simp add: with_sequence_def)
    have sole: "require_sole_hard_link (fs_nodes d1 (ws_file ?w)) = Inr ()" using 1(3) by (simp add: require_sole_hard_link_def)
    have "\<exists>J2. write_record C (cr_command_id r) (?q + 1) ?l (J1, d1) = (Inr (), (J2, extend_file (ws_file ?w) ?l d1))"
      using 1(2) sole by (simp add: write_record_def Let_def)
    then show ?thesis using True 1(1) by (auto simp: command_append_def sc enc Let_def)
  next
    case False
    then show ?thesis using 1(1) by (intro exI [of _ J1] exI [of _ d1]) (auto simp: command_append_def checked_succ_def Let_def)
  qed
qed

theorem command_append_recovers_witness:
  "\<exists>J d J' d'. command_runs demo_command_codec demo_commands ''j'' 100 (archive_directory, None) (d, Some J)
     \<and> (command_append demo_command_codec (demo_names CHR ''b'') (demo_command 1) (J, d) = (Inr (), (J', d'))
        \<or> command_append demo_command_codec (demo_names CHR ''b'') (demo_command 1) (J, d) = (Inl JeUncertainCommand, (J', d')))"
proof -
  obtain J d where o: "command_runs demo_command_codec demo_commands ''j'' 100 (archive_directory, None) (d, Some J)" "fs_io d = []"
    "fresh_names ''j'' (demo_names CHR ''b'') d" by (rule demo_journal_opens [of archive_directory]) (simp, rule that, assumption+)
  have m: "(100 :: nat) < u64_max" "demo_command 1 \<in> demo_commands" by (simp_all add: u64_max_def demo_commands_def)
  have "\<forall>q. length (command_line demo_command_codec (with_sequence q (demo_command 1))) \<le> 100"
    using demo_line_length [OF m(2)] by simp
  from command_append_recovers [OF demo_commands_faithful m(1) demo_dirs_ok(2) o m(2) this] show ?thesis using o(1) by blast
qed

text \<open>C15. Records read back exactly. On a disk that works, appends to a new journal are all acknowledged, the history of any
  command is exactly its records in the order of the appends, numbered from zero, with nothing reported as damaged,
  and so is the history after the journal was closed and opened again.\<close>

theorem command_journal_roundtrip:
  assumes "faithful_commands C T" "fs_io d = []" "name_of d path = None" "\<forall>n. name_of d n \<noteq> None \<longrightarrow> \<not> is_archive path n"
    "0 < m" "\<forall>r \<in> set rs. r \<in> T \<and> (\<forall>q. length (command_line C (with_sequence q r)) \<le> m)"
    "length rs < 2 ^ 64 - 1" "length (command_bytes C (number_from 0 rs)) \<le> u64_max"
  shows "\<exists>J d1 J1 d2 J2 d3.
      command_open_bounded C fresh path m d = (Inr J, d1) \<and> append_all C fresh rs (J, d1) = (Inr (), (J1, d2))
      \<and> command_history C fresh k (J1, d2) =
          (Inr \<lparr>jc_records = filter (\<lambda>r. cr_command_id r = k) (number_from 0 rs), jc_torn_tail = False, jc_incompatible = 0\<rparr>, (J1, d2))
      \<and> command_open_bounded C fresh path m d2 = (Inr J2, d3)
      \<and> command_history C fresh k (J2, d3) =
          (Inr \<lparr>jc_records = filter (\<lambda>r. cr_command_id r = k) (number_from 0 rs), jc_torn_tail = False, jc_incompatible = 0\<rparr>, (J2, d3))"
proof -
  have p: "plain_journal C path [] d" using assms(3,4) by (simp add: plain_journal_def)
  have e: "good_commands C T m []" "length (command_bytes C []) \<le> u64_max" "last_command [] \<noteq> Some (- 1)"
    by (simp_all add: good_commands_def last_command_def)
  obtain J d1 where 1: "command_open_bounded C fresh path m d = (Inr J, d1)" "fs_io d1 = []" "journal_synced C T [] J d1"
    "plain_journal C path [] d1" "jj_path J = path" "jj_max_record_bytes J = m" "ws_archived (jj_writer J) = no_archives"
    by (rule open_plain [OF assms(1,2) p e(1) assms(5) e(2,3)]) (rule that, assumption+)
  have n0: "next_command [] = 0" by (simp add: next_command_def last_command_def)
  have new: "\<forall>r \<in> set rs. r \<in> T \<and> (\<forall>q. length (command_line C (with_sequence q r)) \<le> jj_max_record_bytes J)"
    using assms(6) 1(6) by simp
  have p1: "plain_journal C (jj_path J) [] d1" using 1(4,5) by simp
  have lt: "unat (next_command []) + length rs < 2 ^ 64" using assms(7) unfolding n0 by simp
  obtain J1 d2 where 2: "append_all C fresh rs (J, d1) = (Inr (), (J1, d2))" "fs_io d2 = []" "journal_synced C T (number_from 0 rs) J1 d2"
    "plain_journal C path (number_from 0 rs) d2" "ws_archived (jj_writer J1) = no_archives" "jj_max_record_bytes J1 = m"
    using append_all_plain [OF assms(1) new 1(2,3) p1 1(7) lt, of fresh] unfolding n0 append_Nil 1(5,6) by blast
  have g: "good_commands C T m (number_from 0 rs)" "last_command (number_from 0 rs) \<noteq> Some (- 1)"
    using 2(3,6) by (simp_all add: journal_synced_def Let_def)
  obtain J2 d3 where 3: "command_open_bounded C fresh path m d2 = (Inr J2, d3)" "fs_io d3 = []" "journal_synced C T (number_from 0 rs) J2 d3"
    "ws_archived (jj_writer J2) = no_archives"
    by (rule open_plain [OF assms(1) 2(2,4) g(1) assms(5,8) g(2)]) (rule that, assumption+)
  show ?thesis
    using 1(1) 2(1) 3(1) history_synced_any [OF 2(2,3) assms(1) 2(5), of fresh k] history_synced_any [OF 3(2,3) assms(1) 3(4), of fresh k]
    by blast
qed

theorem command_journal_roundtrip_witness:
  "\<exists>J d1 J1 d2. command_open_bounded demo_command_codec (demo_names CHR ''a'') ''j'' 100 empty_directory = (Inr J, d1)
     \<and> append_all demo_command_codec (demo_names CHR ''a'') [demo_command 0, demo_command 1, demo_command 0] (J, d1) = (Inr (), (J1, d2))
     \<and> command_history demo_command_codec (demo_names CHR ''a'') 0 (J1, d2) =
         (Inr \<lparr>jc_records = [with_sequence 0 (demo_command 0), with_sequence 2 (demo_command 0)], jc_torn_tail = False, jc_incompatible = 0\<rparr>, (J1, d2))"
proof -
  let ?rs = "[demo_command 0, demo_command 1, demo_command 0]"
  have e: "fs_io empty_directory = []" "name_of empty_directory ''j'' = None"
    "\<forall>n. name_of empty_directory n \<noteq> None \<longrightarrow> \<not> is_archive ''j'' n" "0 < (100 :: nat)"
    by (simp_all add: empty_directory_def name_of_def)
  have t: "demo_command 0 \<in> demo_commands" "demo_command 1 \<in> demo_commands" by (simp_all add: demo_commands_def)
  have r: "\<forall>r \<in> set ?rs. r \<in> demo_commands \<and> (\<forall>q. length (command_line demo_command_codec (with_sequence q r)) \<le> 100)"
    using t demo_line_length by auto
  have n: "length ?rs < 2 ^ 64 - 1" "length (command_bytes demo_command_codec (number_from 0 ?rs)) \<le> u64_max"
    using demo_line_length [OF t(1)] demo_line_length [OF t(2)] by (simp_all add: u64_max_def)
  have f: "filter (\<lambda>r. cr_command_id r = 0) (number_from 0 ?rs) = [with_sequence 0 (demo_command 0), with_sequence 2 (demo_command 0)]"
    by (simp add: demo_command_def)
  from command_journal_roundtrip [OF demo_commands_faithful e r n, of "demo_names CHR ''a''" 0] show ?thesis unfolding f by blast
qed

end
