(* ===== verification/Spec2Isabelle.thy ===== *)
theory Spec2Isabelle
  imports Scheduler_Contracts Session_Ownership Idempotency_Properties Command_Properties
begin

text \<open>
  Bobby Browser is a browser automation runtime. Agents send commands and jobs to a broker; the broker
  authenticates them, runs each request at most once, executes jobs on a scheduler, and keeps journals
  from which it recovers after a crash. This development verifies the part of the program that carries
  those promises: authority, request identity, the idempotency store with its file, the job scheduler
  with its queue and its journal, the command journal, and the ledger scanner under the journals.

  \<^bold>\<open>How the parts interact.\<close> A request carries a bearer token that the authority store turns into a handle;
  the guard compares the handle's capabilities with those the operation needs. A request with an
  idempotency key is reserved in the idempotency store under the digest of its canonical form before its
  effect happens, and the outcome is retained for replays; both are written to a change log first. A job
  goes through \<open>submit\<close> into the registry, the store and the priority queue; the run loop takes it from the
  queue, records the start, and runs its handler as a task; the outcome is recorded, retried after a
  back-off, or put up for an operator to reconcile. Every phase of a command is
  appended to the command journal, whose history of the command decides after a crash what may be done
  again. The job journal, the command journal and the idempotency log are JSONL files read back by the same
  scanner.

  \<^bold>\<open>Theories, from the bottom up.\<close>

  \<^item> \<open>Prelude\<close>: machine integers (\<open>64 word\<close>, with saturating and checked operations on sizes), byte strings,
    hash maps as association lists whose order is the unspecified iteration order, the list operations of
    the Rust library, \<open>and_then\<close> for the question mark operator.
  \<^item> \<open>Disk\<close>: the bytes under a path, the files archived beside it, and the outcomes of the calls to come. Every
    call may fail, a write after any number of bytes, so that a crash in the middle of a write is a failed
    write after which nothing else runs.
  \<^item> \<open>Ledger\<close>: \<open>workflow-journal/src/health.rs\<close> and the line reader of \<open>lib.rs\<close> (\<open>read_jsonl_line\<close>, \<open>scan\<close>,
    \<open>scan_jsonl\<close>, \<open>for_each_jsonl_line\<close>). Decoders are records of functions with a state. The scan is shown equal
    to a whole-file split into lines, and its sequence verdicts are characterised for both rules.
  \<^item> \<open>Capabilities\<close>: \<open>bobby-browser-client/src/auth.rs\<close>, \<open>interface.rs\<close>, \<open>types/src/presets.rs\<close>: capability names
    and sets, the capabilities an operation needs, presets, request validation.
  \<^item> \<open>Jobs\<close>: \<open>task-scheduler/src/job.rs\<close> and \<open>job_resolution.rs\<close>: the job record, its transitions, the retry budget.
  \<^item> \<open>Job_Queue\<close>: \<open>queue.rs\<close>: the B-tree of queues by priority and the back-off. The locale \<open>ready_queue\<close> is what the
    scheduler relies on, interpreted on the queue of the code.
  \<^item> \<open>Job_Store\<close>, \<open>Job_Journal\<close>, \<open>Job_Recovery\<close>: \<open>store.rs\<close>: the store trait with its contract as the locale \<open>job_store\<close>,
    the in-memory store and the durable journal as its two interpretations, and the invariant that ties the
    bytes of the journal to the index through appends, compaction, retention, crashes and reopening.
  \<^item> \<open>Scheduler\<close>, \<open>Scheduler_Core\<close>, \<open>Scheduler_Run\<close>, \<open>Scheduler_Contracts\<close>: \<open>scheduler.rs\<close>. One definition per section that
    the code runs under its transition lock; \<open>sched_run\<close> interleaves the public calls, the run loop, its
    tasks and their timers in any order; \<open>Scheduler_Core\<close> has the abstract machine that every run refines, and
    the bound on handler starts is proved on the machine.
  \<^item> \<open>Authority\<close>: \<open>interface-core/src/auth.rs\<close> and the guard of \<open>lib.rs\<close>. Revocation flags are shared cells, so that
    a handle given out earlier sees a later revocation.
  \<^item> \<open>Session_Ownership\<close>: \<open>session_ownership.rs\<close>: owners and reservations of the session registry.
  \<^item> \<open>Canonical_Json\<close>: the canonical form of \<open>idempotency.rs\<close> and the value a document denotes.
  \<^item> \<open>Idempotency\<close>, \<open>Idempotency_Ledger\<close>: \<open>idempotency.rs\<close> and \<open>idempotency/durable.rs\<close>, one definition per critical
    section. The waiting loop of \<open>reserve\<close> is a program counter with one step per section. The locale
    \<open>change_log\<close> states what the store relies on of its ledger.
  \<^item> \<open>Idempotency_Log\<close>: the file log keeps \<open>change_log\<close> on a disk whose every call may fail (\<open>file_log\<close>).
  \<^item> \<open>Idempotency_State\<close>, \<open>Idempotency_Sync\<close>, \<open>Idempotency_Invariant\<close>, \<open>Idempotency_Run\<close>: the store through its keys, the
    store against what its ledger holds, the invariant kept by every operation, and the relation \<open>idem_step\<close>
    of a program that opens the store, calls it from many tasks, and stops at any point; the locale
    \<open>durable_store\<close> extends \<open>change_log\<close> and is interpreted on the store over its file (\<open>file_store\<close>).
  \<^item> \<open>Idempotency_Properties\<close>: what holds in every such run, with a concrete run.
  \<^item> \<open>Directory\<close>: names, files with their kind, links and modification time, and the calls on them, each of which
    may fail; a finer model than \<open>Disk\<close> for the code that checks links and replaces files under a name.
  \<^item> \<open>Durable_File\<close>: \<open>durable-file/src/lib.rs\<close>: the bounded buffer, the checks on handles, \<open>replace_exclusive\<close>.
  \<^item> \<open>Command_Journal\<close>: \<open>JsonlJournal\<close> of \<open>workflow-journal/src/lib.rs\<close>: \<open>command_open_bounded\<close> (with \<open>open_writer\<close> as
    \<open>command_open_writer\<close>: archiving irregular entries, \<open>open_indexed\<close>, \<open>finish_writer\<close> with the loop over the archives),
    \<open>refresh\<close>, \<open>command_append\<close>, \<open>command_history\<close>, \<open>command_inspect\<close>. The lock of the writer makes the operations
    sequential, so each is one function on the journal and the directory.
  \<^item> \<open>Command_Durability\<close>, \<open>Command_Archives\<close>: what a scan finds in a file of records, and what the operations do to a
    directory when calls fail: \<open>evolves\<close> says which names move and which bytes are added.
  \<^item> \<open>Command_Run\<close>: the invariant \<open>journal_ok\<close> between a journal and its directory, its preservation by every operation,
    and the runs \<open>command_step\<close> of a program that opens, appends, reads and stops at any point.
  \<^item> \<open>Command_Progress\<close>, \<open>Command_Properties\<close>: operations on a disk whose calls succeed, and what holds in every run.

  \<^bold>\<open>What the theorems show.\<close> Of the idempotency store: a request granted once is never granted again, across
  crashes and restarts, while its effect may have happened; an acknowledged outcome is replayed; what is
  replayed was finished; whoever waits is woken; a key whose fate is unknown stays unresolved. Of the
  journal: an acknowledged append survives a crash, a torn tail loses nothing acknowledged, an interrupted
  job is never run again by itself, damage is archived and puts every job up for reconciliation. Of the
  scheduler: the invariant of every interleaving, the refinement, the bound on handler starts, the effect of
  every call on every branch. Of authority: exactly the unrevoked, unexpired tokens authenticate, and an
  operation is authorised exactly with its capabilities. Of the command journal: an acknowledged record is in every
  later history of its command or the history is marked incomplete, an archived id is never acknowledged again, no byte is
  lost, no failure blocks later appends, and records read back exactly. Of the scanner, the queue, the session registry,
  the replacement of files and the canonical form: their functional specifications.

  \<^bold>\<open>Parameters.\<close> \<open>serde_json\<close> encoders and decoders of records are the fields of a codec record; a theorem that
  depends on them assumes that what is encoded is decoded again (\<open>faithful\<close>, \<open>faithful_codec\<close>, \<open>faithful_commands\<close>), and its witness
  gives a codec. SHA-256, base64, random bytes, UUIDs and the clock are arguments. Outcomes of commands are a
  type with the operations the store uses. The UUIDs in archive names are a function whose values are distinct and lead
  to no file (\<open>fresh_names\<close>); files stay below the largest offset (\<open>fits_files\<close>).

  \<^bold>\<open>Bounds and fuel.\<close> The only fuel is that of \<open>evict_global\<close>, which gets the number of entries: each iteration
  removes one, and \<open>idem_make_room_exits\<close> shows that the loop ends by its own condition. Sizes and counters are
  natural numbers where the code saturates (written out) or could not overflow in memory; sequences are
  64-bit words and their overflow is a branch.

  \<^bold>\<open>Not modelled.\<close> The artifact, checkpoint and context stores, and the
  crates that talk to browsers, sockets, terminals and other processes (gateways, worker pool, page
  runtime, companions, command line); their behaviour is that of the outside world or of third-party
  protocol crates. Log output, metrics and error texts that no caller inspects are left out of the modelled
  operations. Durations of waits are not measured: a timer may fire at any step.
\<close>

end
